(* ===== verification/Net_Addr.thy ===== *)
theory Net_Addr
  imports Prelude "HOL-Library.Monad_Syntax"
begin

text \<open>
  The parts of Rust's \<open>std::net\<close> the network components call: the address types, the
  classification predicates (\<open>is_loopback\<close>, \<open>is_private\<close>, \<dots>), the text parser behind
  \<open>str::parse::<IpAddr>()\<close> and the \<open>Display\<close> output. The lemmas are the facts the egress
  components rest on: what the printed form may contain, and that printing an IPv4 address
  and parsing it back is the identity.
\<close>

section \<open>Addresses\<close>

datatype ipv4 = Ipv4 u8 u8 u8 u8

datatype ipv6 = Ipv6 u16 u16 u16 u16 u16 u16 u16 u16

datatype ip_addr = V4 ipv4 | V6 ipv6

fun octets4 :: "ipv4 \<Rightarrow> bytes" where
  "octets4 (Ipv4 a b c d) = [a, b, c, d]"

fun segments :: "ipv6 \<Rightarrow> u16 list" where
  "segments (Ipv6 a b c d e f g h) = [a, b, c, d, e, f, g, h]"

definition octets6 :: "ipv6 \<Rightarrow> bytes" where
  "octets6 a = concat (map to_be16 (segments a))"

lemma length_octets4 [simp]: "length (octets4 a) = 4"
  by (cases a) simp

lemma length_octets6 [simp]: "length (octets6 a) = 16"
  by (cases a) (simp add: octets6_def)

section \<open>Classification\<close>

fun is_loopback4 :: "ipv4 \<Rightarrow> bool" where
  "is_loopback4 (Ipv4 a b c d) \<longleftrightarrow> a = 127"

fun is_link_local4 :: "ipv4 \<Rightarrow> bool" where
  "is_link_local4 (Ipv4 a b c d) \<longleftrightarrow> a = 169 \<and> b = 254"

definition is_broadcast4 :: "ipv4 \<Rightarrow> bool" where
  "is_broadcast4 x \<longleftrightarrow> x = Ipv4 255 255 255 255"

fun is_multicast4 :: "ipv4 \<Rightarrow> bool" where
  "is_multicast4 (Ipv4 a b c d) \<longleftrightarrow> 224 \<le> a \<and> a \<le> 239"

definition is_unspecified4 :: "ipv4 \<Rightarrow> bool" where
  "is_unspecified4 x \<longleftrightarrow> x = Ipv4 0 0 0 0"

fun is_documentation4 :: "ipv4 \<Rightarrow> bool" where
  "is_documentation4 (Ipv4 a b c d) \<longleftrightarrow>
     (a = 192 \<and> b = 0 \<and> c = 2) \<or> (a = 198 \<and> b = 51 \<and> c = 100) \<or> (a = 203 \<and> b = 0 \<and> c = 113)"

fun is_private4 :: "ipv4 \<Rightarrow> bool" where
  "is_private4 (Ipv4 a b c d) \<longleftrightarrow>
     a = 10 \<or> (a = 172 \<and> 16 \<le> b \<and> b \<le> 31) \<or> (a = 192 \<and> b = 168)"

definition is_loopback6 :: "ipv6 \<Rightarrow> bool" where
  "is_loopback6 x \<longleftrightarrow> x = Ipv6 0 0 0 0 0 0 0 1"

definition is_unspecified6 :: "ipv6 \<Rightarrow> bool" where
  "is_unspecified6 x \<longleftrightarrow> x = Ipv6 0 0 0 0 0 0 0 0"

fun segment0 :: "ipv6 \<Rightarrow> u16" where
  "segment0 (Ipv6 a b c d e f g h) = a"

definition is_multicast6 :: "ipv6 \<Rightarrow> bool" where
  "is_multicast6 x \<longleftrightarrow> and (segment0 x) 0xff00 = 0xff00"

fun hi_byte :: "u16 \<Rightarrow> u8" where
  "hi_byte w = word_of_nat (unat w div 256)"

fun lo_byte :: "u16 \<Rightarrow> u8" where
  "lo_byte w = word_of_nat (unat w mod 256)"

fun to_ipv4_mapped :: "ipv6 \<Rightarrow> ipv4 option" where
  "to_ipv4_mapped (Ipv6 a b c d e f g h) =
     (if a = 0 \<and> b = 0 \<and> c = 0 \<and> d = 0 \<and> e = 0 \<and> f = 0xffff
      then Some (Ipv4 (hi_byte g) (lo_byte g) (hi_byte h) (lo_byte h)) else None)"

fun is_loopback :: "ip_addr \<Rightarrow> bool" where
  "is_loopback (V4 x) = is_loopback4 x"
| "is_loopback (V6 x) = is_loopback6 x"

fun is_ipv4 :: "ip_addr \<Rightarrow> bool" where
  "is_ipv4 (V4 x) = True"
| "is_ipv4 (V6 x) = False"

text \<open>The v6 spelling of a v4 address (\<open>Ipv4Addr::to_ipv6_mapped\<close>).\<close>

fun to_ipv6_mapped :: "ipv4 \<Rightarrow> ipv6" where
  "to_ipv6_mapped (Ipv4 a b c d) = Ipv6 0 0 0 0 0 0xffff (from_be16 a b) (from_be16 c d)"

lemma hi_lo_from_be16 [simp]:
  "hi_byte (from_be16 a b) = a" "lo_byte (from_be16 a b) = b"
  by (simp_all add: unat_from_be16)

declare hi_byte.simps [simp del] lo_byte.simps [simp del]

lemma mapped_round_trip [simp]: "to_ipv4_mapped (to_ipv6_mapped x) = Some x"
  by (cases x) simp

section \<open>Display\<close>

definition show_ipv4 :: "ipv4 \<Rightarrow> string" where
  "show_ipv4 x = join_with ''.'' (map (\<lambda>b. show_nat (unat b)) (octets4 x))"

definition hex_digit :: "nat \<Rightarrow> char" where
  "hex_digit d = (if d < 10 then char_of (48 + d) else char_of (87 + d))"

fun show_hex :: "nat \<Rightarrow> string" where
  "show_hex n = (if n < 16 then [hex_digit n] else show_hex (n div 16) @ [hex_digit (n mod 16)])"

declare show_hex.simps [simp del]

text \<open>
  \<open>Ipv6Addr\<close>'s \<open>Display\<close>: the first longest run of zero segments, when longer than one, is
  written \<open>::\<close>. \<open>zero_span\<close> is the scan that finds it (position, current run, best run).
\<close>

fun zero_span :: "nat \<Rightarrow> nat \<times> nat \<Rightarrow> nat \<times> nat \<Rightarrow> u16 list \<Rightarrow> nat \<times> nat" where
  "zero_span i cur best [] = best"
| "zero_span i (cs, cl) (bs, bl) (w # ws) =
     (if w = 0 then
        (let cs' = (if cl = 0 then i else cs); cl' = Suc cl in
         zero_span (Suc i) (cs', cl') (if bl < cl' then (cs', cl') else (bs, bl)) ws)
      else zero_span (Suc i) (0, 0) (bs, bl) ws)"

definition show_segments :: "u16 list \<Rightarrow> string" where
  "show_segments ws = join_with '':'' (map (\<lambda>w. show_hex (unat w)) ws)"

definition show_ipv6 :: "ipv6 \<Rightarrow> string" where
  "show_ipv6 x =
     (case to_ipv4_mapped x of
        Some v4 \<Rightarrow> ''::ffff:'' @ show_ipv4 v4
      | None \<Rightarrow>
         (let (start, n) = zero_span 0 (0, 0) (0, 0) (segments x) in
          if 1 < n then show_segments (take start (segments x)) @ ''::'' @
                        show_segments (drop (start + n) (segments x))
          else show_segments (segments x)))"

fun show_ip :: "ip_addr \<Rightarrow> string" where
  "show_ip (V4 x) = show_ipv4 x"
| "show_ip (V6 x) = show_ipv6 x"

text \<open>What a printed address may contain: hexadecimal digits, dots and colons.\<close>

definition addr_char :: "char \<Rightarrow> bool" where
  "addr_char c \<longleftrightarrow>
     is_ascii_digit c \<or> (97 \<le> code c \<and> code c \<le> 102) \<or> c = CHR ''.'' \<or> c = CHR '':''"

lemma addr_char_literals [simp]: "addr_char CHR ''.''" "addr_char CHR '':''" "addr_char CHR ''f''"
  by (simp_all add: addr_char_def code_def)

lemma list_all_join_with:
  "list_all P sep \<Longrightarrow> list_all (list_all P) ps \<Longrightarrow> list_all P (join_with sep ps)"
  by (induction sep ps rule: join_with.induct) auto

lemma show_nat_addr_chars: "list_all addr_char (show_nat n)"
  using show_nat_digits [of n] by (auto simp: list_all_iff addr_char_def)

lemma hex_digit_addr_char: "d < 16 \<Longrightarrow> addr_char (hex_digit d)"
  by (auto simp: hex_digit_def addr_char_def is_ascii_digit_def)

lemma show_hex_addr_chars: "list_all addr_char (show_hex n)"
proof (induction n rule: show_hex.induct)
  case (1 n)
  then show ?case
    by (cases "n < 16") (simp_all add: show_hex.simps [of n] hex_digit_addr_char)
qed

lemma show_ipv4_addr_chars: "list_all addr_char (show_ipv4 x)"
  unfolding show_ipv4_def
  by (rule list_all_join_with) (auto simp: list_all_iff show_nat_addr_chars [unfolded list_all_iff])

lemma show_segments_addr_chars: "list_all addr_char (show_segments ws)"
  unfolding show_segments_def
  by (rule list_all_join_with) (auto simp: list_all_iff show_hex_addr_chars [unfolded list_all_iff])

lemma show_ip_addr_chars: "list_all addr_char (show_ip a)"
  by (cases a)
     (auto simp: show_ipv6_def show_ipv4_addr_chars show_segments_addr_chars
           split: option.splits prod.splits)

section \<open>Parsing\<close>

text \<open>
  The recursive-descent parser of \<open>core::net::parser\<close>. A reader takes the remaining text
  and returns a value with the rest, or \<^const>\<open>None\<close> with nothing consumed.
\<close>

definition read_given :: "char \<Rightarrow> string \<Rightarrow> string option" where
  "read_given d s = (case s of c # r \<Rightarrow> if c = d then Some r else None | [] \<Rightarrow> None)"

definition read_octet :: "string \<Rightarrow> (u8 \<times> string) option" where
  "read_octet s =
     (let ds = takeWhile is_ascii_digit s; n = digits_val ds in
      if ds = [] \<or> 3 < length ds \<or> (1 < length ds \<and> hd ds = CHR ''0'') \<or> 255 < n then None
      else Some (word_of_nat n, drop (length ds) s))"

definition read_ipv4 :: "string \<Rightarrow> (ipv4 \<times> string) option" where
  "read_ipv4 s = do {
     (a, s) \<leftarrow> read_octet s; s \<leftarrow> read_given CHR ''.'' s;
     (b, s) \<leftarrow> read_octet s; s \<leftarrow> read_given CHR ''.'' s;
     (c, s) \<leftarrow> read_octet s; s \<leftarrow> read_given CHR ''.'' s;
     (d, s) \<leftarrow> read_octet s;
     Some (Ipv4 a b c d, s)
   }"

definition hex_val :: "char \<Rightarrow> nat option" where
  "hex_val c =
     (if is_ascii_digit c then Some (code c - 48)
      else if 97 \<le> code c \<and> code c \<le> 102 then Some (code c - 87)
      else if 65 \<le> code c \<and> code c \<le> 70 then Some (code c - 55)
      else None)"

definition read_hex4 :: "string \<Rightarrow> (u16 \<times> string) option" where
  "read_hex4 s =
     (let ds = takeWhile (\<lambda>c. hex_val c \<noteq> None) s;
          n = foldl (\<lambda>a c. 16 * a + the (hex_val c)) 0 ds in
      if ds = [] \<or> 4 < length ds then None
      else Some (word_of_nat n, drop (length ds) s))"

definition read_sep :: "nat \<Rightarrow> string \<Rightarrow> string option" where
  "read_sep i s = (if 0 < i then read_given CHR '':'' s else Some s)"

fun read_groups :: "nat \<Rightarrow> nat \<Rightarrow> u16 list \<Rightarrow> string \<Rightarrow> u16 list \<times> bool \<times> string" where
  "read_groups i 0 acc s = (acc, False, s)"
| "read_groups i (Suc n) acc s =
     (case (if 0 < n then read_sep i s \<bind> read_ipv4 else None) of
        Some (Ipv4 a b c d, r) \<Rightarrow> (acc @ [from_be16 a b, from_be16 c d], True, r)
      | None \<Rightarrow>
         (case read_sep i s \<bind> read_hex4 of
            Some (g, r) \<Rightarrow> read_groups (Suc i) n (acc @ [g]) r
          | None \<Rightarrow> (acc, False, s)))"

definition ipv6_of_groups :: "u16 list \<Rightarrow> ipv6" where
  "ipv6_of_groups ws =
     Ipv6 (ws ! 0) (ws ! 1) (ws ! 2) (ws ! 3) (ws ! 4) (ws ! 5) (ws ! 6) (ws ! 7)"

definition read_ipv6 :: "string \<Rightarrow> (ipv6 \<times> string) option" where
  "read_ipv6 s =
     (let (head, v4, r) = read_groups 0 8 [] s in
      if length head = 8 then Some (ipv6_of_groups head, r)
      else if v4 then None
      else do {
        r \<leftarrow> read_given CHR '':'' r;
        r \<leftarrow> read_given CHR '':'' r;
        let (tail, _, r) = read_groups 0 (8 - (length head + 1)) [] r in
        Some (ipv6_of_groups (head @ replicate (8 - length head - length tail) 0 @ tail), r)
      })"

definition parse_ip :: "string \<Rightarrow> ip_addr option" where
  "parse_ip s =
     (case (case read_ipv4 s of
              Some (a, r) \<Rightarrow> Some (V4 a, r)
            | None \<Rightarrow> map_option (\<lambda>(a, r). (V6 a, r)) (read_ipv6 s)) of
        Some (a, []) \<Rightarrow> Some a
      | _ \<Rightarrow> None)"

text \<open>Printing an IPv4 address and parsing the text back gives the address.\<close>

lemma show_nat_u8_cases:
  assumes "n < 256"
  obtains (one) "n < 10" "show_nat n = [digit_char n]"
  | (two) "10 \<le> n" "n < 100" "show_nat n = [digit_char (n div 10), digit_char (n mod 10)]"
  | (three) "100 \<le> n" "show_nat n =
      [digit_char (n div 100), digit_char (n div 10 mod 10), digit_char (n mod 10)]"
proof -
  consider "n < 10" | "10 \<le> n \<and> n < 100" | "100 \<le> n" by linarith
  then show thesis
  proof cases
    case 1
    then show thesis using one by (simp add: show_nat.simps [of n])
  next
    case 2
    then have "show_nat (n div 10) = [digit_char (n div 10)]"
      by (simp add: show_nat.simps [of "n div 10"] less_mult_imp_div_less)
    with 2 show thesis using two by (simp add: show_nat.simps [of n])
  next
    case 3
    with assms have lt: "\<not> n div 10 < 10" "n div 10 div 10 < 10"
      by (simp_all add: less_mult_imp_div_less)
    have "n div 10 div 10 = n div 100" by (simp add: div_mult2_eq [symmetric])
    with lt have "show_nat (n div 10) = [digit_char (n div 100), digit_char (n div 10 mod 10)]"
      by (simp add: show_nat.simps [of "n div 10"] show_nat.simps [of "n div 100"])
    with 3 show thesis using three by (simp add: show_nat.simps [of n])
  qed
qed

lemma digit_char_zero_iff: "d < 10 \<Longrightarrow> digit_char d = CHR ''0'' \<longleftrightarrow> d = 0"
  by (auto simp: code_inj [symmetric]) (simp_all add: code_def)

lemma show_nat_u8_shape:
  assumes "n < 256"
  shows "length (show_nat n) \<le> 3" "1 < length (show_nat n) \<Longrightarrow> hd (show_nat n) \<noteq> CHR ''0''"
proof -
  from assms have "n div 100 < 10" by (simp add: less_mult_imp_div_less)
  with assms show "length (show_nat n) \<le> 3"
    and "1 < length (show_nat n) \<Longrightarrow> hd (show_nat n) \<noteq> CHR ''0''"
    by (cases n rule: show_nat_u8_cases;
        simp add: digit_char_zero_iff less_mult_imp_div_less div_eq_0_iff)+
qed

lemma read_octet_show:
  assumes "r = [] \<or> \<not> is_ascii_digit (hd r)"
  shows "read_octet (show_nat (unat b) @ r) = Some (b, r)"
proof -
  let ?s = "show_nat (unat b)"
  have digits: "\<forall>c \<in> set ?s. is_ascii_digit c"
    using show_nat_digits [of "unat b"] by (simp add: list_all_iff)
  have "takeWhile is_ascii_digit (?s @ r) = ?s @ takeWhile is_ascii_digit r"
    using digits by (simp add: takeWhile_append2)
  moreover have "takeWhile is_ascii_digit r = []"
    using assms by (cases r) auto
  ultimately have tw: "takeWhile is_ascii_digit (?s @ r) = ?s" by simp
  have "unat b \<le> 255" using unat_u8_less [of b] by linarith
  moreover have "word_of_nat (unat b) = b" by simp
  ultimately show ?thesis
    using show_nat_u8_shape [of "unat b"] by (auto simp: read_octet_def tw Let_def)
qed

lemma dot_not_digit [simp]: "\<not> is_ascii_digit CHR ''.''"
  by (simp add: is_ascii_digit_def code_def)

lemma read_ipv4_show: "read_ipv4 (show_ipv4 x) = Some (x, [])"
  by (cases x) (simp add: read_ipv4_def show_ipv4_def read_octet_show read_given_def
      read_octet_show [where r = "[]", simplified])

theorem parse_show_ipv4: "parse_ip (show_ip (V4 x)) = Some (V4 x)"
  by (simp add: parse_ip_def read_ipv4_show)

end
