(* ===== verification/Egress.thy ===== *)
theory Egress
  imports Net_Addr
begin

text \<open>
  The decision layer of filtered egress (\<open>crates/core/src/net/egress.rs\<close>): printable host
  names, CIDR matching, allowlist rules, the default-deny decision, and the floor of
  addresses the broker never dials. The theorems give each routine a reference reading:
  normalisation accepts exactly the well-formed names and is idempotent, a \<open>SafeName\<close> never
  carries guest bytes, CIDR matching is equality of the leading bits, a wildcard stands for
  exactly one label, the decision is a search for a matching rule, and the floor is a table
  of prefixes.
\<close>

section \<open>Errors and host names\<close>

datatype egress_error =
    EmptyPattern
  | TooLong nat
  | BadLabel
  | BadCharacter
  | BadWildcard
  | BadCidr string
  | BadPrefix nat

definition MAX_NAME_LEN :: nat where "MAX_NAME_LEN = 253"
definition MAX_LABEL_LEN :: nat where "MAX_LABEL_LEN = 63"

definition host_byte :: "char \<Rightarrow> bool" where
  "host_byte c \<longleftrightarrow> is_ascii_alphanumeric c \<or> c = CHR ''-'' \<or> c = CHR ''_''"

definition check_label :: "string \<Rightarrow> egress_error + unit" where
  "check_label label =
     (if label = [] \<or> MAX_LABEL_LEN < length label then Inl BadLabel
      else if starts_with ''-'' label \<or> ends_with ''-'' label then Inl BadLabel
      else if \<not> list_all host_byte label then Inl BadCharacter
      else Inr ())"

fun check_labels :: "string list \<Rightarrow> egress_error + unit" where
  "check_labels [] = Inr ()"
| "check_labels (l # ls) = try_bind (check_label l) (\<lambda>_. check_labels ls)"

definition normalize_name :: "string \<Rightarrow> egress_error + string" where
  "normalize_name raw =
     (if raw = [] then Inl EmptyPattern
      else let trimmed = (case strip_suffix ''.'' raw of Some t \<Rightarrow> t | None \<Rightarrow> raw) in
        if trimmed = [] then Inl EmptyPattern
        else if MAX_NAME_LEN < length trimmed then Inl (TooLong (length trimmed))
        else try_bind (check_labels (split_on CHR ''.'' trimmed))
               (\<lambda>_. Inr (to_ascii_lowercase trimmed)))"

section \<open>SafeName\<close>

datatype safe_name = SafeName (as_str: string)

definition safe_name_parse :: "string \<Rightarrow> egress_error + safe_name" where
  "safe_name_parse raw = try_bind (normalize_name raw) (\<lambda>n. Inr (SafeName n))"

definition invalid_placeholder :: "nat \<Rightarrow> string" where
  "invalid_placeholder n = ''<invalid:'' @ show_nat n @ ''>''"

definition sanitized :: "string \<Rightarrow> safe_name" where
  "sanitized raw =
     (case normalize_name raw of
        Inr name \<Rightarrow> SafeName name
      | Inl _ \<Rightarrow> SafeName (invalid_placeholder (length raw)))"

definition sanitized_bytes :: "bytes \<Rightarrow> safe_name" where
  "sanitized_bytes raw =
     (case from_utf8 raw of
        Some s \<Rightarrow> sanitized s
      | None \<Rightarrow> SafeName (invalid_placeholder (length raw)))"

definition from_addr :: "ip_addr \<Rightarrow> safe_name" where
  "from_addr ip = SafeName (show_ip ip)"

definition is_valid :: "safe_name \<Rightarrow> bool" where
  "is_valid n \<longleftrightarrow> \<not> starts_with ''<invalid:'' (as_str n)"

section \<open>CIDR prefixes\<close>

record cidr =
  base :: ip_addr
  prefix :: nat

definition cidr_parse :: "string \<Rightarrow> egress_error + cidr" where
  "cidr_parse raw =
     (let (addr_part, prefix_part) =
        (case split_once CHR ''/'' raw of Some (a, p) \<Rightarrow> (a, Some p) | None \<Rightarrow> (raw, None))
      in try_bind (ok_or (BadCidr raw) (parse_ip addr_part)) (\<lambda>b.
         let width = (if is_ipv4 b then 32 else 128) in
         try_bind (case prefix_part of
                     Some p \<Rightarrow> ok_or (BadCidr raw) (parse_uint (2 ^ 32 - 1) p)
                   | None \<Rightarrow> Inr width) (\<lambda>n.
         if width < n then Inl (BadPrefix n) else Inr \<lparr>base = b, prefix = n\<rparr>)))"

text \<open>\<open>slice::get(..n)\<close> and \<open>slice::get(i)\<close>: \<^const>\<open>None\<close> out of range.\<close>

definition get_upto :: "nat \<Rightarrow> 'a list \<Rightarrow> 'a list option" where
  "get_upto n xs = (if n \<le> length xs then Some (take n xs) else None)"

definition get_at :: "nat \<Rightarrow> 'a list \<Rightarrow> 'a option" where
  "get_at i xs = (if i < length xs then Some (xs ! i) else None)"

definition prefix_eq :: "bytes \<Rightarrow> bytes \<Rightarrow> nat \<Rightarrow> bool" where
  "prefix_eq a b p =
     (let full = p div 8; rem = p mod 8 in
      if get_upto full a \<noteq> get_upto full b then False
      else if rem = 0 then True
      else let mask = push_bit (8 - rem) (0xff :: u8) in
        (case (get_at full a, get_at full b) of
           (Some x, Some y) \<Rightarrow> and x mask = and y mask
         | _ \<Rightarrow> False))"

fun cidr_contains :: "cidr \<Rightarrow> ip_addr \<Rightarrow> bool" where
  "cidr_contains c ip =
     (case (base c, ip) of
        (V4 b, V4 x) \<Rightarrow> prefix_eq (octets4 b) (octets4 x) (prefix c)
      | (V6 b, V6 x) \<Rightarrow> prefix_eq (octets6 b) (octets6 x) (prefix c)
      | _ \<Rightarrow> False)"

definition show_cidr :: "cidr \<Rightarrow> string" where
  "show_cidr c = show_ip (base c) @ ''/'' @ show_nat (prefix c)"

section \<open>Rules, targets and the decision\<close>

datatype host_rule = Exact string | Wildcard string | CidrRule cidr

definition parse_host :: "string \<Rightarrow> egress_error + host_rule" where
  "parse_host raw =
     (if raw = [] then Inl EmptyPattern
      else if raw = ''*'' \<or> raw = ''*.'' then Inl BadWildcard
      else (case strip_prefix ''*.'' raw of
          Some suffix \<Rightarrow>
            if CHR ''*'' \<in> set suffix then Inl BadWildcard
            else try_bind (normalize_name suffix) (\<lambda>n. Inr (Wildcard n))
        | None \<Rightarrow>
            if CHR ''*'' \<in> set raw then Inl BadWildcard
            else try_bind (normalize_name raw) (\<lambda>n. Inr (Exact n))))"

definition parse_cidr :: "string \<Rightarrow> egress_error + host_rule" where
  "parse_cidr raw = try_bind (cidr_parse raw) (\<lambda>c. Inr (CidrRule c))"

fun rule_display :: "host_rule \<Rightarrow> string" where
  "rule_display (Exact n) = n"
| "rule_display (Wildcard s) = ''*.'' @ s"
| "rule_display (CidrRule c) = show_cidr c"

datatype target = TName safe_name u16 | TAddr ip_addr u16

fun target_port :: "target \<Rightarrow> u16" where
  "target_port (TName _ p) = p"
| "target_port (TAddr _ p) = p"

fun safe_host :: "target \<Rightarrow> safe_name" where
  "safe_host (TName n _) = n"
| "safe_host (TAddr ip _) = from_addr ip"

fun display_host :: "target \<Rightarrow> string" where
  "display_host (TName n _) = as_str n"
| "display_host (TAddr ip _) = show_ip ip"

datatype deny_reason =
    EmptyAllowlist
  | LiteralAddress
  | NotAllowed
  | MalformedName
  | PinnedCredentialHost
  | CredentialRefused
  | NonPublicAddress

text \<open>The quote, the apostrophe and the em dash (its UTF-8 bytes), which literals cannot hold.\<close>

definition quote_char :: string where "quote_char = [char_of (34 :: nat)]"
definition apostrophe :: string where "apostrophe = [char_of (39 :: nat)]"
definition em_dash :: string where "em_dash = map char_of [226, 128, 148 :: nat]"
definition back_tick :: string where "back_tick = [char_of (96 :: nat)]"

fun deny_explain :: "deny_reason \<Rightarrow> string" where
  "deny_explain EmptyAllowlist = ''the allowlist is empty; this run permits no egress''"
| "deny_explain LiteralAddress =
     ''the destination is a literal address and no --allow-cidr rule covers it''"
| "deny_explain NotAllowed =
     ''the destination is not on this run'' @ apostrophe @ ''s allowlist''"
| "deny_explain MalformedName = ''the requested host name is not a well-formed host name''"
| "deny_explain PinnedCredentialHost =
     ''this destination is the pinned host of a credential injected into this run. '' @
     ''A credential is spent through the endpoint at $ISOPOD_CREDENTIAL_ENDPOINT '' @
     ''(GET $ISOPOD_CREDENTIAL_ENDPOINT/<alias>/<path>), which attaches the token '' @
     ''host-side; connecting to the host directly is refused so that the token can '' @
     ''never be sent by anything but the broker''"
| "deny_explain CredentialRefused =
     ''the credential endpoint refused this request; the event'' @ apostrophe @ ''s '' @
     quote_char @ ''note'' @ quote_char @ '' says which check failed''"
| "deny_explain NonPublicAddress =
     ''the destination resolved to a loopback, link-local or private address, '' @
     ''which the broker will not dial from the host. Allowing one would give '' @
     ''the sandbox reach the packet filter denies it '' @ em_dash @ '' the host'' @ apostrophe @
     ''s own services, its LAN, the cloud metadata endpoint, or another run'' @ apostrophe @
     ''s broker. Re-provision with '' @ back_tick @ ''sudo isopod setup --allow-lan-egress'' @
     back_tick @ '' to permit private ranges; loopback, link-local and isopod'' @ apostrophe @
     ''s own slot addresses are never dialled''"

datatype decision = Allow | Deny deny_reason

definition is_allowed :: "decision \<Rightarrow> bool" where
  "is_allowed d \<longleftrightarrow> d = Allow"

definition matches_wildcard :: "string \<Rightarrow> string \<Rightarrow> bool" where
  "matches_wildcard host suffix =
     (case strip_suffix suffix host of
        None \<Rightarrow> False
      | Some head \<Rightarrow>
         (case strip_suffix ''.'' head of
            None \<Rightarrow> False
          | Some label \<Rightarrow> label \<noteq> [] \<and> CHR ''.'' \<notin> set label))"

fun name_rule_hit :: "string \<Rightarrow> host_rule \<Rightarrow> bool" where
  "name_rule_hit host (Exact want) = (host = want)"
| "name_rule_hit host (Wildcard suffix) = matches_wildcard host suffix"
| "name_rule_hit host (CidrRule _) = False"

fun decide_name :: "host_rule list \<Rightarrow> string \<Rightarrow> decision" where
  "decide_name [] host = Deny NotAllowed"
| "decide_name (r # rs) host = (if name_rule_hit host r then Allow else decide_name rs host)"

fun decide_addr :: "host_rule list \<Rightarrow> ip_addr \<Rightarrow> decision" where
  "decide_addr [] ip = Deny LiteralAddress"
| "decide_addr (r # rs) ip =
     (case r of
        CidrRule c \<Rightarrow> if cidr_contains c ip then Allow else decide_addr rs ip
      | _ \<Rightarrow> decide_addr rs ip)"

definition decide :: "host_rule list \<Rightarrow> target \<Rightarrow> decision" where
  "decide rules t =
     (if rules = [] then Deny EmptyAllowlist
      else (case t of
          TName name _ \<Rightarrow>
            if \<not> is_valid name then Deny MalformedName else decide_name rules (as_str name)
        | TAddr ip _ \<Rightarrow> decide_addr rules ip))"

section \<open>The dial floor\<close>

definition is_dialable4 :: "ipv4 \<Rightarrow> bool \<Rightarrow> bool" where
  "is_dialable4 v4 allow_private =
     (case v4 of Ipv4 a b c d \<Rightarrow>
        if a = 10 \<and> b = 107 then False
        else if is_loopback4 v4 \<or> is_link_local4 v4 \<or> is_broadcast4 v4 \<or> is_multicast4 v4
              \<or> is_unspecified4 v4 \<or> is_documentation4 v4 then False
        else let cgnat = (a = 100 \<and> 64 \<le> b \<and> b < 128) in
          if is_private4 v4 \<or> cgnat then allow_private else True)"

fun is_dialable :: "ip_addr \<Rightarrow> bool \<Rightarrow> bool" where
  "is_dialable (V4 v4) allow_private = is_dialable4 v4 allow_private"
| "is_dialable (V6 v6) allow_private =
     (if is_loopback6 v6 \<or> is_multicast6 v6 \<or> is_unspecified6 v6 then False
      else let seg = segment0 v6 in
        if and seg 0xffc0 = 0xfe80 \<or> and seg 0xffc0 = 0xfec0 then False
        else if and seg 0xfe00 = 0xfc00 then allow_private
        else (case to_ipv4_mapped v6 of
            Some mapped \<Rightarrow> is_dialable4 mapped allow_private
          | None \<Rightarrow> True))"


section \<open>Host names: what normalisation accepts\<close>

text \<open>The reference reading of a normalised host name.\<close>

definition lower_host_byte :: "char \<Rightarrow> bool" where
  "lower_host_byte c \<longleftrightarrow> is_ascii_digit c \<or> is_ascii_lower c \<or> c = CHR ''-'' \<or> c = CHR ''_''"

definition wf_label :: "string \<Rightarrow> bool" where
  "wf_label l \<longleftrightarrow> l \<noteq> [] \<and> length l \<le> 63 \<and> hd l \<noteq> CHR ''-'' \<and> last l \<noteq> CHR ''-'' \<and>
     list_all lower_host_byte l"

definition wf_host :: "string \<Rightarrow> bool" where
  "wf_host n \<longleftrightarrow> length n \<le> 253 \<and> list_all wf_label (split_on CHR ''.'' n)"

lemma starts_with_singleton: "starts_with [c] s \<longleftrightarrow> s \<noteq> [] \<and> hd s = c"
  by (cases s) (auto simp: text_simps)

lemma ends_with_singleton: "ends_with [c] s \<longleftrightarrow> s \<noteq> [] \<and> last s = c"
  by (cases s rule: rev_cases) (auto simp: text_simps)

lemma dot_facts [simp]:
  "\<not> is_ascii_upper CHR ''.''" "\<not> is_ascii_lower CHR ''.''" "\<not> is_ascii_digit CHR ''-''"
  "\<not> is_ascii_upper CHR ''-''" "\<not> is_ascii_lower CHR ''-''"
  "\<not> is_ascii_upper CHR ''_''" "\<not> is_ascii_lower CHR ''_''"
  by (simp_all add: ascii_class_defs code_def)

lemma lower_eq_dot [simp]: "ascii_lower_char c = CHR ''.'' \<longleftrightarrow> c = CHR ''.''"
  by (rule ascii_lower_eq_iff) simp_all

lemma lower_eq_hyphen [simp]: "ascii_lower_char c = CHR ''-'' \<longleftrightarrow> c = CHR ''-''"
  by (rule ascii_lower_eq_iff) simp_all

lemma lower_eq_underscore [simp]: "ascii_lower_char c = CHR ''_'' \<longleftrightarrow> c = CHR ''_''"
  by (rule ascii_lower_eq_iff) simp_all

lemma host_byte_lower: "lower_host_byte (ascii_lower_char c) \<longleftrightarrow> host_byte c"
  by (auto simp: lower_host_byte_def host_byte_def ascii_class_defs code_ascii_lower)

lemma lower_host_byte_host_byte: "lower_host_byte c \<Longrightarrow> host_byte c"
  by (auto simp: lower_host_byte_def host_byte_def is_ascii_alphanumeric_def)

lemma lower_host_byte_fixed: "lower_host_byte c \<Longrightarrow> ascii_lower_char c = c"
  by (auto simp: lower_host_byte_def ascii_lower_char_def ascii_class_defs code_def)

lemma lowercase_fixed: "list_all lower_host_byte l \<Longrightarrow> to_ascii_lowercase l = l"
  by (induction l) (simp_all add: to_ascii_lowercase_def lower_host_byte_fixed)

lemma list_all_lowercase:
  "list_all lower_host_byte (to_ascii_lowercase l) \<longleftrightarrow> list_all host_byte l"
  by (simp add: to_ascii_lowercase_def list_all_iff host_byte_lower)

lemma check_label_ok: "check_label l = Inr u \<longleftrightarrow> wf_label (to_ascii_lowercase l)"
proof (cases "l = []")
  case False
  then have "hd (to_ascii_lowercase l) = ascii_lower_char (hd l)"
    "last (to_ascii_lowercase l) = ascii_lower_char (last l)"
    by (simp_all add: to_ascii_lowercase_def hd_map last_map)
  with False show ?thesis
    by (auto simp: check_label_def wf_label_def starts_with_singleton ends_with_singleton
        MAX_LABEL_LEN_def list_all_lowercase) (simp_all add: to_ascii_lowercase_def)
qed (simp add: check_label_def wf_label_def to_ascii_lowercase_def)

lemma check_labels_ok:
  "check_labels ls = Inr u \<longleftrightarrow> list_all (\<lambda>l. wf_label (to_ascii_lowercase l)) ls"
  by (induction ls) (auto simp: result_iff check_label_ok)

lemma split_lowercase:
  "split_on CHR ''.'' (to_ascii_lowercase s) = map to_ascii_lowercase (split_on CHR ''.'' s)"
  by (simp add: to_ascii_lowercase_def split_on_map to_ascii_lowercase_def [abs_def])

text \<open>What the input is after one trailing dot is dropped.\<close>

definition trim_dot :: "string \<Rightarrow> string" where
  "trim_dot raw = (case strip_suffix ''.'' raw of Some t \<Rightarrow> t | None \<Rightarrow> raw)"

lemma wf_host_not_Nil: "wf_host n \<Longrightarrow> n \<noteq> []"
  by (auto simp: wf_host_def wf_label_def)

lemma normalize_name_ok_iff:
  "normalize_name raw = Inr n \<longleftrightarrow> n = to_ascii_lowercase (trim_dot raw) \<and> wf_host n"
proof -
  let ?t = "trim_dot raw"
  have eq: "normalize_name raw =
     (if raw = [] then Inl EmptyPattern
      else if ?t = [] then Inl EmptyPattern
      else if 253 < length ?t then Inl (TooLong (length ?t))
      else try_bind (check_labels (split_on CHR ''.'' ?t))
             (\<lambda>_. Inr (to_ascii_lowercase ?t)))"
    by (simp add: normalize_name_def trim_dot_def MAX_NAME_LEN_def Let_def)
  have wf: "wf_host (to_ascii_lowercase ?t) \<longleftrightarrow>
      length ?t \<le> 253 \<and> check_labels (split_on CHR ''.'' ?t) = Inr ()"
    by (simp add: wf_host_def split_lowercase check_labels_ok list_all_iff)
  have empty: "raw = [] \<Longrightarrow> ?t = []"
    by (simp add: trim_dot_def strip_suffix_def)
  have nil: "?t = [] \<Longrightarrow> \<not> wf_host (to_ascii_lowercase ?t)"
    by (simp add: to_ascii_lowercase_def wf_host_def wf_label_def)
  show ?thesis
  proof (cases "?t = []")
    case True
    with nil show ?thesis by (auto simp: eq)
  next
    case False
    with empty have "raw \<noteq> []" by auto
    with False wf show ?thesis by (auto simp: eq result_iff)
  qed
qed

lemma split_on_snoc: "split_on d (s @ [d]) = split_on d s @ [[]]"
proof (induction s)
  case (Cons c s)
  then show ?case by (cases "split_on d s") auto
qed simp

lemma wf_host_no_trailing_dot: "wf_host n \<Longrightarrow> strip_suffix ''.'' n = None"
proof (rule ccontr)
  assume wf: "wf_host n" and "strip_suffix ''.'' n \<noteq> None"
  then obtain t where n: "n = t @ [CHR ''.'']" by (auto simp: text_simps)
  have "[] \<in> set (split_on CHR ''.'' n)" by (simp add: n split_on_snoc)
  with wf show False by (auto simp: wf_host_def list_all_iff wf_label_def)
qed

lemma wf_host_chars: "wf_host n \<Longrightarrow> c \<in> set n \<Longrightarrow> lower_host_byte c \<or> c = CHR ''.''"
  using split_on_set [of c n "CHR ''.''"]
  by (fastforce simp: wf_host_def wf_label_def list_all_iff)

lemma wf_host_lowercase: "wf_host n \<Longrightarrow> to_ascii_lowercase n = n"
proof -
  assume wf: "wf_host n"
  have "ascii_lower_char c = c" if "c \<in> set n" for c
    using wf_host_chars [OF wf that] lower_host_byte_fixed [of c] by auto
  then show ?thesis by (simp add: to_ascii_lowercase_def map_idI)
qed

text \<open>
  normalising a host name succeeds exactly on the names whose lower-cased form, less
  one trailing dot, is a well-formed host name (at most 253 bytes; labels of 1 to 63 bytes
  of letters, digits, hyphen and underscore, not anchored by a hyphen), and the result is
  that form; well-formed names are fixed points, so a second pass changes nothing.
\<close>
theorem normalize_name_spec:
  "(normalize_name raw = Inr n \<longleftrightarrow> n = to_ascii_lowercase (trim_dot raw) \<and> wf_host n)
   \<and> (normalize_name n = Inr n \<longleftrightarrow> wf_host n)"
proof
  show "normalize_name raw = Inr n \<longleftrightarrow> n = to_ascii_lowercase (trim_dot raw) \<and> wf_host n"
    by (rule normalize_name_ok_iff)
  show "normalize_name n = Inr n \<longleftrightarrow> wf_host n"
    using wf_host_no_trailing_dot [of n] wf_host_lowercase [of n]
    by (auto simp: normalize_name_ok_iff trim_dot_def)
qed

section \<open>A SafeName never carries guest bytes\<close>

text \<open>Printable ASCII with no space: nothing a terminal acts on.\<close>

definition printable :: "char \<Rightarrow> bool" where
  "printable c \<longleftrightarrow> 33 \<le> code c \<and> code c \<le> 126"

lemma printable_classes:
  "lower_host_byte c \<Longrightarrow> printable c" "addr_char c \<Longrightarrow> printable c" "is_ascii_digit c \<Longrightarrow> printable c"
  by (auto simp: lower_host_byte_def addr_char_def printable_def ascii_class_defs code_def)

lemma placeholder_printable: "list_all printable (invalid_placeholder n)"
  using show_nat_digits [of n] printable_classes(3)
  by (auto simp: invalid_placeholder_def list_all_iff printable_def code_def)

lemma wf_host_printable: "wf_host n \<Longrightarrow> list_all printable n"
  using wf_host_chars [of n] printable_classes(1)
  by (auto simp: list_all_iff) (fastforce simp: printable_def code_def)

lemma wf_host_not_placeholder: "wf_host n \<Longrightarrow> \<not> starts_with ''<invalid:'' n"
proof
  assume "wf_host n" and "starts_with ''<invalid:'' n"
  then have "lower_host_byte CHR ''<'' \<or> CHR ''<'' = CHR ''.''"
    using wf_host_chars [of n "CHR ''<''"] by (auto simp: text_simps)
  then show False by (simp add: lower_host_byte_def ascii_class_defs code_def)
qed

lemma is_valid_placeholder [simp]: "\<not> is_valid (SafeName (invalid_placeholder n))"
  by (simp add: is_valid_def invalid_placeholder_def starts_with_def)

lemma is_valid_wf_host: "wf_host n \<Longrightarrow> is_valid (SafeName n)"
  by (simp add: is_valid_def wf_host_not_placeholder)

text \<open>The values the public constructors can build: the invariant of the type.\<close>

definition safe_name_inv :: "safe_name \<Rightarrow> bool" where
  "safe_name_inv s \<longleftrightarrow>
     wf_host (as_str s) \<or> (\<exists>n. as_str s = invalid_placeholder n) \<or> (\<exists>ip. as_str s = show_ip ip)"

lemma sanitized_cases:
  obtains (ok) n where "normalize_name raw = Inr n" "sanitized raw = SafeName n" "wf_host n"
  | (bad) e where "normalize_name raw = Inl e"
      "sanitized raw = SafeName (invalid_placeholder (length raw))"
  by (cases "normalize_name raw") (auto simp: sanitized_def normalize_name_ok_iff)

lemma sanitized_inv: "safe_name_inv (sanitized raw)"
  by (cases raw rule: sanitized_cases) (auto simp: safe_name_inv_def)

lemma sanitized_bytes_inv: "safe_name_inv (sanitized_bytes raw)"
  using sanitized_inv
  by (auto simp: sanitized_bytes_def safe_name_inv_def split: option.splits)

lemma from_addr_inv: "safe_name_inv (from_addr ip)"
  by (auto simp: safe_name_inv_def from_addr_def)

lemma safe_name_inv_printable: "safe_name_inv s \<Longrightarrow> list_all printable (as_str s)"
  using show_ip_addr_chars printable_classes(2) placeholder_printable
  by (auto simp: safe_name_inv_def wf_host_printable) (auto simp: list_all_iff)

text \<open>
  whatever bytes a guest supplies, the recorded name is printable ASCII without spaces
  or control bytes, and a rejected input leaves only its length behind: two rejected inputs
  of the same length are recorded identically.
\<close>
theorem safe_name_carries_no_guest_text:
  "list_all printable (as_str (sanitized raw)) \<and>
   list_all printable (as_str (sanitized_bytes bs)) \<and>
   list_all printable (as_str (from_addr ip)) \<and>
   (\<not> is_valid (sanitized raw) \<longrightarrow> sanitized raw = SafeName (invalid_placeholder (length raw))) \<and>
   (is_valid (sanitized raw) \<longleftrightarrow> (\<exists>n. normalize_name raw = Inr n))"
proof (intro conjI)
  show "list_all printable (as_str (sanitized raw))"
    by (intro safe_name_inv_printable sanitized_inv)
  show "list_all printable (as_str (sanitized_bytes bs))"
    by (intro safe_name_inv_printable sanitized_bytes_inv)
  show "list_all printable (as_str (from_addr ip))"
    by (intro safe_name_inv_printable from_addr_inv)
  show "\<not> is_valid (sanitized raw) \<longrightarrow> sanitized raw = SafeName (invalid_placeholder (length raw))"
    by (cases raw rule: sanitized_cases) (auto simp: is_valid_wf_host)
  show "is_valid (sanitized raw) \<longleftrightarrow> (\<exists>n. normalize_name raw = Inr n)"
    by (cases raw rule: sanitized_cases) (auto simp: is_valid_wf_host)
qed

theorem safe_name_carries_no_guest_text_witness:
  "as_str (sanitized ''a b'') = ''<invalid:3>''"
proof -
  have "normalize_name ''a b'' = Inl BadCharacter"
    by (simp add: normalize_name_def check_label_def MAX_NAME_LEN_def MAX_LABEL_LEN_def
        strip_suffix_def starts_with_def ends_with_def host_byte_def ascii_class_defs code_def)
  then have "\<not> is_valid (sanitized ''a b'')"
    using safe_name_carries_no_guest_text [of "''a b''"] by simp
  then have "sanitized ''a b'' = SafeName (invalid_placeholder 3)"
    using safe_name_carries_no_guest_text [of "''a b''"] by (simp add: eval_nat_numeral)
  moreover have "invalid_placeholder 3 = ''<invalid:3>''" by code_simp
  ultimately show ?thesis by simp
qed


section \<open>CIDR matching is equality of leading bits\<close>

text \<open>The value of an octet string, most significant octet first.\<close>

fun octets_val :: "bytes \<Rightarrow> nat" where
  "octets_val [] = 0"
| "octets_val (b # bs) = unat b * 256 ^ length bs + octets_val bs"

lemma octets_val_less: "octets_val bs < 256 ^ length bs"
proof (induction bs)
  case (Cons b bs)
  have "unat b * 256 ^ length bs + octets_val bs < (unat b + 1) * 256 ^ length bs"
    using Cons by simp
  also have "\<dots> \<le> 256 * 256 ^ length bs"
    using unat_u8_less [of b] by (intro mult_right_mono) linarith+
  finally show ?case by simp
qed simp

lemma and_high_mask_eq_iff:
  fixes x y :: "'a::len word"
  shows "and x (push_bit k (- 1)) = and y (push_bit k (- 1)) \<longleftrightarrow> unat x div 2 ^ k = unat y div 2 ^ k"
proof -
  have "and x (push_bit k (- 1)) = and y (push_bit k (- 1)) \<longleftrightarrow> drop_bit k x = drop_bit k y"
  proof
    assume eq: "and x (push_bit k (- 1)) = and y (push_bit k (- 1))"
    have "bit x (k + n) \<longleftrightarrow> bit y (k + n)" for n
      using arg_cong [OF eq, of "\<lambda>w. bit w (k + n)"]
        bit_imp_le_length [of x "k + n"] bit_imp_le_length [of y "k + n"]
      by (auto simp: bit_simps)
    then show "drop_bit k x = drop_bit k y"
      by (intro bit_eqI) (simp add: bit_drop_bit_eq)
  next
    assume eq: "drop_bit k x = drop_bit k y"
    have "bit x n \<longleftrightarrow> bit y n" if "k \<le> n" for n
      using arg_cong [OF eq, of "\<lambda>w. bit w (n - k)"] that by (simp add: bit_drop_bit_eq)
    then show "and x (push_bit k (- 1)) = and y (push_bit k (- 1))"
      by (intro bit_eqI) (auto simp: bit_simps)
  qed
  also have "drop_bit k x = drop_bit k y \<longleftrightarrow> unat (drop_bit k x) = unat (drop_bit k y)"
    by (simp add: word_unat_eq_iff)
  also have "\<dots> \<longleftrightarrow> unat x div 2 ^ k = unat y div 2 ^ k"
    by (simp only: unat_drop_bit_eq) (simp add: drop_bit_eq_div)
  finally show ?thesis .
qed

lemma and_mask_eq_iff:
  "and x (push_bit k 0xff) = and y (push_bit k 0xff) \<longleftrightarrow> unat x div 2 ^ k = unat y div 2 ^ k"
  for x y :: u8
proof -
  have "(0xff :: u8) = - 1" by simp
  then show ?thesis by (simp only: and_high_mask_eq_iff)
qed

lemma prefix_eq_Cons_ge:
  assumes "8 \<le> p" and "p \<le> 8 * Suc (length xs)" and "length xs = length ys"
  shows "prefix_eq (x # xs) (y # ys) p \<longleftrightarrow> x = y \<and> prefix_eq xs ys (p - 8)"
proof -
  obtain k where k: "p div 8 = Suc k"
    using assms(1) by (cases "p div 8") auto
  then have full: "(p - 8) div 8 = k" and rem: "(p - 8) mod 8 = p mod 8"
    using assms(1) by (auto simp: le_div_geq le_mod_geq)
  have "k \<le> length ys"
    using div_le_mono [OF assms(2), of 8] k assms(3) by simp
  with assms(3) show ?thesis
    by (auto simp: prefix_eq_def Let_def k full rem get_upto_def get_at_def)
qed

lemma prefix_eq_Cons_less:
  assumes "p < 8"
  shows "prefix_eq (x # xs) (y # ys) p \<longleftrightarrow> unat x div 2 ^ (8 - p) = unat y div 2 ^ (8 - p)"
proof (cases "p = 0")
  case True
  have "unat x div 256 = 0" "unat y div 256 = 0"
    by (simp_all add: div_eq_0_iff)
  with True show ?thesis by (simp add: prefix_eq_def get_upto_def)
next
  case False
  with assms show ?thesis
    using and_mask_eq_iff [of x "8 - p" y] by (simp add: prefix_eq_def Let_def get_upto_def get_at_def)
qed

lemma prefix_eq_octets_val:
  assumes "length xs = length ys" and "p \<le> 8 * length xs"
  shows "prefix_eq xs ys p \<longleftrightarrow>
    octets_val xs div 2 ^ (8 * length xs - p) = octets_val ys div 2 ^ (8 * length xs - p)"
  using assms
proof (induction xs ys arbitrary: p rule: list_induct2)
  case Nil
  then show ?case by (simp add: prefix_eq_def get_upto_def)
next
  case (Cons x xs y ys)
  let ?n = "length xs"
  have len: "length ys = ?n" using Cons.hyps by simp
  have vx: "octets_val xs < 256 ^ ?n" and vy: "octets_val ys < 256 ^ ?n"
    using octets_val_less [of xs] octets_val_less [of ys] len by simp_all
  have pow: "(256 :: nat) ^ ?n = 2 ^ (8 * ?n)"
    by (simp add: power_mult)
  show ?case
  proof (cases "8 \<le> p")
    case True
    define q where "q = p - 8"
    define k where "k = 8 * ?n - q"
    have q: "q \<le> 8 * ?n" using Cons.prems True by (simp add: q_def)
    then have split: "(256 :: nat) ^ ?n = 2 ^ k * 2 ^ q"
      by (simp add: pow k_def flip: power_add)
    have d: "(unat z * 256 ^ ?n + v) div 2 ^ k = unat z * 2 ^ q + v div 2 ^ k" for z :: u8 and v
    proof -
      have "unat z * 256 ^ ?n + v = v + (unat z * 2 ^ q) * 2 ^ k"
        by (simp add: split algebra_simps)
      then show ?thesis by (metis div_mult_self1 add.commute power_not_zero zero_neq_numeral)
    qed
    have b: "v div 2 ^ k < 2 ^ q" if "v < 256 ^ ?n" for v :: nat
      using that by (simp add: split less_mult_imp_div_less mult.commute)
    have uniq: "unat x * 2 ^ q + v = unat y * 2 ^ q + w \<longleftrightarrow> x = y \<and> v = w"
      if "v < 2 ^ q" "w < 2 ^ q" for v w :: nat
    proof
      assume "unat x * 2 ^ q + v = unat y * 2 ^ q + w"
      then have "(unat x * 2 ^ q + v) div 2 ^ q = (unat y * 2 ^ q + w) div 2 ^ q"
        "(unat x * 2 ^ q + v) mod 2 ^ q = (unat y * 2 ^ q + w) mod 2 ^ q" by simp_all
      with that show "x = y \<and> v = w" by (simp add: word_unat_eq_iff)
    qed simp
    have e: "8 * length (x # xs) - p = k" using True by (simp add: k_def q_def)
    have IH: "prefix_eq xs ys q \<longleftrightarrow> octets_val xs div 2 ^ k = octets_val ys div 2 ^ k"
      using Cons.IH [OF q] by (simp add: k_def)
    have "prefix_eq (x # xs) (y # ys) p \<longleftrightarrow> x = y \<and> prefix_eq xs ys q"
      using prefix_eq_Cons_ge [of p xs ys x y] True Cons.prems Cons.hyps by (simp add: q_def)
    also have "\<dots> \<longleftrightarrow> octets_val (x # xs) div 2 ^ k = octets_val (y # ys) div 2 ^ k"
      using uniq [OF b [OF vx] b [OF vy]] by (simp only: octets_val.simps len d IH)
    finally show ?thesis by (simp only: e)
  next
    case False
    have "8 * length (x # xs) - p = 8 * ?n + (8 - p)"
      using False by simp
    then have e: "(2 :: nat) ^ (8 * length (x # xs) - p) = 256 ^ ?n * 2 ^ (8 - p)"
      by (simp only: power_add pow)
    have "(unat z * 256 ^ ?n + v) div (256 ^ ?n * 2 ^ (8 - p)) = unat z div 2 ^ (8 - p)"
      if "v < 256 ^ ?n" for z :: u8 and v
      using that by (simp add: div_mult2_eq)
    with False vx vy show ?thesis
      by (simp only: e octets_val.simps len) (simp add: prefix_eq_Cons_less)
  qed
qed

text \<open>The width of an address family and the number an address stands for.\<close>

fun ip_width :: "ip_addr \<Rightarrow> nat" where
  "ip_width (V4 _) = 32"
| "ip_width (V6 _) = 128"

fun ip_val :: "ip_addr \<Rightarrow> nat" where
  "ip_val (V4 x) = octets_val (octets4 x)"
| "ip_val (V6 x) = octets_val (octets6 x)"

lemma cidr_parse_prefix: "cidr_parse raw = Inr c \<Longrightarrow> prefix c \<le> ip_width (base c)"
  by (auto simp: cidr_parse_def Let_def result_iff split: prod.splits if_splits)
     (case_tac x; auto)+

lemma cidr_contains_val:
  assumes "prefix c \<le> ip_width (base c)"
  shows "cidr_contains c ip \<longleftrightarrow>
    is_ipv4 (base c) = is_ipv4 ip \<and>
    ip_val (base c) div 2 ^ (ip_width ip - prefix c) = ip_val ip div 2 ^ (ip_width ip - prefix c)"
proof (cases "base c"; cases ip)
  fix b x assume "base c = V4 b" "ip = V4 x"
  with assms show ?thesis
    using prefix_eq_octets_val [of "octets4 b" "octets4 x" "prefix c"] by simp
next
  fix b x assume "base c = V6 b" "ip = V6 x"
  with assms show ?thesis
    using prefix_eq_octets_val [of "octets6 b" "octets6 x" "prefix c"] by simp
qed auto

text \<open>
  a CIDR that the parser accepts matches exactly the addresses of its own family whose
  leading \<open>prefix\<close> bits are those of its base address; the two families never cross-match.
\<close>
theorem cidr_contains_spec:
  assumes "cidr_parse raw = Inr c"
  shows "cidr_contains c ip \<longleftrightarrow>
    is_ipv4 (base c) = is_ipv4 ip \<and>
    ip_val (base c) div 2 ^ (ip_width ip - prefix c) = ip_val ip div 2 ^ (ip_width ip - prefix c)"
  using cidr_parse_prefix [OF assms] by (rule cidr_contains_val)


theorem cidr_contains_spec_witness:
  "cidr_contains \<lparr>base = V4 (Ipv4 10 107 0 0), prefix = 16\<rparr> (V4 (Ipv4 10 107 3 2))"
proof -
  have "cidr_parse ''10.107.0.0/16'' = Inr \<lparr>base = V4 (Ipv4 10 107 0 0), prefix = 16\<rparr>"
    by code_simp
  from cidr_contains_spec [OF this, of "V4 (Ipv4 10 107 3 2)"]
  show ?thesis by simp
qed

section \<open>The allowlist decision\<close>

lemma matches_wildcard_iff:
  "matches_wildcard host suffix \<longleftrightarrow>
     (\<exists>label. host = label @ ''.'' @ suffix \<and> label \<noteq> [] \<and> CHR ''.'' \<notin> set label)"
proof
  assume "\<exists>label. host = label @ ''.'' @ suffix \<and> label \<noteq> [] \<and> CHR ''.'' \<notin> set label"
  then obtain label where host: "host = (label @ ''.'') @ suffix"
    and label: "label \<noteq> []" "CHR ''.'' \<notin> set label" by auto
  show "matches_wildcard host suffix"
    using label by (simp only: matches_wildcard_def host strip_suffix_append) simp
qed (auto simp: matches_wildcard_def text_simps split: option.splits)

text \<open>
  a wildcard rule matches exactly the names that have one label more than its suffix:
  never the apex, never a name two or more labels below it.
\<close>
theorem wildcard_matches_exactly_one_label:
  assumes "wf_host host" and "wf_host suffix"
  shows "matches_wildcard host suffix \<longleftrightarrow>
    (\<exists>label. split_on CHR ''.'' host = label # split_on CHR ''.'' suffix)"
proof
  assume "matches_wildcard host suffix"
  then show "\<exists>label. split_on CHR ''.'' host = label # split_on CHR ''.'' suffix"
    by (auto simp: matches_wildcard_iff split_on_append)
next
  assume "\<exists>label. split_on CHR ''.'' host = label # split_on CHR ''.'' suffix"
  then obtain label where eq: "split_on CHR ''.'' host = label # split_on CHR ''.'' suffix" ..
  have "label \<noteq> []"
    using assms(1) eq by (auto simp: wf_host_def wf_label_def)
  moreover have "CHR ''.'' \<notin> set label"
    using split_on_no_delim [of label "CHR ''.''" host] eq by simp
  moreover have "host = label @ ''.'' @ suffix"
    using arg_cong [OF eq, of "join_with ''.''"] by (simp add: join_with_Cons)
  ultimately show "matches_wildcard host suffix"
    by (auto simp: matches_wildcard_iff)
qed

lemma wf_host_examples: "wf_host ''a.b.c''" "wf_host ''b.c''"
  by code_simp+

theorem wildcard_matches_exactly_one_label_witness:
  "matches_wildcard ''a.b.c'' ''b.c'' \<and> \<not> matches_wildcard ''b.c'' ''b.c''"
  using wildcard_matches_exactly_one_label [OF wf_host_examples]
    wildcard_matches_exactly_one_label [OF wf_host_examples(2) wf_host_examples(2)]
  by simp

text \<open>What it means for one rule to cover one target.\<close>

fun rule_covers :: "host_rule \<Rightarrow> target \<Rightarrow> bool" where
  "rule_covers (Exact want) (TName n _) = (is_valid n \<and> as_str n = want)"
| "rule_covers (Wildcard sfx) (TName n _) = (is_valid n \<and> matches_wildcard (as_str n) sfx)"
| "rule_covers (CidrRule c) (TAddr ip _) = cidr_contains c ip"
| "rule_covers _ _ = False"

lemma decide_name_eq:
  "decide_name rules host =
     (if \<exists>r \<in> set rules. name_rule_hit host r then Allow else Deny NotAllowed)"
  by (induction rules) auto

lemma decide_addr_eq:
  "decide_addr rules ip =
     (if \<exists>c. CidrRule c \<in> set rules \<and> cidr_contains c ip then Allow else Deny LiteralAddress)"
  by (induction rules) (auto split: host_rule.splits)

lemma name_rule_hit_covers:
  "is_valid n \<Longrightarrow> rule_covers r (TName n p) \<longleftrightarrow> name_rule_hit (as_str n) r"
  by (cases r) auto

lemma rule_covers_addr: "rule_covers r (TAddr ip p) \<longleftrightarrow> (\<exists>c. r = CidrRule c \<and> cidr_contains c ip)"
  by (cases r) auto

lemma rule_covers_invalid: "\<not> is_valid n \<Longrightarrow> \<not> rule_covers r (TName n p)"
  by (cases r) auto

lemma decide_allow_iff: "decide rules t = Allow \<longleftrightarrow> (\<exists>r \<in> set rules. rule_covers r t)"
  by (cases t)
     (auto simp: decide_def decide_name_eq decide_addr_eq name_rule_hit_covers rule_covers_addr
        rule_covers_invalid split: if_splits)

text \<open>
  C39: the decision is default-deny: it allows a target exactly when some rule covers it,
  and a refusal says why (an empty list, a malformed name, no matching name, or a literal
  address no prefix covers).
\<close>
theorem decide_spec:
  "decide rules t =
     (if \<exists>r \<in> set rules. rule_covers r t then Allow
      else Deny (if rules = [] then EmptyAllowlist
                 else case t of
                   TName n _ \<Rightarrow> if is_valid n then NotAllowed else MalformedName
                 | TAddr _ _ \<Rightarrow> LiteralAddress))"
proof (cases "\<exists>r \<in> set rules. rule_covers r t")
  case True
  then show ?thesis using decide_allow_iff [of rules t] by simp
next
  case False
  then show ?thesis
    by (cases t)
       (auto simp: decide_def decide_name_eq decide_addr_eq name_rule_hit_covers rule_covers_addr)
qed

text \<open>
  names and addresses are never matched by each other's rules: a list of host patterns
  allows no literal address at all, and a list of prefixes allows no name.
\<close>
theorem no_cross_matching:
  "(list_all (\<lambda>r. \<exists>raw. parse_host raw = Inr r) rules \<longrightarrow> decide rules (TAddr ip p) \<noteq> Allow) \<and>
   (list_all (\<lambda>r. \<exists>raw. parse_cidr raw = Inr r) rules \<longrightarrow> decide rules (TName n p) \<noteq> Allow)"
proof (intro conjI impI)
  assume host: "list_all (\<lambda>r. \<exists>raw. parse_host raw = Inr r) rules"
  have "parse_host raw \<noteq> Inr (CidrRule c)" for raw c
    by (auto simp: parse_host_def result_iff split: option.splits)
  with host show "decide rules (TAddr ip p) \<noteq> Allow"
    by (auto simp: decide_allow_iff rule_covers_addr list_all_iff)
next
  assume "list_all (\<lambda>r. \<exists>raw. parse_cidr raw = Inr r) rules"
  then have "\<forall>r \<in> set rules. \<exists>c. r = CidrRule c"
    by (auto simp: list_all_iff parse_cidr_def result_iff)
  then show "decide rules (TName n p) \<noteq> Allow"
    by (fastforce simp: decide_allow_iff)
qed

theorem no_cross_matching_witness:
  "decide [Exact ''a.b''] (TAddr (V4 (Ipv4 1 2 3 4)) 80) \<noteq> Allow \<and>
   decide [CidrRule \<lparr>base = V4 (Ipv4 1 2 3 4), prefix = 32\<rparr>] (TName (SafeName ''1.2.3.4'') 80) \<noteq> Allow"
proof -
  let ?c = "CidrRule \<lparr>base = V4 (Ipv4 1 2 3 4), prefix = 32\<rparr>"
  have "parse_host ''a.b'' = Inr (Exact ''a.b'')" by code_simp
  then have host: "list_all (\<lambda>r. \<exists>raw. parse_host raw = Inr r) [Exact ''a.b'']" by auto
  have "parse_cidr ''1.2.3.4'' = Inr ?c" by code_simp
  then have cidr: "list_all (\<lambda>r. \<exists>raw. parse_cidr raw = Inr r) [?c]" by auto
  show ?thesis
    using no_cross_matching [THEN conjunct1, rule_format, OF host]
      no_cross_matching [THEN conjunct2, rule_format, OF cidr] by blast
qed

section \<open>The floor of addresses that are never dialled\<close>

text \<open>
  The reference reading of the floor: a table of prefixes in the notation an operator
  writes, applied to the address after an IPv4-mapped IPv6 address has been read as the
  IPv4 address it is. \<open>floor_cidrs\<close> are refused always, \<open>lan_cidrs\<close> unless the host was
  provisioned with \<open>--allow-lan-egress\<close>.
\<close>

definition floor_cidrs :: "string list" where
  "floor_cidrs =
     [''10.107.0.0/16'', ''127.0.0.0/8'', ''169.254.0.0/16'', ''255.255.255.255/32'',
      ''224.0.0.0/4'', ''0.0.0.0/32'', ''192.0.2.0/24'', ''198.51.100.0/24'',
      ''203.0.113.0/24'', ''::1/128'', ''ff00::/8'', ''::/128'', ''fe80::/10'', ''fec0::/10'']"

definition lan_cidrs :: "string list" where
  "lan_cidrs =
     [''10.0.0.0/8'', ''172.16.0.0/12'', ''192.168.0.0/16'', ''100.64.0.0/10'', ''fc00::/7'']"

definition in_cidr_text :: "ip_addr \<Rightarrow> string \<Rightarrow> bool" where
  "in_cidr_text ip raw \<longleftrightarrow> (case cidr_parse raw of Inr c \<Rightarrow> cidr_contains c ip | Inl _ \<Rightarrow> False)"

definition canonical_ip :: "ip_addr \<Rightarrow> ip_addr" where
  "canonical_ip ip =
     (case ip of
        V6 v6 \<Rightarrow> (case to_ipv4_mapped v6 of Some v4 \<Rightarrow> V4 v4 | None \<Rightarrow> ip)
      | V4 _ \<Rightarrow> ip)"

lemma cidr_table_v4:
  "cidr_parse ''10.107.0.0/16'' = Inr \<lparr>base = V4 (Ipv4 10 107 0 0), prefix = 16\<rparr>"
  "cidr_parse ''127.0.0.0/8'' = Inr \<lparr>base = V4 (Ipv4 127 0 0 0), prefix = 8\<rparr>"
  "cidr_parse ''169.254.0.0/16'' = Inr \<lparr>base = V4 (Ipv4 169 254 0 0), prefix = 16\<rparr>"
  "cidr_parse ''255.255.255.255/32'' = Inr \<lparr>base = V4 (Ipv4 255 255 255 255), prefix = 32\<rparr>"
  "cidr_parse ''224.0.0.0/4'' = Inr \<lparr>base = V4 (Ipv4 224 0 0 0), prefix = 4\<rparr>"
  "cidr_parse ''0.0.0.0/32'' = Inr \<lparr>base = V4 (Ipv4 0 0 0 0), prefix = 32\<rparr>"
  "cidr_parse ''192.0.2.0/24'' = Inr \<lparr>base = V4 (Ipv4 192 0 2 0), prefix = 24\<rparr>"
  "cidr_parse ''198.51.100.0/24'' = Inr \<lparr>base = V4 (Ipv4 198 51 100 0), prefix = 24\<rparr>"
  "cidr_parse ''203.0.113.0/24'' = Inr \<lparr>base = V4 (Ipv4 203 0 113 0), prefix = 24\<rparr>"
  "cidr_parse ''10.0.0.0/8'' = Inr \<lparr>base = V4 (Ipv4 10 0 0 0), prefix = 8\<rparr>"
  "cidr_parse ''172.16.0.0/12'' = Inr \<lparr>base = V4 (Ipv4 172 16 0 0), prefix = 12\<rparr>"
  "cidr_parse ''192.168.0.0/16'' = Inr \<lparr>base = V4 (Ipv4 192 168 0 0), prefix = 16\<rparr>"
  "cidr_parse ''100.64.0.0/10'' = Inr \<lparr>base = V4 (Ipv4 100 64 0 0), prefix = 10\<rparr>"
  by code_simp+

lemma cidr_table_v6:
  "cidr_parse ''::1/128'' = Inr \<lparr>base = V6 (Ipv6 0 0 0 0 0 0 0 1), prefix = 128\<rparr>"
  "cidr_parse ''::/128'' = Inr \<lparr>base = V6 (Ipv6 0 0 0 0 0 0 0 0), prefix = 128\<rparr>"
  "cidr_parse ''ff00::/8'' = Inr \<lparr>base = V6 (Ipv6 0xff00 0 0 0 0 0 0 0), prefix = 8\<rparr>"
  "cidr_parse ''fe80::/10'' = Inr \<lparr>base = V6 (Ipv6 0xfe80 0 0 0 0 0 0 0), prefix = 10\<rparr>"
  "cidr_parse ''fec0::/10'' = Inr \<lparr>base = V6 (Ipv6 0xfec0 0 0 0 0 0 0 0), prefix = 10\<rparr>"
  "cidr_parse ''fc00::/7'' = Inr \<lparr>base = V6 (Ipv6 0xfc00 0 0 0 0 0 0 0), prefix = 7\<rparr>"
  by code_simp+


lemma prefix_eq_0 [simp]: "prefix_eq xs ys 0"
  by (simp add: prefix_eq_def get_upto_def)

lemma prefix_eq_v4:
  "prefix_eq [a, b, c, d] [w, x, y, z] 4 \<longleftrightarrow> unat a div 16 = unat w div 16"
  "prefix_eq [a, b, c, d] [w, x, y, z] 8 \<longleftrightarrow> a = w"
  "prefix_eq [a, b, c, d] [w, x, y, z] 10 \<longleftrightarrow> a = w \<and> unat b div 64 = unat x div 64"
  "prefix_eq [a, b, c, d] [w, x, y, z] 12 \<longleftrightarrow> a = w \<and> unat b div 16 = unat x div 16"
  "prefix_eq [a, b, c, d] [w, x, y, z] 16 \<longleftrightarrow> a = w \<and> b = x"
  "prefix_eq [a, b, c, d] [w, x, y, z] 24 \<longleftrightarrow> a = w \<and> b = x \<and> c = y"
  "prefix_eq [a, b, c, d] [w, x, y, z] 32 \<longleftrightarrow> a = w \<and> b = x \<and> c = y \<and> d = z"
  by (simp_all add: prefix_eq_Cons_ge prefix_eq_Cons_less)

lemma div_eq_range: "0 < m \<Longrightarrow> k = n div m \<longleftrightarrow> k * m \<le> n \<and> n < Suc k * m" for k m n :: nat
  using less_eq_div_iff_mult_less_eq [of m k n] div_less_iff_less_mult [of m n "Suc k"] by auto

lemma octet_ranges:
  fixes b :: u8
  shows "14 = unat b div 16 \<longleftrightarrow> 224 \<le> b \<and> b \<le> 239"
    and "Suc 0 = unat b div 16 \<longleftrightarrow> 16 \<le> b \<and> b \<le> 31"
    and "Suc 0 = unat b div 64 \<longleftrightarrow> 64 \<le> b \<and> b < 128"
  by (auto simp: div_eq_range word_le_nat_alt word_less_nat_alt)

lemma floor_v4:
  "list_ex (in_cidr_text (V4 x)) floor_cidrs \<longleftrightarrow>
     (case x of Ipv4 a b c d \<Rightarrow> (a = 10 \<and> b = 107) \<or> is_loopback4 x \<or> is_link_local4 x
        \<or> is_broadcast4 x \<or> is_multicast4 x \<or> is_unspecified4 x \<or> is_documentation4 x)"
  by (cases x)
     (auto simp: floor_cidrs_def in_cidr_text_def cidr_table_v4 cidr_table_v6 prefix_eq_v4
        octet_ranges is_broadcast4_def is_unspecified4_def)

lemma lan_v4:
  "list_ex (in_cidr_text (V4 x)) lan_cidrs \<longleftrightarrow>
     (case x of Ipv4 a b c d \<Rightarrow> is_private4 x \<or> (a = 100 \<and> 64 \<le> b \<and> b < 128))"
  by (cases x)
     (auto simp: lan_cidrs_def in_cidr_text_def cidr_table_v4 cidr_table_v6 prefix_eq_v4
        octet_ranges)


lemma octets6_Cons:
  "octets6 (Ipv6 a b c d e f g h) =
     hi_byte a # lo_byte a # concat (map to_be16 [b, c, d, e, f, g, h])"
  by (simp add: octets6_def to_be16_def hi_byte.simps lo_byte.simps)

lemma to_be16_inj [simp]: "to_be16 v = to_be16 w \<longleftrightarrow> v = w"
  by (metis to_be16_def from_to_be16 list.inject)

lemma octets6_inj: "octets6 x = octets6 y \<longleftrightarrow> x = y"
proof -
  have cons: "to_be16 v @ vs = to_be16 w @ ws \<longleftrightarrow> v = w \<and> vs = ws" for v w vs ws
    by (simp add: append_eq_append_conv)
  show ?thesis
    by (cases x; cases y) (simp only: octets6_def segments.simps list.map concat.simps cons, auto)
qed

lemma prefix_eq_v6:
  assumes "length r = length r'"
  shows "prefix_eq (p # q # r) (p' # q' # r') 7 \<longleftrightarrow> unat p div 2 = unat p' div 2"
    "prefix_eq (p # q # r) (p' # q' # r') 8 \<longleftrightarrow> p = p'"
    "prefix_eq (p # q # r) (p' # q' # r') 10 \<longleftrightarrow> p = p' \<and> unat q div 64 = unat q' div 64"
  using assms by (simp_all add: prefix_eq_Cons_ge prefix_eq_Cons_less)

lemma prefix_eq_128: "prefix_eq (octets6 x) (octets6 y) 128 \<longleftrightarrow> x = y"
  by (simp add: prefix_eq_def get_upto_def octets6_inj Let_def)

lemma u16_masks:
  "(0xff00 :: u16) = push_bit 8 (- 1)" "(0xffc0 :: u16) = push_bit 6 (- 1)"
  "(0xfe00 :: u16) = push_bit 9 (- 1)"
  by code_simp+

lemma unat_hi_byte: "unat (hi_byte w) = unat w div 256"
  unfolding hi_byte.simps
  by (rule unat_word_of_nat) (use unat_u16_less [of w] in \<open>simp add: less_mult_imp_div_less\<close>)

lemma unat_lo_byte: "unat (lo_byte w) = unat w mod 256"
  unfolding lo_byte.simps by (rule unat_word_of_nat) simp

lemma segment_ranges:
  fixes w :: u16
  shows "and w 0xff00 = 0xff00 \<longleftrightarrow> 255 = unat (hi_byte w)"
    and "and w 0xffc0 = 0xfe80 \<longleftrightarrow> 254 = unat (hi_byte w) \<and> 2 = unat (lo_byte w) div 64"
    and "and w 0xffc0 = 0xfec0 \<longleftrightarrow> 254 = unat (hi_byte w) \<and> 3 = unat (lo_byte w) div 64"
    and "and w 0xfe00 = 0xfc00 \<longleftrightarrow> 126 = unat (hi_byte w) div 2"
proof -
  have m: "and w (push_bit k (- 1)) = v \<longleftrightarrow> unat w div 2 ^ k = unat v div 2 ^ k"
    if "and v (push_bit k (- 1)) = v" for k and v
    using and_high_mask_eq_iff [of w k v] that by simp
  have closed: "and (0xff00 :: u16) (push_bit 8 (- 1)) = 0xff00"
    "and (0xfe80 :: u16) (push_bit 6 (- 1)) = 0xfe80"
    "and (0xfec0 :: u16) (push_bit 6 (- 1)) = 0xfec0"
    "and (0xfc00 :: u16) (push_bit 9 (- 1)) = 0xfc00"
    by code_simp+
  have "n div 256 = n div 64 div 4" "n mod 256 div 64 = n div 64 mod 4"
    "n div 256 div 2 = n div 512" for n :: nat
    using mod_mult2_eq [of n 64 4] by (simp_all add: div_mult2_eq [symmetric])
  note q = this
  have digits: "k = 1018 \<longleftrightarrow> 254 = k div 4 \<and> 2 = k mod 4"
    "k = 1019 \<longleftrightarrow> 254 = k div 4 \<and> 3 = k mod 4" for k :: nat
    by presburger+
  show "and w 0xff00 = 0xff00 \<longleftrightarrow> 255 = unat (hi_byte w)"
  proof -
    have "and w 0xff00 = 0xff00 \<longleftrightarrow> and w (push_bit 8 (- 1)) = 0xff00"
      by (simp only: u16_masks(1))
    also have "\<dots> \<longleftrightarrow> unat w div 2 ^ 8 = unat (0xff00 :: u16) div 2 ^ 8"
      by (rule m [OF closed(1)])
    finally show ?thesis by (auto simp: unat_hi_byte)
  qed
  show "and w 0xffc0 = 0xfe80 \<longleftrightarrow> 254 = unat (hi_byte w) \<and> 2 = unat (lo_byte w) div 64"
    by (simp only: u16_masks(2) m [OF closed(2)] unat_hi_byte unat_lo_byte q) (simp add: digits)
  show "and w 0xffc0 = 0xfec0 \<longleftrightarrow> 254 = unat (hi_byte w) \<and> 3 = unat (lo_byte w) div 64"
    by (simp only: u16_masks(2) m [OF closed(3)] unat_hi_byte unat_lo_byte q) (simp add: digits)
  show "and w 0xfe00 = 0xfc00 \<longleftrightarrow> 126 = unat (hi_byte w) div 2"
    by (simp only: u16_masks(3) m [OF closed(4)] unat_hi_byte q) auto
qed


lemma v6_table:
  "in_cidr_text (V6 x) ''::1/128'' \<longleftrightarrow> is_loopback6 x"
  "in_cidr_text (V6 x) ''::/128'' \<longleftrightarrow> is_unspecified6 x"
  "in_cidr_text (V6 x) ''ff00::/8'' \<longleftrightarrow> is_multicast6 x"
  "in_cidr_text (V6 x) ''fe80::/10'' \<longleftrightarrow> and (segment0 x) 0xffc0 = 0xfe80"
  "in_cidr_text (V6 x) ''fec0::/10'' \<longleftrightarrow> and (segment0 x) 0xffc0 = 0xfec0"
  "in_cidr_text (V6 x) ''fc00::/7'' \<longleftrightarrow> and (segment0 x) 0xfe00 = 0xfc00"
proof -
  obtain a b c d e f g h where x: "x = Ipv6 a b c d e f g h" by (cases x)
  have bytes: "hi_byte 0xff00 = 255" "hi_byte 0xfe80 = 254" "lo_byte 0xfe80 = 128"
    "hi_byte 0xfec0 = 254" "lo_byte 0xfec0 = 192" "hi_byte 0xfc00 = 252"
    by code_simp+
  have hib: "v = hi_byte a \<longleftrightarrow> unat v = unat (hi_byte a)" for v
    by (simp add: word_unat_eq_iff)
  show "in_cidr_text (V6 x) ''::1/128'' \<longleftrightarrow> is_loopback6 x"
    "in_cidr_text (V6 x) ''::/128'' \<longleftrightarrow> is_unspecified6 x"
    by (auto simp: in_cidr_text_def cidr_table_v6 prefix_eq_128 is_loopback6_def is_unspecified6_def)
  show "in_cidr_text (V6 x) ''ff00::/8'' \<longleftrightarrow> is_multicast6 x"
    "in_cidr_text (V6 x) ''fe80::/10'' \<longleftrightarrow> and (segment0 x) 0xffc0 = 0xfe80"
    "in_cidr_text (V6 x) ''fec0::/10'' \<longleftrightarrow> and (segment0 x) 0xffc0 = 0xfec0"
    "in_cidr_text (V6 x) ''fc00::/7'' \<longleftrightarrow> and (segment0 x) 0xfe00 = 0xfc00"
    by (simp_all add: x in_cidr_text_def cidr_table_v6 octets6_Cons prefix_eq_v6 bytes hib
        is_multicast6_def segment_ranges)
qed

lemma v6_not_in_v4_table:
  "\<not> in_cidr_text (V6 x) ''10.107.0.0/16''" "\<not> in_cidr_text (V6 x) ''127.0.0.0/8''"
  "\<not> in_cidr_text (V6 x) ''169.254.0.0/16''" "\<not> in_cidr_text (V6 x) ''255.255.255.255/32''"
  "\<not> in_cidr_text (V6 x) ''224.0.0.0/4''" "\<not> in_cidr_text (V6 x) ''0.0.0.0/32''"
  "\<not> in_cidr_text (V6 x) ''192.0.2.0/24''" "\<not> in_cidr_text (V6 x) ''198.51.100.0/24''"
  "\<not> in_cidr_text (V6 x) ''203.0.113.0/24''" "\<not> in_cidr_text (V6 x) ''10.0.0.0/8''"
  "\<not> in_cidr_text (V6 x) ''172.16.0.0/12''" "\<not> in_cidr_text (V6 x) ''192.168.0.0/16''"
  "\<not> in_cidr_text (V6 x) ''100.64.0.0/10''"
  by (simp_all add: in_cidr_text_def cidr_table_v4)

lemma is_dialable4_spec:
  "is_dialable4 x p \<longleftrightarrow> \<not> list_ex (in_cidr_text (V4 x)) floor_cidrs \<and>
     (list_ex (in_cidr_text (V4 x)) lan_cidrs \<longrightarrow> p)"
  by (cases x) (auto simp: is_dialable4_def floor_v4 lan_v4 Let_def)

lemma mapped_segment0: "to_ipv4_mapped x = Some v \<Longrightarrow>
  segment0 x = 0 \<and> \<not> is_loopback6 x \<and> \<not> is_unspecified6 x"
  by (cases x) (auto simp: is_loopback6_def is_unspecified6_def split: if_splits)

lemma is_dialable_iff:
  "is_dialable ip allow_private \<longleftrightarrow>
     \<not> list_ex (in_cidr_text (canonical_ip ip)) floor_cidrs \<and>
     (list_ex (in_cidr_text (canonical_ip ip)) lan_cidrs \<longrightarrow> allow_private)"
proof (cases ip)
  case (V4 x)
  then show ?thesis by (simp add: canonical_ip_def is_dialable4_spec)
next
  case (V6 x)
  show ?thesis
  proof (cases "to_ipv4_mapped x")
    case None
    then show ?thesis
      by (simp add: V6 canonical_ip_def floor_cidrs_def lan_cidrs_def v6_table v6_not_in_v4_table Let_def)
  next
    case (Some v)
    then show ?thesis
      using mapped_segment0 [OF Some]
      by (simp add: V6 canonical_ip_def is_dialable4_spec is_multicast6_def Let_def)
  qed
qed

text \<open>
  C32: the dial guard is exactly the table of prefixes, read after unwrapping IPv4-mapped
  spellings: an address is dialable if and only if no always-refused prefix covers it and,
  when a private prefix covers it, LAN egress was provisioned.
\<close>
theorem is_dialable_spec:
  "is_dialable ip allow_private \<longleftrightarrow>
     \<not> list_ex (in_cidr_text (canonical_ip ip)) floor_cidrs \<and>
     (list_ex (in_cidr_text (canonical_ip ip)) lan_cidrs \<longrightarrow> allow_private)"
  by (rule is_dialable_iff)

theorem is_dialable_spec_witness:
  "is_dialable (V4 (Ipv4 192 168 0 1)) True \<and> \<not> is_dialable (V4 (Ipv4 192 168 0 1)) False \<and>
   \<not> is_dialable (V6 (to_ipv6_mapped (Ipv4 10 107 0 2))) True"
proof -
  let ?lan = "V4 (Ipv4 192 168 0 1)" and ?slot = "V6 (to_ipv6_mapped (Ipv4 10 107 0 2))"
  have "\<not> list_ex (in_cidr_text (canonical_ip ?lan)) floor_cidrs"
    "list_ex (in_cidr_text (canonical_ip ?lan)) lan_cidrs"
    "list_ex (in_cidr_text (canonical_ip ?slot)) floor_cidrs"
    by code_simp+
  then show ?thesis
    using is_dialable_spec [of ?lan True] is_dialable_spec [of ?lan False] is_dialable_spec [of ?slot True]
    by blast
qed

end
