(* ===== verification/Credentials.thy ===== *)
theory Credentials
  imports Egress
begin

text \<open>
  Host-side credentials (\<open>crates/core/src/net/credentials.rs\<close>, \<open>secret.rs\<close>): the closed
  method set, path patterns and their matching, the normalisation of a guest's request
  target, and the loading of the credential store into resolved credentials. The file
  system, the environment and the JSON parser are the fields of the record \<open>host_io\<close>, so
  the loader is a function of what they answer. The diagnostics the code prints on the
  host's standard error are not modelled.
\<close>

section \<open>Callers, methods, path patterns\<close>

datatype caller = Operator | Model

datatype http_method = Get | Head | Post | Put | Patch | Delete

definition method_parse :: "string \<Rightarrow> http_method option" where
  "method_parse raw =
     (if raw = ''GET'' then Some Get
      else if raw = ''HEAD'' then Some Head
      else if raw = ''POST'' then Some Post
      else if raw = ''PUT'' then Some Put
      else if raw = ''PATCH'' then Some Patch
      else if raw = ''DELETE'' then Some Delete
      else None)"

fun method_str :: "http_method \<Rightarrow> string" where
  "method_str Get = ''GET''"
| "method_str Head = ''HEAD''"
| "method_str Post = ''POST''"
| "method_str Put = ''PUT''"
| "method_str Patch = ''PATCH''"
| "method_str Delete = ''DELETE''"

definition method_is_safe :: "http_method \<Rightarrow> bool" where
  "method_is_safe m \<longleftrightarrow> m = Get \<or> m = Head"

record path_glob =
  glob_segments :: "string list"
  trailing :: bool

datatype glob_error =
    GlobNotAbsolute
  | GlobQuery
  | GlobPercent
  | GlobBackslash
  | GlobNotVisible
  | GlobDoubleStarInside
  | GlobEmptySegment
  | GlobDotSegment
  | GlobPartialStar

definition visible :: "char \<Rightarrow> bool" where
  "visible c \<longleftrightarrow> 0x21 \<le> code c \<and> code c \<le> 0x7e"

fun glob_parts :: "string list \<Rightarrow> glob_error + string list \<times> bool" where
  "glob_parts [] = Inr ([], False)"
| "glob_parts (part # rest) =
     (if part = ''**'' then (if rest \<noteq> [] then Inl GlobDoubleStarInside else Inr ([], True))
      else if part = [] then Inl GlobEmptySegment
      else if part = ''.'' \<or> part = ''..'' then Inl GlobDotSegment
      else if CHR ''*'' \<in> set part \<and> part \<noteq> ''*'' then Inl GlobPartialStar
      else try_bind (glob_parts rest) (\<lambda>(segs, tr). Inr (part # segs, tr)))"

definition glob_parse :: "string \<Rightarrow> glob_error + path_glob" where
  "glob_parse raw =
     (if \<not> starts_with ''/'' raw then Inl GlobNotAbsolute
      else if CHR ''?'' \<in> set raw \<or> CHR ''#'' \<in> set raw then Inl GlobQuery
      else if CHR ''%'' \<in> set raw then Inl GlobPercent
      else if char_of (92 :: nat) \<in> set raw then Inl GlobBackslash
      else if \<not> list_all visible raw then Inl GlobNotVisible
      else let body = tl raw in
        if body = [] then Inr \<lparr>glob_segments = [], trailing = False\<rparr>
        else try_bind (glob_parts (split_on CHR ''/'' body)) (\<lambda>(segs, tr).
               Inr \<lparr>glob_segments = segs, trailing = tr\<rparr>))"

definition path_of_target :: "string \<Rightarrow> string" where
  "path_of_target t = (case split_once CHR ''?'' t of Some (p, _) \<Rightarrow> p | None \<Rightarrow> t)"

definition path_segments :: "string \<Rightarrow> string list" where
  "path_segments path =
     (let body = (case strip_prefix ''/'' path of Some b \<Rightarrow> b | None \<Rightarrow> path)
      in if body = [] then [] else split_on CHR ''/'' body)"

definition glob_matches :: "path_glob \<Rightarrow> string \<Rightarrow> bool" where
  "glob_matches g target =
     (let actual = path_segments (path_of_target target) in
      if trailing g \<and> length actual < length (glob_segments g) then False
      else if \<not> trailing g \<and> length actual \<noteq> length (glob_segments g) then False
      else list_all (\<lambda>(pat, got). pat = ''*'' \<or> pat = got) (zip (glob_segments g) actual))"

definition glob_display :: "path_glob \<Rightarrow> string" where
  "glob_display g =
     ''/'' @ join_with ''/'' (glob_segments g) @
     (if trailing g then (if glob_segments g = [] then ''**'' else ''/**'') else [])"

section \<open>Request rules\<close>

record request_rule =
  rule_methods :: "http_method list"
  rule_path :: path_glob

datatype allow_problem = NotAPair | UnknownMethod string | BadGlob glob_error

definition rule_preset :: "string \<Rightarrow> request_rule list option" where
  "rule_preset name =
     (if name = ''readonly'' then
        Some [\<lparr>rule_methods = [Get, Head], rule_path = \<lparr>glob_segments = [], trailing = True\<rparr>\<rparr>]
      else if name = ''none'' then Some []
      else None)"

definition rule_parse :: "string \<Rightarrow> allow_problem + request_rule list" where
  "rule_parse raw =
     (let trimmed = trim raw in
      case rule_preset trimmed of
        Some preset \<Rightarrow> Inr preset
      | None \<Rightarrow>
         (case split_once CHR '' '' trimmed of
            None \<Rightarrow> Inl NotAPair
          | Some (method, path) \<Rightarrow>
             try_bind (ok_or (UnknownMethod (trim method)) (method_parse (trim method))) (\<lambda>m.
             case glob_parse (trim path) of
               Inl e \<Rightarrow> Inl (BadGlob e)
             | Inr g \<Rightarrow> Inr [\<lparr>rule_methods = [m], rule_path = g\<rparr>])))"

definition rule_permits :: "request_rule \<Rightarrow> http_method \<Rightarrow> string \<Rightarrow> bool" where
  "rule_permits r m path \<longleftrightarrow> m \<in> set (rule_methods r) \<and> glob_matches (rule_path r) path"

definition request_rule_display :: "request_rule \<Rightarrow> string" where
  "request_rule_display r =
     join_with ''|'' (map method_str (rule_methods r)) @ '' '' @ glob_display (rule_path r)"

section \<open>Request targets\<close>

datatype target_error =
    TargetEmpty
  | TargetNotOriginForm
  | TargetFragment
  | TargetSchemeRelative
  | TargetSlashBackslash
  | TargetBackslash
  | TargetNotVisible
  | TargetEncodedSeparator
  | TargetEncodedByte
  | TargetMalformedEscape
  | TargetPathParameter
  | TargetDotSegment
  | TargetEmptySegment

text \<open>\<open>u8::from_str_radix(_, 16)\<close> on two characters: a leading \<open>+\<close> is accepted.\<close>

definition radix16_2 :: "char \<Rightarrow> char \<Rightarrow> nat option" where
  "radix16_2 a b =
     (if a = CHR ''+'' then hex_val b
      else case (hex_val a, hex_val b) of (Some x, Some y) \<Rightarrow> Some (16 * x + y) | _ \<Rightarrow> None)"

fun check_escapes :: "string \<Rightarrow> target_error + unit" where
  "check_escapes [] = Inr ()"
| "check_escapes (c # cs) =
     (if c \<noteq> CHR ''%'' then check_escapes cs
      else case (case cs of a # b # _ \<Rightarrow> radix16_2 a b | _ \<Rightarrow> None) of
          Some d \<Rightarrow>
            if 0x21 \<le> d \<and> d \<le> 0x7e \<and> d \<noteq> 0x25 then check_escapes cs else Inl TargetEncodedByte
        | None \<Rightarrow> Inl TargetMalformedEscape)"

definition normalize_target :: "string \<Rightarrow> target_error + string" where
  "normalize_target raw =
     (if raw = [] then Inl TargetEmpty
      else if \<not> starts_with ''/'' raw then Inl TargetNotOriginForm
      else if CHR ''#'' \<in> set raw then Inl TargetFragment
      else if starts_with ''//'' raw then Inl TargetSchemeRelative
      else if get_at 1 raw = Some (char_of (92 :: nat)) then Inl TargetSlashBackslash
      else if char_of (92 :: nat) \<in> set raw then Inl TargetBackslash
      else if \<not> list_all visible raw then Inl TargetNotVisible
      else let (path, query) =
             (case split_once CHR ''?'' raw of Some (p, q) \<Rightarrow> (p, Some q) | None \<Rightarrow> (raw, None));
             lowered = to_ascii_lowercase path in
        if contains_sub ''%2f'' lowered \<or> contains_sub ''%5c'' lowered \<or> contains_sub ''%2e'' lowered
        then Inl TargetEncodedSeparator
        else try_bind (check_escapes path) (\<lambda>_.
          if CHR '';'' \<in> set path then Inl TargetPathParameter
          else if list_ex (\<lambda>s. s = ''.'' \<or> s = ''..'') (split_on CHR ''/'' path)
          then Inl TargetDotSegment
          else if contains_sub ''//'' path then Inl TargetEmptySegment
          else Inr (case query of Some q \<Rightarrow> path @ ''?'' @ q | None \<Rightarrow> path)))"

section \<open>Secrets and resolved credentials\<close>

datatype secret = Secret (expose: string)

definition header_value_byte :: "char \<Rightarrow> bool" where
  "header_value_byte c \<longleftrightarrow> code c = 9 \<or> (0x20 \<le> code c \<and> code c \<le> 0x7e)"

definition secret_is_blank :: "secret \<Rightarrow> bool" where
  "secret_is_blank s \<longleftrightarrow> trim (expose s) = []"

definition has_illegal_header_bytes :: "secret \<Rightarrow> bool" where
  "has_illegal_header_bytes s \<longleftrightarrow> \<not> list_all header_value_byte (expose s)"

datatype cred_scheme = Bearer

record credential_spec =
  spec_host :: string
  spec_scheme :: cred_scheme
  spec_source :: string
  spec_allow :: "string list"
  spec_mcp :: bool

text \<open>The store's \<open>BTreeMap\<close>, as its entries in key order.\<close>

record credential_store =
  store_version :: nat
  store_credentials :: "(string \<times> credential_spec) list"

datatype pinned_host = PinnedHost (pinned_name: safe_name)

record resolved_credential =
  rc_alias :: safe_name
  rc_host :: pinned_host
  rc_scheme :: cred_scheme
  rc_allow :: "request_rule list"
  rc_secret :: secret

abbreviation host_str :: "resolved_credential \<Rightarrow> string" where
  "host_str c \<equiv> as_str (pinned_name (rc_host c))"

definition cred_permits :: "resolved_credential \<Rightarrow> http_method \<Rightarrow> string \<Rightarrow> bool" where
  "cred_permits c m path \<longleftrightarrow> list_ex (\<lambda>r. rule_permits r m path) (rc_allow c)"

section \<open>Loading\<close>

datatype io_kind = NotFound | OtherIo

record file_meta =
  meta_is_file :: bool
  meta_mode :: nat
  meta_len :: nat

text \<open>
  What the loader asks of the host: \<open>symlink_metadata\<close>, \<open>read_to_string\<close>, \<open>env::var\<close> and
  the JSON parser (a failure carries its line and column only).
\<close>

record host_io =
  symlink_metadata :: "string \<Rightarrow> io_kind + file_meta"
  read_to_string :: "string \<Rightarrow> io_kind + string"
  env_var :: "string \<Rightarrow> string option"
  parse_store :: "string \<Rightarrow> (nat \<times> nat) + credential_store"

datatype read_reason = IoReason io_kind | TooLarge | MalformedJson nat nat

datatype spec_problem =
    CaseClash string
  | AliasMalformed
  | HostWildcard
  | HostMalformed
  | AllowMissing
  | AllowEntry allow_problem

datatype cred_error =
    NoStore string
  | BadMode string nat
  | NotRegular string
  | Unreadable string read_reason
  | BadVersion nat
  | BadSpec string spec_problem
  | Unavailable string
  | UnavailableOpaque

definition CREDENTIALS_VERSION :: nat where "CREDENTIALS_VERSION = 1"
definition MAX_SOURCE_BYTES :: nat where "MAX_SOURCE_BYTES = 65536"

fun for_caller :: "cred_error \<Rightarrow> caller \<Rightarrow> cred_error" where
  "for_caller e Model = UnavailableOpaque"
| "for_caller e Operator = e"

text \<open>\<open>seen.insert(folded, alias)\<close> over the keys in order; the first collision is the error.\<close>

fun check_case_clash :: "(string \<times> string) list \<Rightarrow> string list \<Rightarrow> cred_error + unit" where
  "check_case_clash seen [] = Inr ()"
| "check_case_clash seen (alias # rest) =
     (let folded = to_ascii_lowercase alias in
      case map_of seen folded of
        Some first \<Rightarrow> Inl (BadSpec alias (CaseClash first))
      | None \<Rightarrow> check_case_clash ((folded, alias) # seen) rest)"

definition group_or_other :: "nat \<Rightarrow> bool" where
  "group_or_other mode \<longleftrightarrow> and mode 0x3f \<noteq> 0"

definition read_store :: "host_io \<Rightarrow> string \<Rightarrow> cred_error + credential_store" where
  "read_store io path =
     try_bind (case symlink_metadata io path of
                 Inl NotFound \<Rightarrow> Inl (NoStore path)
               | Inl k \<Rightarrow> Inl (Unreadable path (IoReason k))
               | Inr m \<Rightarrow> Inr m) (\<lambda>meta.
     if \<not> meta_is_file meta then Inl (NotRegular path)
     else let mode = and (meta_mode meta) 0x1ff in
       if group_or_other mode then Inl (BadMode path mode)
       else if MAX_SOURCE_BYTES < meta_len meta then Inl (Unreadable path TooLarge)
       else try_bind (case read_to_string io path of
                        Inl k \<Rightarrow> Inl (Unreadable path (IoReason k)) | Inr r \<Rightarrow> Inr r) (\<lambda>raw.
         try_bind (case parse_store io raw of
                     Inl (l, c) \<Rightarrow> Inl (Unreadable path (MalformedJson l c)) | Inr s \<Rightarrow> Inr s) (\<lambda>store.
         if store_version store \<noteq> CREDENTIALS_VERSION then Inl (BadVersion (store_version store))
         else try_bind (check_case_clash [] (map fst (store_credentials store))) (\<lambda>_. Inr store))))"

datatype source_error =
    SourceEnvUnnamed
  | SourceEnvUnset
  | SourceNotAbsolute
  | SourceIo io_kind
  | SourceNotRegular
  | SourceTooLarge
  | SourceMode nat
  | SourceNoScheme
  | SourceEmpty
  | SourceIllegalBytes

definition resolve_source :: "host_io \<Rightarrow> string \<Rightarrow> source_error + secret" where
  "resolve_source io source =
     try_bind
       (case strip_prefix ''env:'' source of
          Some name \<Rightarrow>
            if name = [] then Inl SourceEnvUnnamed
            else map_sum id Secret (ok_or SourceEnvUnset (env_var io name))
        | None \<Rightarrow>
           (case strip_prefix ''file:'' source of
              None \<Rightarrow> Inl SourceNoScheme
            | Some path \<Rightarrow>
                if \<not> starts_with ''/'' path then Inl SourceNotAbsolute
                else (case symlink_metadata io path of
                    Inl k \<Rightarrow> Inl (SourceIo k)
                  | Inr meta \<Rightarrow>
                      if \<not> meta_is_file meta then Inl SourceNotRegular
                      else if MAX_SOURCE_BYTES < meta_len meta then Inl SourceTooLarge
                      else let mode = and (meta_mode meta) 0x1ff in
                        if group_or_other mode then Inl (SourceMode mode)
                        else (case read_to_string io path of
                            Inl k \<Rightarrow> Inl (SourceIo k)
                          | Inr raw \<Rightarrow> Inr (Secret (trim_end_matches (\<lambda>c. c = LF \<or> c = CR) raw))))))
       (\<lambda>secret.
          if secret_is_blank secret then Inl SourceEmpty
          else if has_illegal_header_bytes secret then Inl SourceIllegalBytes
          else Inr secret)"

fun parse_allow :: "string \<Rightarrow> string list \<Rightarrow> cred_error + request_rule list" where
  "parse_allow alias [] = Inr []"
| "parse_allow alias (entry # rest) =
     (case rule_parse entry of
        Inl problem \<Rightarrow> Inl (BadSpec alias (AllowEntry problem))
      | Inr rules \<Rightarrow> try_bind (parse_allow alias rest) (\<lambda>more. Inr (rules @ more)))"

definition find_spec :: "string \<Rightarrow> credential_store \<Rightarrow> credential_spec option" where
  "find_spec alias store =
     map_option snd (find (\<lambda>(k, _). eq_ignore_ascii_case k alias) (store_credentials store))"

definition resolve_one ::
  "host_io \<Rightarrow> string \<Rightarrow> credential_store \<Rightarrow> caller \<Rightarrow> cred_error + resolved_credential" where
  "resolve_one io alias store caller =
     (let unavailable = for_caller (Unavailable alias) caller in
      case find_spec alias store of
        None \<Rightarrow> Inl unavailable
      | Some spec \<Rightarrow>
          if caller = Model \<and> \<not> spec_mcp spec then Inl unavailable
          else case safe_name_parse alias of
            Inl _ \<Rightarrow> Inl (BadSpec alias AliasMalformed)
          | Inr alias_name \<Rightarrow>
              if CHR ''*'' \<in> set (spec_host spec) then Inl (BadSpec alias HostWildcard)
              else case safe_name_parse (spec_host spec) of
                Inl _ \<Rightarrow> Inl (BadSpec alias HostMalformed)
              | Inr host \<Rightarrow>
                  if spec_allow spec = [] then Inl (BadSpec alias AllowMissing)
                  else try_bind (parse_allow alias (spec_allow spec)) (\<lambda>allow.
                    case resolve_source io (spec_source spec) of
                      Inl _ \<Rightarrow> Inl unavailable
                    | Inr secret \<Rightarrow>
                        Inr \<lparr>rc_alias = alias_name, rc_host = PinnedHost host,
                             rc_scheme = spec_scheme spec, rc_allow = allow, rc_secret = secret\<rparr>))"

fun resolve_all ::
  "host_io \<Rightarrow> string list \<Rightarrow> credential_store \<Rightarrow> caller \<Rightarrow> cred_error + resolved_credential list" where
  "resolve_all io [] store caller = Inr []"
| "resolve_all io (alias # rest) store caller =
     try_bind (resolve_one io alias store caller) (\<lambda>c.
     try_bind (resolve_all io rest store caller) (\<lambda>cs. Inr (c # cs)))"

definition load_credentials ::
  "host_io \<Rightarrow> string list \<Rightarrow> caller \<Rightarrow> string \<Rightarrow> cred_error + resolved_credential list" where
  "load_credentials io required caller path =
     (if required = [] then Inr []
      else case try_bind (read_store io path) (\<lambda>store. resolve_all io required store caller) of
          Inl e \<Rightarrow> Inl (for_caller e caller)
        | Inr cs \<Rightarrow> Inr cs)"


section \<open>A normalised target means the same to a server that decodes it\<close>

text \<open>Percent-decoding, as an upstream server performs it once.\<close>

fun pct_decode :: "string \<Rightarrow> string" where
  "pct_decode [] = []"
| "pct_decode [c] = [c]"
| "pct_decode [c, d] = [c, d]"
| "pct_decode (c # a # b # r) =
     (if c = CHR ''%'' then
        (case (hex_val a, hex_val b) of
           (Some x, Some y) \<Rightarrow> char_of (16 * x + y) # pct_decode r
         | _ \<Rightarrow> c # pct_decode (a # b # r))
      else c # pct_decode (a # b # r))"

lemma pct_decode_plain: "c \<noteq> CHR ''%'' \<Longrightarrow> pct_decode (c # cs) = c # pct_decode cs"
  by (cases cs rule: pct_decode.cases) auto

lemma pct_decode_escape:
  "hex_val a = Some x \<Longrightarrow> hex_val b = Some y \<Longrightarrow>
   pct_decode (CHR ''%'' # a # b # r) = char_of (16 * x + y) # pct_decode r"
  by simp

lemma hex_val_less: "hex_val c = Some x \<Longrightarrow> x < 16"
  by (auto simp: hex_val_def is_ascii_digit_def split: if_splits)

lemma hex_val_special [simp]:
  "hex_val CHR ''%'' = None" "hex_val CHR ''/'' = None" "hex_val CHR ''?'' = None"
  by (simp_all add: hex_val_def is_ascii_digit_def code_def)

lemma radix16_2_visible:
  assumes "radix16_2 a b = Some d" and "0x21 \<le> d"
  obtains x y where "hex_val a = Some x" "hex_val b = Some y" "d = 16 * x + y"
  using assms hex_val_less [of b]
  by (auto simp: radix16_2_def split: if_splits option.splits)

lemma check_escapes_escape:
  assumes "check_escapes (CHR ''%'' # cs) = Inr u"
  obtains a b r x y where "cs = a # b # r" "hex_val a = Some x" "hex_val b = Some y"
    "0x21 \<le> 16 * x + y" "16 * x + y \<le> 0x7e" "16 * x + y \<noteq> 0x25" "check_escapes r = Inr u"
proof -
  from assms obtain d where d: "(case cs of a # b # _ \<Rightarrow> radix16_2 a b | _ \<Rightarrow> None) = Some d"
    and ok: "0x21 \<le> d" "d \<le> 0x7e" "d \<noteq> 0x25" and rest: "check_escapes cs = Inr u"
    by (auto split: option.splits if_splits)
  from d obtain a b r where cs: "cs = a # b # r" and r: "radix16_2 a b = Some d"
    by (auto split: list.splits)
  from r ok(1) obtain x y where xy: "hex_val a = Some x" "hex_val b = Some y" "d = 16 * x + y"
    by (rule radix16_2_visible)
  then have "a \<noteq> CHR ''%''" "b \<noteq> CHR ''%''" by auto
  with rest have "check_escapes r = Inr u" by (simp add: cs)
  with cs xy ok that show thesis by blast
qed

text \<open>No percent-encoded separator or dot in the path (the check on its lower-cased form).\<close>

definition no_encoded_sep :: "string \<Rightarrow> bool" where
  "no_encoded_sep p \<longleftrightarrow>
     \<not> contains_sub ''%2f'' (to_ascii_lowercase p) \<and> \<not> contains_sub ''%5c'' (to_ascii_lowercase p) \<and>
     \<not> contains_sub ''%2e'' (to_ascii_lowercase p)"

lemma no_encoded_sep_suffix: "no_encoded_sep (p @ q) \<Longrightarrow> no_encoded_sep q"
  unfolding no_encoded_sep_def contains_sub_iff to_ascii_lowercase_append
  by (metis append.assoc)

lemma no_encoded_sep_Cons: "no_encoded_sep (c # q) \<Longrightarrow> no_encoded_sep q"
  using no_encoded_sep_suffix [of "[c]" q] by simp

lemma hex_val_lower:
  "hex_val a = Some 2 \<longleftrightarrow> ascii_lower_char a = CHR ''2''"
  "hex_val a = Some 5 \<longleftrightarrow> ascii_lower_char a = CHR ''5''"
  "hex_val a = Some 15 \<longleftrightarrow> ascii_lower_char a = CHR ''f''"
  "hex_val a = Some 12 \<longleftrightarrow> ascii_lower_char a = CHR ''c''"
  "hex_val a = Some 14 \<longleftrightarrow> ascii_lower_char a = CHR ''e''"
proof -
  have lits: "code CHR ''2'' = 50" "code CHR ''5'' = 53" "code CHR ''f'' = 102"
    "code CHR ''c'' = 99" "code CHR ''e'' = 101"
    by (simp_all add: code_def)
  show "hex_val a = Some 2 \<longleftrightarrow> ascii_lower_char a = CHR ''2''"
    "hex_val a = Some 5 \<longleftrightarrow> ascii_lower_char a = CHR ''5''"
    "hex_val a = Some 15 \<longleftrightarrow> ascii_lower_char a = CHR ''f''"
    "hex_val a = Some 12 \<longleftrightarrow> ascii_lower_char a = CHR ''c''"
    "hex_val a = Some 14 \<longleftrightarrow> ascii_lower_char a = CHR ''e''"
    unfolding code_inj [symmetric] lits code_ascii_lower
    by (auto simp: hex_val_def ascii_class_defs)
qed

lemma escape_value_not_sep:
  assumes "no_encoded_sep (CHR ''%'' # a # b # r)" and "hex_val a = Some x" "hex_val b = Some y"
  shows "16 * x + y \<noteq> 0x2f" "16 * x + y \<noteq> 0x5c" "16 * x + y \<noteq> 0x2e"
proof -
  have y: "y < 16" using assms(3) by (rule hex_val_less)
  have pct: "ascii_lower_char CHR ''%'' = CHR ''%''"
    by (simp add: ascii_lower_char_def is_ascii_upper_def code_def)
  have no: "\<not> (ascii_lower_char a = p \<and> ascii_lower_char b = q)"
    if "\<not> contains_sub [CHR ''%'', p, q] (to_ascii_lowercase (CHR ''%'' # a # b # r))" for p q
    using that by (auto simp: to_ascii_lowercase_def pct starts_with_def)
  have "\<not> (x = 2 \<and> y = 15)" "\<not> (x = 5 \<and> y = 12)" "\<not> (x = 2 \<and> y = 14)"
    using assms no by (auto simp: no_encoded_sep_def hex_val_lower)
  with y show "16 * x + y \<noteq> 0x2f" "16 * x + y \<noteq> 0x5c" "16 * x + y \<noteq> 0x2e"
    by presburger+
qed

lemma char_of_neq: "n < 256 \<Longrightarrow> n \<noteq> code c \<Longrightarrow> char_of n \<noteq> c"
  by (metis code_char_of mod_less)

lemma split_on_prepend:
  "d \<notin> set p \<Longrightarrow> split_on d s = h # t \<Longrightarrow> split_on d (p @ s) = (p @ h) # t"
  by (induction p) auto

text \<open>
  One induction carries the whole argument: decoding creates no percent sign and no
  backslash, does not move a segment boundary, and a segment that decodes to dots only was
  already written with dots only.
\<close>

lemma decode_path:
  assumes "check_escapes p = Inr ()" and "no_encoded_sep p"
  shows "CHR ''%'' \<notin> set (pct_decode p)
    \<and> (char_of (92 :: nat) \<in> set (pct_decode p) \<longrightarrow> char_of (92 :: nat) \<in> set p)
    \<and> split_on CHR ''/'' (pct_decode p) = map pct_decode (split_on CHR ''/'' p)
    \<and> (\<forall>s \<in> set (split_on CHR ''/'' p). (\<forall>c \<in> set (pct_decode s). c = CHR ''.'') \<longrightarrow> pct_decode s = s)"
  using assms
proof (induction p rule: length_induct)
  case (1 p)
  show ?case
  proof (cases p)
    case Nil
    then show ?thesis by simp
  next
    case (Cons c cs)
    show ?thesis
    proof (cases "c = CHR ''%''")
      case True
      have "check_escapes (CHR ''%'' # cs) = Inr ()"
        using 1(2) by (simp only: Cons True)
      then obtain a b r x y where cs: "cs = a # b # r"
        and xy: "hex_val a = Some x" "hex_val b = Some y"
        and d: "0x21 \<le> 16 * x + y" "16 * x + y \<le> 0x7e" "16 * x + y \<noteq> 0x25"
        and r: "check_escapes r = Inr ()"
        by (rule check_escapes_escape)
      have sep: "16 * x + y \<noteq> 0x2f" "16 * x + y \<noteq> 0x5c" "16 * x + y \<noteq> 0x2e"
        using 1(3) xy escape_value_not_sep by (auto simp: Cons True cs)
      define d where "d = (char_of (16 * x + y) :: char)"
      have dn: "d \<noteq> CHR ''%''" "d \<noteq> CHR ''/''" "d \<noteq> CHR ''.''" "d \<noteq> char_of (92 :: nat)"
        unfolding code_inj [symmetric]
        using d sep by (simp_all add: d_def) (simp_all add: code_def)
      have "no_encoded_sep r"
        using 1(3) no_encoded_sep_suffix [of "[c, a, b]" r] by (simp add: Cons cs)
      moreover have "length r < length p" by (simp add: Cons cs)
      ultimately have IH: "CHR ''%'' \<notin> set (pct_decode r)
        \<and> (char_of (92 :: nat) \<in> set (pct_decode r) \<longrightarrow> char_of (92 :: nat) \<in> set r)
        \<and> split_on CHR ''/'' (pct_decode r) = map pct_decode (split_on CHR ''/'' r)
        \<and> (\<forall>s \<in> set (split_on CHR ''/'' r).
             (\<forall>c \<in> set (pct_decode s). c = CHR ''.'') \<longrightarrow> pct_decode s = s)"
        using 1(1) r by blast
      have ab: "a \<noteq> CHR ''/''" "b \<noteq> CHR ''/''" using xy by auto
      have dec: "pct_decode (CHR ''%'' # a # b # z) = d # pct_decode z" for z
        using xy by (simp add: d_def)
      obtain h t where ht: "split_on CHR ''/'' r = h # t"
        by (cases "split_on CHR ''/'' r") auto
      have sp: "split_on CHR ''/'' (CHR ''%'' # a # b # r) = (CHR ''%'' # a # b # h) # t"
        using ht ab by simp
      have "split_on CHR ''/'' (pct_decode r) = pct_decode h # map pct_decode t"
        using IH ht by simp
      then have spd: "split_on CHR ''/'' (d # pct_decode r) = map pct_decode ((CHR ''%'' # a # b # h) # t)"
        using dn by (simp add: dec del: pct_decode.simps)
      have head: "\<not> (\<forall>x \<in> set (pct_decode (CHR ''%'' # a # b # h)). x = CHR ''.'')"
        using dn unfolding dec by simp
      have tail: "\<forall>s \<in> set t. (\<forall>x \<in> set (pct_decode s). x = CHR ''.'') \<longrightarrow> pct_decode s = s"
        using IH ht by simp
      show ?thesis
        unfolding Cons True cs dec spd sp
      proof (intro conjI)
        show "CHR ''%'' \<notin> set (d # pct_decode r)" using IH dn by auto
        show "char_of (92 :: nat) \<in> set (d # pct_decode r) \<longrightarrow>
            char_of (92 :: nat) \<in> set (CHR ''%'' # a # b # r)"
          using IH dn by auto
        show "map pct_decode ((CHR ''%'' # a # b # h) # t) = map pct_decode ((CHR ''%'' # a # b # h) # t)" ..
        show "\<forall>s \<in> set ((CHR ''%'' # a # b # h) # t).
            (\<forall>c \<in> set (pct_decode s). c = CHR ''.'') \<longrightarrow> pct_decode s = s"
          using head tail unfolding list.set ball_simps by blast
      qed
    next
      case False
      have "check_escapes cs = Inr ()" "no_encoded_sep cs"
        using 1(2,3) False no_encoded_sep_Cons [of c cs] by (auto simp: Cons)
      moreover have "length cs < length p" by (simp add: Cons)
      ultimately have IH: "CHR ''%'' \<notin> set (pct_decode cs)
        \<and> (char_of (92 :: nat) \<in> set (pct_decode cs) \<longrightarrow> char_of (92 :: nat) \<in> set cs)
        \<and> split_on CHR ''/'' (pct_decode cs) = map pct_decode (split_on CHR ''/'' cs)
        \<and> (\<forall>s \<in> set (split_on CHR ''/'' cs).
             (\<forall>c \<in> set (pct_decode s). c = CHR ''.'') \<longrightarrow> pct_decode s = s)"
        using 1(1) by blast
      obtain h t where ht: "split_on CHR ''/'' cs = h # t"
        by (cases "split_on CHR ''/'' cs") auto
      have dec: "pct_decode (c # z) = c # pct_decode z" for z
        using False by (rule pct_decode_plain)
      show ?thesis
      proof (cases "c = CHR ''/''")
        case True
        then show ?thesis using IH unfolding Cons dec by (simp del: pct_decode.simps(2-))
      next
        case neq: False
        have head: "(\<forall>x \<in> set (pct_decode (c # h)). x = CHR ''.'') \<longrightarrow> pct_decode (c # h) = c # h"
          using IH ht unfolding dec by (simp del: pct_decode.simps)
        have tail: "\<forall>s \<in> set t. (\<forall>x \<in> set (pct_decode s). x = CHR ''.'') \<longrightarrow> pct_decode s = s"
          using IH ht by simp
        have sp: "split_on CHR ''/'' (c # cs) = (c # h) # t"
          using neq ht by simp
        have "split_on CHR ''/'' (pct_decode cs) = pct_decode h # map pct_decode t"
          using IH ht by simp
        then have spd: "split_on CHR ''/'' (c # pct_decode cs) = map pct_decode ((c # h) # t)"
          using neq by (simp add: dec del: pct_decode.simps)
        show ?thesis
          unfolding Cons dec spd sp
        proof (intro conjI)
          show "CHR ''%'' \<notin> set (c # pct_decode cs)" using IH False by auto
          show "char_of (92 :: nat) \<in> set (c # pct_decode cs) \<longrightarrow> char_of (92 :: nat) \<in> set (c # cs)"
            using IH by auto
          show "map pct_decode ((c # h) # t) = map pct_decode ((c # h) # t)" ..
          show "\<forall>s \<in> set ((c # h) # t). (\<forall>c \<in> set (pct_decode s). c = CHR ''.'') \<longrightarrow> pct_decode s = s"
            using head tail unfolding list.set ball_simps by blast
        qed
      qed
    qed
  qed
qed


lemma decode_path_idem:
  "CHR ''%'' \<notin> set p \<Longrightarrow> pct_decode p = p"
proof (induction p)
  case (Cons c p)
  then have "c \<noteq> CHR ''%''" by auto
  with Cons.IH Cons.prems show ?case by (simp add: pct_decode_plain)
qed simp

lemma normalize_target_checks:
  assumes "normalize_target raw = Inr t"
  shows "t = raw" "starts_with ''/'' raw" "list_all visible raw" "CHR ''#'' \<notin> set raw"
    "char_of (92 :: nat) \<notin> set raw" "\<not> starts_with ''//'' raw"
    "check_escapes (path_of_target raw) = Inr ()" "no_encoded_sep (path_of_target raw)"
    "\<forall>s \<in> set (split_on CHR ''/'' (path_of_target raw)). s \<noteq> ''.'' \<and> s \<noteq> ''..''"
    "\<not> contains_sub ''//'' (path_of_target raw)" "CHR '';'' \<notin> set (path_of_target raw)"
proof -
  have path: "(case split_once CHR ''?'' raw of Some (p, q) \<Rightarrow> (p, Some q) | None \<Rightarrow> (raw, None))
      = (path_of_target raw, map_option snd (split_once CHR ''?'' raw))"
    by (auto simp: path_of_target_def split: option.splits)
  have whole: "(case map_option snd (split_once CHR ''?'' raw) of
      Some q \<Rightarrow> path_of_target raw @ ''?'' @ q | None \<Rightarrow> path_of_target raw) = raw"
    by (auto simp: path_of_target_def text_simps split: option.splits)
  note facts = assms [unfolded normalize_target_def path Let_def split whole]
  show "t = raw" "starts_with ''/'' raw" "list_all visible raw" "CHR ''#'' \<notin> set raw"
    "char_of (92 :: nat) \<notin> set raw" "\<not> starts_with ''//'' raw"
    "check_escapes (path_of_target raw) = Inr ()" "no_encoded_sep (path_of_target raw)"
    "\<forall>s \<in> set (split_on CHR ''/'' (path_of_target raw)). s \<noteq> ''.'' \<and> s \<noteq> ''..''"
    "\<not> contains_sub ''//'' (path_of_target raw)" "CHR '';'' \<notin> set (path_of_target raw)"
    using facts by (auto simp: result_iff no_encoded_sep_def list_ex_iff split: if_splits)
qed

lemma path_of_target_prefix: "\<exists>q. t = path_of_target t @ q"
  by (auto simp: path_of_target_def text_simps split: option.splits)

text \<open>
  C33: an accepted request target is kept byte for byte, and its path reads the same to
  whoever decodes it: percent-decoding, once or repeatedly, keeps every segment boundary
  where the rule matcher saw it, yields no dot segment, no backslash and no further escape,
  and the path starts with exactly one slash and has no empty inner segment.
\<close>
theorem normalize_target_sound:
  assumes "normalize_target raw = Inr t"
  defines "p \<equiv> path_of_target t"
  shows "t = raw \<and>
    starts_with ''/'' p \<and> \<not> starts_with ''//'' p \<and> \<not> contains_sub ''//'' p \<and>
    split_on CHR ''/'' (pct_decode p) = map pct_decode (split_on CHR ''/'' p) \<and>
    list_all (\<lambda>s. s \<noteq> ''.'' \<and> s \<noteq> ''..'') (split_on CHR ''/'' (pct_decode p)) \<and>
    char_of (92 :: nat) \<notin> set (pct_decode p) \<and>
    pct_decode (pct_decode p) = pct_decode p"
proof -
  note checks = normalize_target_checks [OF assms(1)]
  have p: "p = path_of_target raw" by (simp add: p_def checks(1))
  note decode = decode_path [OF checks(7,8), folded p]
  obtain q where q: "raw = p @ q" using path_of_target_prefix [of raw] p by metis
  have "CHR ''?'' \<noteq> CHR ''/''" by simp
  then have slash: "starts_with ''/'' p"
    using checks(2) by (auto simp: p path_of_target_def text_simps Cons_eq_append_conv split: option.splits)
  have "char_of (92 :: nat) \<notin> set p" using checks(5) by (simp add: q)
  moreover have "list_all (\<lambda>s. s \<noteq> ''.'' \<and> s \<noteq> ''..'') (map pct_decode (split_on CHR ''/'' p))"
    using decode checks(9) by (fastforce simp: list_all_iff p)
  moreover have "\<not> starts_with ''//'' p" using checks(6) by (auto simp: q text_simps)
  ultimately show ?thesis
    using decode checks(1,10) slash decode_path_idem by (auto simp: p)
qed

theorem normalize_target_sound_witness:
  "normalize_target ''/repos/a%7Eb?x=..'' = Inr ''/repos/a%7Eb?x=..'' \<and>
   list_all (\<lambda>s. s \<noteq> ''.'' \<and> s \<noteq> ''..'')
     (split_on CHR ''/'' (pct_decode (path_of_target ''/repos/a%7Eb?x=..'')))"
proof -
  have "normalize_target ''/repos/a%7Eb?x=..'' = Inr ''/repos/a%7Eb?x=..''" by code_simp
  with normalize_target_sound [OF this] show ?thesis by blast
qed

section \<open>Path patterns\<close>

lemma list_all_zip_iff:
  "length xs \<le> length ys \<Longrightarrow>
   list_all (\<lambda>(x, y). P x y) (zip xs ys) \<longleftrightarrow> list_all2 P xs (take (length xs) ys)"
  by (induction xs ys rule: list_induct2') simp_all

text \<open>
  a path pattern matches exactly the targets whose path, query removed, splits into
  segments that fit the pattern one by one (a star fits any one segment), with a further
  suffix only where the pattern ends in a double star.
\<close>
theorem glob_matches_spec:
  "glob_matches g t \<longleftrightarrow>
     (\<exists>front rest. path_segments (path_of_target t) = front @ rest \<and>
        list_all2 (\<lambda>pat got. pat = ''*'' \<or> pat = got) (glob_segments g) front \<and>
        (trailing g \<or> rest = []))"
proof -
  let ?n = "length (glob_segments g)" and ?act = "path_segments (path_of_target t)"
  let ?fit = "\<lambda>pat got. pat = ''*'' \<or> pat = got"
  show ?thesis
  proof
    assume m: "glob_matches g t"
    then have le: "?n \<le> length ?act"
      by (auto simp: glob_matches_def Let_def split: if_splits)
    with m have "list_all2 ?fit (glob_segments g) (take ?n ?act)"
      by (simp add: glob_matches_def Let_def list_all_zip_iff split: if_splits)
    moreover have "trailing g \<or> drop ?n ?act = []"
      using m by (auto simp: glob_matches_def Let_def split: if_splits)
    moreover have "?act = take ?n ?act @ drop ?n ?act" by simp
    ultimately show "\<exists>front rest. ?act = front @ rest \<and>
        list_all2 ?fit (glob_segments g) front \<and> (trailing g \<or> rest = [])"
      by blast
  next
    assume "\<exists>front rest. ?act = front @ rest \<and>
        list_all2 ?fit (glob_segments g) front \<and> (trailing g \<or> rest = [])"
    then obtain front rest where act: "?act = front @ rest"
      and fit: "list_all2 ?fit (glob_segments g) front" and tr: "trailing g \<or> rest = []"
      by blast
    have len: "length front = ?n" using fit by (simp add: list_all2_lengthD)
    have "list_all (\<lambda>(pat, got). ?fit pat got) (zip (glob_segments g) ?act)"
      using fit len by (simp add: list_all_zip_iff act)
    with tr len act show "glob_matches g t"
      by (auto simp: glob_matches_def Let_def)
  qed
qed

lemma glob_parts_shape:
  "glob_parts parts = Inr (segs, tr) \<Longrightarrow> parts = segs @ (if tr then [''**''] else [])"
  by (induction parts arbitrary: segs tr) (auto simp: result_iff split: if_splits)

lemma join_with_snoc:
  "ps \<noteq> [] \<Longrightarrow> join_with sep (ps @ [q]) = join_with sep ps @ sep @ q"
  by (induction sep ps rule: join_with.induct) auto

text \<open>
  printing a parsed pattern gives back the text it was parsed from, so parsing what is
  printed (in the flight recorder, in reports) yields the same pattern.
\<close>
theorem glob_display_parse:
  assumes "glob_parse raw = Inr g"
  shows "glob_display g = raw \<and> glob_parse (glob_display g) = Inr g"
proof -
  from assms obtain body where raw: "raw = CHR ''/'' # body"
    by (auto simp: glob_parse_def result_iff starts_with_iff)
  have g: "(if body = [] then Inr \<lparr>glob_segments = [], trailing = False\<rparr>
      else try_bind (glob_parts (split_on CHR ''/'' body)) (\<lambda>(segs, tr).
             Inr \<lparr>glob_segments = segs, trailing = tr\<rparr>)) = Inr g"
    using assms by (simp add: glob_parse_def raw result_iff)
  have "glob_display g = raw"
  proof (cases "body = []")
    case True
    with g raw show ?thesis by (simp add: glob_display_def) (auto simp: glob_display_def)
  next
    case False
    with g obtain segs tr where parts: "glob_parts (split_on CHR ''/'' body) = Inr (segs, tr)"
      and g: "g = \<lparr>glob_segments = segs, trailing = tr\<rparr>"
      by (auto simp: result_iff)
    have "body = join_with ''/'' (segs @ (if tr then [''**''] else []))"
      using join_split_on [of "CHR ''/''" body] glob_parts_shape [OF parts] by simp
    then show ?thesis
      by (cases "segs = []") (auto simp: g raw glob_display_def join_with_snoc)
  qed
  with assms show ?thesis by simp
qed

theorem glob_display_parse_witness:
  "glob_display \<lparr>glob_segments = [''repos'', ''*''], trailing = True\<rparr> = ''/repos/*/**''"
proof -
  have "glob_parse ''/repos/*/**'' = Inr \<lparr>glob_segments = [''repos'', ''*''], trailing = True\<rparr>"
    by code_simp
  from glob_display_parse [OF this] show ?thesis by blast
qed

section \<open>Loading credentials\<close>

lemma safe_name_parse_iff:
  "safe_name_parse raw = Inr n \<longleftrightarrow> (\<exists>s. normalize_name raw = Inr s \<and> n = SafeName s)"
  by (auto simp: safe_name_parse_def result_iff)

lemma resolve_source_ok:
  "resolve_source io src = Inr s \<Longrightarrow> \<not> secret_is_blank s \<and> \<not> has_illegal_header_bytes s"
  by (auto simp: resolve_source_def result_iff split: if_splits)

text \<open>What one resolved credential owes to the store entry it came from.\<close>

definition resolves_from :: "host_io \<Rightarrow> credential_store \<Rightarrow> caller \<Rightarrow> string \<Rightarrow> resolved_credential \<Rightarrow> bool" where
  "resolves_from io store caller alias c \<longleftrightarrow>
     (\<exists>spec. find_spec alias store = Some spec \<and> (caller = Model \<longrightarrow> spec_mcp spec) \<and>
        safe_name_parse alias = Inr (rc_alias c) \<and>
        safe_name_parse (spec_host spec) = Inr (pinned_name (rc_host c)) \<and>
        CHR ''*'' \<notin> set (spec_host spec) \<and> spec_allow spec \<noteq> [] \<and>
        parse_allow alias (spec_allow spec) = Inr (rc_allow c) \<and>
        resolve_source io (spec_source spec) = Inr (rc_secret c))"

lemma resolve_one_ok:
  "resolve_one io alias store caller = Inr c \<Longrightarrow> resolves_from io store caller alias c"
  by (auto simp: resolve_one_def resolves_from_def Let_def result_iff)

lemma resolve_all_ok:
  "resolve_all io required store caller = Inr cs \<longleftrightarrow>
   list_all2 (\<lambda>alias c. resolve_one io alias store caller = Inr c) required cs"
  by (induction required arbitrary: cs) (auto simp: result_iff list_all2_Cons1)

lemma resolves_from_wf:
  "resolves_from io store caller al c \<Longrightarrow>
   wf_host (host_str c) \<and> wf_host (as_str (rc_alias c)) \<and>
   \<not> secret_is_blank (rc_secret c) \<and> \<not> has_illegal_header_bytes (rc_secret c)"
  using resolve_source_ok
  by (auto simp: resolves_from_def safe_name_parse_iff normalize_name_ok_iff)

lemma load_credentials_from_store:
  assumes "load_credentials io required caller path = Inr cs" and "required \<noteq> []"
  shows "\<exists>store. read_store io path = Inr store \<and>
    list_all2 (resolves_from io store caller) required cs"
proof -
  obtain store where store: "read_store io path = Inr store"
    and "resolve_all io required store caller = Inr cs"
    using assms by (auto simp: load_credentials_def result_iff split: sum.splits)
  then have "list_all2 (\<lambda>alias c. resolve_one io alias store caller = Inr c) required cs"
    by (simp add: resolve_all_ok)
  then have "list_all2 (resolves_from io store caller) required cs"
    by (rule list_all2_mono) (rule resolve_one_ok)
  with store show ?thesis by blast
qed

text \<open>
  Loading is all-or-nothing: success yields one credential per requested alias, in
  order, each from the store entry of that alias (opted in for a model caller), pinned to
  one well-formed host with no wildcard, with a token that is not blank and can stand in a
  header.
\<close>
theorem load_credentials_sound:
  assumes "load_credentials io required caller path = Inr cs" and "required \<noteq> []"
  shows "\<exists>store. read_store io path = Inr store \<and>
    list_all2 (resolves_from io store caller) required cs \<and>
    list_all (\<lambda>c. wf_host (host_str c) \<and> wf_host (as_str (rc_alias c)) \<and>
       \<not> secret_is_blank (rc_secret c) \<and> \<not> has_illegal_header_bytes (rc_secret c)) cs"
proof -
  obtain store where store: "read_store io path = Inr store"
    and from_store: "list_all2 (resolves_from io store caller) required cs"
    using load_credentials_from_store [OF assms] by blast
  have "wf_host (host_str c) \<and> wf_host (as_str (rc_alias c)) \<and>
      \<not> secret_is_blank (rc_secret c) \<and> \<not> has_illegal_header_bytes (rc_secret c)"
    if c: "c \<in> set cs" for c
  proof -
    from c from_store obtain al where "resolves_from io store caller al c"
      by (auto simp: list_all2_conv_all_nth in_set_conv_nth)
    then show ?thesis by (rule resolves_from_wf)
  qed
  with store from_store show ?thesis by (auto simp: list_all_iff)
qed


text \<open>A small host for the witnesses: one opted-in credential, its token in the environment.\<close>

definition sample_spec :: credential_spec where
  "sample_spec =
     \<lparr>spec_host = ''api.example.com'', spec_scheme = Bearer, spec_source = ''env:TOKEN'',
      spec_allow = [''readonly'', ''POST /issues/*''], spec_mcp = True\<rparr>"

definition sample_io :: host_io where
  "sample_io =
     \<lparr>symlink_metadata = (\<lambda>_. Inr \<lparr>meta_is_file = True, meta_mode = 384, meta_len = 100\<rparr>),
      read_to_string = (\<lambda>_. Inr ''text''),
      env_var = (\<lambda>n. if n = ''TOKEN'' then Some ''t0k3n'' else None),
      parse_store = (\<lambda>_. Inr \<lparr>store_version = 1, store_credentials = [(''GitHub'', sample_spec)]\<rparr>)\<rparr>"

definition sample_credential :: resolved_credential where
  "sample_credential =
     \<lparr>rc_alias = SafeName ''github'', rc_host = PinnedHost (SafeName ''api.example.com''),
      rc_scheme = Bearer,
      rc_allow =
        [\<lparr>rule_methods = [Get, Head], rule_path = \<lparr>glob_segments = [], trailing = True\<rparr>\<rparr>,
         \<lparr>rule_methods = [Post],
          rule_path = \<lparr>glob_segments = [''issues'', ''*''], trailing = False\<rparr>\<rparr>],
      rc_secret = Secret ''t0k3n''\<rparr>"

lemma sample_load:
  "load_credentials sample_io [''github''] Model ''store'' = Inr [sample_credential]"
  by code_simp

theorem load_credentials_sound_witness:
  "list_all (\<lambda>c. wf_host (host_str c)) [sample_credential]"
  using load_credentials_sound [OF sample_load] by (auto simp: list_all_iff)

text \<open>
  A model caller learns nothing from a failed request: whatever the store, the file
  system and the requested aliases are, the answer is either the resolved credentials, all
  of them opted in for model callers, or one fixed error.
\<close>
theorem model_caller_learns_nothing_from_failure:
  "load_credentials io required Model path = Inl UnavailableOpaque \<or>
   (\<exists>cs. load_credentials io required Model path = Inr cs \<and>
      (\<forall>store. read_store io path = Inr store \<longrightarrow>
         list_all (\<lambda>a. \<exists>spec. find_spec a store = Some spec \<and> spec_mcp spec) required))"
proof (cases "load_credentials io required Model path")
  case (Inl e)
  then show ?thesis
    by (auto simp: load_credentials_def split: if_splits sum.splits)
next
  case (Inr cs)
  have "list_all (\<lambda>a. \<exists>spec. find_spec a store = Some spec \<and> spec_mcp spec) required"
    if store: "read_store io path = Inr store" for store
  proof (cases "required = []")
    case False
    with Inr store have "list_all2 (\<lambda>a c. resolve_one io a store Model = Inr c) required cs"
      by (auto simp: load_credentials_def resolve_all_ok split: sum.splits)
    then show ?thesis
      using resolve_one_ok [of io _ store Model]
      by (fastforce simp: list_all_length list_all2_conv_all_nth resolves_from_def)
  qed simp
  with Inr show ?thesis by blast
qed

theorem model_caller_learns_nothing_from_failure_witness:
  "load_credentials sample_io [''nosuch''] Model ''store'' = Inl UnavailableOpaque"
proof -
  have "find_spec ''nosuch'' \<lparr>store_version = 1, store_credentials = [(''GitHub'', sample_spec)]\<rparr> = None"
    by code_simp
  moreover have "read_store sample_io ''store'' =
      Inr \<lparr>store_version = 1, store_credentials = [(''GitHub'', sample_spec)]\<rparr>"
    by code_simp
  ultimately show ?thesis
    using model_caller_learns_nothing_from_failure [of sample_io "[''nosuch'']" "''store''"] by auto
qed

lemma check_case_clash_ok:
  "check_case_clash seen keys = Inr u \<longleftrightarrow>
     distinct (map to_ascii_lowercase keys) \<and>
     set (map to_ascii_lowercase keys) \<inter> fst ` set seen = {}"
proof (induction keys arbitrary: seen)
  case (Cons k keys)
  show ?case
  proof (cases "map_of seen (to_ascii_lowercase k)")
    case None
    then have "to_ascii_lowercase k \<notin> fst ` set seen" by (simp add: map_of_eq_None_iff)
    with None Cons show ?thesis by auto
  next
    case (Some v)
    then have "to_ascii_lowercase k \<in> fst ` set seen"
      by (metis map_of_eq_None_iff option.distinct(1))
    with Some show ?thesis by auto
  qed
qed simp

lemma read_store_distinct:
  "read_store io path = Inr store \<Longrightarrow>
   distinct (map (\<lambda>e. to_ascii_lowercase (fst e)) (store_credentials store))"
  by (auto simp: read_store_def Let_def result_iff check_case_clash_ok comp_def)

text \<open>
  in a store that loads, an alias has one meaning: the entry found for it is the only
  entry whose name differs from it at most in case, so a token can never go to a host
  chosen by the order of the file.
\<close>
theorem alias_lookup_unambiguous:
  assumes "read_store io path = Inr store"
  shows "find_spec a store = Some spec \<longleftrightarrow>
    (\<exists>k. (k, spec) \<in> set (store_credentials store) \<and> eq_ignore_ascii_case k a)"
proof
  assume "find_spec a store = Some spec"
  then show "\<exists>k. (k, spec) \<in> set (store_credentials store) \<and> eq_ignore_ascii_case k a"
    by (auto simp: find_spec_def find_Some_iff) (metis nth_mem)
next
  assume "\<exists>k. (k, spec) \<in> set (store_credentials store) \<and> eq_ignore_ascii_case k a"
  then obtain k where k: "(k, spec) \<in> set (store_credentials store)" "eq_ignore_ascii_case k a"
    by blast
  let ?P = "\<lambda>(k, _ :: credential_spec). eq_ignore_ascii_case k a"
  have "find ?P (store_credentials store) \<noteq> None"
    using k by (auto simp: find_None_iff)
  then obtain k' spec' where f: "find ?P (store_credentials store) = Some (k', spec')" by auto
  then have k': "(k', spec') \<in> set (store_credentials store)" "eq_ignore_ascii_case k' a"
    by (auto simp: find_Some_iff) (metis nth_mem)
  have "inj_on (\<lambda>e. to_ascii_lowercase (fst e)) (set (store_credentials store))"
    using read_store_distinct [OF assms] by (simp add: distinct_map)
  then have "(k', spec') = (k, spec)"
    by (rule inj_onD) (use k k' in \<open>simp_all add: eq_ignore_ascii_case_def\<close>)
  with f show "find_spec a store = Some spec" by (simp add: find_spec_def)
qed

theorem alias_lookup_unambiguous_witness:
  "find_spec ''GITHUB'' \<lparr>store_version = 1, store_credentials = [(''GitHub'', sample_spec)]\<rparr> =
     Some sample_spec"
proof -
  have "read_store sample_io ''store'' =
      Inr \<lparr>store_version = 1, store_credentials = [(''GitHub'', sample_spec)]\<rparr>"
    by code_simp
  moreover have "eq_ignore_ascii_case ''GitHub'' ''GITHUB''" by code_simp
  ultimately show ?thesis
    using alias_lookup_unambiguous [of sample_io "''store''"] by auto
qed

end
