(* ===== verification/Framing.thy ===== *)
theory Framing
  imports Prelude
begin

text \<open>
  The contract of a framed byte stream: items written one after the other and closed by a
  terminator, read back by a step that takes one frame off the front. The credential
  endpoint's chunked body and the label sequence of a DNS name are both of this shape. A
  reader of such a stream gets back exactly what was written, and can tell a complete stream
  from one that was cut off after any whole frame.
\<close>

text \<open>
  \<open>read_frames step n s\<close> takes at most \<open>n\<close> frames off \<open>s\<close>: the items up to the terminator and
  what follows it, or \<^const>\<open>None\<close> when the stream is malformed or ends early.
\<close>

fun read_frames ::
  "('b list \<Rightarrow> ('c option \<times> 'b list) option) \<Rightarrow> nat \<Rightarrow> 'b list \<Rightarrow> ('c list \<times> 'b list) option" where
  "read_frames step 0 s = None"
| "read_frames step (Suc n) s =
     (case step s of
        None \<Rightarrow> None
      | Some (None, r) \<Rightarrow> Some ([], r)
      | Some (Some c, r) \<Rightarrow>
         (case read_frames step n r of None \<Rightarrow> None | Some (cs, r') \<Rightarrow> Some (c # cs, r')))"

locale framed_stream =
  fixes frame :: "'c \<Rightarrow> 'b list"
    and terminator :: "'b list"
    and step :: "'b list \<Rightarrow> ('c option \<times> 'b list) option"
    and ok :: "'c \<Rightarrow> bool"
  assumes step_frame: "ok c \<Longrightarrow> step (frame c @ r) = Some (Some c, r)"
    and step_terminator: "step (terminator @ r) = Some (None, r)"
    and step_end: "step [] = None"
    and frame_not_Nil: "frame c \<noteq> []"
begin

definition encode :: "'c list \<Rightarrow> 'b list" where
  "encode cs = concat (map frame cs)"

lemma encode_simps [simp]: "encode [] = []" "encode (c # cs) = frame c @ encode cs"
  by (simp_all add: encode_def)

lemma length_encode: "length cs \<le> length (encode cs)"
proof (induction cs)
  case (Cons c cs)
  have "0 < length (frame c)" using frame_not_Nil by blast
  then have "1 \<le> length (frame c)" by linarith
  with Cons show ?case by simp
qed simp

lemma read_encode:
  "list_all ok cs \<Longrightarrow> length cs < n \<Longrightarrow>
   read_frames step n (encode cs @ terminator @ r) = Some (cs, r)"
proof (induction cs arbitrary: n)
  case Nil
  then show ?case by (cases n) (simp_all add: step_terminator)
next
  case (Cons c cs)
  then obtain m where "n = Suc m" "length cs < m" by (cases n) auto
  with Cons show ?case by (simp add: step_frame)
qed

lemma read_truncated: "list_all ok cs \<Longrightarrow> read_frames step n (encode cs) = None"
proof (induction cs arbitrary: n)
  case Nil
  then show ?case by (cases n) (simp_all add: step_end)
next
  case (Cons c cs)
  then show ?case by (cases n) (simp_all add: step_frame)
qed

text \<open>The fuel that always suffices: one step per byte of the stream, and one more.\<close>

lemma round_trip:
  assumes "list_all ok cs"
  shows "read_frames step (Suc (length (encode cs @ terminator @ r))) (encode cs @ terminator @ r)
    = Some (cs, r)"
proof -
  have "length cs < Suc (length (encode cs @ terminator @ r))"
    using length_encode [of cs] by simp
  with assms show ?thesis by (rule read_encode)
qed

end

end
