(* ===== verification/Inject.thy ===== *)
theory Inject
  imports Credentials Framing
begin

text \<open>
  The credential endpoint's pure layer (\<open>crates/core/src/net/inject.rs\<close>): parsing what the
  guest asks for, authorising it against the run's credentials, building the upstream
  request from the broker's own parts, and framing the response. The theorems state that a
  credentialled request stays on its pinned origin, that a parsed intent is bounded and
  unambiguous, that the relayed head cannot be split, and that the chunked body is read
  back exactly and a cut-off one is recognised.
\<close>

section \<open>Bounds and refusals\<close>

definition MAX_INJECT_HEAD :: nat where "MAX_INJECT_HEAD = 8 * 1024"
definition MAX_INJECT_BODY :: nat where "MAX_INJECT_BODY = 1024 * 1024"
definition MAX_INJECT_RESP :: nat where "MAX_INJECT_RESP = 64 * 1024 * 1024"
definition MAX_HEADER_VALUE :: nat where "MAX_HEADER_VALUE = 1024"
definition MAX_RESPONSE_HEADERS :: nat where "MAX_RESPONSE_HEADERS = 64"

definition FORWARDABLE :: "string list" where
  "FORWARDABLE = [''accept'', ''content-type'']"

datatype inject_refusal =
    RefMalformed
  | HeadTooLarge
  | BadMethod
  | NoAlias
  | UnknownAlias
  | BadTarget
  | NotPermitted
  | BadHeader
  | BadBody

fun refusal_status :: "inject_refusal \<Rightarrow> nat" where
  "refusal_status RefMalformed = 400"
| "refusal_status NoAlias = 400"
| "refusal_status BadTarget = 400"
| "refusal_status BadHeader = 400"
| "refusal_status HeadTooLarge = 431"
| "refusal_status BadMethod = 405"
| "refusal_status UnknownAlias = 403"
| "refusal_status NotPermitted = 403"
| "refusal_status BadBody = 413"

fun refusal_explain :: "inject_refusal \<Rightarrow> string" where
  "refusal_explain RefMalformed = ''malformed request''"
| "refusal_explain HeadTooLarge = ''request head too large''"
| "refusal_explain BadMethod = ''method not usable with an injected credential''"
| "refusal_explain NoAlias = ''request path must begin with /<alias>/''"
| "refusal_explain UnknownAlias = ''no such credential is injected into this run''"
| "refusal_explain BadTarget = ''request target is not a safe origin-form path''"
| "refusal_explain NotPermitted =
     ''this credential does not permit that method and path; widen its '' @ quote_char @ ''allow'' @
     quote_char @ '' list if that is intended''"
| "refusal_explain BadHeader = ''a forwarded header was too long or malformed''"
| "refusal_explain BadBody = ''request body too large or ambiguously framed''"

fun refusal_tag :: "inject_refusal \<Rightarrow> string" where
  "refusal_tag RefMalformed = ''inject-malformed''"
| "refusal_tag HeadTooLarge = ''inject-head-too-large''"
| "refusal_tag BadMethod = ''inject-bad-method''"
| "refusal_tag NoAlias = ''inject-no-alias''"
| "refusal_tag UnknownAlias = ''inject-unknown-alias''"
| "refusal_tag BadTarget = ''inject-bad-target''"
| "refusal_tag NotPermitted = ''inject-not-permitted''"
| "refusal_tag BadHeader = ''inject-bad-header''"
| "refusal_tag BadBody = ''inject-bad-body''"

definition reason_phrase :: "nat \<Rightarrow> string" where
  "reason_phrase status =
     (if status = 400 then ''Bad Request''
      else if status = 403 then ''Forbidden''
      else if status = 405 then ''Method Not Allowed''
      else if status = 413 then ''Payload Too Large''
      else if status = 431 then ''Request Header Fields Too Large''
      else if status = 502 then ''Bad Gateway''
      else if status = 504 then ''Gateway Timeout''
      else ''Error'')"

definition fixed_response :: "nat \<Rightarrow> string \<Rightarrow> string" where
  "fixed_response status message =
     (let body = ''isopod credential endpoint: '' @ message @ [LF] in
      ''HTTP/1.1 '' @ show_nat status @ '' '' @ reason_phrase status @ crlf @
      ''Content-Type: text/plain'' @ crlf @
      ''Content-Length: '' @ show_nat (length body) @ crlf @
      ''Connection: close'' @ crlf @ crlf @ body)"

definition refusal_response :: "inject_refusal \<Rightarrow> string" where
  "refusal_response r = fixed_response (refusal_status r) (refusal_explain r)"

datatype upstream_failure = UpUnreachable | UpTimedOut | UpTooLarge

fun upstream_status :: "upstream_failure \<Rightarrow> nat" where
  "upstream_status UpUnreachable = 502"
| "upstream_status UpTooLarge = 502"
| "upstream_status UpTimedOut = 504"

fun upstream_explain :: "upstream_failure \<Rightarrow> string" where
  "upstream_explain UpUnreachable =
     ''the credential'' @ apostrophe @
     ''s pinned host could not be reached over TLS from the host''"
| "upstream_explain UpTimedOut =
     ''the credential'' @ apostrophe @ ''s pinned host did not answer in time''"
| "upstream_explain UpTooLarge =
     ''the response exceeded the endpoint'' @ apostrophe @ ''s size ceiling''"

fun upstream_tag :: "upstream_failure \<Rightarrow> string" where
  "upstream_tag UpUnreachable = ''inject-upstream-unreachable''"
| "upstream_tag UpTimedOut = ''inject-upstream-timeout''"
| "upstream_tag UpTooLarge = ''inject-response-too-large''"

definition upstream_response :: "upstream_failure \<Rightarrow> string" where
  "upstream_response f = fixed_response (upstream_status f) (upstream_explain f)"

section \<open>The response leg\<close>

definition RESPONSE_HEADER_DENY :: "string list" where
  "RESPONSE_HEADER_DENY =
     [''connection'', ''content-length'', ''keep-alive'', ''proxy-authenticate'',
      ''proxy-connection'', ''te'', ''trailer'', ''transfer-encoding'', ''upgrade'']"

definition header_name_byte :: "char \<Rightarrow> bool" where
  "header_name_byte c \<longleftrightarrow> is_ascii_alphanumeric c \<or> c = CHR ''-'' \<or> c = CHR ''_''"

definition relayable_header :: "string \<Rightarrow> string \<Rightarrow> bool" where
  "relayable_header lname value \<longleftrightarrow>
     lname \<notin> set RESPONSE_HEADER_DENY \<and> lname \<noteq> [] \<and> list_all header_name_byte lname \<and>
     length value \<le> MAX_HEADER_VALUE \<and> list_all header_value_byte value"

definition relay_headers :: "(string \<times> string) list \<Rightarrow> (string \<times> string) list" where
  "relay_headers headers =
     map (\<lambda>(n, v). (to_ascii_lowercase n, v))
       (take MAX_RESPONSE_HEADERS
          (filter (\<lambda>(n, v). relayable_header (to_ascii_lowercase n) v) headers))"

definition upstream_reason_phrase :: "nat \<Rightarrow> string" where
  "upstream_reason_phrase s =
     (if s = 200 then ''OK'' else if s = 201 then ''Created'' else if s = 202 then ''Accepted''
      else if s = 204 then ''No Content'' else if s = 301 then ''Moved Permanently''
      else if s = 302 then ''Found'' else if s = 304 then ''Not Modified''
      else if s = 307 then ''Temporary Redirect'' else if s = 308 then ''Permanent Redirect''
      else if s = 400 then ''Bad Request'' else if s = 401 then ''Unauthorized''
      else if s = 403 then ''Forbidden'' else if s = 404 then ''Not Found''
      else if s = 409 then ''Conflict'' else if s = 422 then ''Unprocessable Content''
      else if s = 429 then ''Too Many Requests'' else if s = 500 then ''Internal Server Error''
      else if s = 502 then ''Bad Gateway'' else if s = 503 then ''Service Unavailable''
      else if s = 504 then ''Gateway Timeout''
      else if 200 \<le> s \<and> s < 300 then ''OK''
      else if 300 \<le> s \<and> s < 400 then ''Redirection''
      else if 400 \<le> s \<and> s < 500 then ''Client Error''
      else ''Server Error'')"

definition status_line :: "nat \<Rightarrow> string" where
  "status_line status = ''HTTP/1.1 '' @ show_nat status @ '' '' @ upstream_reason_phrase status"

definition build_response_head :: "nat \<Rightarrow> (string \<times> string) list \<Rightarrow> string" where
  "build_response_head status headers =
     status_line status @ crlf @
     concat (map (\<lambda>(name, value). name @ '': '' @ value @ crlf) headers) @
     ''Transfer-Encoding: chunked'' @ crlf @ ''Connection: close'' @ crlf @ crlf"

definition chunk_frame :: "bytes \<Rightarrow> bytes" where
  "chunk_frame bs = bytes_of (show_hex (length bs) @ crlf) @ bs @ bytes_of crlf"

definition CHUNK_TERMINATOR :: bytes where
  "CHUNK_TERMINATOR = bytes_of (''0'' @ crlf @ crlf)"

section \<open>The guest's stated intent\<close>

record stated_intent =
  si_alias :: string
  si_method :: http_method
  si_path :: string
  si_headers :: "(string \<times> string) list"
  si_body_len :: nat

definition split_alias :: "string \<Rightarrow> inject_refusal + string \<times> string" where
  "split_alias target =
     (case strip_prefix ''/'' target of
        None \<Rightarrow> Inl NoAlias
      | Some body \<Rightarrow>
         (let (al, rest) = (case split_once CHR ''/'' body of
                              Some (a, r) \<Rightarrow> (a, ''/'' @ r) | None \<Rightarrow> (body, ''/'')) in
          if al = [] then Inl NoAlias
          else if \<not> list_all header_name_byte al then Inl NoAlias
          else Inr (to_ascii_lowercase al, rest)))"

text \<open>The header loop: collected headers and the declared length so far, line by line.\<close>

fun intent_headers ::
  "(string \<times> string) list \<Rightarrow> nat option \<Rightarrow> string list \<Rightarrow> inject_refusal + (string \<times> string) list \<times> nat option" where
  "intent_headers hs len [] = Inr (hs, len)"
| "intent_headers hs len (line # rest) =
     (if line = [] then Inr (hs, len)
      else case split_once CHR '':'' line of
          None \<Rightarrow> Inl RefMalformed
        | Some (name, raw_value) \<Rightarrow>
           (let lname = to_ascii_lowercase (trim name); value = trim raw_value in
            if lname = ''content-length'' then
              (case parse_uint (2 ^ 64 - 1) value of
                 None \<Rightarrow> Inl BadBody
               | Some n \<Rightarrow>
                   if len \<noteq> None then Inl BadBody
                   else if MAX_INJECT_BODY < n then Inl BadBody
                   else intent_headers hs (Some n) rest)
            else if lname = ''transfer-encoding'' then Inl BadBody
            else if lname \<notin> set FORWARDABLE then intent_headers hs len rest
            else if MAX_HEADER_VALUE < length value then Inl BadHeader
            else if \<not> list_all header_value_byte value then Inl BadHeader
            else if list_ex (\<lambda>(n, _). n = lname) hs then Inl BadHeader
            else intent_headers (hs @ [(lname, value)]) len rest))"

definition parse_intent :: "bytes \<Rightarrow> inject_refusal + stated_intent" where
  "parse_intent head =
     (if MAX_INJECT_HEAD < length head then Inl HeadTooLarge
      else case from_utf8 head of
          None \<Rightarrow> Inl RefMalformed
        | Some text \<Rightarrow>
           (case split_crlf text of
              [] \<Rightarrow> Inl RefMalformed
            | request_line # lines \<Rightarrow>
               (case split_on CHR '' '' request_line of
                  [method_raw, target, version] \<Rightarrow>
                    if \<not> starts_with ''HTTP/'' version then Inl RefMalformed
                    else case method_parse method_raw of
                        None \<Rightarrow> Inl BadMethod
                      | Some method \<Rightarrow>
                          try_bind (split_alias target) (\<lambda>(al, rest).
                          case normalize_target rest of
                            Inl _ \<Rightarrow> Inl BadTarget
                          | Inr path \<Rightarrow>
                              try_bind (intent_headers [] None lines) (\<lambda>(hs, len).
                              Inr \<lparr>si_alias = al, si_method = method, si_path = path, si_headers = hs,
                                   si_body_len = (case len of Some n \<Rightarrow> n | None \<Rightarrow> 0)\<rparr>))
                | _ \<Rightarrow> Inl RefMalformed)))"

section \<open>Authorisation and construction\<close>

record upstream_request =
  ur_url :: string
  ur_method :: http_method
  ur_headers :: "(string \<times> string) list"
  ur_alias :: string
  ur_host :: string

definition authorize ::
  "resolved_credential list \<Rightarrow> stated_intent \<Rightarrow> inject_refusal + upstream_request \<times> resolved_credential" where
  "authorize creds intent =
     (case find (\<lambda>c. as_str (rc_alias c) = si_alias intent) creds of
        None \<Rightarrow> Inl UnknownAlias
      | Some cred \<Rightarrow>
          if \<not> cred_permits cred (si_method intent) (si_path intent) then Inl NotPermitted
          else Inr (\<lparr>ur_url = ''https://'' @ host_str cred @ si_path intent,
                     ur_method = si_method intent, ur_headers = si_headers intent,
                     ur_alias = si_alias intent, ur_host = host_str cred\<rparr>, cred))"

section \<open>A parsed intent is bounded and unambiguous\<close>

lemma intent_headers_inv:
  assumes "intent_headers hs len lines = Inr (hs', len')"
    and "set (map fst hs) \<subseteq> set FORWARDABLE" "distinct (map fst hs)"
    and "\<forall>(n, v) \<in> set hs. length v \<le> MAX_HEADER_VALUE \<and> list_all header_value_byte v"
    and "\<forall>n. len = Some n \<longrightarrow> n \<le> MAX_INJECT_BODY"
  shows "set (map fst hs') \<subseteq> set FORWARDABLE \<and> distinct (map fst hs') \<and>
    (\<forall>(n, v) \<in> set hs'. length v \<le> MAX_HEADER_VALUE \<and> list_all header_value_byte v) \<and>
    (\<forall>n. len' = Some n \<longrightarrow> n \<le> MAX_INJECT_BODY)"
  using assms
proof (induction hs len lines arbitrary: hs' len' rule: intent_headers.induct)
  case (2 hs len line rest)
  show ?case
  proof (cases "line = []")
    case True
    with 2 show ?thesis by simp
  next
    case False
    then obtain name raw where sp: "split_once CHR '':'' line = Some (name, raw)"
      using 2(4) by (auto split: option.splits)
    let ?l = "to_ascii_lowercase (trim name)" and ?v = "trim raw"
    consider (len) "?l = ''content-length''" | (skip) "?l \<noteq> ''content-length''" "?l \<notin> set FORWARDABLE"
      | (add) "?l \<noteq> ''content-length''" "?l \<in> set FORWARDABLE"
      by blast
    then show ?thesis
    proof cases
      case len
      with 2(4) False sp obtain n where n: "parse_uint (2 ^ 64 - 1) ?v = Some n"
        "len = None" "\<not> MAX_INJECT_BODY < n" "intent_headers hs (Some n) rest = Inr (hs', len')"
        by (auto simp: Let_def result_iff)
      show ?thesis
        using 2(1) [OF False sp refl refl refl len n(1)] n 2(5-7) by simp
    next
      case skip
      with 2(4) False sp have r: "?l \<noteq> ''transfer-encoding''" "intent_headers hs len rest = Inr (hs', len')"
        by (auto simp: Let_def result_iff)
      show ?thesis
        using 2(2) [OF False sp refl refl refl skip(1) r(1) skip(2) r(2)] 2(5-8) by simp
    next
      case add
      with 2(4) False sp have r: "?l \<noteq> ''transfer-encoding''" "\<not> MAX_HEADER_VALUE < length ?v"
        "list_all header_value_byte ?v" "\<not> list_ex (\<lambda>(n, _). n = ?l) hs"
        "intent_headers (hs @ [(?l, ?v)]) len rest = Inr (hs', len')"
        by (auto simp: Let_def result_iff split: if_splits)
      have "?l \<notin> set (map fst hs)" using r(4) by (auto simp: list_ex_iff)
      with add r 2(5-8) show ?thesis
        using 2(3) [OF False sp refl refl refl add(1) r(1)] by auto
    qed
  qed
qed simp

text \<open>
  The reference reading of a header block: the fields of its lines up to the first empty one,
  names folded to lower case, both halves trimmed.
\<close>

definition field_of :: "string \<Rightarrow> string \<times> string" where
  "field_of line =
     (case split_once CHR '':'' line of
        Some (n, v) \<Rightarrow> (to_ascii_lowercase (trim n), trim v) | None \<Rightarrow> ([], []))"

definition fields :: "string list \<Rightarrow> (string \<times> string) list" where
  "fields lines = map field_of (takeWhile (\<lambda>l. l \<noteq> []) lines)"

definition values_of :: "string \<Rightarrow> (string \<times> string) list \<Rightarrow> string list" where
  "values_of name fs = map snd (filter (\<lambda>(n, _). n = name) fs)"

lemma fields_Cons: "fields (line # rest) = (if line = [] then [] else field_of line # fields rest)"
  by (simp add: fields_def)

lemma values_of_Cons: "values_of name ((n, v) # fs) = (if n = name then v # values_of name fs else values_of name fs)"
  by (simp add: values_of_def)

lemma values_of_Nil [simp]: "values_of name [] = []"
  by (simp add: values_of_def)

text \<open>What a successful header loop says about the fields it read.\<close>

definition framing_of :: "string list \<Rightarrow> nat option \<Rightarrow> nat option \<Rightarrow> bool" where
  "framing_of ls len len' \<longleftrightarrow>
     (case ls of
        [] \<Rightarrow> len' = len
      | [v] \<Rightarrow> len = None \<and> len' \<noteq> None \<and> parse_uint (2 ^ 64 - 1) v = len'
      | _ \<Rightarrow> False)"

lemma framing_of_Cons_iff:
  "framing_of (v # ls) len len' \<longleftrightarrow>
     len = None \<and> len' \<noteq> None \<and> parse_uint (2 ^ 64 - 1) v = len' \<and> ls = []"
  by (cases ls) (auto simp: framing_of_def)

lemma framing_of_Some: "framing_of ls (Some n) len' \<longleftrightarrow> ls = [] \<and> len' = Some n"
  by (cases ls; cases "tl ls") (auto simp: framing_of_def)

lemma intent_headers_exact:
  assumes "intent_headers hs len lines = Inr (hs', len')"
  shows "hs' = hs @ filter (\<lambda>(n, _). n \<in> set FORWARDABLE) (fields lines) \<and>
    values_of ''transfer-encoding'' (fields lines) = [] \<and>
    framing_of (values_of ''content-length'' (fields lines)) len len'"
  using assms
proof (induction hs len lines arbitrary: hs' len' rule: intent_headers.induct)
  case (1 hs len)
  then show ?case by (simp add: fields_def framing_of_def)
next
  case (2 hs len line rest)
  show ?case
  proof (cases "line = []")
    case True
    with 2(4) show ?thesis by (simp add: fields_def framing_of_def)
  next
    case False
    then obtain name raw where sp: "split_once CHR '':'' line = Some (name, raw)"
      using 2(4) by (auto split: option.splits)
    let ?l = "to_ascii_lowercase (trim name)" and ?v = "trim raw"
    have f: "fields (line # rest) = (?l, ?v) # fields rest"
      using False sp by (simp add: fields_Cons field_of_def)
    have fwd: "''content-length'' \<notin> set FORWARDABLE"
      by (simp add: FORWARDABLE_def)
    consider (len) "?l = ''content-length''" | (skip) "?l \<noteq> ''content-length''" "?l \<notin> set FORWARDABLE"
      | (add) "?l \<noteq> ''content-length''" "?l \<in> set FORWARDABLE"
      by blast
    then show ?thesis
    proof cases
      case len
      with 2(4) False sp obtain n where n: "parse_uint (2 ^ 64 - 1) ?v = Some n"
        "len = None" "\<not> MAX_INJECT_BODY < n" "intent_headers hs (Some n) rest = Inr (hs', len')"
        by (auto simp: Let_def result_iff)
      show ?thesis
        using 2(1) [OF False sp refl refl refl len n(1)] n len fwd
        by (simp add: f values_of_Cons framing_of_Some framing_of_Cons_iff)
    next
      case skip
      with 2(4) False sp have r: "?l \<noteq> ''transfer-encoding''" "intent_headers hs len rest = Inr (hs', len')"
        by (auto simp: Let_def result_iff)
      show ?thesis
        using 2(2) [OF False sp refl refl refl skip(1) r(1) skip(2) r(2)] skip r(1)
        by (simp add: f values_of_Cons)
    next
      case add
      with 2(4) False sp have r: "?l \<noteq> ''transfer-encoding''" "\<not> MAX_HEADER_VALUE < length ?v"
        "list_all header_value_byte ?v" "\<not> list_ex (\<lambda>(n, _). n = ?l) hs"
        "intent_headers (hs @ [(?l, ?v)]) len rest = Inr (hs', len')"
        by (auto simp: Let_def result_iff split: if_splits)
      then show ?thesis
        using 2(3) [OF False sp refl refl refl add(1) r(1)] add
        by (simp add: f values_of_Cons)
    qed
  qed
qed

lemma parse_intent_parts:
  assumes "parse_intent head = Inr i"
  obtains str request_line lines method_raw target version rest len where
    "length head \<le> MAX_INJECT_HEAD" "from_utf8 head = Some str"
    "split_crlf str = request_line # lines"
    "split_on CHR '' '' request_line = [method_raw, target, version]"
    "starts_with ''HTTP/'' version" "method_parse method_raw = Some (si_method i)"
    "split_alias target = Inr (si_alias i, rest)" "normalize_target rest = Inr (si_path i)"
    "intent_headers [] None lines = Inr (si_headers i, len)"
    "si_body_len i = (case len of Some n \<Rightarrow> n | None \<Rightarrow> 0)"
proof -
  from assms obtain str where str: "from_utf8 head = Some str" and
    len: "length head \<le> MAX_INJECT_HEAD"
    by (auto simp: parse_intent_def result_iff)
  from assms str len obtain rl lines where sp: "split_crlf str = rl # lines"
    by (cases "split_crlf str") (auto simp: parse_intent_def)
  from assms str len sp obtain m t v where line: "split_on CHR '' '' rl = [m, t, v]"
    by (auto simp: parse_intent_def split: list.splits)
  from assms str len sp line obtain meth where v: "starts_with ''HTTP/'' v"
    and m: "method_parse m = Some meth"
    by (auto simp: parse_intent_def result_iff)
  from assms str len sp line v m obtain al rest path hs l where
    a: "split_alias t = Inr (al, rest)" "normalize_target rest = Inr path"
      "intent_headers [] None lines = Inr (hs, l)"
    and i: "i = \<lparr>si_alias = al, si_method = meth, si_path = path, si_headers = hs,
       si_body_len = (case l of Some n \<Rightarrow> n | None \<Rightarrow> 0)\<rparr>"
    by (auto simp: parse_intent_def result_iff)
  show ?thesis
    by (rule that [OF len str sp line v]) (use m a i in simp_all)
qed

lemma split_alias_ok:
  assumes "split_alias target = Inr (al, rest)"
  shows "al \<noteq> [] \<and> list_all lower_host_byte al"
proof -
  have hb: "header_name_byte c \<longleftrightarrow> host_byte c" for c
    by (simp add: header_name_byte_def host_byte_def)
  from assms obtain a where "al = to_ascii_lowercase a" "a \<noteq> []" "list_all header_name_byte a"
    by (auto simp: split_alias_def result_iff Let_def split: option.splits prod.splits if_splits)
  then show ?thesis
    by (auto simp: list_all_iff hb to_ascii_lowercase_def host_byte_lower)
qed

text \<open>
  What the credential endpoint accepts from a guest is bounded and means one thing: the
  head is at most 8 KiB, the alias is a plain lower-case segment, the path passed target
  normalisation unchanged, the forwarded headers are exactly the \<open>Accept\<close> and
  \<open>Content-Type\<close> fields of the head in their order, each at most once and legal, there is no
  \<open>Transfer-Encoding\<close>, and the body length is zero or the value of the one
  \<open>Content-Length\<close> field, at most 1 MiB.
\<close>
theorem parse_intent_unambiguous:
  assumes "parse_intent head = Inr i"
  defines "fs \<equiv> fields (tl (split_crlf (map byte_char head)))"
  shows "length head \<le> 8192 \<and> si_alias i \<noteq> [] \<and> list_all lower_host_byte (si_alias i) \<and>
    normalize_target (si_path i) = Inr (si_path i) \<and>
    si_headers i = filter (\<lambda>(n, _). n = ''accept'' \<or> n = ''content-type'') fs \<and>
    distinct (map fst (si_headers i)) \<and>
    list_all (\<lambda>(_, v). length v \<le> 1024 \<and> list_all header_value_byte v) (si_headers i) \<and>
    values_of ''transfer-encoding'' fs = [] \<and>
    (case values_of ''content-length'' fs of
       [] \<Rightarrow> si_body_len i = 0
     | [v] \<Rightarrow> parse_uint (2 ^ 64 - 1) v = Some (si_body_len i) \<and> si_body_len i \<le> 1048576
     | _ \<Rightarrow> False)"
proof -
  from assms(1) obtain str request_line lines method_raw target version rest len where
    len: "length head \<le> MAX_INJECT_HEAD" and str: "from_utf8 head = Some str"
    and sp: "split_crlf str = request_line # lines"
    and al: "split_alias target = Inr (si_alias i, rest)"
    and path: "normalize_target rest = Inr (si_path i)"
    and hs: "intent_headers [] None lines = Inr (si_headers i, len)"
    and body: "si_body_len i = (case len of Some n \<Rightarrow> n | None \<Rightarrow> 0)"
    by (rule parse_intent_parts)
  have fs: "fs = fields lines" using str sp by (simp add: fs_def text_simps)
  note inv = intent_headers_inv [OF hs, simplified]
  note ex = intent_headers_exact [OF hs, simplified]
  have path_fixed: "normalize_target (si_path i) = Inr (si_path i)"
    using path normalize_target_checks(1) [OF path] by simp
  have vals: "list_all (\<lambda>(_, v). length v \<le> 1024 \<and> list_all header_value_byte v) (si_headers i)"
    using inv by (auto simp: list_all_iff MAX_HEADER_VALUE_def)
  have framing: "case values_of ''content-length'' fs of
       [] \<Rightarrow> si_body_len i = 0
     | [v] \<Rightarrow> parse_uint (2 ^ 64 - 1) v = Some (si_body_len i) \<and> si_body_len i \<le> 1048576
     | _ \<Rightarrow> False"
    using ex inv body unfolding fs framing_of_def
    by (auto simp: MAX_INJECT_BODY_def split: list.splits option.splits)
  show ?thesis
    using len split_alias_ok [OF al] path_fixed vals framing ex inv
    by (simp add: fs MAX_INJECT_HEAD_def FORWARDABLE_def)
qed

definition sample_head :: bytes where
  "sample_head =
     bytes_of (''POST /GitHub/issues/7 HTTP/1.1'' @ crlf @ ''Accept: text/plain'' @ crlf @
               ''Cookie: x'' @ crlf @ ''Content-Length: 12'' @ crlf @ crlf)"

definition sample_intent :: stated_intent where
  "sample_intent =
     \<lparr>si_alias = ''github'', si_method = Post, si_path = ''/issues/7'',
      si_headers = [(''accept'', ''text/plain'')], si_body_len = 12\<rparr>"

lemma sample_parse: "parse_intent sample_head = Inr sample_intent"
  by code_simp

theorem parse_intent_unambiguous_witness:
  "length sample_head \<le> 8192 \<and> distinct (map fst (si_headers sample_intent))"
  using parse_intent_unambiguous [OF sample_parse] by blast

section \<open>A credentialled request stays on its pinned origin\<close>

lemma authorize_iff:
  "authorize creds i = Inr (r, c) \<longleftrightarrow>
     find (\<lambda>c. as_str (rc_alias c) = si_alias i) creds = Some c \<and>
     cred_permits c (si_method i) (si_path i) \<and>
     r = \<lparr>ur_url = ''https://'' @ host_str c @ si_path i, ur_method = si_method i,
          ur_headers = si_headers i, ur_alias = si_alias i, ur_host = host_str c\<rparr>"
  by (auto simp: authorize_def result_iff)

lemma wf_host_no_slash: "wf_host h \<Longrightarrow> list_all (\<lambda>c. lower_host_byte c \<or> c = CHR ''.'') h"
  using split_on_set [of _ h "CHR ''.''"]
  by (fastforce simp: wf_host_def list_all_iff wf_label_def)

lemma host_char_plain:
  "lower_host_byte c \<or> c = CHR ''.'' \<Longrightarrow> c \<noteq> CHR ''/'' \<and> c \<noteq> CHR ''@'' \<and> c \<noteq> CHR '':'' \<and> c \<noteq> CHR ''?''"
  by (auto simp: lower_host_byte_def ascii_class_defs code_def)

text \<open>
  C31: a request the endpoint authorises uses a credential loaded for the run whose alias the
  guest named and whose rules permit the method and path, carries only what was parsed, and
  goes to that credential's own host: read by any client, the URL's scheme is https and its
  authority, everything up to the next slash, is the pinned host, with no user part and no
  port in it.
\<close>
theorem authorize_stays_on_pinned_origin:
  assumes load: "load_credentials io required caller path = Inr creds"
    and parse: "parse_intent head = Inr i"
    and auth: "authorize creds i = Inr (r, c)"
  shows "c \<in> set creds \<and> as_str (rc_alias c) = si_alias i \<and>
    cred_permits c (si_method i) (si_path i) \<and>
    ur_method r = si_method i \<and> ur_headers r = si_headers i \<and> ur_host r = host_str c \<and>
    (\<exists>rest. strip_prefix ''https://'' (ur_url r) = Some rest \<and>
       split_once CHR ''/'' rest = Some (host_str c, tl (si_path i))) \<and>
    list_all (\<lambda>ch. ch \<noteq> CHR ''@'' \<and> ch \<noteq> CHR '':'' \<and> ch \<noteq> CHR ''?'') (host_str c)"
proof -
  note a = auth [unfolded authorize_iff]
  then have c: "c \<in> set creds" "as_str (rc_alias c) = si_alias i"
    by (auto simp: find_Some_iff)
  have "required \<noteq> []" using load c by (auto simp: load_credentials_def)
  with load obtain store where "list_all2 (resolves_from io store caller) required creds"
    using load_credentials_from_store by blast
  with c obtain al where "resolves_from io store caller al c"
    by (auto simp: list_all2_conv_all_nth in_set_conv_nth)
  then have wf: "wf_host (host_str c)" using resolves_from_wf by blast
  note plain = wf_host_no_slash [OF wf]
  obtain rest where n: "normalize_target rest = Inr (si_path i)"
    using parse by (rule parse_intent_parts)
  then obtain p where p: "si_path i = CHR ''/'' # p"
    using normalize_target_checks(1,2) [OF n] by (auto simp: starts_with_iff)
  have "CHR ''/'' \<notin> set (host_str c)" using plain host_char_plain by (auto simp: list_all_iff)
  then have "split_once CHR ''/'' (host_str c @ si_path i) = Some (host_str c, tl (si_path i))"
    by (simp add: split_once_Some_iff p)
  moreover have "strip_prefix ''https://'' (ur_url r) = Some (host_str c @ si_path i)"
    using a by simp
  moreover have "list_all (\<lambda>ch. ch \<noteq> CHR ''@'' \<and> ch \<noteq> CHR '':'' \<and> ch \<noteq> CHR ''?'') (host_str c)"
    using plain host_char_plain by (auto simp: list_all_iff)
  ultimately show ?thesis using a c by auto
qed

theorem authorize_stays_on_pinned_origin_witness:
  "\<exists>r c. authorize [sample_credential] sample_intent = Inr (r, c) \<and> ur_host r = ''api.example.com''"
proof -
  have "authorize [sample_credential] sample_intent =
    Inr (\<lparr>ur_url = ''https://api.example.com/issues/7'', ur_method = Post,
          ur_headers = [(''accept'', ''text/plain'')], ur_alias = ''github'',
          ur_host = ''api.example.com''\<rparr>, sample_credential)"
    by code_simp
  from this authorize_stays_on_pinned_origin [OF sample_load sample_parse this] show ?thesis
    by (auto simp: sample_credential_def)
qed

text \<open>
  A credential whose alias contains a dot loads (the alias is checked as a host name,
  which admits dots) but no request can use it: the endpoint only accepts aliases without
  dots, so every parsed request that is authorised at all uses a different credential.
\<close>
theorem dotted_alias_unreachable:
  assumes "CHR ''.'' \<in> set (as_str (rc_alias c))" and "parse_intent head = Inr i"
  shows "authorize creds i \<noteq> Inr (r, c)"
proof
  assume "authorize creds i = Inr (r, c)"
  then have "as_str (rc_alias c) = si_alias i" by (auto simp: authorize_iff find_Some_iff)
  moreover obtain t rest where "split_alias t = Inr (si_alias i, rest)"
    using assms(2) by (rule parse_intent_parts)
  then have "list_all lower_host_byte (si_alias i)" using split_alias_ok by blast
  ultimately have "lower_host_byte CHR ''.''" using assms(1) by (auto simp: list_all_iff)
  then show False by (simp add: lower_host_byte_def ascii_class_defs code_def)
qed

definition dotted_io :: host_io where
  "dotted_io = sample_io\<lparr>parse_store :=
     (\<lambda>_. Inr \<lparr>store_version = 1, store_credentials = [(''git.hub'', sample_spec)]\<rparr>)\<rparr>"

definition dotted_credential :: resolved_credential where
  "dotted_credential = sample_credential\<lparr>rc_alias := SafeName ''git.hub''\<rparr>"

theorem dotted_alias_unreachable_witness:
  "load_credentials dotted_io [''git.hub''] Operator ''store'' = Inr [dotted_credential] \<and>
   (\<nexists>r. authorize [dotted_credential] sample_intent = Inr (r, dotted_credential))"
proof -
  have "load_credentials dotted_io [''git.hub''] Operator ''store'' = Inr [dotted_credential]"
    by code_simp
  moreover have "CHR ''.'' \<in> set (as_str (rc_alias dotted_credential))"
    by code_simp
  ultimately show ?thesis using dotted_alias_unreachable [OF _ sample_parse] by blast
qed

section \<open>The relayed head cannot be split\<close>

lemma split_crlf_not_Nil [simp]: "split_crlf s \<noteq> []"
  by (induction s rule: split_crlf.induct) (auto split: list.splits)

lemma split_crlf_line: "CR \<notin> set l \<Longrightarrow> split_crlf (l @ crlf @ s) = l # split_crlf s"
proof (induction l)
  case Nil
  then show ?case by (simp add: crlf_def)
next
  case (Cons c l)
  then have IH: "split_crlf (l @ crlf @ s) = l # split_crlf s" and c: "c \<noteq> CR" by auto
  obtain d r where "l @ crlf @ s = d # r" by (cases "l @ crlf @ s") (auto simp: crlf_def)
  with IH c show ?case by simp
qed

lemma split_crlf_lines:
  "list_all (\<lambda>l. CR \<notin> set l) ls \<Longrightarrow>
   split_crlf (concat (map (\<lambda>l. l @ crlf) ls) @ s) = ls @ split_crlf s"
  by (induction ls) (simp_all add: split_crlf_line)

lemma relay_headers_set:
  "(n, v) \<in> set (relay_headers hs) \<Longrightarrow> relayable_header n v"
  using set_take_subset by (fastforce simp: relay_headers_def)

lemma relayable_no_cr: "relayable_header n v \<Longrightarrow> CR \<notin> set n \<and> CR \<notin> set v"
  by (auto simp: relayable_header_def list_all_iff header_name_byte_def header_value_byte_def
      ascii_class_defs code_def CR_char)

lemma status_line_no_cr: "CR \<notin> set (status_line s)"
proof -
  have "CR \<notin> set (show_nat s)"
    using show_nat_digits [of s] by (auto simp: list_all_iff is_ascii_digit_def code_def CR_char)
  then show ?thesis
    by (simp add: status_line_def upstream_reason_phrase_def CR_char)
qed

text \<open>
  C40: whatever headers an upstream sends, the head the endpoint writes has exactly the lines it
  means to: the status line, at most 64 relayed headers each on its own line and none of
  them about framing or the connection, the broker's own two framing lines, and the empty
  line that ends the head.
\<close>
theorem response_head_not_splittable:
  "split_crlf (build_response_head status (relay_headers hs)) =
     [status_line status] @ map (\<lambda>(n, v). n @ '': '' @ v) (relay_headers hs) @
     [''Transfer-Encoding: chunked'', ''Connection: close'', [], []] \<and>
   length (relay_headers hs) \<le> 64 \<and>
   list_all (\<lambda>(n, v). n \<notin> set RESPONSE_HEADER_DENY \<and> to_ascii_lowercase n = n \<and> length v \<le> 1024)
     (relay_headers hs)"
proof (intro conjI)
  let ?ls = "map (\<lambda>(n, v). n @ '': '' @ v) (relay_headers hs)"
  have "CR \<notin> set (n @ '': '' @ v)" if "(n, v) \<in> set (relay_headers hs)" for n v
    using relayable_no_cr [OF relay_headers_set [OF that]] by (auto simp: CR_char)
  then have hs: "list_all (\<lambda>l. CR \<notin> set l) ?ls" by (fastforce simp: list_all_iff)
  have own: "list_all (\<lambda>l. CR \<notin> set l) [''Transfer-Encoding: chunked'', ''Connection: close'', []]"
    by (simp add: CR_char)
  have head: "build_response_head status (relay_headers hs) =
      concat (map (\<lambda>l. l @ crlf)
        ([status_line status] @ ?ls @ [''Transfer-Encoding: chunked'', ''Connection: close'', []])) @ []"
    by (simp add: build_response_head_def comp_def case_prod_unfold)
  show "split_crlf (build_response_head status (relay_headers hs)) =
     [status_line status] @ ?ls @ [''Transfer-Encoding: chunked'', ''Connection: close'', [], []]"
    unfolding head using hs own status_line_no_cr
    by (subst split_crlf_lines) simp_all
  show "length (relay_headers hs) \<le> 64"
    by (simp add: relay_headers_def MAX_RESPONSE_HEADERS_def)
  have "to_ascii_lowercase n = n" if "(n, v) \<in> set (relay_headers hs)" for n v
    using that by (auto simp: relay_headers_def)
  then show "list_all (\<lambda>(n, v). n \<notin> set RESPONSE_HEADER_DENY \<and> to_ascii_lowercase n = n \<and> length v \<le> 1024)
     (relay_headers hs)"
    using relay_headers_set by (fastforce simp: list_all_iff relayable_header_def MAX_HEADER_VALUE_def)
qed

section \<open>The chunked body\<close>

text \<open>
  A client's reading of a chunked body, one chunk at a time: a hexadecimal size, CRLF, that
  many bytes, CRLF; size zero closes the body.
\<close>

definition hex_number :: "string \<Rightarrow> nat option" where
  "hex_number s =
     (if s = [] \<or> list_ex (\<lambda>c. hex_val c = None) s then None
      else Some (foldl (\<lambda>a c. 16 * a + the (hex_val c)) 0 s))"

definition dechunk_step :: "bytes \<Rightarrow> (bytes option \<times> bytes) option" where
  "dechunk_step s =
     (case split_once (char_byte CR) s of
        None \<Rightarrow> None
      | Some (sz, r) \<Rightarrow>
         (case hex_number (map byte_char sz) of
            None \<Rightarrow> None
          | Some n \<Rightarrow>
             (case strip_prefix [char_byte LF] r of
                None \<Rightarrow> None
              | Some r1 \<Rightarrow>
                  if length r1 < n then None
                  else (case strip_prefix (bytes_of crlf) (drop n r1) of
                      None \<Rightarrow> None
                    | Some r2 \<Rightarrow> Some (if n = 0 then None else Some (take n r1), r2)))))"

lemma hex_val_hex_digit [simp]: "d < 16 \<Longrightarrow> hex_val (hex_digit d) = Some d"
  by (auto simp: hex_val_def hex_digit_def ascii_class_defs)

lemma show_hex_not_Nil [simp]: "show_hex n \<noteq> []"
  by (subst show_hex.simps) simp

lemma hex_number_snoc:
  "s \<noteq> [] \<Longrightarrow> hex_number s = Some m \<Longrightarrow> hex_val c = Some d \<Longrightarrow> hex_number (s @ [c]) = Some (16 * m + d)"
  by (auto simp: hex_number_def split: if_splits)

lemma hex_number_show_hex [simp]: "hex_number (show_hex n) = Some n"
proof (induction n rule: show_hex.induct)
  case (1 n)
  show ?case
  proof (cases "n < 16")
    case True
    then show ?thesis by (subst show_hex.simps) (simp add: hex_number_def)
  next
    case False
    with 1 have "hex_number (show_hex (n div 16) @ [hex_digit (n mod 16)]) = Some (16 * (n div 16) + n mod 16)"
      by (intro hex_number_snoc) simp_all
    with False show ?thesis by (subst show_hex.simps) simp
  qed
qed

lemma show_hex_no_cr: "char_byte CR \<notin> set (bytes_of (show_hex n))"
proof -
  have "CR \<notin> set (show_hex n)"
    using show_hex_addr_chars [of n] by (auto simp: list_all_iff addr_char_def ascii_class_defs code_def CR_char)
  then show ?thesis by (auto simp: bytes_of_def) (metis byte_char_char_byte)
qed

lemma dechunk_step_size:
  "length bs = n \<Longrightarrow>
   dechunk_step (bytes_of (show_hex n @ crlf) @ bs @ bytes_of crlf @ r) =
     Some (if n = 0 then None else Some bs, r)"
proof -
  assume n: "length bs = n"
  have "bytes_of crlf = [char_byte CR, char_byte LF]" by (simp add: bytes_of_def crlf_def)
  then have "split_once (char_byte CR) (bytes_of (show_hex n @ crlf) @ bs @ bytes_of crlf @ r) =
      Some (bytes_of (show_hex n), char_byte LF # bs @ bytes_of crlf @ r)"
    by (simp add: split_once_Some_iff show_hex_no_cr)
  with n show ?thesis by (simp add: dechunk_step_def)
qed

interpretation chunks: framed_stream chunk_frame CHUNK_TERMINATOR dechunk_step "\<lambda>bs. bs \<noteq> []"
proof
  show "dechunk_step (chunk_frame bs @ r) = Some (Some bs, r)" if "bs \<noteq> []" for bs r
    using dechunk_step_size [of bs "length bs" r] that by (simp add: chunk_frame_def)
  show "dechunk_step (CHUNK_TERMINATOR @ r) = Some (None, r)" for r
  proof -
    have "show_hex 0 = ''0''" by code_simp
    then show ?thesis using dechunk_step_size [of "[]" 0 r] by (simp add: CHUNK_TERMINATOR_def bytes_of_def)
  qed
  show "dechunk_step [] = None" by (simp add: dechunk_step_def)
  show "chunk_frame bs \<noteq> []" for bs
    by (simp add: chunk_frame_def bytes_of_def)
qed

text \<open>
  The chunked body says whether it is complete: the non-empty chunks the broker writes,
  followed by the terminating chunk, are read back exactly, with whatever follows them left
  over; without the terminating chunk, as after the size ceiling, the reader never accepts
  the body, however many steps it takes.
\<close>
theorem chunked_body_round_trip:
  assumes "list_all (\<lambda>bs. bs \<noteq> []) cs"
  defines "body \<equiv> concat (map chunk_frame cs)"
  shows "read_frames dechunk_step (Suc (length (body @ CHUNK_TERMINATOR @ r))) (body @ CHUNK_TERMINATOR @ r)
      = Some (cs, r) \<and>
    read_frames dechunk_step n body = None"
  using chunks.round_trip [OF assms(1)] chunks.read_truncated [OF assms(1)]
  by (simp add: body_def chunks.encode_def)

theorem chunked_body_round_trip_witness:
  "read_frames dechunk_step 20 (chunk_frame (bytes_of ''hello'') @ CHUNK_TERMINATOR) =
     Some ([bytes_of ''hello''], []) \<and>
   read_frames dechunk_step 20 (chunk_frame (bytes_of ''hello'')) = None"
proof -
  have "list_all (\<lambda>bs. bs \<noteq> []) [bytes_of ''hello'']" by (simp add: bytes_of_def)
  from chunked_body_round_trip [OF this, of "[]" 20]
  have "read_frames dechunk_step 20 (chunk_frame (bytes_of ''hello'')) = None" by simp
  moreover have "read_frames dechunk_step 20 (chunk_frame (bytes_of ''hello'') @ CHUNK_TERMINATOR) =
     Some ([bytes_of ''hello''], [])"
    by code_simp
  ultimately show ?thesis by blast
qed

end
