(* ===== verification/Interfaces.thy ===== *)
theory Interfaces
  imports Prelude
begin

text \<open>
  The contracts the broker's handlers rely on, as locales: a bounded append-only log whose
  entries keep the slot they were given, a bounded cache that never forgets or alters an
  entry it did not insert, and a transition system with an inductive invariant. The theories
  that provide the operations interpret them.
\<close>

section \<open>A bounded append-only log\<close>

locale bounded_log =
  fixes entries :: "'s \<Rightarrow> 'e list"
    and append_entry :: "'e \<Rightarrow> 's \<Rightarrow> nat option \<times> 's"
    and cap :: nat
  assumes append_below:
      "length (entries s) < cap \<Longrightarrow>
       fst (append_entry e s) = Some (length (entries s)) \<and>
       entries (snd (append_entry e s)) = entries s @ [e]"
    and append_full:
      "cap \<le> length (entries s) \<Longrightarrow>
       fst (append_entry e s) = None \<and> entries (snd (append_entry e s)) = entries s"
begin

lemma append_bounded:
  "length (entries s) \<le> cap \<Longrightarrow> length (entries (snd (append_entry e s))) \<le> cap"
  using append_below [of s e] append_full [of s e] by (cases "length (entries s) < cap") auto

lemma append_slot:
  "fst (append_entry e s) = Some i \<Longrightarrow>
   i < length (entries (snd (append_entry e s))) \<and> entries (snd (append_entry e s)) ! i = e"
  using append_below [of s e] append_full [of s e] by (cases "length (entries s) < cap") auto

lemma append_keeps:
  "i < length (entries s) \<Longrightarrow>
   i < length (entries (snd (append_entry e s))) \<and>
   entries (snd (append_entry e s)) ! i = entries s ! i"
  using append_below [of s e] append_full [of s e]
  by (cases "length (entries s) < cap") (auto simp: nth_append)

lemma append_all:
  "list_all P (entries s) \<Longrightarrow> P e \<Longrightarrow> list_all P (entries (snd (append_entry e s)))"
  using append_below [of s e] append_full [of s e] by (cases "length (entries s) < cap") auto

lemma append_adds_only:
  "set (entries (snd (append_entry e s))) \<subseteq> insert e (set (entries s))"
  using append_below [of s e] append_full [of s e] by (cases "length (entries s) < cap") auto

end

section \<open>A bounded cache\<close>

locale bounded_cache =
  fixes find_key :: "'k \<Rightarrow> 's \<Rightarrow> 'v option"
    and insert_key :: "'k \<Rightarrow> 'v \<Rightarrow> 's \<Rightarrow> 's"
    and has_room :: "'s \<Rightarrow> bool"
  assumes find_insert_room:
      "has_room s \<Longrightarrow> find_key k (insert_key k' v s) = (if k = k' then Some v else find_key k s)"
    and insert_no_room: "\<not> has_room s \<Longrightarrow> insert_key k v s = s"
begin

lemma find_insert_cases:
  "find_key k (insert_key k' v s) = Some w \<Longrightarrow>
   (k = k' \<and> w = v) \<or> find_key k s = Some w"
  by (cases "has_room s") (auto simp: find_insert_room insert_no_room split: if_splits)

lemma find_insert_other: "k \<noteq> k' \<Longrightarrow> find_key k (insert_key k' v s) = find_key k s"
  by (cases "has_room s") (auto simp: find_insert_room insert_no_room)

text \<open>Whatever holds of all cached pairs still holds after inserting a pair with it.\<close>

lemma insert_preserves:
  assumes "\<And>k v. find_key k s = Some v \<Longrightarrow> P k v" and "P k' v'"
    and "find_key k (insert_key k' v' s) = Some v"
  shows "P k v"
  using find_insert_cases [OF assms(3)] assms(1,2) by auto

lemma fold_insert_preserves:
  assumes "\<And>k v. find_key k s = Some v \<Longrightarrow> P k v" and "list_all (\<lambda>(k, v). P k v) kvs"
    and "find_key k (fold (\<lambda>(k, v). insert_key k v) kvs s) = Some v"
  shows "P k v"
  using assms
proof (induction kvs arbitrary: s)
  case (Cons kv kvs)
  obtain k' v' where kv: "kv = (k', v')" by (cases kv)
  show ?case
  proof (rule Cons.IH [of "insert_key k' v' s"])
    show "P k v" if "find_key k (insert_key k' v' s) = Some v" for k v
      using that Cons.prems(1,2) kv insert_preserves [of s P k' v' k v] by simp
  qed (use Cons.prems kv in simp_all)
qed simp

end

section \<open>A transition system with an invariant\<close>

locale transition_system =
  fixes init :: "'s \<Rightarrow> bool"
    and step :: "'s \<Rightarrow> 's \<Rightarrow> bool"
    and inv :: "'s \<Rightarrow> bool"
  assumes inv_init: "init s \<Longrightarrow> inv s"
    and inv_step: "inv s \<Longrightarrow> step s s' \<Longrightarrow> inv s'"
begin

lemma inv_steps: "step\<^sup>*\<^sup>* s s' \<Longrightarrow> inv s \<Longrightarrow> inv s'"
  by (induction rule: rtranclp_induct) (auto intro: inv_step)

lemma inv_reachable: "init s \<Longrightarrow> step\<^sup>*\<^sup>* s s' \<Longrightarrow> inv s'"
  using inv_steps inv_init by blast

end

end
