(* ===== verification/Broker_Policy.thy ===== *)
theory Broker_Policy
  imports Inject Interfaces "HOL-Library.AList"
begin

text \<open>
  The broker's shared state and policy (\<open>crates/core/src/net/broker.rs\<close>): the flight
  recorder and its resolution cache, the run's policy and the check every listener makes,
  the destination floor on everything the broker dials, the pinned hosts of the
  credentials, the accept loop's permits, and \<open>dial\<close>.

  The state behind the recorder's mutex is passed explicitly; each recorder operation is one
  critical section. What the network answers (resolution, connects, writes, the clock) is
  the record \<open>net_env\<close>; \<open>url::Url::parse\<close> is a parameter of the functions that use it.
\<close>

section \<open>The flight recorder\<close>

definition MAX_CONCURRENT_CONNS :: nat where "MAX_CONCURRENT_CONNS = 64"
definition MAX_HTTP_HEAD :: nat where "MAX_HTTP_HEAD = 8 * 1024"
definition MAX_DNS_MSG :: nat where "MAX_DNS_MSG = 512"
definition ANSWER_TTL :: u32 where "ANSWER_TTL = 60"
definition MAX_RECORDED_EVENTS :: nat where "MAX_RECORDED_EVENTS = 10000"

datatype proto = Socks5 | Http | InjectProto | Dns

record egress_event =
  ev_proto :: proto
  ev_host :: safe_name
  ev_port :: u16
  ev_allowed :: bool
  ev_reason :: "deny_reason option"
  bytes_up :: u64
  bytes_down :: u64
  ts_ms :: u64
  ev_note :: "string option"

text \<open>\<open>resolved\<close>, a \<open>HashMap\<close>, is an association list with one entry per key.\<close>

record shared =
  events :: "egress_event list"
  ev_total :: u64
  resolved :: "(ip_addr \<times> safe_name) list"

definition shared_default :: shared where
  "shared_default = \<lparr>events = [], ev_total = 0, resolved = []\<rparr>"

definition record_event :: "egress_event \<Rightarrow> shared \<Rightarrow> nat option \<times> shared" where
  "record_event e s =
     (let s1 = s\<lparr>ev_total := saturating_add (ev_total s) 1\<rparr> in
      if MAX_RECORDED_EVENTS \<le> length (events s1) then (None, s1)
      else let s2 = s1\<lparr>events := events s1 @ [e]\<rparr> in (Some (length (events s2) - 1), s2))"

definition add_bytes :: "nat option \<Rightarrow> u64 \<Rightarrow> u64 \<Rightarrow> shared \<Rightarrow> shared" where
  "add_bytes slot up down s =
     (case slot of
        None \<Rightarrow> s
      | Some i \<Rightarrow>
          if i < length (events s) then
            s\<lparr>events := (events s)[i := (events s ! i)
                \<lparr>bytes_up := saturating_add (bytes_up (events s ! i)) up,
                 bytes_down := saturating_add (bytes_down (events s ! i)) down\<rparr>]\<rparr>
          else s)"

definition remember_resolved :: "ip_addr \<Rightarrow> safe_name \<Rightarrow> shared \<Rightarrow> shared" where
  "remember_resolved ip name s =
     (if length (resolved s) < MAX_RECORDED_EVENTS
      then s\<lparr>resolved := AList.update ip name (resolved s)\<rparr> else s)"

definition name_for :: "ip_addr \<Rightarrow> shared \<Rightarrow> safe_name option" where
  "name_for ip s = map_of (resolved s) ip"

definition snapshot :: "shared \<Rightarrow> egress_event list \<times> u64" where
  "snapshot s = (events s, ev_total s)"

section \<open>Ports, specification, policy\<close>

definition BROKER_SOCKS_PORT :: u16 where "BROKER_SOCKS_PORT = 1080"
definition BROKER_HTTP_PORT :: u16 where "BROKER_HTTP_PORT = 3128"
definition BROKER_INJECT_PORT :: u16 where "BROKER_INJECT_PORT = 3129"
definition BROKER_DNS_PORT :: u16 where "BROKER_DNS_PORT = 5353"

record broker_ports =
  port_socks :: u16
  port_http :: u16
  port_inject :: u16
  port_dns :: u16

definition broker_ports_default :: broker_ports where
  "broker_ports_default =
     \<lparr>port_socks = BROKER_SOCKS_PORT, port_http = BROKER_HTTP_PORT,
      port_inject = BROKER_INJECT_PORT, port_dns = BROKER_DNS_PORT\<rparr>"

fun guest_for_gateway :: "ipv4 \<Rightarrow> ipv4" where
  "guest_for_gateway (Ipv4 a b c d) = Ipv4 a b c 2"

record broker_spec =
  spec_gateway :: ipv4
  spec_guest :: ipv4
  spec_rules :: "host_rule list"
  spec_credentials :: "resolved_credential list"
  spec_ports :: broker_ports
  spec_allow_private :: bool
  spec_allow_loopback :: bool

definition broker_spec_new :: "ipv4 \<Rightarrow> host_rule list \<Rightarrow> broker_spec" where
  "broker_spec_new gateway rules =
     \<lparr>spec_gateway = gateway, spec_guest = guest_for_gateway gateway, spec_rules = rules,
      spec_credentials = [], spec_ports = broker_ports_default, spec_allow_private = False,
      spec_allow_loopback = False\<rparr>"

definition with_private_destinations :: "bool \<Rightarrow> broker_spec \<Rightarrow> broker_spec" where
  "with_private_destinations allow spec = spec\<lparr>spec_allow_private := allow\<rparr>"

definition with_credentials :: "resolved_credential list \<Rightarrow> broker_spec \<Rightarrow> broker_spec" where
  "with_credentials creds spec = spec\<lparr>spec_credentials := creds\<rparr>"

record policy =
  rules :: "host_rule list"
  credentials :: "resolved_credential list"
  gateway :: ipv4
  guest :: ipv4
  inject_port :: u16
  allow_private :: bool
  allow_loopback :: bool

section \<open>The destination floor\<close>

text \<open>
  The guard each dialling site writes out: the test-only loopback exception, or the floor of
  \<^const>\<open>is_dialable\<close>.
\<close>

definition floor_permits :: "bool \<Rightarrow> bool \<Rightarrow> ip_addr \<Rightarrow> bool" where
  "floor_permits loopback private ip \<longleftrightarrow> (loopback \<and> is_loopback ip) \<or> is_dialable ip private"

type_synonym sock_addr = "ip_addr \<times> u16"

text \<open>
  \<open>url::Url::parse\<close> of \<open>https://{host}/\<close>, as far as it is used: an error, or the parsed host
  (\<^const>\<open>None\<close> for a URL without one) and the host's text.
\<close>

datatype url_host = UrlIpv4 ipv4 | UrlIpv6 ipv6 | UrlDomain string

type_synonym url_parser = "string \<Rightarrow> (unit + url_host option \<times> string)"

datatype pinned_origin = Literal ip_addr | OriginName

datatype pinned_problem = NotAnAuthority | NoAuthority | Rewritten string

definition classify_pinned_host :: "url_parser \<Rightarrow> string \<Rightarrow> pinned_problem + pinned_origin" where
  "classify_pinned_host parse_url host =
     (case parse_url (''https://'' @ host @ ''/'') of
        Inl _ \<Rightarrow> Inl NotAnAuthority
      | Inr (parsed, dialed) \<Rightarrow>
         (case parsed of
            None \<Rightarrow> Inl NoAuthority
          | Some h \<Rightarrow>
              if dialed \<noteq> host then Inl (Rewritten dialed)
              else Inr (case h of
                  UrlIpv4 v4 \<Rightarrow> Literal (V4 v4)
                | UrlIpv6 v6 \<Rightarrow> Literal (V6 v6)
                | UrlDomain _ \<Rightarrow> OriginName)))"

datatype start_error =
    UnusablePin string pinned_problem
  | FlooredPin string ip_addr
  | BindFailed ipv4 u16

fun refuse_floored ::
  "url_parser \<Rightarrow> bool \<Rightarrow> bool \<Rightarrow> resolved_credential list \<Rightarrow> start_error + unit" where
  "refuse_floored parse_url loopback private [] = Inr ()"
| "refuse_floored parse_url loopback private (cred # rest) =
     (case classify_pinned_host parse_url (host_str cred) of
        Inl why \<Rightarrow> Inl (UnusablePin (as_str (rc_alias cred)) why)
      | Inr OriginName \<Rightarrow> refuse_floored parse_url loopback private rest
      | Inr (Literal ip) \<Rightarrow>
          if \<not> floor_permits loopback private ip then Inl (FlooredPin (as_str (rc_alias cred)) ip)
          else refuse_floored parse_url loopback private rest)"

definition refuse_floored_pinned_hosts :: "url_parser \<Rightarrow> broker_spec \<Rightarrow> start_error + unit" where
  "refuse_floored_pinned_hosts parse_url spec =
     refuse_floored parse_url (spec_allow_loopback spec) (spec_allow_private spec)
       (spec_credentials spec)"

text \<open>
  \<open>FlooredResolver::resolve\<close>, given what the lookup answered (\<^const>\<open>None\<close>: an error or the
  deadline).
\<close>

definition floored_resolve :: "bool \<Rightarrow> bool \<Rightarrow> sock_addr list option \<Rightarrow> sock_addr list option" where
  "floored_resolve loopback private answer =
     (case answer of
        None \<Rightarrow> None
      | Some all \<Rightarrow>
         (let kept = filter (\<lambda>a. floor_permits loopback private (fst a)) all in
          if kept = [] then None else Some kept))"

section \<open>Starting\<close>

record broker_endpoints =
  ep_socks :: string
  ep_http :: string
  ep_inject :: "string option"
  ep_dns :: string

record broker =
  br_policy :: policy
  br_endpoints :: broker_endpoints
  br_dns_addr :: "ipv4 \<times> u16"
  br_inject_addr :: string

definition show_socket :: "ipv4 \<Rightarrow> u16 \<Rightarrow> string" where
  "show_socket ip port = show_ipv4 ip @ '':'' @ show_nat (unat port)"

text \<open>
  \<open>Broker::start\<close>: the binds happen in order and any failure fails the start. \<open>bind_tcp\<close> and
  \<open>bind_udp\<close> give the port actually bound.
\<close>

definition broker_start ::
  "url_parser \<Rightarrow> (ipv4 \<Rightarrow> u16 \<Rightarrow> u16 option) \<Rightarrow> (ipv4 \<Rightarrow> u16 \<Rightarrow> u16 option) \<Rightarrow> broker_spec \<Rightarrow>
   start_error + broker" where
  "broker_start parse_url bind_tcp bind_udp spec =
     try_bind (refuse_floored_pinned_hosts parse_url spec) (\<lambda>_.
     let gw = spec_gateway spec; ports = spec_ports spec;
         bind = (\<lambda>f p. ok_or (BindFailed gw p) (f gw p)) in
     try_bind (bind bind_tcp (port_socks ports)) (\<lambda>socks.
     try_bind (bind bind_tcp (port_http ports)) (\<lambda>http.
     try_bind (bind bind_tcp (port_inject ports)) (\<lambda>inject.
     try_bind (bind bind_udp (port_dns ports)) (\<lambda>dns_udp.
     try_bind (bind bind_tcp (port_dns ports)) (\<lambda>_.
     Inr \<lparr>br_policy =
            \<lparr>rules = spec_rules spec, credentials = spec_credentials spec, gateway = gw,
             guest = spec_guest spec, inject_port = inject,
             allow_private = spec_allow_private spec,
             allow_loopback = spec_allow_loopback spec\<rparr>,
          br_endpoints =
            \<lparr>ep_socks = show_socket gw socks, ep_http = show_socket gw http,
             ep_inject = (if spec_credentials spec \<noteq> [] then Some (show_socket gw inject) else None),
             ep_dns = show_ipv4 gw\<rparr>,
          br_dns_addr = (gw, dns_udp), br_inject_addr = show_socket gw inject\<rparr>))))))"

section \<open>Policy application\<close>

datatype verdict = VAllow safe_name | VDeny deny_reason

definition pinned_credential_host :: "policy \<Rightarrow> target \<Rightarrow> bool" where
  "pinned_credential_host p t =
     (case t of
        TAddr _ _ \<Rightarrow> False
      | TName name _ \<Rightarrow>
          is_valid name \<and> list_ex (\<lambda>c. host_str c = as_str name) (credentials p))"

definition check :: "policy \<Rightarrow> shared \<Rightarrow> target \<Rightarrow> verdict" where
  "check p s t =
     (if decide (rules p) t = Allow then VAllow (safe_host t)
      else case (case t of TAddr ip _ \<Rightarrow> name_for ip s | TName _ _ \<Rightarrow> None) of
          Some name \<Rightarrow> VAllow name
        | None \<Rightarrow>
           (case decide (rules p) t of
              Deny reason \<Rightarrow>
                if pinned_credential_host p t then VDeny PinnedCredentialHost else VDeny reason
            | Allow \<Rightarrow> VAllow (safe_host t)))"

definition is_own_credential_endpoint :: "policy \<Rightarrow> target \<Rightarrow> bool" where
  "is_own_credential_endpoint p t =
     (case t of
        TAddr (V4 ip) port \<Rightarrow> ip = gateway p \<and> port = inject_port p
      | _ \<Rightarrow> False)"

text \<open>
  \<open>peer_permitted\<close>: the verdict, and the flag that limits the diagnostic to one line (the
  second result says whether this call prints it).
\<close>

definition peer_is_guest :: "ipv4 \<Rightarrow> ip_addr \<Rightarrow> bool" where
  "peer_is_guest guest_ip peer =
     (case peer of V4 v4 \<Rightarrow> v4 = guest_ip | V6 v6 \<Rightarrow> to_ipv4_mapped v6 = Some guest_ip)"

definition peer_permitted :: "policy \<Rightarrow> bool \<Rightarrow> ip_addr \<Rightarrow> bool \<times> bool \<times> bool" where
  "peer_permitted p logged peer =
     (let ok = peer_is_guest (guest p) peer in (ok, \<not> ok \<and> \<not> logged, logged \<or> \<not> ok))"

section \<open>Dialling\<close>

text \<open>
  What the outside answers during one operation: name lookups (\<^const>\<open>None\<close> for an error or
  the deadline), whether the k-th connect of the operation succeeds, whether the k-th write
  to the client succeeds, whether a write to the destination succeeds, and the recorder's
  clock at the k-th event.
\<close>

record net_env =
  lookup_host :: "string \<Rightarrow> u16 \<Rightarrow> sock_addr list option"
  tcp_connect :: "nat \<Rightarrow> sock_addr \<Rightarrow> bool"
  client_write :: "nat \<Rightarrow> bool"
  upstream_write :: bool
  clock :: "nat \<Rightarrow> u64"

datatype resolution = Addrs "sock_addr list" | Failed

definition resolve_v4_detailed :: "net_env \<Rightarrow> string \<Rightarrow> u16 \<Rightarrow> resolution" where
  "resolve_v4_detailed env host port =
     (case lookup_host env host port of
        Some all \<Rightarrow> Addrs (filter (\<lambda>a. is_ipv4 (fst a)) all)
      | None \<Rightarrow> Failed)"

definition resolve_v4 :: "net_env \<Rightarrow> string \<Rightarrow> u16 \<Rightarrow> sock_addr list" where
  "resolve_v4 env host port =
     (case resolve_v4_detailed env host port of Addrs v \<Rightarrow> v | Failed \<Rightarrow> [])"

datatype dial_failure = Denied deny_reason | Unreachable

definition event_of ::
  "proto \<Rightarrow> safe_name \<Rightarrow> u16 \<Rightarrow> bool \<Rightarrow> deny_reason option \<Rightarrow> u64 \<Rightarrow> string option \<Rightarrow> egress_event" where
  "event_of pr host port allowed reason now n =
     \<lparr>ev_proto = pr, ev_host = host, ev_port = port, ev_allowed = allowed, ev_reason = reason,
      bytes_up = 0, bytes_down = 0, ts_ms = now, ev_note = n\<rparr>"

text \<open>The first address a connect succeeds for, trying them in order.\<close>

fun first_connect :: "net_env \<Rightarrow> nat \<Rightarrow> sock_addr list \<Rightarrow> sock_addr option" where
  "first_connect env k [] = None"
| "first_connect env k (a # rest) =
     (if tcp_connect env k a then Some a else first_connect env (Suc k) rest)"

definition policy_floor :: "policy \<Rightarrow> ip_addr \<Rightarrow> bool" where
  "policy_floor p = floor_permits (allow_loopback p) (allow_private p)"

definition remember_all :: "safe_name \<Rightarrow> sock_addr list \<Rightarrow> shared \<Rightarrow> shared" where
  "remember_all host addrs s = fold (\<lambda>a. remember_resolved (fst a) host) addrs s"

text \<open>
  \<open>dial\<close> after its policy check: the verdict may have been formed in an earlier state of the
  recorder, since the lock is released in between.
\<close>

definition dial_checked ::
  "policy \<Rightarrow> target \<Rightarrow> proto \<Rightarrow> net_env \<Rightarrow> verdict \<Rightarrow> shared \<Rightarrow>
   (dial_failure + sock_addr \<times> nat option) \<times> shared" where
  "dial_checked p t pr env v s =
     (let port = target_port t; now = clock env 0 in
      case v of
        VDeny reason \<Rightarrow>
          (Inl (Denied reason), snd (record_event (event_of pr (safe_host t) port False (Some reason) now None) s))
      | VAllow name \<Rightarrow>
         (let answers = (case t of
                TAddr ip prt \<Rightarrow> [(ip, prt)]
              | TName host prt \<Rightarrow> resolve_v4 env (as_str host) prt);
              (addrs, blocked) = partition (\<lambda>a. policy_floor p (fst a)) answers;
              s1 = (case t of TName host _ \<Rightarrow> remember_all host addrs s | TAddr _ _ \<Rightarrow> s) in
          if addrs = [] \<and> blocked \<noteq> [] then
            (Inl (Denied NonPublicAddress),
             snd (record_event (event_of pr name port False (Some NonPublicAddress) now
                    (Some ''non-public-address'')) s1))
          else if addrs = [] then
            (Inl Unreachable,
             snd (record_event (event_of pr name port False None now (Some ''resolve-failed'')) s1))
          else case first_connect env 0 addrs of
              Some a \<Rightarrow>
               (let (slot, s2) = record_event (event_of pr name port True None now None) s1
                in (Inr (a, slot), s2))
            | None \<Rightarrow>
                (Inl Unreachable,
                 snd (record_event (event_of pr name port False None now (Some ''dial-failed'')) s1))))"

definition dial ::
  "policy \<Rightarrow> target \<Rightarrow> proto \<Rightarrow> net_env \<Rightarrow> shared \<Rightarrow> (dial_failure + sock_addr \<times> nat option) \<times> shared" where
  "dial p t pr env s = dial_checked p t pr env (check p s t) s"

section \<open>The recorder keeps the contracts of a bounded log and a bounded cache\<close>

lemma record_event_simps [simp]:
  "resolved (snd (record_event e s)) = resolved s"
  "ev_total (snd (record_event e s)) = saturating_add (ev_total s) 1"
  by (simp_all add: record_event_def Let_def)

lemma add_bytes_simps [simp]:
  "resolved (add_bytes slot u d s) = resolved s"
  "ev_total (add_bytes slot u d s) = ev_total s"
  "length (events (add_bytes slot u d s)) = length (events s)"
  by (auto simp: add_bytes_def split: option.splits)

lemma remember_resolved_simps [simp]:
  "events (remember_resolved ip n s) = events s"
  "ev_total (remember_resolved ip n s) = ev_total s"
  by (simp_all add: remember_resolved_def)

lemma remember_all_simps [simp]:
  "events (remember_all n as s) = events s"
  "ev_total (remember_all n as s) = ev_total s"
  by (induction as arbitrary: s) (simp_all add: remember_all_def)

interpretation log: bounded_log events record_event MAX_RECORDED_EVENTS
  by unfold_locales (simp_all add: record_event_def Let_def)

interpretation cache: bounded_cache name_for remember_resolved
  "\<lambda>s. length (resolved s) < MAX_RECORDED_EVENTS"
  by unfold_locales
     (auto simp: name_for_def remember_resolved_def AList.update_conv map_of_eq_None_iff)

lemma name_for_simps [simp]:
  "name_for ip (snd (record_event e s)) = name_for ip s"
  "name_for ip (add_bytes slot u d s) = name_for ip s"
  by (simp_all add: name_for_def)

lemma event_of_simps [simp]:
  "ev_proto (event_of pr h p a r t n) = pr" "ev_host (event_of pr h p a r t n) = h"
  "ev_port (event_of pr h p a r t n) = p" "ev_allowed (event_of pr h p a r t n) = a"
  "ev_reason (event_of pr h p a r t n) = r" "ev_note (event_of pr h p a r t n) = n"
  "bytes_up (event_of pr h p a r t n) = 0" "bytes_down (event_of pr h p a r t n) = 0"
  by (simp_all add: event_of_def)

lemma length_update_le:
  "length (AList.update k v xs) \<le> Suc (length xs)"
  by (induction xs) auto

lemma remember_resolved_bounded:
  "length (resolved s) \<le> MAX_RECORDED_EVENTS \<Longrightarrow>
   length (resolved (remember_resolved ip n s)) \<le> MAX_RECORDED_EVENTS"
  using length_update_le [of ip n "resolved s"] by (auto simp: remember_resolved_def)

lemma remember_resolved_distinct:
  "distinct (map fst (resolved s)) \<Longrightarrow> distinct (map fst (resolved (remember_resolved ip n s)))"
  by (simp add: remember_resolved_def distinct_update)

section \<open>What the floor keeps out\<close>

text \<open>
  The contract of every site that hands addresses to a dialler or to the guest: each address
  passed the floor. None of them is then a slot, link-local, metadata, multicast or
  documentation address, in either spelling, unless it is loopback under the test-only
  exception.
\<close>

locale destination_guard =
  fixes lo :: bool and priv :: bool
    and handed :: "'i \<Rightarrow> ip_addr list"
  assumes handed_permitted: "ip \<in> set (handed i) \<Longrightarrow> floor_permits lo priv ip"
begin

lemma handed_not_floored:
  assumes "ip \<in> set (handed i)" and "\<not> (lo \<and> is_loopback ip)"
  shows "\<not> list_ex (in_cidr_text (canonical_ip ip)) floor_cidrs"
  using handed_permitted [OF assms(1)] assms(2) by (simp add: floor_permits_def is_dialable_iff)

lemma handed_not_lan:
  assumes "ip \<in> set (handed i)" and "\<not> (lo \<and> is_loopback ip)" and "\<not> priv"
  shows "\<not> list_ex (in_cidr_text (canonical_ip ip)) lan_cidrs"
  using handed_permitted [OF assms(1)] assms(2,3) by (simp add: floor_permits_def is_dialable_iff)

end

lemma first_connect_mem: "first_connect env k as = Some a \<Longrightarrow> a \<in> set as"
  by (induction env k as rule: first_connect.induct) (auto split: if_splits)

lemma resolve_v4_mem: "a \<in> set (resolve_v4 env host port) \<Longrightarrow> is_ipv4 (fst a)"
  by (auto simp: resolve_v4_def resolve_v4_detailed_def split: resolution.splits option.splits)

text \<open>The addresses a dial may connect to: the answers for its target that pass the floor.\<close>

definition dial_answers :: "net_env \<Rightarrow> target \<Rightarrow> sock_addr list" where
  "dial_answers env t =
     (case t of
        TAddr ip prt \<Rightarrow> [(ip, prt)]
      | TName host prt \<Rightarrow> resolve_v4 env (as_str host) prt)"

definition dial_addrs :: "policy \<Rightarrow> net_env \<Rightarrow> target \<Rightarrow> sock_addr list" where
  "dial_addrs p env t = filter (\<lambda>a. policy_floor p (fst a)) (dial_answers env t)"

definition remembered :: "policy \<Rightarrow> net_env \<Rightarrow> target \<Rightarrow> shared \<Rightarrow> shared" where
  "remembered p env t s =
     (case t of TName host _ \<Rightarrow> remember_all host (dial_addrs p env t) s | TAddr _ _ \<Rightarrow> s)"

lemma remembered_simps [simp]:
  "events (remembered p env t s) = events s" "ev_total (remembered p env t s) = ev_total s"
  by (simp_all add: remembered_def split: target.splits)

text \<open>One equation for \<open>dial\<close>, in terms of the verdict and of those addresses.\<close>

lemma dial_checked_eq:
  "dial_checked p t pr env v s =
     (case v of
        VDeny r \<Rightarrow>
          (Inl (Denied r), snd (record_event (event_of pr (safe_host t) (target_port t) False (Some r) (clock env 0) None) s))
      | VAllow name \<Rightarrow>
         (let s1 = remembered p env t s;
              ev = (\<lambda>ok r n. event_of pr name (target_port t) ok r (clock env 0) n) in
          if dial_addrs p env t = [] then
            (if dial_answers env t \<noteq> [] then
               (Inl (Denied NonPublicAddress),
                snd (record_event (ev False (Some NonPublicAddress) (Some ''non-public-address'')) s1))
             else (Inl Unreachable, snd (record_event (ev False None (Some ''resolve-failed'')) s1)))
          else case first_connect env 0 (dial_addrs p env t) of
              Some a \<Rightarrow> (Inr (a, fst (record_event (ev True None None) s1)), snd (record_event (ev True None None) s1))
            | None \<Rightarrow> (Inl Unreachable, snd (record_event (ev False None (Some ''dial-failed'')) s1))))"
proof (cases v)
  case (VAllow name)
  let ?P = "\<lambda>a. policy_floor p (fst a)"
  have b: "filter (Not \<circ> ?P) xs \<noteq> [] \<longleftrightarrow> xs \<noteq> []" if "filter ?P xs = []" for xs :: "sock_addr list"
    using that by (auto simp: filter_empty_conv)
  show ?thesis
    using b [of "dial_answers env t"]
    by (cases t)
       (auto simp: dial_checked_def VAllow dial_addrs_def dial_answers_def remembered_def
          Let_def case_prod_unfold split: option.splits)
qed (simp add: dial_checked_def Let_def)

interpretation dial_guard: destination_guard "allow_loopback p" "allow_private p"
  "\<lambda>(env, t). map fst (dial_addrs p env t)" for p
  by unfold_locales (auto simp: dial_addrs_def policy_floor_def)

interpretation resolver_guard: destination_guard lo priv
  "\<lambda>answer. case floored_resolve lo priv answer of None \<Rightarrow> [] | Some kept \<Rightarrow> map fst kept" for lo priv
  by unfold_locales (auto simp: floored_resolve_def Let_def split: option.splits if_splits)

section \<open>Dialling: where a connection can go, and what it leaves behind\<close>

lemma check_allow_cases:
  "check p s t = VAllow n \<Longrightarrow>
   (decide (rules p) t = Allow \<and> n = safe_host t) \<or>
   (\<exists>ip prt. t = TAddr ip prt \<and> name_for ip s = Some n)"
  by (cases t; cases "decide (rules p) t")
     (auto simp: check_def split: if_splits option.splits)

lemma dial_checked_Inr:
  assumes "dial_checked p t pr env v s = (Inr (a, slot), s')"
  obtains name where "v = VAllow name" "a \<in> set (dial_addrs p env t)"
    "(slot, s') = record_event (event_of pr name (target_port t) True None (clock env 0) None)
       (remembered p env t s)"
  using assms first_connect_mem [of env 0 "dial_addrs p env t"]
  by (auto simp: dial_checked_eq Let_def split: verdict.splits if_splits option.splits)

lemma dial_answers_mem:
  "a \<in> set (dial_answers env t) \<Longrightarrow>
   (case t of
      TAddr ip prt \<Rightarrow> a = (ip, prt)
    | TName n prt \<Rightarrow> is_ipv4 (fst a) \<and> (\<exists>all. lookup_host env (as_str n) prt = Some all \<and> a \<in> set all))"
  by (auto simp: dial_answers_def resolve_v4_def resolve_v4_detailed_def
      split: target.splits resolution.splits option.splits)

text \<open>
  Every connection the broker makes for the guest was authorised and passed the floor:
  a named target is allowed by the rules and the address is an IPv4 answer of the host's
  own lookup; a literal target is allowed by the rules or is an address in the broker's
  resolution cache. In a real run (no loopback exception) the address is covered by no
  always-refused prefix, in either spelling, whatever the lookup answered. The slot returned
  for byte counting is the event of this connection.
\<close>
theorem dial_reaches_only_permitted:
  assumes "dial p t pr env s = (Inr (a, slot), s')"
  shows "policy_floor p (fst a) \<and>
    (\<not> allow_loopback p \<longrightarrow> \<not> list_ex (in_cidr_text (canonical_ip (fst a))) floor_cidrs) \<and>
    (case t of
       TAddr ip prt \<Rightarrow> a = (ip, prt) \<and> (decide (rules p) t = Allow \<or> (\<exists>n. name_for ip s = Some n))
     | TName n prt \<Rightarrow> decide (rules p) t = Allow \<and> is_ipv4 (fst a) \<and>
         (\<exists>all. lookup_host env (as_str n) prt = Some all \<and> a \<in> set all)) \<and>
    (\<forall>i. slot = Some i \<longrightarrow> i < length (events s') \<and> ev_allowed (events s' ! i) \<and>
       ev_proto (events s' ! i) = pr \<and> ev_port (events s' ! i) = target_port t)"
proof -
  from assms obtain name where v: "check p s t = VAllow name"
    and a: "a \<in> set (dial_addrs p env t)"
    and r: "(slot, s') = record_event (event_of pr name (target_port t) True None (clock env 0) None)
       (remembered p env t s)"
    unfolding dial_def by (rule dial_checked_Inr)
  have floor: "policy_floor p (fst a)" using a by (simp add: dial_addrs_def)
  have table: "\<not> list_ex (in_cidr_text (canonical_ip (fst a))) floor_cidrs" if "\<not> allow_loopback p"
    using dial_guard.handed_not_floored [of "fst a" p "(env, t)"] a that by auto
  have ans: "a \<in> set (dial_answers env t)" using a by (simp add: dial_addrs_def)
  have prov: "case t of
       TAddr ip prt \<Rightarrow> a = (ip, prt) \<and> (decide (rules p) t = Allow \<or> (\<exists>n. name_for ip s = Some n))
     | TName n prt \<Rightarrow> decide (rules p) t = Allow \<and> is_ipv4 (fst a) \<and>
         (\<exists>all. lookup_host env (as_str n) prt = Some all \<and> a \<in> set all)"
    using dial_answers_mem [OF ans] check_allow_cases [OF v] by (cases t) auto
  have "\<forall>i. slot = Some i \<longrightarrow> i < length (events s') \<and>
      events s' ! i = event_of pr name (target_port t) True None (clock env 0) None"
    using log.append_slot by (metis fst_conv snd_conv r)
  then show ?thesis using floor table prov by auto
qed

text \<open>A small network for the witnesses: one public and one metadata answer, all connects succeed.\<close>

definition sample_policy :: policy where
  "sample_policy =
     \<lparr>rules = [Exact ''a.example''], credentials = [sample_credential], gateway = Ipv4 10 107 0 1,
      guest = Ipv4 10 107 0 2, inject_port = 3129, allow_private = False, allow_loopback = False\<rparr>"

definition sample_env :: net_env where
  "sample_env =
     \<lparr>lookup_host = (\<lambda>_ prt. Some [(V4 (Ipv4 169 254 169 254), prt), (V4 (Ipv4 93 184 216 34), prt)]),
      tcp_connect = (\<lambda>_ _. True), client_write = (\<lambda>_. True), upstream_write = True,
      clock = (\<lambda>_. 7)\<rparr>"

definition sample_target :: target where
  "sample_target = TName (SafeName ''a.example'') 443"

definition sample_state :: shared where
  "sample_state = snd (dial sample_policy sample_target Http sample_env shared_default)"

lemma sample_dial:
  "dial sample_policy sample_target Http sample_env shared_default =
     (Inr ((V4 (Ipv4 93 184 216 34), 443), Some 0), sample_state)"
proof -
  have "fst (dial sample_policy sample_target Http sample_env shared_default) =
      Inr ((V4 (Ipv4 93 184 216 34), 443), Some 0)"
    by code_simp
  then show ?thesis by (simp add: sample_state_def prod_eq_iff)
qed

theorem dial_reaches_only_permitted_witness:
  "policy_floor sample_policy (V4 (Ipv4 93 184 216 34)) \<and> ev_allowed (events sample_state ! 0)"
  using dial_reaches_only_permitted [OF sample_dial] by simp

text \<open>The event a dial leaves, and the state it is recorded in.\<close>

definition dial_note :: "policy \<Rightarrow> net_env \<Rightarrow> target \<Rightarrow> bool \<times> deny_reason option \<times> string option" where
  "dial_note p env t =
     (if dial_addrs p env t = [] then
        (if dial_answers env t \<noteq> [] then (False, Some NonPublicAddress, Some ''non-public-address'')
         else (False, None, Some ''resolve-failed''))
      else case first_connect env 0 (dial_addrs p env t) of
          Some _ \<Rightarrow> (True, None, None)
        | None \<Rightarrow> (False, None, Some ''dial-failed''))"

definition dial_event :: "policy \<Rightarrow> target \<Rightarrow> proto \<Rightarrow> net_env \<Rightarrow> verdict \<Rightarrow> egress_event" where
  "dial_event p t pr env v =
     (case v of
        VDeny r \<Rightarrow> event_of pr (safe_host t) (target_port t) False (Some r) (clock env 0) None
      | VAllow name \<Rightarrow>
         (case dial_note p env t of (ok, r, n) \<Rightarrow>
            event_of pr name (target_port t) ok r (clock env 0) n))"

definition dial_pre :: "policy \<Rightarrow> target \<Rightarrow> net_env \<Rightarrow> verdict \<Rightarrow> shared \<Rightarrow> shared" where
  "dial_pre p t env v s = (case v of VDeny _ \<Rightarrow> s | VAllow _ \<Rightarrow> remembered p env t s)"

lemma dial_pre_simps [simp]:
  "events (dial_pre p t env v s) = events s" "ev_total (dial_pre p t env v s) = ev_total s"
  by (simp_all add: dial_pre_def split: verdict.splits)

lemma snd_dial_checked:
  "snd (dial_checked p t pr env v s) = snd (record_event (dial_event p t pr env v) (dial_pre p t env v s))"
  by (cases v)
     (simp_all add: dial_checked_eq dial_event_def dial_note_def dial_pre_def Let_def split: option.split)

lemma dial_event_fields:
  "ev_proto (dial_event p t pr env v) = pr"
  "ev_port (dial_event p t pr env v) = target_port t"
  "ev_allowed (dial_event p t pr env v) \<longleftrightarrow> (\<exists>c. fst (dial_checked p t pr env v s) = Inr c)"
  "ev_reason (dial_event p t pr env v) =
     (case fst (dial_checked p t pr env v s) of Inl (Denied reason) \<Rightarrow> Some reason | _ \<Rightarrow> None)"
  by (cases v; simp add: dial_checked_eq dial_event_def dial_note_def Let_def split: option.split)+

text \<open>
  The flight recorder misses no attempt and never misreports one: a dial counts exactly one
  event and, below the cap, appends exactly one, for this listener and port, marked allowed
  exactly when a connection was made and carrying a reason exactly when and as the dial was
  denied. At the cap only the counter moves.
\<close>
theorem dial_leaves_one_event:
  assumes "dial p t pr env s = (r, s')"
  shows "ev_total s' = saturating_add (ev_total s) 1 \<and>
    (if length (events s) < MAX_RECORDED_EVENTS then
       \<exists>e. events s' = events s @ [e] \<and> ev_proto e = pr \<and> ev_port e = target_port t \<and>
         (ev_allowed e \<longleftrightarrow> (\<exists>c. r = Inr c)) \<and>
         ev_reason e = (case r of Inl (Denied reason) \<Rightarrow> Some reason | _ \<Rightarrow> None)
     else events s' = events s)"
proof -
  let ?e = "dial_event p t pr env (check p s t)" and ?s1 = "dial_pre p t env (check p s t) s"
  have s': "s' = snd (record_event ?e ?s1)"
    using assms snd_dial_checked [of p t pr env "check p s t" s] by (simp add: dial_def)
  have r: "r = fst (dial_checked p t pr env (check p s t) s)"
    using assms by (simp add: dial_def)
  note e = dial_event_fields [of p t pr env "check p s t"]
  show ?thesis
  proof (cases "length (events s) < MAX_RECORDED_EVENTS")
    case True
    then show ?thesis
      using log.append_below [of ?s1 ?e] e(1,2) e(3,4) [of s] by (simp add: s' r)
  next
    case False
    then show ?thesis using log.append_full [of ?s1 ?e] by (simp add: s')
  qed
qed

theorem dial_leaves_one_event_witness:
  "ev_total sample_state = 1"
proof -
  have "saturating_add (ev_total shared_default) 1 = 1" by code_simp
  then show ?thesis using dial_leaves_one_event [OF sample_dial] by simp
qed

section \<open>The upstream leg of the credential endpoint\<close>

lemma refuse_floored_ok:
  "refuse_floored parse_url lo priv creds = Inr u \<longleftrightarrow>
   list_all (\<lambda>c. \<exists>origin. classify_pinned_host parse_url (host_str c) = Inr origin \<and>
      (case origin of Literal ip \<Rightarrow> floor_permits lo priv ip | OriginName \<Rightarrow> True)) creds"
  by (induction parse_url lo priv creds rule: refuse_floored.induct)
     (auto split: sum.splits pinned_origin.splits)

lemma classify_ok:
  "classify_pinned_host parse_url host = Inr origin \<Longrightarrow>
   \<exists>h. parse_url (''https://'' @ host @ ''/'') = Inr (Some h, host)"
  by (auto simp: classify_pinned_host_def result_iff split: option.splits sum.splits if_splits)

text \<open>
  Where the HTTP client can connect for a pinned host: an address literal is dialled as it
  is, a name goes through the floored resolver.
\<close>

definition upstream_addrs :: "url_parser \<Rightarrow> broker_spec \<Rightarrow> string \<Rightarrow> sock_addr list option \<Rightarrow> ip_addr list" where
  "upstream_addrs parse_url spec host answer =
     (case classify_pinned_host parse_url host of
        Inl _ \<Rightarrow> []
      | Inr (Literal ip) \<Rightarrow> [ip]
      | Inr OriginName \<Rightarrow>
         (case floored_resolve (spec_allow_loopback spec) (spec_allow_private spec) answer of
            None \<Rightarrow> [] | Some kept \<Rightarrow> map fst kept))"

text \<open>
  C14: a token never leaves for an address below the floor: in a broker that started, every
  credential's pinned host survives the client's URL parser unchanged, and whether it is an
  address literal or a name, whatever the lookup answers for it, every address the client
  can connect to passes the floor.
\<close>
theorem upstream_leg_floored:
  assumes "broker_start parse_url bind_tcp bind_udp spec = Inr b"
    and "c \<in> set (credentials (br_policy b))"
  shows "(\<exists>h. parse_url (''https://'' @ host_str c @ ''/'') = Inr (Some h, host_str c)) \<and>
    list_all (\<lambda>ip. floor_permits (spec_allow_loopback spec) (spec_allow_private spec) ip)
      (upstream_addrs parse_url spec (host_str c) answer)"
proof -
  have start: "refuse_floored_pinned_hosts parse_url spec = Inr ()"
    and creds: "credentials (br_policy b) = spec_credentials spec"
    using assms(1) by (auto simp: broker_start_def Let_def result_iff)
  then obtain origin where o: "classify_pinned_host parse_url (host_str c) = Inr origin"
    "case origin of Literal ip \<Rightarrow> floor_permits (spec_allow_loopback spec) (spec_allow_private spec) ip
     | OriginName \<Rightarrow> True"
    using assms(2) by (auto simp: refuse_floored_pinned_hosts_def refuse_floored_ok list_all_iff)
  have "list_all (\<lambda>ip. floor_permits (spec_allow_loopback spec) (spec_allow_private spec) ip)
      (upstream_addrs parse_url spec (host_str c) answer)"
  proof (cases origin)
    case (Literal ip)
    with o show ?thesis by (simp add: upstream_addrs_def)
  next
    case OriginName
    with o(1) show ?thesis
      using resolver_guard.handed_permitted
        [of _ "spec_allow_loopback spec" "spec_allow_private spec" answer]
      by (simp add: upstream_addrs_def list_all_iff)
  qed
  with classify_ok [OF o(1)] show ?thesis by blast
qed

definition sample_url :: url_parser where
  "sample_url u = (if u = ''https://api.example.com/''
     then Inr (Some (UrlDomain ''api.example.com''), ''api.example.com'') else Inl ())"

definition sample_broker_spec :: broker_spec where
  "sample_broker_spec =
     with_credentials [sample_credential] (broker_spec_new (Ipv4 10 107 0 1) [Exact ''a.example''])"

theorem upstream_leg_floored_witness:
  "upstream_addrs sample_url sample_broker_spec ''api.example.com''
     (Some [(V4 (Ipv4 127 0 0 1), 0), (V4 (Ipv4 93 184 216 34), 0)]) = [V4 (Ipv4 93 184 216 34)] \<and>
   floor_permits False False (V4 (Ipv4 93 184 216 34))"
proof -
  let ?ans = "Some [(V4 (Ipv4 127 0 0 1), 0 :: u16), (V4 (Ipv4 93 184 216 34), 0)]"
  have "\<exists>b. broker_start sample_url (\<lambda>_ p. Some p) (\<lambda>_ p. Some p) sample_broker_spec = Inr b
      \<and> credentials (br_policy b) = [sample_credential]"
    by (rule exI, rule conjI, code_simp, code_simp)
  then obtain b where b: "broker_start sample_url (\<lambda>_ p. Some p) (\<lambda>_ p. Some p) sample_broker_spec = Inr b"
    and c: "sample_credential \<in> set (credentials (br_policy b))" by auto
  have addrs: "upstream_addrs sample_url sample_broker_spec ''api.example.com'' ?ans = [V4 (Ipv4 93 184 216 34)]"
    by code_simp
  have host: "host_str sample_credential = ''api.example.com''" by (simp add: sample_credential_def)
  have flags: "\<not> spec_allow_loopback sample_broker_spec" "\<not> spec_allow_private sample_broker_spec"
    by code_simp+
  show ?thesis
    using upstream_leg_floored [OF b c, of ?ans] addrs host flags by simp
qed

section \<open>Only the run's own guest is served\<close>

lemma to_ipv4_mapped_iff: "to_ipv4_mapped x = Some g \<longleftrightarrow> x = to_ipv6_mapped g"
proof
  assume m: "to_ipv4_mapped x = Some g"
  obtain a b c d e f h i where x: "x = Ipv6 a b c d e f h i" by (cases x)
  have "from_be16 (hi_byte w) (lo_byte w) = w" for w
    by (simp add: hi_byte.simps lo_byte.simps)
  with m show "x = to_ipv6_mapped g" by (auto simp: x split: if_splits)
qed simp

text \<open>The diagnostics a sequence of peers provokes, one entry per peer.\<close>

fun peer_diagnostics :: "policy \<Rightarrow> bool \<Rightarrow> ip_addr list \<Rightarrow> bool list" where
  "peer_diagnostics p logged [] = []"
| "peer_diagnostics p logged (peer # peers) =
     (case peer_permitted p logged peer of (_, printed, logged') \<Rightarrow>
        printed # peer_diagnostics p logged' peers)"

lemma peer_diagnostics_logged: "filter (\<lambda>printed. printed) (peer_diagnostics p True peers) = []"
  by (induction peers) (auto simp: peer_permitted_def Let_def)

text \<open>
  the listeners serve the run's own guest and nobody else: a peer is let in exactly when
  its address is the guest's IPv4 address or the IPv6 spelling of it, and however many
  strangers try, the refusal is printed at most once.
\<close>
theorem peer_gate:
  "(fst (peer_permitted p logged peer) \<longleftrightarrow>
      peer = V4 (guest p) \<or> peer = V6 (to_ipv6_mapped (guest p))) \<and>
   length (filter (\<lambda>printed. printed) (peer_diagnostics p False peers)) \<le> 1"
proof
  show "fst (peer_permitted p logged peer) \<longleftrightarrow>
      peer = V4 (guest p) \<or> peer = V6 (to_ipv6_mapped (guest p))"
    by (cases peer) (auto simp: peer_permitted_def Let_def peer_is_guest_def to_ipv4_mapped_iff)
  show "length (filter (\<lambda>printed. printed) (peer_diagnostics p False peers)) \<le> 1"
    by (induction peers) (auto simp: peer_permitted_def Let_def peer_diagnostics_logged)
qed

end
