(* ===== verification/Broker_Accept.thy ===== *)
theory Broker_Accept
  imports Broker_Policy
begin

text \<open>
  The accept loops of the proxy and credential listeners (\<open>serve_tcp\<close> in
  \<open>crates/core/src/net/broker.rs\<close>) as a step relation: three loops share one semaphore, each
  takes a permit before it accepts, and a connection holds its permit until its handler
  ends. The theorem bounds what a guest can make the host hold, in any interleaving.
\<close>

section \<open>The loops as a transition system\<close>

text \<open>
  \<open>free\<close>: permits left in the semaphore. \<open>waiting\<close>: the listeners that hold a permit and wait in
  \<open>accept\<close>. \<open>live\<close>: the spawned connections, by listener and peer.
\<close>

record accept_state =
  free :: nat
  waiting :: "proto list"
  live :: "(proto \<times> ip_addr) list"

definition accept_init :: accept_state where
  "accept_init = \<lparr>free = MAX_CONCURRENT_CONNS, waiting = [], live = []\<rparr>"

definition tcp_listeners :: "proto list" where
  "tcp_listeners = [Socks5, Http, InjectProto]"

text \<open>
  One iteration of a listener's loop in its two parts (the permit, then the accept), and the
  end of a connection. A failed accept and a refused peer both drop the permit.
\<close>

definition take_permit :: "proto \<Rightarrow> accept_state \<Rightarrow> accept_state" where
  "take_permit pr s = s\<lparr>free := free s - 1, waiting := pr # waiting s\<rparr>"

definition drop_permit :: "proto \<Rightarrow> accept_state \<Rightarrow> accept_state" where
  "drop_permit pr s = s\<lparr>free := Suc (free s), waiting := remove1 pr (waiting s)\<rparr>"

definition accepted :: "policy \<Rightarrow> bool \<Rightarrow> proto \<Rightarrow> ip_addr \<Rightarrow> accept_state \<Rightarrow> accept_state" where
  "accepted p logged pr peer s =
     (if \<not> fst (peer_permitted p logged peer) then drop_permit pr s
      else s\<lparr>waiting := remove1 pr (waiting s), live := (pr, peer) # live s\<rparr>)"

definition finished :: "proto \<times> ip_addr \<Rightarrow> accept_state \<Rightarrow> accept_state" where
  "finished c s = s\<lparr>free := Suc (free s), live := remove1 c (live s)\<rparr>"

inductive accept_step :: "policy \<Rightarrow> accept_state \<Rightarrow> accept_state \<Rightarrow> bool" for p where
  acquire: "pr \<in> set tcp_listeners \<Longrightarrow> pr \<notin> set (waiting s) \<Longrightarrow> 0 < free s \<Longrightarrow>
     accept_step p s (take_permit pr s)"
| accept_error: "pr \<in> set (waiting s) \<Longrightarrow> accept_step p s (drop_permit pr s)"
| accept_peer: "pr \<in> set (waiting s) \<Longrightarrow> accept_step p s (accepted p logged pr peer s)"
| finish: "c \<in> set (live s) \<Longrightarrow> accept_step p s (finished c s)"

inductive_simps accept_step_iff: "accept_step p s s'"

definition accept_inv :: "policy \<Rightarrow> accept_state \<Rightarrow> bool" where
  "accept_inv p s \<longleftrightarrow>
     free s + length (waiting s) + length (live s) = MAX_CONCURRENT_CONNS \<and>
     distinct (waiting s) \<and> set (waiting s) \<subseteq> set tcp_listeners \<and>
     list_all (\<lambda>(pr, peer). pr \<in> set tcp_listeners \<and> peer_is_guest (guest p) peer) (live s)"

lemmas accept_defs = take_permit_def drop_permit_def accepted_def finished_def accept_inv_def

lemma length_remove1_Suc: "x \<in> set xs \<Longrightarrow> Suc (length (remove1 x xs)) = length xs"
  by (induction xs) auto

lemma list_all_remove1: "list_all P xs \<Longrightarrow> list_all P (remove1 x xs)"
  using set_remove1_subset [of x xs] by (auto simp: list_all_iff)

lemma fst_peer_permitted: "fst (peer_permitted p logged peer) = peer_is_guest (guest p) peer"
  by (simp add: peer_permitted_def Let_def)

lemma accept_inv_step:
  assumes "accept_inv p s" and "accept_step p s s'"
  shows "accept_inv p s'"
  using assms(2)
proof cases
  case (acquire pr)
  with assms(1) show ?thesis by (auto simp: accept_defs)
next
  case (accept_error pr)
  with assms(1) show ?thesis
    using length_remove1_Suc [of pr "waiting s"] set_remove1_subset [of pr "waiting s"]
    by (auto simp: accept_defs)
next
  case (accept_peer pr logged peer)
  with assms(1) show ?thesis
    using length_remove1_Suc [of pr "waiting s"] set_remove1_subset [of pr "waiting s"]
    by (auto simp: accept_defs fst_peer_permitted)
next
  case (finish c)
  with assms(1) show ?thesis
    using length_remove1_Suc [of c "live s"] list_all_remove1
    by (auto simp: accept_defs)
qed

interpretation accept: transition_system "\<lambda>s. s = accept_init" "accept_step p" "accept_inv p" for p
proof
  show "accept_inv p s" if "s = accept_init" for s
    using that by (simp add: accept_init_def accept_inv_def)
qed (rule accept_inv_step)

text \<open>
  C16: whatever the guest and the host's processes do, and however the three accept loops and
  the handlers interleave, the broker never serves more than 64 connections at once, every
  connection served belongs to the run's own guest, no permit is ever lost or duplicated,
  and when no connection is live the loops can always take another permit.
\<close>
theorem accept_loop_bounded:
  assumes "(accept_step p)\<^sup>*\<^sup>* accept_init s"
  shows "length (live s) \<le> 64 \<and>
    list_all (\<lambda>(_, peer). peer = V4 (guest p) \<or> peer = V6 (to_ipv6_mapped (guest p))) (live s) \<and>
    free s + length (waiting s) + length (live s) = 64 \<and>
    (live s = [] \<longrightarrow> 0 < free s)"
proof -
  have inv: "accept_inv p s" using accept.inv_reachable [OF refl assms] .
  have "length (waiting s) \<le> 3"
  proof -
    have "length (waiting s) = card (set (waiting s))"
      using inv by (simp add: accept_inv_def distinct_card)
    also have "\<dots> \<le> card (set tcp_listeners)"
      using inv by (intro card_mono) (auto simp: accept_inv_def)
    also have "\<dots> \<le> 3" by (simp add: tcp_listeners_def card_insert_if)
    finally show ?thesis .
  qed
  moreover have "peer_is_guest (guest p) peer \<longleftrightarrow>
      peer = V4 (guest p) \<or> peer = V6 (to_ipv6_mapped (guest p))" for peer
    by (cases peer) (auto simp: peer_is_guest_def to_ipv4_mapped_iff)
  ultimately show ?thesis
    using inv by (auto simp: accept_inv_def MAX_CONCURRENT_CONNS_def list_all_iff)
qed

theorem accept_loop_bounded_witness:
  "\<exists>s. (accept_step sample_policy)\<^sup>*\<^sup>* accept_init s \<and> live s = [(Http, V4 (Ipv4 10 107 0 2))] \<and>
     free s + length (waiting s) + length (live s) = 64"
proof -
  let ?s1 = "take_permit Http accept_init"
  let ?s2 = "accepted sample_policy False Http (V4 (Ipv4 10 107 0 2)) ?s1"
  have "accept_step sample_policy accept_init ?s1"
    by (rule acquire) (simp_all add: tcp_listeners_def accept_init_def MAX_CONCURRENT_CONNS_def)
  moreover have "accept_step sample_policy ?s1 ?s2"
    by (rule accept_peer) (simp add: take_permit_def)
  ultimately have r: "(accept_step sample_policy)\<^sup>*\<^sup>* accept_init ?s2" by auto
  moreover have "live ?s2 = [(Http, V4 (Ipv4 10 107 0 2))]" by code_simp
  ultimately show ?thesis using accept_loop_bounded [OF r] by blast
qed

end
