(* ===== verification/Broker_Inject.thy ===== *)
theory Broker_Inject
  imports Broker_Policy
begin

text \<open>
  The credential endpoint's connection handler (\<open>handle_inject\<close>, \<open>serve_inject\<close>,
  \<open>refuse_inject\<close> in \<open>crates/core/src/net/broker.rs\<close>). A client connection is the bytes it
  will deliver; what the handler writes to it is returned. The HTTPS client is the record
  \<open>upstream_env\<close>: what a send answers, and which strings it takes as header values.

  A peer that goes quiet past the handshake deadline is one whose input ends there; \<open>stalled\<close>
  says that it ended that way rather than by a close. The draining of a refused body and
  the marking of the header as sensitive have no effect on what is modelled.
\<close>

section \<open>Reading from a client\<close>

definition read_exact :: "nat \<Rightarrow> bytes \<Rightarrow> (bytes \<times> bytes) option" where
  "read_exact n inp = (if n \<le> length inp then Some (take n inp, drop n inp) else None)"

definition CRLF2 :: bytes where
  "CRLF2 = bytes_of (crlf @ crlf)"

datatype head_result = HeadOk bytes bytes | HeadEof | HeadTooBig

text \<open>The byte-wise loop of \<open>read_http_head\<close> and \<open>read_inject_head\<close>; \<open>buf\<close> is what was read so far.\<close>

fun read_head :: "nat \<Rightarrow> bytes \<Rightarrow> bytes \<Rightarrow> head_result" where
  "read_head limit buf [] = HeadEof"
| "read_head limit buf (b # inp) =
     (let buf1 = buf @ [b] in
      if ends_with CRLF2 buf1 then HeadOk buf1 inp
      else if limit \<le> length buf1 then HeadTooBig
      else read_head limit buf1 inp)"

definition read_inject_head :: "bytes \<Rightarrow> inject_refusal + bytes \<times> bytes" where
  "read_inject_head inp =
     (case read_head MAX_INJECT_HEAD [] inp of
        HeadOk h rest \<Rightarrow> Inr (h, rest)
      | HeadEof \<Rightarrow> Inl RefMalformed
      | HeadTooBig \<Rightarrow> Inl HeadTooLarge)"

definition read_inject_body :: "nat \<Rightarrow> bytes \<Rightarrow> bytes option" where
  "read_inject_body len inp =
     (if len = 0 then Some []
      else if MAX_INJECT_BODY < len then None
      else map_option fst (read_exact len inp))"

section \<open>The upstream client\<close>

record send_error =
  is_connect :: bool
  is_timeout :: bool

record http_response =
  resp_status :: nat
  resp_headers :: "(string \<times> string option) list"
  resp_chunks :: "bytes list"
  resp_complete :: bool

record upstream_env =
  http_send :: "upstream_request \<Rightarrow> string \<Rightarrow> bytes \<Rightarrow> send_error + http_response"
  header_value_ok :: "string \<Rightarrow> bool"

section \<open>Serving one call\<close>

definition pinned_host_of :: "policy \<Rightarrow> string \<Rightarrow> safe_name option" where
  "pinned_host_of p al =
     map_option (\<lambda>c. pinned_name (rc_host c)) (find (\<lambda>c. as_str (rc_alias c) = al) (credentials p))"

definition write_if :: "bool \<Rightarrow> bytes \<Rightarrow> bytes" where
  "write_if ok bs = (if ok then bs else [])"

definition refuse_inject ::
  "net_env \<Rightarrow> safe_name option \<Rightarrow> inject_refusal \<Rightarrow> shared \<Rightarrow> bytes \<times> shared" where
  "refuse_inject env host refusal s =
     (write_if (client_write env 0) (bytes_of (refusal_response refusal)),
      snd (record_event
        (event_of InjectProto (case host of Some h \<Rightarrow> h | None \<Rightarrow> sanitized []) 443 False
           (Some CredentialRefused) (clock env 0) (Some (refusal_tag refusal))) s))"

text \<open>
  The body relay: \<open>k\<close> writes were made, \<open>down\<close> bytes counted, the call's event is in \<open>slot\<close>.
\<close>

fun relay_body ::
  "net_env \<Rightarrow> safe_name \<Rightarrow> nat option \<Rightarrow> bool \<Rightarrow> nat \<Rightarrow> u64 \<Rightarrow> bytes list \<Rightarrow> shared \<Rightarrow> bytes \<times> shared" where
  "relay_body env host slot complete k down [] s =
     (if complete then (write_if (client_write env k) CHUNK_TERMINATOR, s) else ([], s))"
| "relay_body env host slot complete k down (bs # rest) s =
     (if bs = [] then relay_body env host slot complete k down rest s
      else let down1 = saturating_add down (word_of_nat (length bs)) in
        if MAX_INJECT_RESP < unat down1 then
          ([], snd (record_event
             (event_of InjectProto host 443 False (Some CredentialRefused) (clock env 1)
                (Some (upstream_tag UpTooLarge))) s))
        else if \<not> client_write env k then ([], s)
        else
          (case relay_body env host slot complete (Suc k) down1 rest
                  (add_bytes slot 0 (word_of_nat (length bs)) s) of
             (out, s1) \<Rightarrow> (chunk_frame bs @ out, s1)))"

text \<open>
  \<open>serve_inject\<close>: what was sent upstream (the request, the \<open>Authorization\<close> value and the
  body), what the client was written, and the recorder afterwards.
\<close>

type_synonym sent = "(upstream_request \<times> string \<times> bytes) option"

definition serve_inject ::
  "policy \<Rightarrow> net_env \<Rightarrow> upstream_env \<Rightarrow> bytes \<Rightarrow> bytes \<Rightarrow> shared \<Rightarrow> sent \<times> bytes \<times> shared" where
  "serve_inject p env up head inp s =
     (case parse_intent head of
        Inl refusal \<Rightarrow> (None, refuse_inject env None refusal s)
      | Inr intent \<Rightarrow>
         (case authorize (credentials p) intent of
            Inl refusal \<Rightarrow> (None, refuse_inject env (pinned_host_of p (si_alias intent)) refusal s)
          | Inr (request, cred) \<Rightarrow>
             (case read_inject_body (si_body_len intent) inp of
                None \<Rightarrow> (None, [], s)
              | Some body \<Rightarrow>
                 (let auth = ''Bearer '' @ expose (rc_secret cred);
                      bytes_up_n = word_of_nat (length body);
                      host = pinned_name (rc_host cred) in
                  if \<not> header_value_ok up auth then (None, refuse_inject env None RefMalformed s)
                  else case http_send up request auth body of
                      Inl e \<Rightarrow>
                       (let reached = \<not> is_connect e;
                            failure = (if is_timeout e then UpTimedOut else UpUnreachable) in
                        (Some (request, auth, body),
                         write_if (client_write env 0) (bytes_of (upstream_response failure)),
                         snd (record_event
                           ((event_of InjectProto host 443 reached
                               (if \<not> reached then Some CredentialRefused else None) (clock env 0)
                               (Some (upstream_tag failure)))\<lparr>bytes_up := bytes_up_n\<rparr>) s)))
                    | Inr resp \<Rightarrow>
                       (let (slot, s1) = record_event
                              ((event_of InjectProto host 443 True None (clock env 0) None)
                                 \<lparr>bytes_up := bytes_up_n\<rparr>) s;
                            headers = relay_headers
                              (map (\<lambda>(n, v). (n, the v)) (filter (\<lambda>(_, v). v \<noteq> None) (resp_headers resp)))
                        in
                        if \<not> client_write env 0 then (Some (request, auth, body), [], s1)
                        else
                          (case relay_body env host slot (resp_complete resp) 1 0 (resp_chunks resp) s1 of
                             (out, s2) \<Rightarrow>
                               (Some (request, auth, body),
                                bytes_of (build_response_head (resp_status resp) headers) @ out, s2)))))))"

definition handle_inject ::
  "policy \<Rightarrow> net_env \<Rightarrow> upstream_env \<Rightarrow> bool \<Rightarrow> bytes \<Rightarrow> shared \<Rightarrow> sent \<times> bytes \<times> shared" where
  "handle_inject p env up stalled inp s =
     (case read_inject_head inp of
        Inr (head, rest) \<Rightarrow> serve_inject p env up head rest s
      | Inl refusal \<Rightarrow>
          if stalled \<and> refusal = RefMalformed then (None, [], s)
          else (None, refuse_inject env None refusal s))"

section \<open>Heads are read whole and no further\<close>

text \<open>No prefix of \<open>h\<close> short of \<open>h\<close> itself ends the head.\<close>

definition first_head :: "bytes \<Rightarrow> bool" where
  "first_head h \<longleftrightarrow> ends_with CRLF2 h \<and> (\<forall>k < length h. \<not> ends_with CRLF2 (take k h))"

definition open_head :: "bytes \<Rightarrow> bool" where
  "open_head buf \<longleftrightarrow> (\<forall>k \<le> length buf. \<not> ends_with CRLF2 (take k buf))"

lemma open_head_snoc: "open_head (buf @ [b]) \<longleftrightarrow> open_head buf \<and> \<not> ends_with CRLF2 (buf @ [b])"
  by (auto simp: open_head_def le_Suc_eq)

lemma first_head_snoc: "open_head buf \<Longrightarrow> ends_with CRLF2 (buf @ [b]) \<Longrightarrow> first_head (buf @ [b])"
  by (auto simp: first_head_def open_head_def less_Suc_eq_le)

lemma open_head_not_first:
  assumes "first_head (buf @ x)" and "x \<noteq> []"
  shows "\<not> ends_with CRLF2 buf"
  using assms by (auto simp: first_head_def dest!: spec [of _ "length buf"])

lemma read_head_iff:
  assumes "open_head buf" and "length buf < limit"
  shows "read_head limit buf inp = HeadOk h rest \<longleftrightarrow>
    (\<exists>mid. h = buf @ mid \<and> mid \<noteq> [] \<and> inp = mid @ rest \<and> first_head h \<and> length h \<le> limit)"
  using assms
proof (induction limit buf inp rule: read_head.induct)
  case (2 limit buf b inp)
  let ?buf = "buf @ [b]"
  have split: "(\<exists>mid. h = buf @ mid \<and> mid \<noteq> [] \<and> b # inp = mid @ rest \<and> first_head h \<and> length h \<le> limit) \<longleftrightarrow>
      (h = ?buf \<and> inp = rest \<and> first_head h) \<or>
      (\<exists>mid. h = ?buf @ mid \<and> mid \<noteq> [] \<and> inp = mid @ rest \<and> first_head h \<and> length h \<le> limit)"
    using 2(3) by (auto simp: Cons_eq_append_conv)
  show ?case
  proof (cases "ends_with CRLF2 ?buf")
    case True
    have "\<not> first_head (?buf @ mid)" if "mid \<noteq> []" for mid
      using open_head_not_first [of ?buf mid] that True by auto
    then show ?thesis
      unfolding split using True first_head_snoc [OF 2(2) True] by (auto simp: Let_def)
  next
    case False
    then have no: "\<not> first_head ?buf" by (simp add: first_head_def)
    show ?thesis
    proof (cases "limit \<le> length ?buf")
      case True
      then show ?thesis unfolding split using False no by (auto simp: Let_def neq_Nil_conv)
    next
      case room: False
      have "open_head ?buf" using 2(2) False by (simp add: open_head_snoc)
      then show ?thesis
        unfolding split using 2(1) [OF refl False room] room False no by (auto simp: Let_def)
    qed
  qed
qed simp

lemma open_head_Nil: "open_head []"
  by (simp add: open_head_def ends_with_iff CRLF2_def bytes_of_def crlf_def)

lemma first_head_not_Nil: "first_head h \<Longrightarrow> h \<noteq> []"
  using open_head_Nil by (auto simp: first_head_def open_head_def)

text \<open>
  the endpoint reads a request head exactly: it succeeds if and only if the input begins
  with a head of at most 8 KiB that ends in the first empty line, and it consumes nothing
  beyond it, so the declared body is still unread.
\<close>
theorem read_inject_head_exact:
  "read_inject_head inp = Inr (h, rest) \<longleftrightarrow>
     inp = h @ rest \<and> first_head h \<and> length h \<le> 8192"
proof -
  have "read_inject_head inp = Inr (h, rest) \<longleftrightarrow> read_head MAX_INJECT_HEAD [] inp = HeadOk h rest"
    by (simp add: read_inject_head_def split: head_result.splits)
  also have "\<dots> \<longleftrightarrow> inp = h @ rest \<and> first_head h \<and> length h \<le> 8192"
    by (subst read_head_iff [OF open_head_Nil])
       (auto simp: MAX_INJECT_HEAD_def dest: first_head_not_Nil)
  finally show ?thesis .
qed

section \<open>When the token leaves\<close>

lemma refuse_inject_log:
  "snd (refuse_inject env host refusal s) =
     snd (record_event (event_of InjectProto (case host of Some h \<Rightarrow> h | None \<Rightarrow> sanitized []) 443 False
       (Some CredentialRefused) (clock env 0) (Some (refusal_tag refusal))) s)"
  by (simp add: refuse_inject_def)

lemma read_inject_body_ok: "read_inject_body len inp = Some body \<Longrightarrow> length body = len \<and> (\<exists>r. inp = body @ r)"
  by (auto simp: read_inject_body_def read_exact_def split: if_splits)
     (metis append_take_drop_id)

lemma serve_inject_sent:
  assumes "serve_inject p env up head inp s = (Some (req, auth, body), out, s')"
  obtains i c where "parse_intent head = Inr i" "authorize (credentials p) i = Inr (req, c)"
    "read_inject_body (si_body_len i) inp = Some body" "auth = ''Bearer '' @ expose (rc_secret c)"
    "header_value_ok up auth"
proof -
  from assms obtain i where i: "parse_intent head = Inr i"
    by (auto simp: serve_inject_def split: sum.splits)
  with assms obtain req' c where a: "authorize (credentials p) i = Inr (req', c)"
    by (auto simp: serve_inject_def split: sum.splits)
  with assms i obtain body' where b: "read_inject_body (si_body_len i) inp = Some body'"
    by (auto simp: serve_inject_def split: option.splits)
  let ?auth = "''Bearer '' @ expose (rc_secret c)"
  have ok: "header_value_ok up ?auth"
    using assms i a b by (auto simp: serve_inject_def Let_def split: if_splits)
  have "req' = req \<and> ?auth = auth \<and> body' = body"
    using assms i a b ok
    by (simp add: serve_inject_def Let_def split: sum.splits prod.splits if_splits)
  with i a b ok show ?thesis using that by blast
qed

text \<open>
  C2: a token is put on the wire only for an authorised call: whenever the endpoint sends
  something upstream, the head parsed, a credential injected into this run has the named
  alias and permits that method and path, the request is the one built for that
  credential's pinned host, the token attached is that credential's own, and the body is
  exactly the declared bytes of the connection. In every other case nothing is sent.
\<close>
theorem token_sent_only_when_authorised:
  assumes "serve_inject p env up head inp s = (Some (req, auth, body), out, s')"
  shows "\<exists>i c. parse_intent head = Inr i \<and> c \<in> set (credentials p) \<and>
    as_str (rc_alias c) = si_alias i \<and> cred_permits c (si_method i) (si_path i) \<and>
    ur_url req = ''https://'' @ host_str c @ si_path i \<and> ur_method req = si_method i \<and>
    ur_headers req = si_headers i \<and> auth = ''Bearer '' @ expose (rc_secret c) \<and>
    length body = si_body_len i \<and> (\<exists>r. inp = body @ r)"
proof -
  from assms obtain i c where i: "parse_intent head = Inr i"
    and a: "authorize (credentials p) i = Inr (req, c)"
    and b: "read_inject_body (si_body_len i) inp = Some body"
    and auth: "auth = ''Bearer '' @ expose (rc_secret c)"
    by (rule serve_inject_sent)
  have c: "c \<in> set (credentials p)" "as_str (rc_alias c) = si_alias i"
    using a by (auto simp: authorize_iff find_Some_iff)
  have "cred_permits c (si_method i) (si_path i)" "ur_url req = ''https://'' @ host_str c @ si_path i"
    "ur_method req = si_method i" "ur_headers req = si_headers i"
    using a by (simp_all add: authorize_iff)
  with i c auth read_inject_body_ok [OF b] show ?thesis by blast
qed

definition sample_up :: upstream_env where
  "sample_up =
     \<lparr>http_send = (\<lambda>_ _ _. Inr \<lparr>resp_status = 200, resp_headers = [(''server'', Some ''x'')],
        resp_chunks = [bytes_of ''ok''], resp_complete = True\<rparr>),
      header_value_ok = list_all header_value_byte\<rparr>"

lemma sample_serve:
  "fst (serve_inject sample_policy sample_env sample_up sample_head (bytes_of ''hello, world!'') shared_default) =
     Some (\<lparr>ur_url = ''https://api.example.com/issues/7'', ur_method = Post,
            ur_headers = [(''accept'', ''text/plain'')], ur_alias = ''github'',
            ur_host = ''api.example.com''\<rparr>, ''Bearer t0k3n'', bytes_of ''hello, world'')"
  by code_simp

theorem token_sent_only_when_authorised_witness:
  "\<exists>c. c \<in> set (credentials sample_policy) \<and> cred_permits c Post ''/issues/7''"
proof -
  obtain out s' where "serve_inject sample_policy sample_env sample_up sample_head
      (bytes_of ''hello, world!'') shared_default =
     (Some (\<lparr>ur_url = ''https://api.example.com/issues/7'', ur_method = Post,
            ur_headers = [(''accept'', ''text/plain'')], ur_alias = ''github'',
            ur_host = ''api.example.com''\<rparr>, ''Bearer t0k3n'', bytes_of ''hello, world''), out, s')"
    using sample_serve by (metis prod.collapse)
  from token_sent_only_when_authorised [OF this] show ?thesis
    by (auto simp: sample_parse sample_intent_def)
qed

section \<open>The relayed body\<close>

text \<open>The chunks that fit under the ceiling after \<open>n\<close> bytes, and whether all of them do.\<close>

fun kept_chunks :: "nat \<Rightarrow> bytes list \<Rightarrow> bytes list \<times> bool" where
  "kept_chunks n [] = ([], True)"
| "kept_chunks n (bs # rest) =
     (if bs = [] then kept_chunks n rest
      else if MAX_INJECT_RESP < n + length bs then ([], False)
      else (case kept_chunks (n + length bs) rest of (ks, ok) \<Rightarrow> (bs # ks, ok)))"

lemma kept_chunks_fit:
  "n + sum_list (map length cs) \<le> MAX_INJECT_RESP \<Longrightarrow>
   kept_chunks n cs = (filter (\<lambda>bs. bs \<noteq> []) cs, True)"
  by (induction n cs rule: kept_chunks.induct) auto

lemma kept_chunks_over:
  "MAX_INJECT_RESP < n + sum_list (map length cs) \<Longrightarrow> n \<le> MAX_INJECT_RESP \<Longrightarrow>
   \<not> snd (kept_chunks n cs)"
  by (induction n cs rule: kept_chunks.induct) (auto split: prod.splits if_splits)

lemma kept_chunks_nonempty: "list_all (\<lambda>bs. bs \<noteq> []) (fst (kept_chunks n cs))"
  by (induction n cs rule: kept_chunks.induct) (auto split: prod.splits if_splits)

lemma kept_chunks_sum:
  "n \<le> MAX_INJECT_RESP \<Longrightarrow> n + sum_list (map length (fst (kept_chunks n cs))) \<le> MAX_INJECT_RESP"
  by (induction n cs rule: kept_chunks.induct) (auto split: prod.splits if_splits)

lemma count_exact:
  fixes down :: u64
  assumes "unat down \<le> MAX_INJECT_RESP" and "l < 2 ^ 64"
  shows "MAX_INJECT_RESP < unat (saturating_add down (word_of_nat l)) \<longleftrightarrow> MAX_INJECT_RESP < unat down + l"
    and "unat down + l \<le> MAX_INJECT_RESP \<Longrightarrow> unat (saturating_add down (word_of_nat l)) = unat down + l"
proof -
  have l: "unat (word_of_nat l :: u64) = l" using assms(2) by (intro unat_word_of_nat) simp
  show "MAX_INJECT_RESP < unat (saturating_add down (word_of_nat l)) \<longleftrightarrow> MAX_INJECT_RESP < unat down + l"
    "unat down + l \<le> MAX_INJECT_RESP \<Longrightarrow> unat (saturating_add down (word_of_nat l)) = unat down + l"
    by (simp_all add: unat_saturating_add l MAX_INJECT_RESP_def)
qed

lemma relay_body_shape:
  assumes "\<forall>k. client_write env k" and "list_all (\<lambda>bs. length bs < 2 ^ 64) chunks"
    and "unat down \<le> MAX_INJECT_RESP"
  shows "fst (relay_body env host slot complete k down chunks s) =
    concat (map chunk_frame (fst (kept_chunks (unat down) chunks))) @
    (if complete \<and> snd (kept_chunks (unat down) chunks) then CHUNK_TERMINATOR else [])"
  using assms
proof (induction env host slot complete k down chunks s rule: relay_body.induct)
  case (1 env host slot complete k down s)
  then show ?case by (simp add: write_if_def)
next
  case (2 env host slot complete k down bs rest s)
  show ?case
  proof (cases "bs = []")
    case True
    with 2 show ?thesis by simp
  next
    case False
    have c: "MAX_INJECT_RESP < unat (saturating_add down (word_of_nat (length bs))) \<longleftrightarrow>
        MAX_INJECT_RESP < unat down + length bs"
      using 2(4,5) by (intro count_exact) simp_all
    show ?thesis
    proof (cases "MAX_INJECT_RESP < unat down + length bs")
      case True
      with False c show ?thesis by (simp add: Let_def)
    next
      case le: False
      then have u: "unat (saturating_add down (word_of_nat (length bs))) = unat down + length bs"
        using 2(4,5) by (intro count_exact) simp_all
      show ?thesis
        using False le c u 2(2) [OF False refl] 2(3,4)
        by (simp add: Let_def case_prod_unfold)
    qed
  qed
qed

text \<open>
  C15: the guest can tell a complete response from a cut one: provided its own connection
  takes the bytes, the body it is written decodes to exactly the upstream's non-empty
  chunks when the upstream finished and the body is within 64 MiB, and in every other case
  (the ceiling, an upstream that died) no reader of chunked bodies accepts it. At most
  64 MiB of body are ever relayed.
\<close>
theorem relayed_body_complete_or_detectable:
  assumes "\<forall>k. client_write env k" and "list_all (\<lambda>bs. length bs < 2 ^ 64) chunks"
    and "relay_body env host slot complete k 0 chunks s = (out, s')"
  shows "(if complete \<and> sum_list (map length chunks) \<le> MAX_INJECT_RESP
      then read_frames dechunk_step (Suc (length out)) out = Some (filter (\<lambda>bs. bs \<noteq> []) chunks, [])
      else (\<forall>n. read_frames dechunk_step n out = None)) \<and>
    (\<exists>ks. (out = concat (map chunk_frame ks) \<or> out = concat (map chunk_frame ks) @ CHUNK_TERMINATOR) \<and>
       sum_list (map length ks) \<le> MAX_INJECT_RESP)"
proof -
  let ?ks = "fst (kept_chunks 0 chunks)" and ?ok = "snd (kept_chunks 0 chunks)"
  have out: "out = concat (map chunk_frame ?ks) @ (if complete \<and> ?ok then CHUNK_TERMINATOR else [])"
    using relay_body_shape [OF assms(1,2), of 0 host slot complete k s] assms(3) by simp
  have ks: "list_all (\<lambda>bs. bs \<noteq> []) ?ks" by (rule kept_chunks_nonempty)
  have "if complete \<and> sum_list (map length chunks) \<le> MAX_INJECT_RESP
      then read_frames dechunk_step (Suc (length out)) out = Some (filter (\<lambda>bs. bs \<noteq> []) chunks, [])
      else (\<forall>n. read_frames dechunk_step n out = None)"
  proof (cases "complete \<and> sum_list (map length chunks) \<le> MAX_INJECT_RESP")
    case True
    then have "kept_chunks 0 chunks = (filter (\<lambda>bs. bs \<noteq> []) chunks, True)"
      by (intro kept_chunks_fit) simp
    with True show ?thesis
      using chunks.round_trip [OF ks, of "[]"] by (simp add: out chunks.encode_def)
  next
    case False
    then have "\<not> (complete \<and> ?ok)" using kept_chunks_over [of 0 chunks] by auto
    then have "out = concat (map chunk_frame ?ks)" by (auto simp: out)
    with False show ?thesis
      using chunks.read_truncated [OF ks] by (auto simp: chunks.encode_def simp del: read_frames.simps)
  qed
  moreover have "sum_list (map length ?ks) \<le> MAX_INJECT_RESP"
    using kept_chunks_sum [of 0 chunks] by simp
  moreover have "out = concat (map chunk_frame ?ks) \<or> out = concat (map chunk_frame ?ks) @ CHUNK_TERMINATOR"
    by (cases "complete \<and> ?ok") (simp_all only: out if_True if_False append_Nil2 simp_thms)
  ultimately show ?thesis by blast
qed

theorem relayed_body_complete_or_detectable_witness:
  "\<forall>n. read_frames dechunk_step n
     (fst (relay_body sample_env (SafeName ''h'') None False 1 0 [bytes_of ''ab''] shared_default)) = None"
proof -
  have w: "\<forall>k. client_write sample_env k" by (simp add: sample_env_def)
  have l: "list_all (\<lambda>bs. length bs < 2 ^ 64) [bytes_of ''ab'']" by simp
  show ?thesis
    using relayed_body_complete_or_detectable
      [OF w l, of "SafeName ''h''" None False 1 shared_default, OF prod.collapse [symmetric]]
    by simp
qed

end
