(* ===== verification/Broker_Proxy.thy ===== *)
theory Broker_Proxy
  imports Broker_Inject
begin

text \<open>
  The two proxy listeners of \<open>crates/core/src/net/broker.rs\<close>: the SOCKS5 handshake and
  handler, the HTTP request head (CONNECT and absolute form, with the rewrite to origin
  form), its handler, and the byte pump between a client and its destination. As in the
  credential endpoint, a client is the bytes it delivers, and the handler returns what it
  writes; a connection handed to the pump is the result \<open>Splice\<close>.
\<close>

section \<open>The byte pump\<close>

datatype direction = Up | Down

text \<open>
  \<open>copy_counting\<close> runs once per direction, concurrently, until either ends. A schedule lists
  the reads of both loops in the order they complete: a direction and the bytes read
  (\<^const>\<open>None\<close>: end of stream or an error), with whether writing them out succeeds. The
  result is what each side was written and the recorder afterwards.
\<close>

fun pump ::
  "nat option \<Rightarrow> (direction \<times> bytes option \<times> bool) list \<Rightarrow> shared \<Rightarrow> (bytes \<times> bytes) \<times> shared" where
  "pump slot [] s = (([], []), s)"
| "pump slot ((dir, chunk, ok) # rest) s =
     (case chunk of
        None \<Rightarrow> (([], []), s)
      | Some bs \<Rightarrow>
          if \<not> ok then (([], []), s)
          else
           (case dir of
              Up \<Rightarrow>
               (case pump slot rest (add_bytes slot (word_of_nat (length bs)) 0 s) of
                  ((u, d), s1) \<Rightarrow> ((bs @ u, d), s1))
            | Down \<Rightarrow>
               (case pump slot rest (add_bytes slot 0 (word_of_nat (length bs)) s) of
                  ((u, d), s1) \<Rightarrow> ((u, bs @ d), s1))))"

text \<open>
  How a handler leaves the client's connection: closed, or spliced to the address connected,
  with the event to count into, what was already forwarded upstream, and the client's
  bytes that are still unread.
\<close>

datatype conn_end = Closed | Splice sock_addr "nat option" bytes bytes

section \<open>SOCKS5\<close>

definition SOCKS_OK :: u8 where "SOCKS_OK = 0x00"
definition SOCKS_NOT_ALLOWED :: u8 where "SOCKS_NOT_ALLOWED = 0x02"
definition SOCKS_UNREACHABLE :: u8 where "SOCKS_UNREACHABLE = 0x04"
definition SOCKS_CMD_UNSUPPORTED :: u8 where "SOCKS_CMD_UNSUPPORTED = 0x07"
definition SOCKS_ATYP_UNSUPPORTED :: u8 where "SOCKS_ATYP_UNSUPPORTED = 0x08"

definition socks_reply :: "u8 \<Rightarrow> bytes" where
  "socks_reply reply_code = [0x05, reply_code, 0x00, 0x01, 0, 0, 0, 0, 0, 0]"

datatype socks_host = SocksName safe_name | SocksAddr ip_addr

text \<open>\<open>IpAddr::from\<close> on 4 and on 16 octets.\<close>

fun be_segments :: "bytes \<Rightarrow> u16 list" where
  "be_segments (a # b # r) = from_be16 a b # be_segments r"
| "be_segments _ = []"

definition ip_from_octets :: "bytes \<Rightarrow> ip_addr" where
  "ip_from_octets os =
     (case os of
        [a, b, c, d] \<Rightarrow> V4 (Ipv4 a b c d)
      | _ \<Rightarrow> (case be_segments os of
          [a, b, c, d, e, f, g, h] \<Rightarrow> V6 (Ipv6 a b c d e f g h)
        | _ \<Rightarrow> V4 (Ipv4 0 0 0 0)))"

datatype socks_host_result = HostShort | HostUnsupported | HostRead socks_host bytes

definition read_socks_host :: "u8 \<Rightarrow> bytes \<Rightarrow> socks_host_result" where
  "read_socks_host atyp inp =
     (if atyp = 0x01 then
        (case read_exact 4 inp of None \<Rightarrow> HostShort | Some (os, r) \<Rightarrow> HostRead (SocksAddr (ip_from_octets os)) r)
      else if atyp = 0x03 then
        (case read_exact 1 inp of
           None \<Rightarrow> HostShort
         | Some (len, r) \<Rightarrow>
            (case read_exact (unat (len ! 0)) r of
               None \<Rightarrow> HostShort
             | Some (name, r1) \<Rightarrow> HostRead (SocksName (sanitized_bytes name)) r1))
      else if atyp = 0x04 then
        (case read_exact 16 inp of None \<Rightarrow> HostShort | Some (os, r) \<Rightarrow> HostRead (SocksAddr (ip_from_octets os)) r)
      else HostUnsupported)"

fun socks_target :: "socks_host \<Rightarrow> u16 \<Rightarrow> target" where
  "socks_target (SocksName n) port = TName n port"
| "socks_target (SocksAddr a) port = TAddr a port"

text \<open>
  \<open>socks_handshake\<close>: the target and the unread input, or \<^const>\<open>None\<close> for any failure, with what
  the client was written. The greeting's answer is write 0, a refusal write 1.
\<close>

definition socks_handshake :: "net_env \<Rightarrow> bytes \<Rightarrow> (target \<times> bytes) option \<times> bytes" where
  "socks_handshake env inp =
     (case read_exact 2 inp of
        None \<Rightarrow> (None, [])
      | Some (head, r) \<Rightarrow>
          if head ! 0 \<noteq> 0x05 then (None, [])
          else case read_exact (unat (head ! 1)) r of
              None \<Rightarrow> (None, [])
            | Some (_, r1) \<Rightarrow>
                if \<not> client_write env 0 then (None, [])
                else case read_exact 4 r1 of
                    None \<Rightarrow> (None, [0x05, 0x00])
                  | Some (req, r2) \<Rightarrow>
                      if req ! 1 \<noteq> 0x01 then
                        (None, [0x05, 0x00] @ write_if (client_write env 1) (socks_reply SOCKS_CMD_UNSUPPORTED))
                      else case read_socks_host (req ! 3) r2 of
                          HostShort \<Rightarrow> (None, [0x05, 0x00])
                        | HostUnsupported \<Rightarrow>
                            (None, [0x05, 0x00] @ write_if (client_write env 1) (socks_reply SOCKS_ATYP_UNSUPPORTED))
                        | HostRead host r3 \<Rightarrow>
                           (case read_exact 2 r3 of
                              None \<Rightarrow> (None, [0x05, 0x00])
                            | Some (pb, r4) \<Rightarrow>
                                (Some (socks_target host (from_be16 (pb ! 0) (pb ! 1)), r4), [0x05, 0x00])))"

definition handle_socks :: "policy \<Rightarrow> net_env \<Rightarrow> bytes \<Rightarrow> shared \<Rightarrow> conn_end \<times> bytes \<times> shared" where
  "handle_socks p env inp s =
     (case socks_handshake env inp of
        (None, out) \<Rightarrow> (Closed, out, s)
      | (Some (t, rest), out) \<Rightarrow>
         (case dial p t Socks5 env s of
            (Inr (a, slot), s1) \<Rightarrow>
              if \<not> client_write env 1 then (Closed, out, s1)
              else (Splice a slot [] rest, out @ socks_reply SOCKS_OK, s1)
          | (Inl (Denied _), s1) \<Rightarrow>
              (Closed, out @ write_if (client_write env 1) (socks_reply SOCKS_NOT_ALLOWED), s1)
          | (Inl Unreachable, s1) \<Rightarrow>
              (Closed, out @ write_if (client_write env 1) (socks_reply SOCKS_UNREACHABLE), s1)))"

section \<open>HTTP\<close>

definition read_http_head :: "bytes \<Rightarrow> (bytes \<times> bytes) option" where
  "read_http_head inp =
     (case read_head MAX_HTTP_HEAD [] inp of HeadOk h rest \<Rightarrow> Some (h, rest) | _ \<Rightarrow> None)"

datatype http_kind = Connect | Absolute string | HttpsAbsolute

record http_request =
  hr_target :: target
  hr_kind :: http_kind

definition http_error :: "nat \<Rightarrow> string \<Rightarrow> string" where
  "http_error status message =
     (let reason = (if status = 400 then ''Bad Request'' else if status = 403 then ''Forbidden''
                    else if status = 501 then ''Not Implemented''
                    else if status = 502 then ''Bad Gateway'' else ''Error'');
          body = ''isopod egress broker: '' @ message @ [LF] in
      ''HTTP/1.1 '' @ show_nat status @ '' '' @ reason @ crlf @
      ''Content-Type: text/plain'' @ crlf @
      ''Content-Length: '' @ show_nat (length body) @ crlf @
      ''Connection: close'' @ crlf @ crlf @ body)"

definition split_authority :: "string \<Rightarrow> u16 \<Rightarrow> (string \<times> u16) option" where
  "split_authority authority default_port =
     (if authority = [] then None
      else (case strip_prefix ''['' authority of
          Some rest \<Rightarrow>
           (case split_once CHR '']'' rest of
              None \<Rightarrow> None
            | Some (addr, tail) \<Rightarrow>
               (case strip_prefix '':'' tail of
                  Some prt \<Rightarrow>
                    map_option (\<lambda>n. (addr, word_of_nat n)) (parse_uint 65535 prt)
                | None \<Rightarrow> Some (addr, default_port)))
        | None \<Rightarrow>
           (case rsplit_once CHR '':'' authority of
              Some (host, prt) \<Rightarrow> map_option (\<lambda>n. (host, word_of_nat n)) (parse_uint 65535 prt)
            | None \<Rightarrow> Some (authority, default_port))))"

definition make_target :: "string \<Rightarrow> u16 \<Rightarrow> target" where
  "make_target host port =
     (case parse_ip host of Some ip \<Rightarrow> TAddr ip port | None \<Rightarrow> TName (sanitized host) port)"

definition hop_header :: "string \<Rightarrow> bool" where
  "hop_header line =
     (let name = hd (split_on CHR '':'' line) in
      eq_ignore_ascii_case name ''proxy-connection'' \<or> eq_ignore_ascii_case name ''connection'' \<or>
      eq_ignore_ascii_case name ''keep-alive'')"

text \<open>The header loop of the rewrite: up to the first empty line, without the hop headers.\<close>

fun rewrite_lines :: "string list \<Rightarrow> string" where
  "rewrite_lines [] = []"
| "rewrite_lines (line # rest) =
     (if line = [] then []
      else if hop_header line then rewrite_lines rest
      else line @ crlf @ rewrite_lines rest)"

definition parse_http_head :: "bytes \<Rightarrow> http_request option" where
  "parse_http_head head =
     (case from_utf8 head of
        None \<Rightarrow> None
      | Some str \<Rightarrow>
         (case split_crlf str of
            [] \<Rightarrow> None
          | request_line # lines \<Rightarrow>
             (case split_on CHR '' '' request_line of
                meth # uri # version # _ \<Rightarrow>
                  if \<not> starts_with ''HTTP/'' version then None
                  else if eq_ignore_ascii_case meth ''CONNECT'' then
                    map_option (\<lambda>(host, port). \<lparr>hr_target = make_target host port, hr_kind = Connect\<rparr>)
                      (split_authority uri 443)
                  else (case strip_prefix ''https://'' uri of
                      Some rest \<Rightarrow>
                        map_option (\<lambda>(host, port). \<lparr>hr_target = make_target host port, hr_kind = HttpsAbsolute\<rparr>)
                          (split_authority (hd (split_on CHR ''/'' rest)) 443)
                    | None \<Rightarrow>
                       (case strip_prefix ''http://'' uri of
                          None \<Rightarrow> None
                        | Some rest \<Rightarrow>
                           (let (authority, path) = (case split_once CHR ''/'' rest of
                                  Some (a, r) \<Rightarrow> (a, ''/'' @ r) | None \<Rightarrow> (rest, ''/'')) in
                            map_option (\<lambda>(host, port).
                              \<lparr>hr_target = make_target host port,
                               hr_kind = Absolute (meth @ '' '' @ path @ '' '' @ version @ crlf @
                                 rewrite_lines lines @ ''Connection: close'' @ crlf @ crlf)\<rparr>)
                              (split_authority authority 80))))
              | _ \<Rightarrow> None)))"

definition CONNECT_ESTABLISHED :: string where
  "CONNECT_ESTABLISHED = ''HTTP/1.1 200 Connection established'' @ crlf @ crlf"

definition UNREACHABLE_TEXT :: string where
  "UNREACHABLE_TEXT = ''the allowed destination could not be reached''"

definition HTTPS_ABSOLUTE_TEXT :: string where
  "HTTPS_ABSOLUTE_TEXT =
     ''this client sent an absolute-form https:// request; an '' @
     ''HTTPS destination must be reached with CONNECT (or via '' @
     ''ALL_PROXY=socks5h://). The broker does not terminate TLS.''"

definition dial_refusal :: "dial_failure \<Rightarrow> string" where
  "dial_refusal f =
     (case f of
        Denied reason \<Rightarrow> http_error 403 (deny_explain reason)
      | Unreachable \<Rightarrow> http_error 502 UNREACHABLE_TEXT)"

text \<open>
  \<open>handle_http\<close>: also what the credential endpoint sent upstream, when a request for it
  arrived through the proxy.
\<close>

definition handle_http ::
  "policy \<Rightarrow> net_env \<Rightarrow> upstream_env \<Rightarrow> bytes \<Rightarrow> shared \<Rightarrow> conn_end \<times> sent \<times> bytes \<times> shared" where
  "handle_http p env up inp s =
     (case read_http_head inp of
        None \<Rightarrow> (Closed, None, [], s)
      | Some (head, rest) \<Rightarrow>
         (case parse_http_head head of
            None \<Rightarrow>
              (Closed, None, write_if (client_write env 0) (bytes_of (http_error 400 ''malformed proxy request'')),
               snd (record_event (event_of Http (sanitized []) 0 False (Some MalformedName) (clock env 0)
                      (Some ''unparseable-proxy-request'')) s))
          | Some request \<Rightarrow>
             (case hr_kind request of
                HttpsAbsolute \<Rightarrow>
                 (let pinned = pinned_credential_host p (hr_target request);
                      s1 = snd (record_event (event_of Http (safe_host (hr_target request))
                             (target_port (hr_target request)) False
                             (Some (if pinned then PinnedCredentialHost else MalformedName)) (clock env 0)
                             (Some (if pinned then ''pinned-credential-host''
                                    else ''https-absolute-form-needs-connect''))) s);
                      reply = (if pinned then http_error 403 (deny_explain PinnedCredentialHost)
                               else http_error 501 HTTPS_ABSOLUTE_TEXT) in
                  (Closed, None, write_if (client_write env 0) (bytes_of reply), s1))
              | Connect \<Rightarrow>
                 (case dial p (hr_target request) Http env s of
                    (Inr (a, slot), s1) \<Rightarrow>
                      if \<not> client_write env 0 then (Closed, None, [], s1)
                      else (Splice a slot [] rest, None,
                            bytes_of CONNECT_ESTABLISHED, s1)
                  | (Inl f, s1) \<Rightarrow>
                      (Closed, None, write_if (client_write env 0) (bytes_of (dial_refusal f)), s1))
              | Absolute rewritten \<Rightarrow>
                  if is_own_credential_endpoint p (hr_target request) then
                    (case serve_inject p env up (bytes_of rewritten) rest s of
                       (snt, out, s1) \<Rightarrow> (Closed, snt, out, s1))
                  else
                   (case dial p (hr_target request) Http env s of
                      (Inr (a, slot), s1) \<Rightarrow>
                        if \<not> upstream_write env then (Closed, None, [], s1)
                        else (Splice a slot (bytes_of rewritten) rest, None, [],
                         add_bytes slot (word_of_nat (length rewritten)) 0 s1)
                    | (Inl f, s1) \<Rightarrow>
                        (Closed, None, write_if (client_write env 0) (bytes_of (dial_refusal f)), s1)))))"

section \<open>Lines of a head\<close>

lemma split_crlf_hd: "split_crlf (d # cs) = (x # p) # ps \<Longrightarrow> x = d"
  by (cases cs) (auto split: if_splits list.splits)

lemma split_crlf_pieces: "l \<in> set (split_crlf s) \<Longrightarrow> \<not> contains_sub crlf l"
proof (induction s arbitrary: l rule: split_crlf.induct)
  case (3 c d cs)
  show ?case
  proof (cases "c = CR \<and> d = LF")
    case True
    with 3 show ?thesis by (auto simp: crlf_def)
  next
    case False
    obtain p ps where sp: "split_crlf (d # cs) = p # ps" by (cases "split_crlf (d # cs)") auto
    have "\<not> starts_with crlf (c # p)"
      using False sp split_crlf_hd [of d cs] by (auto simp: crlf_def starts_with_iff)
    moreover have "\<not> contains_sub crlf p" using 3(2) [OF False] sp by auto
    ultimately have "\<not> contains_sub crlf (c # p)" by simp
    with False sp 3 show ?thesis by auto
  qed
qed (auto simp: crlf_def starts_with_def)

lemma split_crlf_line_gen:
  "\<not> contains_sub crlf l \<Longrightarrow> split_crlf (l @ crlf @ s) = l # split_crlf s"
proof (induction l)
  case Nil
  then show ?case by (simp add: crlf_def)
next
  case (Cons c l)
  then have IH: "split_crlf (l @ crlf @ s) = l # split_crlf s" by simp
  obtain d r where dr: "l @ crlf @ s = d # r" by (cases "l @ crlf @ s") (auto simp: crlf_def)
  have "\<not> (c = CR \<and> d = LF)"
  proof
    assume cd: "c = CR \<and> d = LF"
    then obtain l' where "l = LF # l'" using dr by (cases l) (auto simp: crlf_def CR_char LF_char)
    with cd Cons.prems show False by (simp add: crlf_def starts_with_def)
  qed
  with IH dr show ?case by simp
qed

definition kept_lines :: "string list \<Rightarrow> string list" where
  "kept_lines lines = filter (\<lambda>l. \<not> hop_header l) (takeWhile (\<lambda>l. l \<noteq> []) lines)"

lemma rewrite_lines_eq: "rewrite_lines lines = concat (map (\<lambda>l. l @ crlf) (kept_lines lines))"
  by (induction lines) (auto simp: kept_lines_def)

lemma split_crlf_lines_gen:
  "list_all (\<lambda>l. \<not> contains_sub crlf l) ls \<Longrightarrow>
   split_crlf (concat (map (\<lambda>l. l @ crlf) ls) @ s) = ls @ split_crlf s"
  by (induction ls) (simp_all add: split_crlf_line_gen)

text \<open>The parts of a parsed head, in the order the parser takes them.\<close>

lemma parse_http_head_parts:
  assumes "parse_http_head head = Some r"
  obtains str line lines meth uri version more where
    "from_utf8 head = Some str" "split_crlf str = line # lines"
    "split_on CHR '' '' line = meth # uri # version # more" "starts_with ''HTTP/'' version"
proof -
  from assms obtain str where str: "from_utf8 head = Some str"
    by (auto simp: parse_http_head_def split: option.splits)
  obtain line lines where sp: "split_crlf str = line # lines" by (cases "split_crlf str") auto
  from assms str sp obtain meth uri version more where
    parts: "split_on CHR '' '' line = meth # uri # version # more"
    by (auto simp: parse_http_head_def split: list.splits)
  with assms str sp have "starts_with ''HTTP/'' version"
    by (auto simp: parse_http_head_def split: if_splits)
  with str sp parts show ?thesis using that by blast
qed

section \<open>Where an HTTP request goes is decided by its request line\<close>

definition request_target :: "string \<Rightarrow> target option" where
  "request_target line =
     (case split_on CHR '' '' line of
        meth # uri # version # _ \<Rightarrow>
          if \<not> starts_with ''HTTP/'' version then None
          else map_option (\<lambda>(host, port). make_target host port)
            (if eq_ignore_ascii_case meth ''CONNECT'' then split_authority uri 443
             else (case strip_prefix ''https://'' uri of
                 Some rest \<Rightarrow> split_authority (hd (split_on CHR ''/'' rest)) 443
               | None \<Rightarrow>
                  (case strip_prefix ''http://'' uri of
                     None \<Rightarrow> None
                   | Some rest \<Rightarrow> split_authority (hd (split_on CHR ''/'' rest)) 80)))
      | _ \<Rightarrow> None)"

lemma hd_split_on: "hd (split_on d s) = (case split_once d s of Some (a, _) \<Rightarrow> a | None \<Rightarrow> s)"
proof (cases "split_once d s")
  case None
  then show ?thesis by (simp add: split_on_absent split_once_None_iff [THEN iffD1])
next
  case (Some ab)
  then obtain a b where ab: "split_once d s = Some (a, b)" by (cases ab) auto
  then have "s = a @ d # b" "d \<notin> set a" by (simp_all add: split_once_Some_iff)
  then have "hd (split_on d s) = a" by (simp add: split_on_append)
  with ab show ?thesis by simp
qed

lemma parse_http_head_target:
  assumes "from_utf8 head = Some str"
  shows "map_option hr_target (parse_http_head head) = request_target (hd (split_crlf str))"
proof -
  obtain line lines where sp: "split_crlf str = line # lines" by (cases "split_crlf str") auto
  have tgt: "map_option hr_target (map_option (\<lambda>(host, port). \<lparr>hr_target = make_target host port, hr_kind = k host port\<rparr>) m) =
      map_option (\<lambda>(host, port). make_target host port) m" for k m
    by (cases m) auto
  show ?thesis
    using assms sp
    by (simp add: parse_http_head_def request_target_def hd_split_on tgt Let_def case_prod_unfold comp_def
          option.map_comp
        split: list.split option.split)
qed

text \<open>
  The destination of a proxied HTTP request is named by its request line alone: two
  heads with the same first line have the same target, so no header, a forged \<open>Host\<close>
  included, can move a tunnel or a forwarded request to another destination.
\<close>
theorem http_target_ignores_headers:
  assumes "from_utf8 h1 = Some s1" and "from_utf8 h2 = Some s2"
    and "hd (split_crlf s1) = hd (split_crlf s2)"
  shows "map_option hr_target (parse_http_head h1) = map_option hr_target (parse_http_head h2)"
  using parse_http_head_target [OF assms(1)] parse_http_head_target [OF assms(2)] assms(3) by simp

definition forged_head :: "string \<Rightarrow> bytes" where
  "forged_head host =
     bytes_of (''GET http://a.example/x HTTP/1.1'' @ crlf @ ''Host: '' @ host @ crlf @
               ''Proxy-Connection: keep-alive'' @ crlf @ ''Accept: y'' @ crlf @ crlf)"

theorem http_target_ignores_headers_witness:
  "map_option hr_target (parse_http_head (forged_head ''a.example'')) =
   map_option hr_target (parse_http_head (forged_head ''evil.example''))"
proof -
  have "from_utf8 (forged_head ''a.example'') = Some (map byte_char (forged_head ''a.example''))"
    "from_utf8 (forged_head ''evil.example'') = Some (map byte_char (forged_head ''evil.example''))"
    "hd (split_crlf (map byte_char (forged_head ''a.example''))) =
     hd (split_crlf (map byte_char (forged_head ''evil.example'')))"
    by code_simp+
  then show ?thesis by (rule http_target_ignores_headers)
qed

section \<open>The rewritten head\<close>

lemma contains_crlf_sep:
  assumes "x \<noteq> CR" and "x \<noteq> LF"
  shows "contains_sub crlf (a @ x # b) \<longleftrightarrow> contains_sub crlf a \<or> contains_sub crlf b"
proof (induction a)
  case Nil
  then show ?case using assms by (simp add: crlf_def starts_with_def)
next
  case (Cons c a)
  have "starts_with crlf (c # a @ x # b) \<longleftrightarrow> starts_with crlf (c # a)"
    using assms by (cases a) (auto simp: crlf_def starts_with_def)
  with Cons show ?case by auto
qed

lemma contains_crlf_suffix: "contains_sub crlf s \<Longrightarrow> contains_sub crlf (p @ s)"
  by (auto simp: contains_sub_iff) (metis append.assoc)

lemma contains_crlf_prefix: "contains_sub crlf p \<Longrightarrow> contains_sub crlf (p @ s)"
  by (auto simp: contains_sub_iff) (metis append.assoc)

lemma split_on_pieces_no_crlf:
  assumes "\<not> contains_sub crlf l" and "q \<in> set (split_on d l)"
  shows "\<not> contains_sub crlf q"
  using assms
proof (induction l arbitrary: q)
  case (Cons c l)
  obtain h t where ht: "split_on d l = h # t" by (cases "split_on d l") auto
  have l: "\<not> contains_sub crlf l" using Cons.prems(1) by auto
  have "\<not> contains_sub crlf (c # h)" if "c \<noteq> d"
  proof -
    obtain r where r: "l = h @ r"
      using join_split_on [of d l] by (cases t) (auto simp: ht)
    show ?thesis
      using Cons.prems(1) contains_crlf_prefix [of "c # h" r] by (auto simp: r)
  qed
  with Cons l ht show ?case by (auto simp: crlf_def split: if_splits)
qed (simp add: crlf_def)

lemma space_facts: "CHR '' '' \<noteq> CR" "CHR '' '' \<noteq> LF"
  by (simp_all add: CR_char LF_char)

lemma connection_field:
  "eq_ignore_ascii_case (hd (split_on CHR '':'' ''Connection: close'')) ''connection''"
  "\<not> eq_ignore_ascii_case (hd (split_on CHR '':'' [])) ''connection''"
  "\<not> contains_sub crlf ''Connection: close''"
  by code_simp+

lemma rewritten_parts:
  assumes "parse_http_head head = Some r" and "hr_kind r = Absolute rw"
  obtains meth path version lines where
    "split_crlf (map byte_char head) = hd (split_crlf (map byte_char head)) # lines"
    "starts_with ''/'' path"
    "rw = (meth @ '' '' @ path @ '' '' @ version) @ crlf @ rewrite_lines lines @ ''Connection: close'' @ crlf @ crlf"
    "\<not> contains_sub crlf (meth @ '' '' @ path @ '' '' @ version)"
    "list_all (\<lambda>l. \<not> contains_sub crlf l) lines"
proof -
  from assms(1) obtain str line lines meth uri version more where
    str: "from_utf8 head = Some str" and sp: "split_crlf str = line # lines"
    and parts: "split_on CHR '' '' line = meth # uri # version # more"
    and v: "starts_with ''HTTP/'' version"
    by (rule parse_http_head_parts)
  have m: "\<not> eq_ignore_ascii_case meth ''CONNECT''" and https: "strip_prefix ''https://'' uri = None"
    using assms str sp parts v by (auto simp: parse_http_head_def split: if_splits option.splits)
  from assms str sp parts v m https obtain rest where rest: "strip_prefix ''http://'' uri = Some rest"
    by (auto simp: parse_http_head_def split: option.splits)
  define path where "path = (case split_once CHR ''/'' rest of Some (_, r) \<Rightarrow> ''/'' @ r | None \<Rightarrow> ''/'')"
  have rw: "rw = (meth @ '' '' @ path @ '' '' @ version) @ crlf @ rewrite_lines lines @ ''Connection: close'' @ crlf @ crlf"
    using assms str sp parts v m https rest
    by (auto simp: parse_http_head_def path_def Let_def split: option.splits prod.splits)
  have slash: "starts_with ''/'' path" by (auto simp: path_def starts_with_iff split: option.splits)
  have noline: "\<not> contains_sub crlf line" "list_all (\<lambda>l. \<not> contains_sub crlf l) lines"
    using split_crlf_pieces [of _ str] sp by (auto simp: list_all_iff)
  then have pieces: "\<not> contains_sub crlf meth" "\<not> contains_sub crlf uri" "\<not> contains_sub crlf version"
    using split_on_pieces_no_crlf [of line _ "CHR '' ''"] parts by auto
  have "\<not> contains_sub crlf rest"
    using pieces(2) rest contains_crlf_suffix [of rest "''http://''"] by (auto simp: text_simps)
  then have "\<not> contains_sub crlf path"
  proof (cases "split_once CHR ''/'' rest")
    case None
    then show ?thesis by (simp add: path_def crlf_def starts_with_def)
  next
    case (Some ab)
    then obtain a b where ab: "split_once CHR ''/'' rest = Some (a, b)" by (cases ab) auto
    then have "rest = (a @ ''/'') @ b" by (simp add: text_simps)
    with \<open>\<not> contains_sub crlf rest\<close> have "\<not> contains_sub crlf b"
      using contains_crlf_suffix [of b "a @ ''/''"] by auto
    with ab show ?thesis by (simp add: path_def crlf_def starts_with_def CR_char)
  qed
  with pieces have first: "\<not> contains_sub crlf (meth @ '' '' @ path @ '' '' @ version)"
    by (simp add: contains_crlf_sep space_facts)
  have "split_crlf (map byte_char head) = hd (split_crlf (map byte_char head)) # lines"
    using str sp by (auto simp: text_simps)
  then show ?thesis using that slash rw first noline(2) by blast
qed

text \<open>
  A forwarded plain-HTTP request is rewritten to origin form and says exactly once, and
  in the broker's words, that the connection closes: the forwarded head consists of a
  request line with a path starting with a slash, the guest's header lines in their order
  without any \<open>Connection\<close>, \<open>Proxy-Connection\<close> or \<open>Keep-Alive\<close> line, the line
  \<open>Connection: close\<close>, and the empty line.
\<close>
theorem rewritten_head_closes:
  assumes "parse_http_head head = Some r" and "hr_kind r = Absolute rw"
  shows "\<exists>meth path version lines.
    split_crlf (map byte_char head) = hd (split_crlf (map byte_char head)) # lines \<and>
    starts_with ''/'' path \<and>
    split_crlf rw = (meth @ '' '' @ path @ '' '' @ version) # kept_lines lines @
      [''Connection: close'', [], []] \<and>
    length (filter (\<lambda>l. eq_ignore_ascii_case (hd (split_on CHR '':'' l)) ''connection'')
      (tl (split_crlf rw))) = 1"
proof -
  from assms obtain meth path version lines where
    hd: "split_crlf (map byte_char head) = hd (split_crlf (map byte_char head)) # lines"
    and slash: "starts_with ''/'' path"
    and rw: "rw = (meth @ '' '' @ path @ '' '' @ version) @ crlf @ rewrite_lines lines @ ''Connection: close'' @ crlf @ crlf"
    and first: "\<not> contains_sub crlf (meth @ '' '' @ path @ '' '' @ version)"
    and noline: "list_all (\<lambda>l. \<not> contains_sub crlf l) lines"
    by (rule rewritten_parts)
  have kept: "list_all (\<lambda>l. \<not> contains_sub crlf l) (kept_lines lines)"
    using noline by (auto simp: kept_lines_def list_all_iff dest: set_takeWhileD)
  have lines_rw: "split_crlf rw = (meth @ '' '' @ path @ '' '' @ version) # kept_lines lines @
      [''Connection: close'', [], []]"
  proof -
    have "split_crlf rw = (meth @ '' '' @ path @ '' '' @ version) #
        split_crlf (rewrite_lines lines @ ''Connection: close'' @ crlf @ crlf)"
      unfolding rw by (rule split_crlf_line_gen [OF first])
    also have "split_crlf (rewrite_lines lines @ ''Connection: close'' @ crlf @ crlf) =
        kept_lines lines @ split_crlf (''Connection: close'' @ crlf @ crlf)"
      unfolding rewrite_lines_eq by (rule split_crlf_lines_gen [OF kept])
    also have "split_crlf (''Connection: close'' @ crlf @ crlf) = [''Connection: close'', [], []]"
      by code_simp
    finally show ?thesis .
  qed
  have "filter (\<lambda>l. eq_ignore_ascii_case (hd (split_on CHR '':'' l)) ''connection'') (kept_lines lines) = []"
    by (auto simp: kept_lines_def hop_header_def Let_def filter_empty_conv)
  then have "length (filter (\<lambda>l. eq_ignore_ascii_case (hd (split_on CHR '':'' l)) ''connection'')
      (tl (split_crlf rw))) = 1"
    using connection_field(1,2) by (simp add: lines_rw del: split_on.simps)
  with lines_rw slash hd show ?thesis by blast
qed

theorem rewritten_head_closes_witness:
  "\<exists>rw. map_option hr_kind (parse_http_head (forged_head ''a.example'')) = Some (Absolute rw) \<and>
     length (filter (\<lambda>l. eq_ignore_ascii_case (hd (split_on CHR '':'' l)) ''connection'')
       (tl (split_crlf rw))) = 1"
proof -
  let ?rw = "''GET /x HTTP/1.1'' @ crlf @ ''Host: a.example'' @ crlf @ ''Accept: y'' @ crlf @
    ''Connection: close'' @ crlf @ crlf"
  let ?r = "\<lparr>hr_target = TName (SafeName ''a.example'') 80, hr_kind = Absolute ?rw\<rparr>"
  have p: "parse_http_head (forged_head ''a.example'') = Some ?r" by code_simp
  have k: "hr_kind ?r = Absolute ?rw" by simp
  show ?thesis
  proof (intro exI conjI)
    show "map_option hr_kind (parse_http_head (forged_head ''a.example'')) = Some (Absolute ?rw)"
      by (simp only: p option.map k)
    show "length (filter (\<lambda>l. eq_ignore_ascii_case (hd (split_on CHR '':'' l)) ''connection'')
       (tl (split_crlf ?rw))) = 1"
      using rewritten_head_closes [OF p k] by blast
  qed
qed

section \<open>SOCKS5 requests are read as they were meant\<close>

text \<open>What a SOCKS5 client sends: the greeting with its methods, then CONNECT to a host and port.\<close>

fun socks_addr_bytes :: "ip_addr \<Rightarrow> bytes" where
  "socks_addr_bytes (V4 x) = 0x01 # octets4 x"
| "socks_addr_bytes (V6 x) = 0x04 # octets6 x"

definition socks_name_bytes :: "bytes \<Rightarrow> bytes" where
  "socks_name_bytes name = 0x03 # word_of_nat (length name) # name"

definition socks_request :: "bytes \<Rightarrow> bytes \<Rightarrow> u16 \<Rightarrow> bytes" where
  "socks_request methods host_bytes port =
     [0x05, word_of_nat (length methods)] @ methods @ [0x05, 0x01, 0x00] @ host_bytes @ to_be16 port"

lemma read_exact_append [simp]: "length a = n \<Longrightarrow> read_exact n (a @ r) = Some (a, r)"
  by (auto simp: read_exact_def)

lemma read_exact_2 [simp]: "read_exact 2 (a # b # r) = Some ([a, b], r)"
  using read_exact_append [of "[a, b]" 2 r] by simp

lemma read_exact_4 [simp]: "read_exact 4 (a # b # c # d # r) = Some ([a, b, c, d], r)"
  using read_exact_append [of "[a, b, c, d]" 4 r] by simp

lemma read_exact_1 [simp]: "read_exact (Suc 0) (a # r) = Some ([a], r)"
  using read_exact_append [of "[a]" "Suc 0" r] by simp

lemma ip_from_octets_v4: "ip_from_octets (octets4 x) = V4 x"
  by (cases x) (simp add: ip_from_octets_def)

lemma be_segments_to_be16 [simp]: "be_segments (to_be16 w @ r) = w # be_segments r"
  by (simp add: to_be16_def)

lemma ip_from_octets_v6: "ip_from_octets (octets6 x) = V6 x"
proof (cases x)
  case (Ipv6 a b c d e f g h)
  have seg: "be_segments (octets6 x) = [a, b, c, d, e, f, g, h]"
    using be_segments_to_be16 [of h "[]"] by (simp add: Ipv6 octets6_def)
  have "octets6 x \<noteq> [p, q, r, t]" for p q r t
  proof
    assume e: "octets6 x = [p, q, r, t]"
    have "length (octets6 x) = 4" unfolding e by simp
    then show False by simp
  qed
  then have "ip_from_octets (octets6 x) = (case be_segments (octets6 x) of
      [a, b, c, d, e, f, g, h] \<Rightarrow> V6 (Ipv6 a b c d e f g h) | _ \<Rightarrow> V4 (Ipv4 0 0 0 0))"
    by (auto simp: ip_from_octets_def split: list.splits)
  with seg Ipv6 show ?thesis by simp
qed

lemma read_socks_addr:
  "read_socks_host (hd (socks_addr_bytes ip)) (tl (socks_addr_bytes ip) @ r) = HostRead (SocksAddr ip) r"
  by (cases ip) (simp_all add: read_socks_host_def ip_from_octets_v4 ip_from_octets_v6)

lemma read_socks_name:
  assumes "length name < 256"
  shows "read_socks_host 0x03 (word_of_nat (length name) # name @ r) =
    HostRead (SocksName (sanitized_bytes name)) r"
proof -
  have "unat (word_of_nat (length name) :: u8) = length name"
    using assms by (intro unat_word_of_nat) simp
  then show ?thesis by (simp add: read_socks_host_def)
qed

lemma handshake_request:
  assumes "client_write env 0" and "length methods < 256"
    and host: "\<And>r. read_socks_host atyp (hb @ r) = HostRead h r"
  shows "socks_handshake env (socks_request methods (atyp # hb) port @ rest) =
    (Some (socks_target h port, rest), [0x05, 0x00])"
proof -
  have m: "unat (word_of_nat (length methods) :: u8) = length methods"
    using assms(2) by (intro unat_word_of_nat) simp
  obtain x y where xy: "to_be16 port = [x, y]" by (simp add: to_be16_def)
  have port: "from_be16 x y = port" using xy from_to_be16 [of port] by (simp add: to_be16_def)
  show ?thesis
    using assms(1) m
    by (simp add: socks_handshake_def socks_request_def xy host port)
qed

text \<open>
  A SOCKS5 client is understood: for any methods it offers, a CONNECT request for an IPv4
  or IPv6 address yields that address and port, one for a name yields the sanitised name
  and the port, the greeting is answered with "no authentication", and the bytes after the
  request are left for the tunnel.
\<close>
theorem socks_handshake_round_trip:
  assumes "client_write env 0" and "length methods < 256" and "length name < 256"
  shows "socks_handshake env (socks_request methods (socks_addr_bytes ip) port @ rest) =
      (Some (TAddr ip port, rest), [0x05, 0x00]) \<and>
    socks_handshake env (socks_request methods (socks_name_bytes name) port @ rest) =
      (Some (TName (sanitized_bytes name) port, rest), [0x05, 0x00])"
proof
  obtain atyp hb where b: "socks_addr_bytes ip = atyp # hb" by (cases ip) auto
  have "read_socks_host atyp (hb @ r) = HostRead (SocksAddr ip) r" for r
    using read_socks_addr [of ip r] by (simp add: b)
  from handshake_request [OF assms(1,2) this]
  show "socks_handshake env (socks_request methods (socks_addr_bytes ip) port @ rest) =
      (Some (TAddr ip port, rest), [0x05, 0x00])"
    by (simp add: b)
  have "read_socks_host 0x03 ((word_of_nat (length name) # name) @ r) =
      HostRead (SocksName (sanitized_bytes name)) r" for r
    using read_socks_name [OF assms(3)] by simp
  from handshake_request [OF assms(1,2) this]
  show "socks_handshake env (socks_request methods (socks_name_bytes name) port @ rest) =
      (Some (TName (sanitized_bytes name) port, rest), [0x05, 0x00])"
    by (simp add: socks_name_bytes_def)
qed

theorem socks_handshake_round_trip_witness:
  "socks_handshake sample_env (socks_request [0, 2] (socks_addr_bytes (V6 (Ipv6 1 2 3 4 5 6 7 8))) 443) =
     (Some (TAddr (V6 (Ipv6 1 2 3 4 5 6 7 8)) 443, []), [0x05, 0x00])"
proof -
  have "client_write sample_env 0" by (simp add: sample_env_def)
  then show ?thesis
    using socks_handshake_round_trip [of sample_env "[0, 2]" "[]" "V6 (Ipv6 1 2 3 4 5 6 7 8)" 443 "[]"]
    by simp
qed

section \<open>The pump counts what it delivers\<close>

lemma nth_add_bytes:
  "i < length (events s) \<Longrightarrow>
   events (add_bytes (Some i) u d s) ! i =
     (events s ! i)\<lparr>bytes_up := saturating_add (bytes_up (events s ! i)) u,
                   bytes_down := saturating_add (bytes_down (events s ! i)) d\<rparr>"
  by (simp add: add_bytes_def)

lemma saturating_add_0 [simp]: "saturating_add a 0 = a"
  by (simp add: saturating_add_def)

lemma saturating_add_count:
  fixes a :: u64
  assumes "m < 2 ^ 64"
  shows "min (unat (saturating_add a (word_of_nat m)) + n) (2 ^ 64 - 1) = min (unat a + (m + n)) (2 ^ 64 - 1)"
proof -
  have "unat (word_of_nat m :: u64) = m" using assms by (intro unat_word_of_nat) simp
  then show ?thesis by (simp add: unat_saturating_add)
qed

text \<open>What a schedule delivers in one direction: the bytes read there before either loop ends.\<close>

fun delivered :: "direction \<Rightarrow> (direction \<times> bytes option \<times> bool) list \<Rightarrow> bytes" where
  "delivered dir [] = []"
| "delivered dir ((d, chunk, ok) # rest) =
     (case chunk of
        None \<Rightarrow> []
      | Some bs \<Rightarrow> if \<not> ok then [] else (if d = dir then bs else []) @ delivered dir rest)"

definition chunk_bound :: "(direction \<times> bytes option \<times> bool) list \<Rightarrow> bool" where
  "chunk_bound sched \<longleftrightarrow>
     list_all (\<lambda>(_, chunk, _). case chunk of None \<Rightarrow> True | Some bs \<Rightarrow> length bs \<le> 65536) sched"

lemma pump_counts:
  assumes "i < length (events s)" and "chunk_bound sched"
    and "pump (Some i) sched s = ((u, d), s')"
  shows "u = delivered Up sched \<and> d = delivered Down sched \<and> length (events s') = length (events s) \<and>
    unat (bytes_up (events s' ! i)) = min (unat (bytes_up (events s ! i)) + length u) (2 ^ 64 - 1) \<and>
    unat (bytes_down (events s' ! i)) = min (unat (bytes_down (events s ! i)) + length d) (2 ^ 64 - 1)"
  using assms
proof (induction "Some i :: nat option" sched s arbitrary: u d s' rule: pump.induct)
  case (1 s)
  have "unat (x :: u64) \<le> 2 ^ 64 - 1" for x
    using unsigned_less [of x, where ?'a = nat] by simp
  then show ?case using 1 by (auto simp: min_def)
next
  case (2 dir chunk ok rest s)
  show ?case
  proof (cases "chunk = None \<or> \<not> ok")
    case True
    have "unat (x :: u64) \<le> 2 ^ 64 - 1" for x
      using unsigned_less [of x, where ?'a = nat] by simp
    with True 2(5) show ?thesis by (auto simp: min_def split: option.splits)
  next
    case False
    then obtain bs where bs: "chunk = Some bs" "ok" by auto
    have len: "length bs < 2 ^ 64" and rest: "chunk_bound rest"
      using 2(4) by (simp_all add: chunk_bound_def bs)
    show ?thesis
    proof (cases dir)
      case Up
      let ?s1 = "add_bytes (Some i) (word_of_nat (length bs)) 0 s"
      obtain u1 where p: "pump (Some i) rest ?s1 = ((u1, d), s')" and u: "u = bs @ u1"
        using 2(5) by (auto simp: bs Up split: prod.splits)
      have "i < length (events ?s1)" using 2(3) by simp
      from 2(1) [OF bs(1) _ Up this rest p] bs(2)
      have IH: "u1 = delivered direction.Up rest" "d = delivered Down rest"
        "length (events s') = length (events s)"
        "unat (bytes_up (events s' ! i)) = min (unat (bytes_up (events ?s1 ! i)) + length u1) (2 ^ 64 - 1)"
        "unat (bytes_down (events s' ! i)) = min (unat (bytes_down (events ?s1 ! i)) + length d) (2 ^ 64 - 1)"
        by simp_all
      show ?thesis
        using IH u bs 2(3) saturating_add_count [OF len, of "bytes_up (events s ! i)" "length u1"]
        by (simp add: Up nth_add_bytes)
    next
      case Down
      let ?s1 = "add_bytes (Some i) 0 (word_of_nat (length bs)) s"
      obtain d1 where p: "pump (Some i) rest ?s1 = ((u, d1), s')" and d: "d = bs @ d1"
        using 2(5) by (auto simp: bs Down split: prod.splits)
      have "i < length (events ?s1)" using 2(3) by simp
      from 2(2) [OF bs(1) _ Down this rest p] bs(2)
      have IH: "u = delivered direction.Up rest" "d1 = delivered Down rest"
        "length (events s') = length (events s)"
        "unat (bytes_up (events s' ! i)) = min (unat (bytes_up (events ?s1 ! i)) + length u) (2 ^ 64 - 1)"
        "unat (bytes_down (events s' ! i)) = min (unat (bytes_down (events ?s1 ! i)) + length d1) (2 ^ 64 - 1)"
        by simp_all
      show ?thesis
        using IH d bs 2(3) saturating_add_count [OF len, of "bytes_down (events s ! i)" "length d1"]
        by (simp add: Down nth_add_bytes)
    qed
  qed
qed

text \<open>
  The flight recorder's byte counts are the bytes delivered: for any interleaving of the
  two copy loops, each side receives the other's chunks in order up to the first end or
  failed write, and the connection's event grows by exactly those lengths (saturating at
  the width of the counter), also while the connection is still open.
\<close>
theorem pump_accounts_for_every_byte:
  assumes "i < length (events s)" and "chunk_bound sched"
    and "pump (Some i) sched s = ((u, d), s')"
  shows "u = delivered Up sched \<and> d = delivered Down sched \<and>
    unat (bytes_up (events s' ! i)) = min (unat (bytes_up (events s ! i)) + length u) (2 ^ 64 - 1) \<and>
    unat (bytes_down (events s' ! i)) = min (unat (bytes_down (events s ! i)) + length d) (2 ^ 64 - 1)"
  using pump_counts [OF assms] by blast

theorem pump_accounts_for_every_byte_witness:
  "\<exists>s'. pump (Some 0) [(Up, Some [1, 2], True), (Down, Some [3], True), (Up, Some [4], True), (Down, None, True)]
       sample_state = (([1, 2, 4], [3]), s') \<and>
     unat (bytes_up (events s' ! 0)) = min (unat (bytes_up (events sample_state ! 0)) + 3) (2 ^ 64 - 1)"
proof -
  let ?sched = "[(Up, Some [1, 2 :: u8], True), (Down, Some [3], True), (Up, Some [4], True), (Down, None, True)]"
  obtain u d s' where p: "pump (Some 0) ?sched sample_state = ((u, d), s')"
    by (metis prod.collapse)
  have i: "0 < length (events sample_state)" by code_simp
  have b: "chunk_bound ?sched" by code_simp
  note t = pump_accounts_for_every_byte [OF i b p]
  then have "u = [1, 2, 4]" "d = [3]" by simp_all
  with p t show ?thesis by auto
qed

section \<open>Refusals carry the broker's words only\<close>

text \<open>Everything the HTTP listener itself can write to a client.\<close>

definition all_deny_reasons :: "deny_reason list" where
  "all_deny_reasons =
     [EmptyAllowlist, LiteralAddress, NotAllowed, MalformedName, PinnedCredentialHost,
      CredentialRefused, NonPublicAddress]"

definition http_replies :: "bytes list" where
  "http_replies =
     map bytes_of
       ([[], CONNECT_ESTABLISHED,
         http_error 400 ''malformed proxy request'', http_error 501 HTTPS_ABSOLUTE_TEXT,
         http_error 502 UNREACHABLE_TEXT] @
        map (\<lambda>r. http_error 403 (deny_explain r)) all_deny_reasons)"

lemma deny_reason_listed: "r \<in> set all_deny_reasons"
  by (cases r) (simp_all add: all_deny_reasons_def)

lemma http_reply_rules:
  "write_if b (bytes_of (http_error 400 ''malformed proxy request'')) \<in> set http_replies"
  "write_if b (bytes_of (http_error 501 HTTPS_ABSOLUTE_TEXT)) \<in> set http_replies"
  "write_if b (bytes_of (http_error 403 (deny_explain r))) \<in> set http_replies"
  "write_if b (bytes_of (dial_refusal f)) \<in> set http_replies"
  "bytes_of CONNECT_ESTABLISHED \<in> set http_replies"
  "[] \<in> set http_replies"
  using deny_reason_listed
  by (auto simp: http_replies_def write_if_def dial_refusal_def bytes_of_def simp del: deny_explain.simps
      split: dial_failure.splits)

text \<open>
  the HTTP listener never reflects guest input: unless the request is for the credential
  endpoint itself, it writes to the client nothing or one of eleven fixed texts, and nothing
  is sent upstream with a token.
\<close>
theorem http_replies_are_fixed:
  assumes "handle_http p env up inp s = (fin, snt, out, s')"
    and "\<And>h r req. read_http_head inp = Some (h, r) \<Longrightarrow> parse_http_head h = Some req \<Longrightarrow>
      \<not> is_own_credential_endpoint p (hr_target req)"
  shows "out \<in> set http_replies \<and> snt = None"
proof (cases "read_http_head inp")
  case None
  with assms(1) show ?thesis by (simp add: handle_http_def http_reply_rules)
next
  case (Some hr)
  then obtain h r where hr: "read_http_head inp = Some (h, r)" by (cases hr) auto
  show ?thesis
  proof (cases "parse_http_head h")
    case None
    with assms(1) hr show ?thesis by (auto simp: handle_http_def http_reply_rules)
  next
    case (Some req)
    have "\<not> is_own_credential_endpoint p (hr_target req)" using assms(2) [OF hr Some] .
    with assms(1) hr Some show ?thesis
      by (auto simp: handle_http_def Let_def http_reply_rules simp del: deny_explain.simps
          split: http_kind.splits prod.splits sum.splits if_splits)
  qed
qed

theorem http_replies_are_fixed_witness:
  "fst (snd (snd (handle_http sample_policy sample_env sample_up (forged_head ''x'') shared_default)))
     \<in> set http_replies"
proof -
  have own: "(case read_http_head (forged_head ''x'') of None \<Rightarrow> True | Some (h, r) \<Rightarrow>
      (case parse_http_head h of None \<Rightarrow> True
       | Some req \<Rightarrow> \<not> is_own_credential_endpoint sample_policy (hr_target req)))"
    by code_simp
  obtain fin snt out s' where h: "handle_http sample_policy sample_env sample_up (forged_head ''x'') shared_default
      = (fin, snt, out, s')"
    by (metis prod.collapse)
  have "out \<in> set http_replies \<and> snt = None"
    by (rule http_replies_are_fixed [OF h]) (use own in auto)
  then show ?thesis by (simp add: h)
qed

end
