(* ===== verification/Broker_Dns.thy ===== *)
theory Broker_Dns
  imports Broker_Inject
begin

text \<open>
  The DNS responder of \<open>crates/core/src/net/broker.rs\<close>: the query parser, the response
  encoder, the answer policy of filtered and NAT runs, and the two transports. The label
  sequence of a name is a framed stream, so the round trips follow from that contract.
\<close>

section \<open>Queries\<close>

definition QTYPE_A :: u16 where "QTYPE_A = 1"
definition RCODE_NOERROR :: u8 where "RCODE_NOERROR = 0"
definition RCODE_FORMERR :: u8 where "RCODE_FORMERR = 1"
definition RCODE_SERVFAIL :: u8 where "RCODE_SERVFAIL = 2"
definition RCODE_NXDOMAIN :: u8 where "RCODE_NXDOMAIN = 3"

record dns_query =
  dq_id :: u16
  recursion_desired :: bool
  dq_name :: safe_name
  qtype :: u16
  question :: bytes

text \<open>
  One turn of the label loop: \<^const>\<open>None\<close> rejects the message, no label ends the name.
\<close>

definition dns_label_step :: "bytes \<Rightarrow> (string option \<times> bytes) option" where
  "dns_label_step s =
     (case s of
        [] \<Rightarrow> None
      | len # r \<Rightarrow>
          if and len 0xc0 \<noteq> 0 then None
          else if len = 0 then Some (None, r)
          else if length r < unat len then None
          else (case from_utf8 (take (unat len) r) of
              None \<Rightarrow> None
            | Some label \<Rightarrow> Some (Some label, drop (unat len) r)))"

lemma dns_label_step_shorter: "dns_label_step s = Some (x, r) \<Longrightarrow> length r < length s"
  by (auto simp: dns_label_step_def split: list.splits if_splits option.splits)

function dns_labels :: "bytes \<Rightarrow> (string list \<times> bytes) option" where
  "dns_labels s =
     (case dns_label_step s of
        None \<Rightarrow> None
      | Some (None, r) \<Rightarrow> Some ([], r)
      | Some (Some label, r) \<Rightarrow>
         (case dns_labels r of None \<Rightarrow> None | Some (ls, r1) \<Rightarrow> Some (label # ls, r1)))"
  by pat_completeness auto
termination
  by (relation "measure length") (auto dest: dns_label_step_shorter)

declare dns_labels.simps [simp del]

definition parse_dns_query :: "bytes \<Rightarrow> dns_query option" where
  "parse_dns_query raw =
     (if length raw < 12 then None
      else let qid = from_be16 (raw ! 0) (raw ! 1); flags = from_be16 (raw ! 2) (raw ! 3) in
        if and flags 0x8000 \<noteq> 0 \<or> and (drop_bit 11 flags) 0x0f \<noteq> 0 then None
        else if from_be16 (raw ! 4) (raw ! 5) \<noteq> 1 then None
        else (case dns_labels (drop 12 raw) of
            None \<Rightarrow> None
          | Some (labels, r) \<Rightarrow>
             (case r of
                t0 # t1 # c0 # c1 # _ \<Rightarrow>
                  if from_be16 c0 c1 \<noteq> 1 then None
                  else Some
                    \<lparr>dq_id = qid, recursion_desired = (and flags 0x0100 \<noteq> 0),
                     dq_name = sanitized (if labels = [] then [] else join_with ''.'' labels),
                     qtype = from_be16 t0 t1,
                     question = take (length (drop 12 raw) - length r + 4) (drop 12 raw)\<rparr>
              | _ \<Rightarrow> None)))"

section \<open>Responses\<close>

definition dns_header_only :: "u16 \<Rightarrow> bool \<Rightarrow> u8 \<Rightarrow> bytes" where
  "dns_header_only qid rd rcode =
     to_be16 qid @ [or 0x84 (if rd then 1 else 0), or 0x80 rcode] @
     to_be16 0 @ to_be16 0 @ to_be16 0 @ to_be16 0"

fun encode_dns_labels :: "string list \<Rightarrow> bytes option" where
  "encode_dns_labels [] = Some []"
| "encode_dns_labels (label # rest) =
     (if label = [] then encode_dns_labels rest
      else if length label \<le> 63 then
        map_option (\<lambda>bs. word_of_nat (length label) # bytes_of label @ bs) (encode_dns_labels rest)
      else None)"

definition encode_dns_name :: "string \<Rightarrow> bytes" where
  "encode_dns_name name =
     (case encode_dns_labels (split_on CHR ''.'' name) of None \<Rightarrow> [0] | Some bs \<Rightarrow> bs @ [0])"

definition dns_answer :: "bytes \<Rightarrow> ipv4 \<Rightarrow> bytes" where
  "dns_answer name_wire addr =
     name_wire @ to_be16 QTYPE_A @ to_be16 1 @ to_be32 ANSWER_TTL @ to_be16 4 @ octets4 addr"

text \<open>\<open>saturating_sub\<close> is subtraction on \<^typ>\<open>nat\<close>; \<open>per_answer\<close> is at least 14.\<close>

definition max_answers :: "dns_query \<Rightarrow> nat" where
  "max_answers query =
     (MAX_DNS_MSG - (12 + length (question query))) div (length (encode_dns_name (as_str (dq_name query))) + 14)"

definition build_dns_response :: "dns_query \<Rightarrow> u8 \<Rightarrow> ipv4 list \<Rightarrow> bytes" where
  "build_dns_response query rcode addrs =
     (let name_wire = encode_dns_name (as_str (dq_name query));
          answers = take (max_answers query) addrs;
          truncated = length answers < length addrs;
          flags_hi = or (or 0x84 (if recursion_desired query then 1 else 0)) (if truncated then 0x02 else 0);
          ancount = (if length answers < 65536 then word_of_nat (length answers) else 0) in
      to_be16 (dq_id query) @ [flags_hi, or 0x80 rcode] @ to_be16 1 @ to_be16 ancount @
      to_be16 0 @ to_be16 0 @ question query @ concat (map (dns_answer name_wire) answers))"

section \<open>Answering\<close>

datatype dns_mode = Filtered policy | OpenMode bool

record dns_responder =
  dr_guest :: ipv4
  dr_mode :: dns_mode

fun dns_floor :: "dns_mode \<Rightarrow> ip_addr \<Rightarrow> bool" where
  "dns_floor (Filtered p) = floor_permits (allow_loopback p) (allow_private p)"
| "dns_floor (OpenMode priv) = floor_permits False priv"

definition responder_peer_permitted :: "dns_responder \<Rightarrow> bool \<Rightarrow> ip_addr \<Rightarrow> bool \<times> bool \<times> bool" where
  "responder_peer_permitted r logged peer =
     (case dr_mode r of
        Filtered p \<Rightarrow> peer_permitted p logged peer
      | OpenMode _ \<Rightarrow>
         (let ok = peer_is_guest (dr_guest r) peer in (ok, \<not> ok \<and> \<not> logged, logged \<or> \<not> ok)))"

text \<open>The addresses of a lookup that may be told to the guest.\<close>

definition permitted_v4 :: "(ip_addr \<Rightarrow> bool) \<Rightarrow> sock_addr list \<Rightarrow> ipv4 list" where
  "permitted_v4 ok answered =
     List.map_filter (\<lambda>a. case fst a of V4 v4 \<Rightarrow> if ok (V4 v4) then Some v4 else None | V6 _ \<Rightarrow> None) answered"

text \<open>After the verdict on the name: resolution, the floor, and what is remembered.\<close>

definition answer_allowed :: "net_env \<Rightarrow> dns_mode \<Rightarrow> dns_query \<Rightarrow> shared \<Rightarrow> bytes \<times> shared" where
  "answer_allowed env mode query s =
     (if qtype query \<noteq> QTYPE_A then (build_dns_response query RCODE_NOERROR [], s)
      else (case resolve_v4_detailed env (as_str (dq_name query)) 0 of
          Failed \<Rightarrow> (build_dns_response query RCODE_SERVFAIL [], s)
        | Addrs answered \<Rightarrow>
           (let ips = permitted_v4 (dns_floor mode) answered in
            if ips = [] then (build_dns_response query RCODE_NOERROR [], s)
            else
              (build_dns_response query RCODE_NOERROR ips,
               (case mode of
                  Filtered _ \<Rightarrow> fold (\<lambda>ip. remember_resolved (V4 ip) (dq_name query)) ips s
                | OpenMode _ \<Rightarrow> s)))))"

definition answer_dns :: "net_env \<Rightarrow> dns_responder \<Rightarrow> bytes \<Rightarrow> shared \<Rightarrow> bytes option \<times> shared" where
  "answer_dns env r raw s =
     (case parse_dns_query raw of
        None \<Rightarrow>
         (case raw of
            a # b # _ \<Rightarrow> (Some (dns_header_only (from_be16 a b) False RCODE_FORMERR), s)
          | _ \<Rightarrow> (None, s))
      | Some query \<Rightarrow>
         (case dr_mode r of
            Filtered p \<Rightarrow>
             (let (allowed, reason) = (case check p s (TName (dq_name query) 0) of
                    VAllow _ \<Rightarrow> (True, None) | VDeny d \<Rightarrow> (False, Some d));
                  s1 = snd (record_event (event_of Dns (dq_name query) 0 allowed reason (clock env 0) None) s) in
              if \<not> allowed then (Some (build_dns_response query RCODE_NXDOMAIN []), s1)
              else (case answer_allowed env (dr_mode r) query s1 of (reply, s2) \<Rightarrow> (Some reply, s2)))
          | OpenMode _ \<Rightarrow>
             (let s1 = snd (record_event (event_of Dns (dq_name query) 0 True None (clock env 0) None) s) in
              case answer_allowed env (dr_mode r) query s1 of (reply, s2) \<Rightarrow> (Some reply, s2))))"

text \<open>The transports: a datagram is cut to the receive buffer; over TCP a length prefix.\<close>

definition serve_dns_datagram ::
  "net_env \<Rightarrow> dns_responder \<Rightarrow> bool \<Rightarrow> ip_addr \<Rightarrow> bytes \<Rightarrow> shared \<Rightarrow> bytes option \<times> shared" where
  "serve_dns_datagram env r logged peer datagram s =
     (if \<not> fst (responder_peer_permitted r logged peer) then (None, s)
      else answer_dns env r (take MAX_DNS_MSG datagram) s)"

definition handle_dns_tcp :: "net_env \<Rightarrow> dns_responder \<Rightarrow> bytes \<Rightarrow> shared \<Rightarrow> bytes \<times> shared" where
  "handle_dns_tcp env r inp s =
     (case inp of
        a # b # rest \<Rightarrow>
         (let len = unat (from_be16 a b) in
          if MAX_DNS_MSG < len then ([], s)
          else (case read_exact len rest of
              None \<Rightarrow> ([], s)
            | Some (msg, _) \<Rightarrow>
               (case answer_dns env r msg s of
                  (None, s1) \<Rightarrow> ([], s1)
                | (Some reply, s1) \<Rightarrow>
                    if length reply < 65536 then
                      (write_if (client_write env 0) (to_be16 (word_of_nat (length reply))) @
                       write_if (client_write env 1) reply, s1)
                    else ([], s1))))
      | _ \<Rightarrow> ([], s))"

definition resolved_names :: "dns_responder \<Rightarrow> shared \<Rightarrow> string list" where
  "resolved_names r s =
     (case dr_mode r of
        OpenMode _ \<Rightarrow> map (\<lambda>e. as_str (ev_host e)) (filter (\<lambda>e. ev_proto e = Dns) (events s))
      | Filtered _ \<Rightarrow> [])"

section \<open>Names are read back as they were written\<close>

definition label_ok :: "string \<Rightarrow> bool" where
  "label_ok l \<longleftrightarrow> l \<noteq> [] \<and> length l \<le> 63 \<and> from_utf8 (bytes_of l) = Some l"

definition label_frame :: "string \<Rightarrow> bytes" where
  "label_frame l = word_of_nat (length l) # bytes_of l"

lemma and_c0_small: "and (word_of_nat n :: u8) 0xc0 = 0" if "n \<le> 63"
proof -
  have "and (word_of_nat n :: u8) 0xc0 = 0 \<longleftrightarrow> unat (word_of_nat n :: u8) div 2 ^ 6 = unat (0 :: u8) div 2 ^ 6"
  proof -
    have "(0xc0 :: u8) = push_bit 6 (- 1)" by code_simp
    then show ?thesis
      using and_high_mask_eq_iff [of "word_of_nat n :: u8" 6 0] by simp
  qed
  moreover have "unat (word_of_nat n :: u8) = n" using that by (intro unat_word_of_nat) simp
  ultimately show ?thesis using that by simp
qed

interpretation labels: framed_stream label_frame "[0]" dns_label_step label_ok
proof
  fix c r
  assume ok: "label_ok c"
  then have n: "unat (word_of_nat (length c) :: u8) = length c"
    by (intro unat_word_of_nat) (simp add: label_ok_def)
  moreover have "(word_of_nat (length c) :: u8) \<noteq> 0"
  proof
    assume "(word_of_nat (length c) :: u8) = 0"
    with n have "length c = 0" by simp
    with ok show False by (simp add: label_ok_def)
  qed
  ultimately show "dns_label_step (label_frame c @ r) = Some (Some c, r)"
    using ok by (simp add: dns_label_step_def label_frame_def and_c0_small label_ok_def)
qed (simp_all add: dns_label_step_def label_frame_def)

lemma dns_labels_frames:
  "length s < n \<Longrightarrow> dns_labels s = read_frames dns_label_step n s"
proof (induction s arbitrary: n rule: dns_labels.induct)
  case (1 s)
  then obtain m where n: "n = Suc m" by (cases n) auto
  show ?case
  proof (cases "dns_label_step s")
    case None
    then show ?thesis by (simp add: dns_labels.simps [of s] n)
  next
    case (Some xr)
    then obtain x r where xr: "dns_label_step s = Some (x, r)" by (cases xr) auto
    show ?thesis
    proof (cases x)
      case None
      with xr show ?thesis by (simp add: dns_labels.simps [of s] n)
    next
      case (Some l)
      have "length r < m" using dns_label_step_shorter [OF xr] 1(2) n by simp
      then have "dns_labels r = read_frames dns_label_step m r"
        by (intro 1(1) [OF xr refl Some])
      with xr Some show ?thesis by (simp add: dns_labels.simps [of s] n)
    qed
  qed
qed

lemma dns_labels_encode:
  assumes "list_all label_ok ls"
  shows "dns_labels (concat (map label_frame ls) @ 0 # r) = Some (ls, r)"
proof -
  have "dns_labels (concat (map label_frame ls) @ 0 # r) =
      read_frames dns_label_step (Suc (length (concat (map label_frame ls) @ [0] @ r)))
        (concat (map label_frame ls) @ [0] @ r)"
    by (subst dns_labels_frames [of _ "Suc (length (concat (map label_frame ls) @ [0] @ r))"]) simp_all
  also have "\<dots> = Some (ls, r)"
    using labels.round_trip [OF assms, of r] by (simp only: labels.encode_def)
  finally show ?thesis .
qed

lemma unat_char_byte: "unat (char_byte c) = code c"
  unfolding char_byte_def by (rule unat_word_of_nat) simp

lemma from_utf8_ascii:
  assumes "list_all (\<lambda>c. code c < 128) s"
  shows "from_utf8 (bytes_of s) = Some s"
proof -
  have "\<forall>b \<in> set (bytes_of s). unat b < 128"
    using assms by (auto simp: bytes_of_def list_all_iff unat_char_byte)
  then show ?thesis by (simp add: from_utf8_def utf8_valid_ascii)
qed

lemma lower_host_byte_ascii: "lower_host_byte c \<Longrightarrow> code c < 128"
  by (auto simp: lower_host_byte_def ascii_class_defs code_def)

lemma wf_label_ok: "wf_label l \<Longrightarrow> label_ok l"
  using lower_host_byte_ascii
  by (auto simp: wf_label_def label_ok_def list_all_iff intro!: from_utf8_ascii)

lemma encode_dns_labels_frames:
  "list_all (\<lambda>l. l \<noteq> [] \<and> length l \<le> 63) ls \<Longrightarrow>
   encode_dns_labels ls = Some (concat (map label_frame ls))"
  by (induction ls) (simp_all add: label_frame_def)

lemma encode_dns_name_wf:
  assumes "wf_host n"
  shows "encode_dns_name n = concat (map label_frame (split_on CHR ''.'' n)) @ [0]"
proof -
  have "list_all (\<lambda>l. l \<noteq> [] \<and> length l \<le> 63) (split_on CHR ''.'' n)"
    using assms by (auto simp: wf_host_def wf_label_def list_all_iff)
  then show ?thesis by (simp add: encode_dns_name_def encode_dns_labels_frames)
qed

lemma wf_host_labels_ok: "wf_host n \<Longrightarrow> list_all label_ok (split_on CHR ''.'' n)"
  using wf_label_ok by (auto simp: wf_host_def list_all_iff)

lemma sanitized_wf_host: "wf_host n \<Longrightarrow> sanitized n = SafeName n"
proof -
  assume wf: "wf_host n"
  have "trim_dot n = n"
  proof (cases "strip_suffix ''.'' n")
    case (Some t)
    then have n: "n = t @ ''.''" by (simp add: text_simps)
    have "[] \<in> set (split_on CHR ''.'' (t @ ''.''))" by (simp add: split_on_snoc)
    with wf have False by (auto simp: n wf_host_def wf_label_def list_all_iff)
    then show ?thesis ..
  qed (simp add: trim_dot_def)
  moreover have "to_ascii_lowercase n = n"
  proof -
    have "ascii_lower_char c = c" if "c \<in> set n" for c
      using that wf_host_no_slash [OF wf] lower_host_byte_fixed lower_eq_dot
      by (auto simp: list_all_iff)
    then show ?thesis by (simp add: to_ascii_lowercase_def map_idI)
  qed
  ultimately have "normalize_name n = Inr n" using wf by (simp add: normalize_name_ok_iff)
  then show ?thesis by (simp add: sanitized_def)
qed

text \<open>What a stub resolver sends: a standard query with one question.\<close>

definition dns_question :: "string \<Rightarrow> u16 \<Rightarrow> bytes" where
  "dns_question name qt = encode_dns_name name @ to_be16 qt @ to_be16 1"

definition stub_query :: "u16 \<Rightarrow> bool \<Rightarrow> string \<Rightarrow> u16 \<Rightarrow> bytes" where
  "stub_query qid rd name qt =
     to_be16 qid @ [if rd then 1 else 0, 0] @ to_be16 1 @ to_be16 0 @ to_be16 0 @ to_be16 0 @
     dns_question name qt"

text \<open>
  A well-formed query is understood: for every identifier, well-formed host name and type,
  parsing what a stub resolver sends yields the identifier, the recursion flag, exactly
  that name, the type, and the question section byte for byte, as it is echoed.
\<close>
theorem dns_query_round_trip:
  assumes "wf_host name"
  shows "parse_dns_query (stub_query qid rd name qt @ extra) =
    Some \<lparr>dq_id = qid, recursion_desired = rd, dq_name = SafeName name, qtype = qt,
          question = dns_question name qt\<rparr>"
proof -
  obtain i0 i1 where i: "to_be16 qid = [i0, i1]" "from_be16 i0 i1 = qid"
    by (simp add: to_be16_def)
  obtain t0 t1 where t: "to_be16 qt = [t0, t1]" "from_be16 t0 t1 = qt"
    by (simp add: to_be16_def)
  have nums: "to_be16 1 = [0, 1]" "to_be16 0 = [0, 0]" "from_be16 0 1 = 1"
    "from_be16 0 0 = 0" "from_be16 1 0 = 0x0100"
    by code_simp+
  have flags: "and (0x0100 :: u16) 0x8000 = 0" "and (drop_bit 11 (0x0100 :: u16)) 0x0f = 0"
    "and (0x0100 :: u16) 0x0100 \<noteq> 0"
    by code_simp+
  have ls: "dns_labels (encode_dns_name name @ r) = Some (split_on CHR ''.'' name, r)" for r
    using dns_labels_encode [OF wf_host_labels_ok [OF assms], of r]
    by (simp add: encode_dns_name_wf [OF assms])
  have n: "sanitized (join_with ''.'' (split_on CHR ''.'' name)) = SafeName name"
    using sanitized_wf_host [OF assms] by simp
  show ?thesis
    using i t ls n flags
    by (cases rd) (simp_all add: parse_dns_query_def stub_query_def dns_question_def nums Let_def)
qed

theorem dns_query_round_trip_witness:
  "wf_host ''a.example'' \<and>
   map_option dq_name (parse_dns_query (stub_query 7 True ''a.example'' 1)) = Some (SafeName ''a.example'')"
proof -
  have "wf_host ''a.example''" by code_simp
  then show ?thesis using dns_query_round_trip [of "''a.example''" 7 True 1 "[]"] by simp
qed

section \<open>Responses fit and say what they carry\<close>

text \<open>A client reading one answer record: skip the name, check type and class, take the address.\<close>

definition read_answer :: "bytes \<Rightarrow> (ipv4 \<times> bytes) option" where
  "read_answer s =
     (case dns_labels s of
        None \<Rightarrow> None
      | Some (_, r) \<Rightarrow>
         (case r of
            t0 # t1 # c0 # c1 # _ # _ # _ # _ # l0 # l1 # a # b # c # d # r1 \<Rightarrow>
              if from_be16 t0 t1 = QTYPE_A \<and> from_be16 c0 c1 = 1 \<and> from_be16 l0 l1 = 4
              then Some (Ipv4 a b c d, r1) else None
          | _ \<Rightarrow> None))"

fun read_answers :: "nat \<Rightarrow> bytes \<Rightarrow> (ipv4 list \<times> bytes) option" where
  "read_answers 0 s = Some ([], s)"
| "read_answers (Suc n) s =
     (case read_answer s of
        None \<Rightarrow> None
      | Some (ip, r) \<Rightarrow>
         (case read_answers n r of None \<Rightarrow> None | Some (ips, r1) \<Rightarrow> Some (ip # ips, r1)))"

lemma length_dns_answer: "length (dns_answer nw ip) = length nw + 14"
  by (cases ip) (simp add: dns_answer_def)

lemma length_build_dns_response:
  "length (build_dns_response q rc ips) =
     12 + length (question q) +
     min (length ips) (max_answers q) * (length (encode_dns_name (as_str (dq_name q))) + 14)"
proof -
  have "length (concat (map (dns_answer nw) as)) = length as * (length nw + 14)" for nw as
    by (induction as) (simp_all add: length_dns_answer)
  then show ?thesis by (simp add: build_dns_response_def Let_def min.commute)
qed

lemma response_fits:
  assumes "12 + length (question q) \<le> MAX_DNS_MSG"
  shows "length (build_dns_response q rc ips) \<le> MAX_DNS_MSG"
proof -
  let ?per = "length (encode_dns_name (as_str (dq_name q))) + 14"
  have "min (length ips) (max_answers q) * ?per \<le> max_answers q * ?per"
    by (intro mult_right_mono) simp_all
  also have "\<dots> \<le> MAX_DNS_MSG - (12 + length (question q))"
    unfolding max_answers_def by (rule div_times_less_eq_dividend)
  finally show ?thesis using assms by (simp add: length_build_dns_response)
qed

lemma dns_labels_length: "dns_labels s = Some (ls, r) \<Longrightarrow> length r < length s"
proof (induction s arbitrary: ls rule: dns_labels.induct)
  case (1 s)
  obtain x r1 where xr: "dns_label_step s = Some (x, r1)"
    using 1(2) by (cases "dns_label_step s") (auto simp: dns_labels.simps [of s])
  note shorter = dns_label_step_shorter [OF xr]
  show ?case
  proof (cases x)
    case None
    with 1(2) xr shorter show ?thesis by (simp add: dns_labels.simps [of s])
  next
    case (Some l)
    with 1(2) xr obtain ls1 where "dns_labels r1 = Some (ls1, r)"
      by (auto simp: dns_labels.simps [of s] split: option.splits)
    with 1(1) [OF xr refl Some] shorter show ?thesis by fastforce
  qed
qed

lemma parse_dns_query_question:
  "parse_dns_query raw = Some q \<Longrightarrow> 12 + length (question q) \<le> length raw"
  using dns_labels_length [of "drop 12 raw"]
  by (auto simp: parse_dns_query_def Let_def split: if_splits option.splits list.splits)

lemma read_answer_encode:
  assumes "wf_host n"
  shows "read_answer (dns_answer (encode_dns_name n) ip @ r) = Some (ip, r)"
proof -
  have ls: "dns_labels (encode_dns_name n @ x) = Some (split_on CHR ''.'' n, x)" for x
    using dns_labels_encode [OF wf_host_labels_ok [OF assms], of x]
    by (simp add: encode_dns_name_wf [OF assms])
  have nums: "to_be16 QTYPE_A = [0, 1]" "to_be16 1 = [0, 1]" "to_be16 4 = [0, 4]"
    "to_be32 ANSWER_TTL = [0, 0, 0, 60]" "from_be16 0 1 = QTYPE_A" "QTYPE_A = 1" "from_be16 0 4 = 4"
    by code_simp+
  show ?thesis
    by (cases ip) (simp add: dns_answer_def read_answer_def ls nums)
qed

lemma read_answers_encode:
  "wf_host n \<Longrightarrow>
   read_answers (length ips) (concat (map (dns_answer (encode_dns_name n)) ips) @ r) = Some (ips, r)"
  by (induction ips) (simp_all add: read_answer_encode)

lemma parsed_name_wf:
  assumes "parse_dns_query raw = Some q" and "is_valid (dq_name q)"
  obtains n where "dq_name q = SafeName n" "wf_host n"
proof -
  from assms(1) obtain raw' where "dq_name q = sanitized raw'"
    by (auto simp: parse_dns_query_def Let_def split: if_splits option.splits list.splits)
  with assms(2) that show ?thesis
    by (cases raw' rule: sanitized_cases) (auto simp: is_valid_wf_host)
qed

lemma max_answers_le: "max_answers q \<le> 512"
  unfolding max_answers_def MAX_DNS_MSG_def by (meson diff_le_self div_le_dividend le_trans)

lemma truncated_bit:
  "and (or (or (0x84 :: u8) (if b then 1 else 0)) (if c then 0x02 else 0)) 0x02 \<noteq> 0 \<longleftrightarrow> c"
  by (cases b; cases c) simp_all

text \<open>
  C17: a response never exceeds the 512 bytes the protocol allows, and a client reads from it
  what the broker put in: after the echoed question come the first addresses, as many as the
  header says, with nothing behind them, and the truncation bit is set if and only if some are
  left out; none is left out that would have fitted. (For a
  name that is not a valid host name, which only the open responder looks up, this is about
  answers without addresses.)
\<close>
theorem dns_response_fits_and_reads_back:
  fixes rc :: u8 and ips :: "ipv4 list"
  assumes "parse_dns_query raw = Some q" and "length raw \<le> 512" and "is_valid (dq_name q) \<or> ips = []"
  defines "reply \<equiv> build_dns_response q rc ips"
  shows "\<exists>k \<le> length ips. length reply \<le> 512 \<and>
    take 2 reply = to_be16 (dq_id q) \<and>
    take (length (question q)) (drop 12 reply) = question q \<and>
    unat (from_be16 (reply ! 6) (reply ! 7)) = k \<and>
    read_answers k (drop (12 + length (question q)) reply) = Some (take k ips, []) \<and>
    (and (reply ! 2) 0x02 \<noteq> 0 \<longleftrightarrow> k < length ips) \<and>
    (k < length ips \<longrightarrow> 512 < length reply + length (dns_answer (encode_dns_name (as_str (dq_name q))) (ips ! k)))"
proof -
  define k where "k = min (length ips) (max_answers q)"
  let ?nw = "encode_dns_name (as_str (dq_name q))"
  have q: "12 + length (question q) \<le> 512"
    using parse_dns_query_question [OF assms(1)] assms(2) by simp
  have kk: "k < 65536" using max_answers_le [of q] by (simp add: k_def)
  have tk: "take (max_answers q) ips = take k ips" "length (take k ips) = k"
    by (simp_all add: k_def min_def)
  obtain i0 i1 where i: "to_be16 (dq_id q) = [i0, i1]" by (simp add: to_be16_def)
  obtain a0 a1 where a: "to_be16 (word_of_nat k) = [a0, a1]" "from_be16 a0 a1 = word_of_nat k"
    by (simp add: to_be16_def)
  have nums: "to_be16 1 = [0, 1]" "to_be16 0 = [0, 0]" by code_simp+
  define hi where "hi = or (or (0x84 :: u8) (if recursion_desired q then 1 else 0)) (if k < length ips then 0x02 else 0)"
  have reply: "reply = [i0, i1, hi, or 0x80 rc, 0, 1, a0, a1, 0, 0, 0, 0] @ question q @
      concat (map (dns_answer ?nw) (take k ips))"
    using kk tk by (simp add: reply_def build_dns_response_def Let_def i nums a hi_def)
  have tc: "and hi 0x02 \<noteq> 0 \<longleftrightarrow> k < length ips" unfolding hi_def by (rule truncated_bit)
  have count: "unat (word_of_nat k :: u16) = k" using kk by (intro unat_word_of_nat) simp
  show ?thesis
  proof (intro exI [of _ k] conjI impI)
    show "k \<le> length ips" by (simp add: k_def)
    show "length reply \<le> 512"
      using response_fits [of q rc ips] q by (simp add: reply_def MAX_DNS_MSG_def)
    show "512 < length reply + length (dns_answer ?nw (ips ! k))" if "k < length ips"
    proof -
      have "k = max_answers q" using that by (simp add: k_def)
      then have "512 - (12 + length (question q)) < Suc k * (length ?nw + 14)"
        unfolding max_answers_def MAX_DNS_MSG_def by (metis add_gr_0 dividend_less_div_times mult_Suc zero_less_numeral)
      then show ?thesis
        by (simp add: reply_def length_build_dns_response length_dns_answer k_def [symmetric])
    qed
    show "read_answers k (drop (12 + length (question q)) reply) = Some (take k ips, [])"
    proof -
      let ?head = "[i0, i1, hi, or 0x80 rc, 0, 1, a0, a1, 0, 0, 0, 0] @ question q"
      let ?rest = "concat (map (dns_answer ?nw) (take k ips))"
      have len: "12 + length (question q) = length ?head" by simp
      have "drop (12 + length (question q)) reply = ?rest"
        unfolding len reply append.assoc [symmetric] by (rule append_eq_conv_conj [THEN iffD1, OF refl, THEN conjunct2, symmetric])
      moreover have "read_answers k ?rest = Some (take k ips, [])"
      proof (cases "ips = []")
        case False
        then have "is_valid (dq_name q)" using assms(3) by simp
        with assms(1) obtain n where n: "dq_name q = SafeName n" "wf_host n" by (rule parsed_name_wf)
        then show ?thesis using read_answers_encode [OF n(2), of "take k ips" "[]"] tk(2) by simp
      qed (simp add: k_def)
      ultimately show ?thesis by simp
    qed
  qed (simp_all add: reply i a tc count)
qed

theorem dns_response_fits_and_reads_back_witness:
  "length (build_dns_response
      \<lparr>dq_id = 7, recursion_desired = True, dq_name = SafeName ''a.example'', qtype = 1,
       question = dns_question ''a.example'' 1\<rparr> RCODE_NOERROR (replicate 40 (Ipv4 1 2 3 4))) \<le> 512"
proof -
  have wf: "parse_dns_query (stub_query 7 True ''a.example'' 1) =
    Some \<lparr>dq_id = 7, recursion_desired = True, dq_name = SafeName ''a.example'', qtype = 1,
       question = dns_question ''a.example'' 1\<rparr>"
    by code_simp
  have l: "length (stub_query 7 True ''a.example'' 1) \<le> 512" by code_simp
  have v: "is_valid (dq_name \<lparr>dq_id = 7, recursion_desired = True, dq_name = SafeName ''a.example'', qtype = 1,
       question = dns_question ''a.example'' 1\<rparr>)"
    by code_simp
  show ?thesis using dns_response_fits_and_reads_back [OF wf l disjI1 [OF v]] by blast
qed

section \<open>What the guest is told\<close>

lemma permitted_v4_mem:
  "ip \<in> set (permitted_v4 ok as) \<longleftrightarrow> ok (V4 ip) \<and> V4 ip \<in> fst ` set as"
  by (force simp: permitted_v4_def List.map_filter_def split: ip_addr.splits if_splits)

interpretation dns_guard: destination_guard "allow_loopback p" "allow_private p"
  "\<lambda>as. map V4 (permitted_v4 (dns_floor (Filtered p)) as)" for p
  by unfold_locales (auto simp: permitted_v4_mem)

text \<open>The response code and the addresses of an answer to an allowed name.\<close>

definition dns_outcome :: "net_env \<Rightarrow> dns_mode \<Rightarrow> dns_query \<Rightarrow> u8 \<times> ipv4 list" where
  "dns_outcome env mode q =
     (if qtype q \<noteq> QTYPE_A then (RCODE_NOERROR, [])
      else (case resolve_v4_detailed env (as_str (dq_name q)) 0 of
          Failed \<Rightarrow> (RCODE_SERVFAIL, [])
        | Addrs answered \<Rightarrow> (RCODE_NOERROR, permitted_v4 (dns_floor mode) answered)))"

definition dns_remember :: "dns_mode \<Rightarrow> safe_name \<Rightarrow> ipv4 list \<Rightarrow> shared \<Rightarrow> shared" where
  "dns_remember mode name ips s =
     (case mode of
        Filtered _ \<Rightarrow> fold (\<lambda>ip. remember_resolved (V4 ip) name) ips s
      | OpenMode _ \<Rightarrow> s)"

lemma answer_allowed_eq:
  "answer_allowed env mode q s =
     (case dns_outcome env mode q of (rc, ips) \<Rightarrow>
        (build_dns_response q rc ips, dns_remember mode (dq_name q) ips s))"
  by (auto simp: answer_allowed_def dns_outcome_def dns_remember_def Let_def
      split: resolution.splits dns_mode.splits)

text \<open>The verdict of a mode on a name, with the reason recorded.\<close>

definition dns_verdict :: "dns_mode \<Rightarrow> shared \<Rightarrow> safe_name \<Rightarrow> deny_reason option" where
  "dns_verdict mode s name =
     (case mode of
        Filtered p \<Rightarrow> (case check p s (TName name 0) of VAllow _ \<Rightarrow> None | VDeny d \<Rightarrow> Some d)
      | OpenMode _ \<Rightarrow> None)"

definition dns_event :: "net_env \<Rightarrow> dns_query \<Rightarrow> deny_reason option \<Rightarrow> egress_event" where
  "dns_event env q verdict = event_of Dns (dq_name q) 0 (verdict = None) verdict (clock env 0) None"

lemma answer_dns_parsed:
  assumes "parse_dns_query raw = Some q"
  shows "answer_dns env r raw s =
    (let v = dns_verdict (dr_mode r) s (dq_name q); s1 = snd (record_event (dns_event env q v) s) in
     if v \<noteq> None then (Some (build_dns_response q RCODE_NXDOMAIN []), s1)
     else case dns_outcome env (dr_mode r) q of (rc, ips) \<Rightarrow>
       (Some (build_dns_response q rc ips), dns_remember (dr_mode r) (dq_name q) ips s1))"
  using assms
  by (auto simp: answer_dns_def dns_verdict_def dns_event_def answer_allowed_eq Let_def
      split: dns_mode.splits verdict.splits prod.splits)

lemma check_name_allow_iff: "check p s (TName n prt) = VAllow m \<longleftrightarrow> decide (rules p) (TName n prt) = Allow \<and> m = n"
  by (cases "decide (rules p) (TName n prt)") (auto simp: check_def)

lemma dns_verdict_filtered: "dns_verdict (Filtered p) s n = None \<longleftrightarrow> decide (rules p) (TName n 0) = Allow"
proof (cases "check p s (TName n 0)")
  case (VAllow m)
  then have "decide (rules p) (TName n 0) = Allow" by (simp add: check_name_allow_iff)
  with VAllow show ?thesis by (simp add: dns_verdict_def)
next
  case (VDeny d)
  then have "decide (rules p) (TName n 0) \<noteq> Allow" by (auto simp: check_def)
  with VDeny show ?thesis by (simp add: dns_verdict_def)
qed

text \<open>
  C13: a filtered guest learns addresses only for names its rules allow, and only addresses the
  broker would dial: every well-formed query is answered and leaves one event with the
  verdict enforced; a name the rules do not allow is answered NXDOMAIN with no address;
  otherwise the addresses are those of the host's own lookup that pass the floor, and a
  failed lookup is reported as a server failure, not as a missing name.
\<close>
theorem filtered_dns_answers:
  assumes "parse_dns_query raw = Some q" and "dr_mode r = Filtered p"
    and "answer_dns env r raw s = (reply, s')"
  shows "\<exists>rc ips e. reply = Some (build_dns_response q rc ips) \<and>
    events s' = events (snd (record_event e s)) \<and> ev_proto e = Dns \<and> ev_host e = dq_name q \<and>
    (ev_allowed e \<longleftrightarrow> decide (rules p) (TName (dq_name q) 0) = Allow) \<and>
    (if ev_allowed e then
       list_all (\<lambda>ip. policy_floor p (V4 ip)) ips \<and>
       (rc = RCODE_SERVFAIL \<longleftrightarrow>
          qtype q = QTYPE_A \<and> lookup_host env (as_str (dq_name q)) 0 = None) \<and>
       (ips = [] \<or> qtype q = QTYPE_A \<and>
          (\<exists>all. lookup_host env (as_str (dq_name q)) 0 = Some all \<and> set (map V4 ips) \<subseteq> fst ` set all))
     else rc = RCODE_NXDOMAIN \<and> ips = [])"
proof -
  let ?v = "dns_verdict (Filtered p) s (dq_name q)"
  let ?e = "dns_event env q ?v" and ?s1 = "snd (record_event (dns_event env q ?v) s)"
  have e: "ev_proto ?e = Dns" "ev_host ?e = dq_name q"
    "ev_allowed ?e \<longleftrightarrow> decide (rules p) (TName (dq_name q) 0) = Allow"
    by (simp_all add: dns_event_def dns_verdict_filtered)
  have rem: "events (dns_remember m nm ips st) = events st" for m nm ips st
    by (induction ips arbitrary: st) (auto simp: dns_remember_def split: dns_mode.splits)
  have ne: "RCODE_NOERROR \<noteq> RCODE_SERVFAIL" by code_simp
  show ?thesis
  proof (cases "?v = None")
    case True
    obtain rc ips where o: "dns_outcome env (Filtered p) q = (rc, ips)" by force
    have rep: "reply = Some (build_dns_response q rc ips)" "events s' = events ?s1"
      using assms(3) True o by (auto simp: answer_dns_parsed [OF assms(1)] assms(2) Let_def rem)
    have floor: "list_all (\<lambda>ip. policy_floor p (V4 ip)) ips"
      using o by (auto simp: dns_outcome_def list_all_iff permitted_v4_mem policy_floor_def
          split: if_splits resolution.splits)
    have serv: "rc = RCODE_SERVFAIL \<longleftrightarrow>
        qtype q = QTYPE_A \<and> lookup_host env (as_str (dq_name q)) 0 = None"
      using o ne by (auto simp: dns_outcome_def resolve_v4_detailed_def split: if_splits option.splits)
    have src: "ips = [] \<or> qtype q = QTYPE_A \<and>
        (\<exists>all. lookup_host env (as_str (dq_name q)) 0 = Some all \<and> set (map V4 ips) \<subseteq> fst ` set all)"
      using o by (auto simp: dns_outcome_def resolve_v4_detailed_def permitted_v4_mem
          split: if_splits option.splits)
    have "ev_allowed ?e" using True by (simp add: dns_event_def)
    then show ?thesis using rep floor serv src e by (intro exI [of _ rc] exI [of _ ips] exI [of _ ?e]) simp
  next
    case False
    then have "reply = Some (build_dns_response q RCODE_NXDOMAIN [])" "s' = ?s1"
      using assms(3) by (simp_all add: answer_dns_parsed [OF assms(1)] assms(2) Let_def)
    moreover have "\<not> ev_allowed ?e" using False by (simp add: dns_event_def)
    ultimately show ?thesis using e by (intro exI [of _ RCODE_NXDOMAIN] exI [of _ "[]"] exI [of _ ?e]) simp
  qed
qed

definition sample_responder :: dns_responder where
  "sample_responder = \<lparr>dr_guest = Ipv4 10 107 0 2, dr_mode = Filtered sample_policy\<rparr>"

lemma sample_query:
  "parse_dns_query (stub_query 7 True ''b.example'' 1) =
    Some \<lparr>dq_id = 7, recursion_desired = True, dq_name = SafeName ''b.example'', qtype = 1,
       question = dns_question ''b.example'' 1\<rparr>"
  by code_simp

theorem filtered_dns_answers_witness:
  "\<exists>q. fst (answer_dns sample_env sample_responder (stub_query 7 True ''b.example'' 1) shared_default) =
     Some (build_dns_response q RCODE_NXDOMAIN [])"
proof -
  have m: "dr_mode sample_responder = Filtered sample_policy" by (simp add: sample_responder_def)
  have "decide (rules sample_policy) (TName (SafeName ''b.example'') 0) = Deny NotAllowed" by code_simp
  then show ?thesis
    using filtered_dns_answers [OF sample_query m prod.collapse [symmetric], of sample_env shared_default]
    by auto
qed

end
