(* ===== verification/Broker_Run.thy ===== *)
theory Broker_Run
  imports Broker_Accept Broker_Proxy Broker_Dns
begin

text \<open>
  The broker as a whole: every listener works on one recorder behind one lock. The abstract
  view is a step relation whose steps are the recorder's critical sections, each with the
  condition the policy puts on it and none on the recorder's state, so that the steps of
  concurrent connections may interleave in any order. The handlers refine it: whatever a
  client sends and whatever the network answers, a handler's effect on the recorder is a
  sequence of such steps. The invariant of the step relation is what the flight recorder
  and the resolution cache can be trusted for.
\<close>

section \<open>The recorder's steps\<close>

text \<open>A destination the run's rules allow, as the recorder names it.\<close>

definition host_allowed :: "policy \<Rightarrow> safe_name \<Rightarrow> bool" where
  "host_allowed p h \<longleftrightarrow>
     decide (rules p) (TName h 0) = Allow \<or>
     (\<exists>ip. h = from_addr ip \<and> decide (rules p) (TAddr ip 0) = Allow)"

definition event_ok :: "policy \<Rightarrow> egress_event \<Rightarrow> bool" where
  "event_ok p e \<longleftrightarrow>
     (ev_allowed e \<longrightarrow>
        (if ev_proto e = InjectProto
         then \<exists>c \<in> set (credentials p). ev_host e = pinned_name (rc_host c)
         else host_allowed p (ev_host e)))"

definition cache_ok :: "policy \<Rightarrow> shared \<Rightarrow> bool" where
  "cache_ok p s \<longleftrightarrow>
     (\<forall>ip n. name_for ip s = Some n \<longrightarrow> policy_floor p ip \<and> decide (rules p) (TName n 0) = Allow)"

inductive broker_step :: "policy \<Rightarrow> shared \<Rightarrow> shared \<Rightarrow> bool" for p where
  record_step: "event_ok p e \<Longrightarrow> broker_step p s (snd (record_event e s))"
| count_step: "broker_step p s (add_bytes slot up down s)"
| remember_step: "policy_floor p ip \<Longrightarrow> decide (rules p) (TName n 0) = Allow \<Longrightarrow>
     broker_step p s (remember_resolved ip n s)"

inductive_cases broker_stepE: "broker_step p s s'"

definition broker_inv :: "policy \<Rightarrow> shared \<Rightarrow> bool" where
  "broker_inv p s \<longleftrightarrow>
     length (events s) \<le> MAX_RECORDED_EVENTS \<and> length (events s) \<le> unat (ev_total s) \<and>
     length (resolved s) \<le> MAX_RECORDED_EVENTS \<and> distinct (map fst (resolved s)) \<and>
     list_all (event_ok p) (events s) \<and> cache_ok p s"

lemma decide_port: "decide rs (TName n q) = decide rs (TName n q')" "decide rs (TAddr ip q) = decide rs (TAddr ip q')"
  by (simp_all add: decide_def)

lemma event_ok_add_bytes:
  "list_all (event_ok p) (events s) \<Longrightarrow> list_all (event_ok p) (events (add_bytes slot u d s))"
proof (cases slot)
  case (Some i)
  assume all: "list_all (event_ok p) (events s)"
  show ?thesis
  proof (cases "i < length (events s)")
    case True
    then have "event_ok p (events s ! i)" using all by (simp add: list_all_length)
    then have "event_ok p ((events s ! i)\<lparr>bytes_up := a, bytes_down := b\<rparr>)" for a b
      by (simp add: event_ok_def)
    with all True Some show ?thesis
      by (auto simp: add_bytes_def list_all_length nth_list_update)
  qed (use all Some in \<open>simp add: add_bytes_def\<close>)
qed (simp add: add_bytes_def)

lemma total_record:
  assumes "length (events s) \<le> unat (ev_total s)"
  shows "length (events (snd (record_event e s))) \<le> unat (ev_total (snd (record_event e s)))"
proof -
  have "unat (saturating_add (ev_total s) 1) = min (unat (ev_total s) + 1) (2 ^ 64 - 1)"
    by (simp add: unat_saturating_add)
  moreover have "unat (ev_total s) \<le> 2 ^ 64 - 1"
    using unsigned_less [of "ev_total s", where ?'a = nat] by simp
  ultimately show ?thesis
    using assms log.append_below [of s e] log.append_full [of s e]
    by (cases "length (events s) < MAX_RECORDED_EVENTS") (auto simp: MAX_RECORDED_EVENTS_def)
qed

lemma broker_inv_step: "broker_inv p s \<Longrightarrow> broker_step p s s' \<Longrightarrow> broker_inv p s'"
proof (erule broker_stepE)
  fix e assume inv: "broker_inv p s" and e: "s' = snd (record_event e s)" "event_ok p e"
  then show "broker_inv p s'"
    using total_record [of s e] log.append_bounded [of s e] log.append_all [of "event_ok p" s e]
    by (simp add: broker_inv_def cache_ok_def)
next
  fix slot up down assume "broker_inv p s" and "s' = add_bytes slot up down s"
  then show "broker_inv p s'"
    by (simp add: broker_inv_def cache_ok_def event_ok_add_bytes)
next
  fix ip n assume inv: "broker_inv p s" and s': "s' = remember_resolved ip n s"
    and ok: "policy_floor p ip" "decide (rules p) (TName n 0) = Allow"
  let ?P = "\<lambda>ip n. policy_floor p ip \<and> decide (rules p) (TName n 0) = Allow"
  have old: "?P ip n" if "name_for ip s = Some n" for ip n
    using that inv unfolding broker_inv_def cache_ok_def by blast
  have "cache_ok p s'"
    unfolding cache_ok_def s'
  proof (intro allI impI)
    fix ip' n' assume "name_for ip' (remember_resolved ip n s) = Some n'"
    then show "?P ip' n'" using cache.find_insert_cases old ok by blast
  qed
  with inv s' show "broker_inv p s'"
    by (simp add: broker_inv_def remember_resolved_bounded remember_resolved_distinct)
qed

interpretation recorder: transition_system "\<lambda>s. s = shared_default" "broker_step p" "broker_inv p" for p
proof
  show "broker_inv p s" if "s = shared_default" for s
    using that by (simp add: broker_inv_def shared_default_def cache_ok_def name_for_def)
qed (rule broker_inv_step)

section \<open>The handlers refine the steps\<close>

lemma steps_record: "event_ok p e \<Longrightarrow> (broker_step p)\<^sup>*\<^sup>* s0 s \<Longrightarrow> (broker_step p)\<^sup>*\<^sup>* s0 (snd (record_event e s))"
  by (erule rtranclp.rtrancl_into_rtrancl) (rule record_step; assumption)

lemma steps_count: "(broker_step p)\<^sup>*\<^sup>* s0 s \<Longrightarrow> (broker_step p)\<^sup>*\<^sup>* s0 (add_bytes slot u d s)"
  by (erule rtranclp.rtrancl_into_rtrancl) (rule count_step)

lemma steps_remember:
  "policy_floor p ip \<Longrightarrow> decide (rules p) (TName n 0) = Allow \<Longrightarrow> (broker_step p)\<^sup>*\<^sup>* s0 s \<Longrightarrow>
   (broker_step p)\<^sup>*\<^sup>* s0 (remember_resolved ip n s)"
  by (erule rtranclp.rtrancl_into_rtrancl) (rule remember_step; assumption)

lemma steps_remember_list:
  assumes "list_all (policy_floor p) ips" and "decide (rules p) (TName n 0) = Allow"
  shows "(broker_step p)\<^sup>*\<^sup>* s0 s \<Longrightarrow> (broker_step p)\<^sup>*\<^sup>* s0 (fold (\<lambda>ip. remember_resolved ip n) ips s)"
  using assms by (induction ips arbitrary: s) (simp_all add: steps_remember)

lemmas step_intros = steps_record steps_count steps_remember rtranclp.rtrancl_refl

lemma event_denied [simp]: "event_ok p (event_of pr h prt False r now n)"
  by (simp add: event_ok_def)

lemma check_allow_host:
  assumes "cache_ok p s" and "check p s t = VAllow n"
  shows "host_allowed p n"
proof -
  consider "decide (rules p) t = Allow" "n = safe_host t"
    | ip prt where "t = TAddr ip prt" "name_for ip s = Some n"
    using check_allow_cases [OF assms(2)] by blast
  then show ?thesis
  proof cases
    case 1
    show ?thesis
    proof (cases t)
      case (TName h prt)
      with 1 decide_port(1) [of "rules p" h prt 0] show ?thesis by (simp add: host_allowed_def)
    next
      case (TAddr ip prt)
      with 1 decide_port(2) [of "rules p" ip prt 0] show ?thesis
        unfolding host_allowed_def by (intro disjI2 exI [of _ ip]) simp
    qed
  next
    case 2
    with assms(1) show ?thesis by (auto simp: host_allowed_def cache_ok_def)
  qed
qed

lemma dial_steps:
  assumes "cache_ok p s0" and "pr \<noteq> InjectProto"
  shows "(broker_step p)\<^sup>*\<^sup>* s (snd (dial_checked p t pr env (check p s0 t) s))"
proof -
  let ?v = "check p s0 t"
  have "(broker_step p)\<^sup>*\<^sup>* s (dial_pre p t env ?v s)"
  proof (cases ?v)
    case (VAllow n)
    show ?thesis
    proof (cases t)
      case (TName host prt)
      have "decide (rules p) (TName host 0) = Allow"
        using check_allow_cases [OF VAllow] decide_port(1) [of "rules p" host prt 0]
        by (auto simp: TName)
      moreover have "list_all (policy_floor p) (map fst (dial_addrs p env t))"
        by (auto simp: dial_addrs_def list_all_iff)
      ultimately show ?thesis
        using steps_remember_list [of p "map fst (dial_addrs p env t)" host s s]
        by (simp add: dial_pre_def VAllow [unfolded TName] remembered_def TName remember_all_def
            fold_map comp_def)
    next
      case (TAddr ip prt)
      then show ?thesis by (simp add: dial_pre_def VAllow [unfolded TAddr] remembered_def)
    qed
  qed (simp add: dial_pre_def)
  moreover have "event_ok p (dial_event p t pr env ?v)"
  proof (cases ?v)
    case (VAllow n)
    with check_allow_host [OF assms(1) VAllow] assms(2) show ?thesis
      by (simp add: dial_event_def event_ok_def case_prod_unfold)
  qed (simp add: dial_event_def)
  ultimately show ?thesis by (simp add: snd_dial_checked steps_record)
qed

lemma dial_whole_steps: "cache_ok p s \<Longrightarrow> pr \<noteq> InjectProto \<Longrightarrow> (broker_step p)\<^sup>*\<^sup>* s (snd (dial p t pr env s))"
  by (simp add: dial_def dial_steps)

lemma refuse_steps: "(broker_step p)\<^sup>*\<^sup>* s (snd (refuse_inject env host refusal s))"
  by (simp add: refuse_inject_log step_intros)

lemma relay_steps: "(broker_step p)\<^sup>*\<^sup>* s0 s \<Longrightarrow>
  (broker_step p)\<^sup>*\<^sup>* s0 (snd (relay_body env host slot complete k down cs s))"
proof (induction env host slot complete k down cs s rule: relay_body.induct)
  case (2 env host slot complete k down bs rest s)
  then show ?case by (simp add: Let_def case_prod_unfold steps_record steps_count)
qed simp

lemma event_ok_inject:
  "c \<in> set (credentials p) \<Longrightarrow>
   event_ok p ((event_of InjectProto (pinned_name (rc_host c)) prt ok r now n)\<lparr>bytes_up := u\<rparr>)"
  by (auto simp: event_ok_def)

lemma serve_inject_steps: "(broker_step p)\<^sup>*\<^sup>* s (snd (snd (serve_inject p env up head inp s)))"
proof (cases "parse_intent head")
  case (Inr i)
  show ?thesis
  proof (cases "authorize (credentials p) i")
    case auth: (Inr rc)
    obtain req c where rc: "rc = (req, c)" by (cases rc)
    have "c \<in> set (credentials p)" using auth by (auto simp: rc authorize_iff find_Some_iff)
    note ok = event_ok_inject [OF this]
    show ?thesis
      using Inr auth ok
      by (auto simp: serve_inject_def rc Let_def case_prod_unfold refuse_steps
          intro!: relay_steps steps_record split: option.split sum.split)
  qed (simp add: serve_inject_def Inr refuse_steps)
qed (simp add: serve_inject_def refuse_steps)

lemma handle_inject_steps: "(broker_step p)\<^sup>*\<^sup>* s (snd (snd (handle_inject p env up stalled inp s)))"
  by (auto simp: handle_inject_def serve_inject_steps refuse_steps split: sum.split)

lemma handle_socks_steps:
  assumes "cache_ok p s"
  shows "(broker_step p)\<^sup>*\<^sup>* s (snd (snd (handle_socks p env inp s)))"
proof (cases "fst (socks_handshake env inp)")
  case None
  then show ?thesis by (simp add: handle_socks_def case_prod_unfold)
next
  case (Some tr)
  obtain t rest where tr: "tr = (t, rest)" by (cases tr)
  show ?thesis
    using dial_whole_steps [OF assms, of Socks5 t env] Some
    by (auto simp: handle_socks_def case_prod_unfold tr split: sum.split dial_failure.split)
qed

lemma handle_http_steps:
  assumes "cache_ok p s"
  shows "(broker_step p)\<^sup>*\<^sup>* s (snd (snd (snd (handle_http p env up inp s))))"
proof (cases "read_http_head inp")
  case None
  then show ?thesis by (simp add: handle_http_def)
next
  case (Some hr)
  obtain h r where hr: "hr = (h, r)" by (cases hr)
  show ?thesis
  proof (cases "parse_http_head h")
    case None
    then show ?thesis by (simp add: handle_http_def Some hr step_intros)
  next
    case req: (Some req)
    note d = dial_whole_steps [OF assms, of Http "hr_target req" env]
    show ?thesis
      using d serve_inject_steps
      by (auto simp: handle_http_def Some hr req Let_def case_prod_unfold step_intros
          intro!: steps_count split: http_kind.split sum.split)
  qed
qed

lemma pump_steps: "(broker_step p)\<^sup>*\<^sup>* s0 s \<Longrightarrow> (broker_step p)\<^sup>*\<^sup>* s0 (snd (pump slot sched s))"
proof (induction slot sched s rule: pump.induct)
  case (2 slot dir chunk ok rest s)
  then show ?case
    by (auto simp: case_prod_unfold steps_count split: option.split direction.split)
qed simp

lemma answer_dns_steps:
  assumes "dr_mode r = Filtered p"
  shows "(broker_step p)\<^sup>*\<^sup>* s (snd (answer_dns env r raw s))"
proof (cases "parse_dns_query raw")
  case None
  then show ?thesis by (auto simp: answer_dns_def split: list.split)
next
  case (Some q)
  let ?v = "dns_verdict (Filtered p) s (dq_name q)"
  have ev: "event_ok p (dns_event env q ?v)"
    by (auto simp: event_ok_def dns_event_def host_allowed_def dns_verdict_filtered)
  show ?thesis
  proof (cases "?v = None")
    case True
    obtain rc ips where o: "dns_outcome env (Filtered p) q = (rc, ips)" by force
    have "list_all (policy_floor p) (map V4 ips)"
      using o by (auto simp: dns_outcome_def list_all_iff permitted_v4_mem policy_floor_def
          split: if_splits resolution.splits)
    moreover have "decide (rules p) (TName (dq_name q) 0) = Allow"
      using True by (simp add: dns_verdict_filtered)
    moreover have "(broker_step p)\<^sup>*\<^sup>* s (snd (record_event (dns_event env q ?v) s))"
      using ev by (simp add: step_intros)
    ultimately have "(broker_step p)\<^sup>*\<^sup>* s
        (fold (\<lambda>ip. remember_resolved ip (dq_name q)) (map V4 ips) (snd (record_event (dns_event env q ?v) s)))"
      by (intro steps_remember_list)
    then show ?thesis
      using True o
      by (simp add: answer_dns_parsed [OF Some] assms Let_def dns_remember_def fold_map comp_def)
  next
    case False
    with ev show ?thesis by (simp add: answer_dns_parsed [OF Some] assms Let_def step_intros)
  qed
qed

lemma handle_dns_tcp_steps:
  assumes "dr_mode r = Filtered p"
  shows "(broker_step p)\<^sup>*\<^sup>* s (snd (handle_dns_tcp env r inp s))"
proof -
  consider (cut) "length inp < 2" | (query) a b rest where "inp = a # b # rest"
    by (cases inp rule: remdups_adj.cases) auto
  then show ?thesis
  proof cases
    case cut
    then show ?thesis by (cases inp rule: remdups_adj.cases) (simp_all add: handle_dns_tcp_def)
  next
    case query
    have "(broker_step p)\<^sup>*\<^sup>* s (snd (answer_dns env r m s))" for m
      using assms by (rule answer_dns_steps)
    then show ?thesis
      by (simp add: handle_dns_tcp_def query Let_def case_prod_unfold split: option.split)
  qed
qed

section \<open>A run of the broker\<close>

text \<open>
  What can reach the broker: a connection on one of the proxy listeners with the bytes the
  client sends, a query on either DNS transport, and the traffic of a spliced connection.
\<close>

datatype request =
    SocksConn bytes
  | HttpConn upstream_env bytes
  | InjectConn upstream_env bool bytes
  | DnsDatagram bool ip_addr bytes
  | DnsConn bytes
  | Traffic "nat option" "(direction \<times> bytes option \<times> bool) list"

definition broker_dns :: "policy \<Rightarrow> dns_responder" where
  "broker_dns p = \<lparr>dr_guest = guest p, dr_mode = Filtered p\<rparr>"

fun serve :: "policy \<Rightarrow> net_env \<times> request \<Rightarrow> shared \<Rightarrow> shared" where
  "serve p (env, SocksConn inp) s = snd (snd (handle_socks p env inp s))"
| "serve p (env, HttpConn up inp) s = snd (snd (snd (handle_http p env up inp s)))"
| "serve p (env, InjectConn up stalled inp) s = snd (snd (handle_inject p env up stalled inp s))"
| "serve p (env, DnsDatagram logged peer datagram) s =
     snd (serve_dns_datagram env (broker_dns p) logged peer datagram s)"
| "serve p (env, DnsConn inp) s = snd (handle_dns_tcp env (broker_dns p) inp s)"
| "serve p (env, Traffic slot sched) s = snd (pump slot sched s)"

lemma serve_steps: "cache_ok p s \<Longrightarrow> (broker_step p)\<^sup>*\<^sup>* s (serve p rq s)"
  by (induction p rq s rule: serve.induct)
     (simp_all add: handle_socks_steps handle_http_steps handle_inject_steps handle_dns_tcp_steps
       answer_dns_steps serve_dns_datagram_def pump_steps broker_dns_def)

definition broker_run :: "policy \<Rightarrow> (net_env \<times> request) list \<Rightarrow> shared" where
  "broker_run p rqs = fold (serve p) rqs shared_default"

lemma broker_run_steps: "(broker_step p)\<^sup>*\<^sup>* shared_default (broker_run p rqs)"
proof (induction rqs rule: rev_induct)
  case (snoc rq rqs)
  have "cache_ok p (broker_run p rqs)"
    using recorder.inv_reachable [OF refl snoc.IH] by (simp add: broker_inv_def)
  then have "(broker_step p)\<^sup>*\<^sup>* (broker_run p rqs) (serve p rq (broker_run p rqs))"
    by (rule serve_steps)
  with snoc.IH show ?case by (simp add: broker_run_def)
qed (simp add: broker_run_def)

lemma broker_run_inv: "broker_inv p (broker_run p rqs)"
  using recorder.inv_reachable [OF refl broker_run_steps] .

text \<open>
  C4: the handlers refine the recorder's step relation. From a state whose cache is in order,
  whatever a client sends and the network answers, the effect of a handler on the recorder is
  a sequence of steps the policy permits: events marked allowed only for destinations the
  rules allow (or, for the credential endpoint, a pinned host), counters of existing events,
  and cached addresses that pass the floor under names the rules allow. For a dial this
  holds even when other connections changed the recorder between its policy check and the
  rest of it.
\<close>
theorem handlers_refine_recorder_steps:
  assumes "cache_ok p s0"
  shows "(broker_step p)\<^sup>*\<^sup>* s0 (serve p rq s0) \<and>
    (pr \<noteq> InjectProto \<longrightarrow>
       (broker_step p)\<^sup>*\<^sup>* s (snd (dial_checked p t pr env (check p s0 t) s)))"
  using serve_steps [OF assms] dial_steps [OF assms] by blast

theorem handlers_refine_recorder_steps_witness:
  "(broker_step sample_policy)\<^sup>*\<^sup>* shared_default
     (serve sample_policy (sample_env, SocksConn (socks_request [0] (socks_name_bytes (bytes_of ''a.example'')) 443)) shared_default)"
proof -
  have "cache_ok sample_policy shared_default" by (simp add: cache_ok_def name_for_def shared_default_def)
  then show ?thesis using handlers_refine_recorder_steps by blast
qed

text \<open>
  C3: what a run's flight recorder can be trusted for, after any sequence of connections,
  queries and traffic: it holds at most the cap of events and the total is never less than
  what it holds; every event marked allowed names a destination the rules allow or, on the
  credential endpoint, the pinned host of a loaded credential; the cache is a bounded map
  from addresses that pass the floor to names the rules allow.
\<close>
theorem flight_recorder_invariant:
  "length (events (broker_run p rqs)) \<le> MAX_RECORDED_EVENTS \<and>
   length (events (broker_run p rqs)) \<le> unat (ev_total (broker_run p rqs)) \<and>
   list_all (event_ok p) (events (broker_run p rqs)) \<and>
   length (resolved (broker_run p rqs)) \<le> MAX_RECORDED_EVENTS \<and>
   distinct (map fst (resolved (broker_run p rqs))) \<and>
   cache_ok p (broker_run p rqs)"
  using broker_run_inv [of p rqs] by (simp add: broker_inv_def)

text \<open>
  C1: an end-to-end bound on where a guest's connections go. After any run, a dial that
  connects reaches an address that passes the floor, and reaches it either because the rules
  allow the target itself or because the target is a literal address the broker itself
  resolved, earlier, for a name the rules allow. In a real run (no loopback exception) no
  run, however long, lets a connection into an always-refused prefix.
\<close>
theorem run_connects_only_where_allowed:
  assumes "dial p t pr env (broker_run p rqs) = (Inr (a, slot), s')"
  shows "policy_floor p (fst a) \<and>
    (\<not> allow_loopback p \<longrightarrow> \<not> list_ex (in_cidr_text (canonical_ip (fst a))) floor_cidrs) \<and>
    (decide (rules p) t = Allow \<or>
     (\<exists>n. t = TAddr (fst a) (snd a) \<and> name_for (fst a) (broker_run p rqs) = Some n \<and>
        decide (rules p) (TName n 0) = Allow))"
proof -
  let ?s = "broker_run p rqs"
  from assms obtain name where v: "check p ?s t = VAllow name"
    and a: "a \<in> set (dial_addrs p env t)"
    unfolding dial_def by (rule dial_checked_Inr)
  have inv: "cache_ok p ?s" using broker_run_inv [of p rqs] by (simp add: broker_inv_def)
  have "policy_floor p (fst a)" using a by (simp add: dial_addrs_def)
  moreover have "\<not> list_ex (in_cidr_text (canonical_ip (fst a))) floor_cidrs" if "\<not> allow_loopback p"
    using dial_guard.handed_not_floored [of "fst a" p "(env, t)"] a that by auto
  moreover have "decide (rules p) t = Allow \<or>
     (\<exists>n. t = TAddr (fst a) (snd a) \<and> name_for (fst a) ?s = Some n \<and> decide (rules p) (TName n 0) = Allow)"
    using check_allow_cases [OF v]
  proof
    assume "\<exists>ip prt. t = TAddr ip prt \<and> name_for ip ?s = Some name"
    then obtain ip prt where t: "t = TAddr ip prt" and c: "name_for ip ?s = Some name" by blast
    have "a = (ip, prt)" using a by (simp add: t dial_addrs_def dial_answers_def split: if_splits)
    then show ?thesis using inv c t unfolding cache_ok_def by auto
  qed simp
  ultimately show ?thesis by simp
qed

theorem run_connects_only_where_allowed_witness:
  "policy_floor sample_policy (V4 (Ipv4 93 184 216 34))"
proof -
  have "dial sample_policy sample_target Http sample_env (broker_run sample_policy []) =
     (Inr ((V4 (Ipv4 93 184 216 34), 443), Some 0), sample_state)"
    using sample_dial by (simp add: broker_run_def)
  from run_connects_only_where_allowed [OF this] show ?thesis by simp
qed

lemma fold_remember_room:
  "length (resolved s) + length ips \<le> MAX_RECORDED_EVENTS \<Longrightarrow> ip \<in> set ips \<or> name_for ip s = Some n \<Longrightarrow>
   name_for ip (fold (\<lambda>ip. remember_resolved ip n) ips s) = Some n"
proof (induction ips arbitrary: s)
  case (Cons x xs)
  have "length (resolved (remember_resolved x n s)) \<le> Suc (length (resolved s))"
    by (simp add: remember_resolved_def length_update_le)
  moreover have "name_for ip (remember_resolved x n s) = (if ip = x then Some n else name_for ip s)"
    using Cons.prems(1) cache.find_insert_room [of s ip x n] by simp
  ultimately show ?case
    using Cons.prems Cons.IH [of "remember_resolved x n s"] by (cases "ip = x") auto
qed simp

text \<open>
  The guest can use what the broker told it. An address in the broker's own DNS answer
  for an allowed name can afterwards be dialled as a literal, on any port, with no rule for
  addresses: as long as the cache has room for the answer, the policy check allows it under
  the name it was resolved for, and the dial connects if the network lets it.
\<close>
theorem dns_answer_becomes_dialable:
  assumes "parse_dns_query raw = Some q" and "qtype q = QTYPE_A"
    and "decide (rules p) (TName (dq_name q) 0) = Allow"
    and "resolve_v4_detailed env (as_str (dq_name q)) 0 = Addrs answered"
    and "ip \<in> set (permitted_v4 (dns_floor (Filtered p)) answered)"
    and "length (resolved s) + length (permitted_v4 (dns_floor (Filtered p)) answered) \<le> MAX_RECORDED_EVENTS"
    and "answer_dns env (broker_dns p) raw s = (reply, s')"
    and "tcp_connect env' 0 (V4 ip, prt)" and "decide (rules p) (TAddr (V4 ip) prt) \<noteq> Allow"
  shows "check p s' (TAddr (V4 ip) prt) = VAllow (dq_name q) \<and>
    (\<exists>slot s''. dial p (TAddr (V4 ip) prt) pr env' s' = (Inr ((V4 ip, prt), slot), s''))"
proof -
  let ?ips = "permitted_v4 (dns_floor (Filtered p)) answered"
  let ?v = "dns_verdict (Filtered p) s (dq_name q)"
  let ?s1 = "snd (record_event (dns_event env q ?v) s)"
  have "?v = None" using assms(3) by (simp add: dns_verdict_filtered)
  moreover have "dns_outcome env (Filtered p) q = (RCODE_NOERROR, ?ips)"
    using assms(2,4) by (simp add: dns_outcome_def)
  ultimately have s': "s' = fold (\<lambda>ip. remember_resolved ip (dq_name q)) (map V4 ?ips) ?s1"
    using assms(7) by (simp add: answer_dns_parsed [OF assms(1)] broker_dns_def Let_def dns_remember_def
        fold_map comp_def)
  have n: "name_for (V4 ip) s' = Some (dq_name q)"
    unfolding s' using assms(5,6) by (intro fold_remember_room) auto
  then have c: "check p s' (TAddr (V4 ip) prt) = VAllow (dq_name q)"
    using assms(9) by (simp add: check_def)
  have "policy_floor p (V4 ip)" using assms(5) by (simp add: permitted_v4_mem policy_floor_def)
  then have "dial_addrs p env' (TAddr (V4 ip) prt) = [(V4 ip, prt)]"
    by (simp add: dial_addrs_def dial_answers_def)
  with c assms(8) show ?thesis by (simp add: dial_def dial_checked_eq Let_def)
qed

theorem dns_answer_becomes_dialable_witness:
  "\<exists>slot s''. dial sample_policy (TAddr (V4 (Ipv4 93 184 216 34)) 8443) Socks5 sample_env
     (snd (answer_dns sample_env (broker_dns sample_policy) (stub_query 7 True ''a.example'' 1) shared_default)) =
     (Inr ((V4 (Ipv4 93 184 216 34), 8443), slot), s'')"
proof -
  let ?q = "\<lparr>dq_id = 7, recursion_desired = True, dq_name = SafeName ''a.example'', qtype = 1,
       question = dns_question ''a.example'' 1\<rparr>"
  have q: "parse_dns_query (stub_query 7 True ''a.example'' 1) = Some ?q" by code_simp
  have a: "decide (rules sample_policy) (TName (dq_name ?q) 0) = Allow" by code_simp
  have r: "resolve_v4_detailed sample_env (as_str (dq_name ?q)) 0 =
      Addrs [(V4 (Ipv4 169 254 169 254), 0), (V4 (Ipv4 93 184 216 34), 0)]" by code_simp
  let ?ips = "permitted_v4 (dns_floor (Filtered sample_policy))
      [(V4 (Ipv4 169 254 169 254), 0), (V4 (Ipv4 93 184 216 34), 0)]"
  have f: "?ips = [Ipv4 93 184 216 34]" by code_simp
  have m: "Ipv4 93 184 216 34 \<in> set ?ips" and
    l: "length (resolved shared_default) + length ?ips \<le> MAX_RECORDED_EVENTS"
    unfolding f by (simp_all add: shared_default_def MAX_RECORDED_EVENTS_def)
  have t: "qtype ?q = QTYPE_A" by (simp add: QTYPE_A_def)
  have d: "decide (rules sample_policy) (TAddr (V4 (Ipv4 93 184 216 34)) 8443) \<noteq> Allow" by code_simp
  have c: "tcp_connect sample_env 0 (V4 (Ipv4 93 184 216 34), 8443)" by (simp add: sample_env_def)
  show ?thesis
    using dns_answer_becomes_dialable [OF q t a r m l prod.collapse [symmetric] c d, of Socks5]
    by simp
qed

end
