(* ===== verification/Oci_Fs.thy ===== *)
theory Oci_Fs
  imports Effects "HOL-Library.AList" "HOL-Library.Sublist"
begin

text \<open>
  \<open>oci-unpack/src/sys.rs\<close>: the directory-relative calls the layer extractor makes, and the
  part of a Unix file system they act on. A path is the list of its components from the
  file-system root. An open directory is its path: no call the extractor makes renames a
  directory it holds open. Names are confined by \<open>cname\<close> alone; the calls resolve exactly one
  name in the directory they are given, except that \<open>chmod_child\<close> follows a symbolic link,
  wherever it points.
\<close>

section \<open>The file system\<close>

type_synonym path = "string list"

text \<open>
  The error numbers the code tells apart, the two errors it makes itself, and every other
  error a call can fail with.
\<close>

datatype errno =
    ENOENT | EEXIST | ENOTDIR | ELOOP | EISDIR | EPERM | ENOTEMPTY | EACCES
  | InvalidInput | InvalidData | OtherError nat

text \<open>
  A name is a directory with its mode, a regular file by its inode number, a symbolic link
  with its target, or a node of another kind.
\<close>

datatype node = NDir u32 | NFile nat | NLink bytes | NSpecial

text \<open>
  \<open>faults\<close> lists how the next calls fail for reasons outside the tree, such as a full disk
  (\<^const>\<open>None\<close>: the call goes through); when it runs out there are no more faults.
\<close>

record host_fs =
  nodes :: "(path \<times> node) list"
  inodes :: "(nat \<times> (u32 \<times> bytes)) list"
  next_ino :: nat
  umask :: u32
  faults :: "errno option list"

type_synonym 'a fs_call = "(host_fs, errno, 'a) comp"

definition node_at :: "host_fs \<Rightarrow> path \<Rightarrow> node option" where
  "node_at fs p = map_of (nodes fs) p"

definition inode_at :: "host_fs \<Rightarrow> nat \<Rightarrow> (u32 \<times> bytes) option" where
  "inode_at fs i = map_of (inodes fs) i"

definition put_node :: "path \<Rightarrow> node \<Rightarrow> host_fs \<Rightarrow> host_fs" where
  "put_node p n fs = fs\<lparr>nodes := AList.update p n (nodes fs)\<rparr>"

definition del_node :: "path \<Rightarrow> host_fs \<Rightarrow> host_fs" where
  "del_node p fs = fs\<lparr>nodes := AList.delete p (nodes fs)\<rparr>"

definition put_inode :: "nat \<Rightarrow> u32 \<times> bytes \<Rightarrow> host_fs \<Rightarrow> host_fs" where
  "put_inode i v fs = fs\<lparr>inodes := AList.update i v (inodes fs)\<rparr>"

definition children :: "host_fs \<Rightarrow> path \<Rightarrow> string list" where
  "children fs d = map last (filter (\<lambda>p. p \<noteq> [] \<and> butlast p = d) (map fst (nodes fs)))"

fun is_dir :: "node \<Rightarrow> bool" where
  "is_dir (NDir _) = True"
| "is_dir _ = False"

fun is_symlink :: "node \<Rightarrow> bool" where
  "is_symlink (NLink _) = True"
| "is_symlink _ = False"

text \<open>The octal constants of the code, and the owner's permission bits of a directory.\<close>

abbreviation O100 :: u32 where "O100 \<equiv> 0x40"
abbreviation O300 :: u32 where "O300 \<equiv> 0xC0"
abbreviation O400 :: u32 where "O400 \<equiv> 0x100"
abbreviation O700 :: u32 where "O700 \<equiv> 0x1C0"
abbreviation O755 :: u32 where "O755 \<equiv> 0x1ED"
abbreviation O777 :: u32 where "O777 \<equiv> 0x1FF"
abbreviation O7000 :: u32 where "O7000 \<equiv> 0xE00"
abbreviation O7777 :: u32 where "O7777 \<equiv> 0xFFF"

definition grants :: "host_fs \<Rightarrow> path \<Rightarrow> u32 \<Rightarrow> bool" where
  "grants fs d bits = (case node_at fs d of Some (NDir m) \<Rightarrow> and m bits = bits | _ \<Rightarrow> False)"

definition sys_call :: "'a fs_call \<Rightarrow> 'a fs_call" where
  "sys_call f fs =
     (case faults fs of
        [] \<Rightarrow> f fs
      | None # rest \<Rightarrow> f (fs\<lparr>faults := rest\<rparr>)
      | Some e # rest \<Rightarrow> (Inl e, fs\<lparr>faults := rest\<rparr>))"

section \<open>The directory-relative calls\<close>

definition cname_ok :: "string \<Rightarrow> bool" where
  "cname_ok n \<longleftrightarrow>
     n \<noteq> [] \<and> CHR ''/'' \<notin> set n \<and> n \<noteq> ''.'' \<and> n \<noteq> ''..'' \<and> char_of (0 :: nat) \<notin> set n"

definition named :: "string \<Rightarrow> 'a fs_call \<Rightarrow> 'a fs_call" where
  "named n f = (if \<not> cname_ok n then fail InvalidInput else sys_call f)"

definition try_clone :: "path \<Rightarrow> path fs_call" where
  "try_clone d = sys_call (ret d)"

definition open_dir :: "path \<Rightarrow> string \<Rightarrow> path fs_call" where
  "open_dir d n = named n (\<lambda>fs.
     if \<not> grants fs d O100 then (Inl EACCES, fs)
     else case node_at fs (d @ [n]) of
         None \<Rightarrow> (Inl ENOENT, fs)
       | Some (NDir m) \<Rightarrow> if and m O400 = 0 then (Inl EACCES, fs) else (Inr (d @ [n]), fs)
       | Some (NLink _) \<Rightarrow> (Inl ELOOP, fs)
       | Some _ \<Rightarrow> (Inl ENOTDIR, fs))"

definition mkdir :: "path \<Rightarrow> string \<Rightarrow> u32 \<Rightarrow> unit fs_call" where
  "mkdir d n mode = named n (\<lambda>fs.
     if \<not> grants fs d O100 then (Inl EACCES, fs)
     else if node_at fs (d @ [n]) \<noteq> None then (Inl EEXIST, fs)
     else if \<not> grants fs d O300 then (Inl EACCES, fs)
     else (Inr (), put_node (d @ [n]) (NDir (and mode (not (umask fs)))) fs))"

text \<open>\<open>create_file\<close> returns the inode number of the file it opened for writing.\<close>

definition create_file :: "path \<Rightarrow> string \<Rightarrow> u32 \<Rightarrow> nat fs_call" where
  "create_file d n mode = named n (\<lambda>fs.
     if \<not> grants fs d O100 then (Inl EACCES, fs)
     else if node_at fs (d @ [n]) \<noteq> None then (Inl EEXIST, fs)
     else if \<not> grants fs d O300 then (Inl EACCES, fs)
     else (Inr (next_ino fs),
       put_node (d @ [n]) (NFile (next_ino fs))
         (put_inode (next_ino fs) (and mode (not (umask fs)), []) (fs\<lparr>next_ino := Suc (next_ino fs)\<rparr>))))"

definition set_permissions :: "nat \<Rightarrow> u32 \<Rightarrow> unit fs_call" where
  "set_permissions i mode = sys_call (\<lambda>fs.
     case inode_at fs i of
       None \<Rightarrow> (Inl ENOENT, fs)
     | Some (_, content) \<Rightarrow> (Inr (), put_inode i (mode, content) fs))"

definition write_all :: "nat \<Rightarrow> bytes \<Rightarrow> unit fs_call" where
  "write_all i bs = sys_call (\<lambda>fs.
     case inode_at fs i of
       None \<Rightarrow> (Inl ENOENT, fs)
     | Some (mode, content) \<Rightarrow> (Inr (), put_inode i (mode, content @ bs) fs))"

definition symlink :: "bytes \<Rightarrow> path \<Rightarrow> string \<Rightarrow> unit fs_call" where
  "symlink target d n =
     (if \<not> cname_ok n \<or> 0 \<in> set target then fail InvalidInput
      else sys_call (\<lambda>fs.
        if \<not> grants fs d O100 then (Inl EACCES, fs)
        else if node_at fs (d @ [n]) \<noteq> None then (Inl EEXIST, fs)
        else if \<not> grants fs d O300 then (Inl EACCES, fs)
        else (Inr (), put_node (d @ [n]) (NLink target) fs)))"

definition link_from :: "path \<Rightarrow> path \<Rightarrow> string \<Rightarrow> string \<Rightarrow> unit fs_call" where
  "link_from d src_dir src n =
     (if \<not> cname_ok src \<or> \<not> cname_ok n then fail InvalidInput
      else sys_call (\<lambda>fs.
        if \<not> grants fs src_dir O100 \<or> \<not> grants fs d O100 then (Inl EACCES, fs)
        else case node_at fs (src_dir @ [src]) of
            None \<Rightarrow> (Inl ENOENT, fs)
          | Some nd \<Rightarrow>
              if node_at fs (d @ [n]) \<noteq> None then (Inl EEXIST, fs)
              else if is_dir nd then (Inl EPERM, fs)
              else if \<not> grants fs d O300 then (Inl EACCES, fs)
              else (Inr (), put_node (d @ [n]) nd fs)))"

definition lstat :: "path \<Rightarrow> string \<Rightarrow> node fs_call" where
  "lstat d n = named n (\<lambda>fs.
     if \<not> grants fs d O100 then (Inl EACCES, fs)
     else case node_at fs (d @ [n]) of None \<Rightarrow> (Inl ENOENT, fs) | Some nd \<Rightarrow> (Inr nd, fs))"

definition unlink :: "path \<Rightarrow> string \<Rightarrow> bool \<Rightarrow> unit fs_call" where
  "unlink d n dir = named n (\<lambda>fs.
     if \<not> grants fs d O100 then (Inl EACCES, fs)
     else case node_at fs (d @ [n]) of
         None \<Rightarrow> (Inl ENOENT, fs)
       | Some nd \<Rightarrow>
           if \<not> grants fs d O300 then (Inl EACCES, fs)
           else if dir \<and> \<not> is_dir nd then (Inl ENOTDIR, fs)
           else if \<not> dir \<and> is_dir nd then (Inl EISDIR, fs)
           else if dir \<and> children fs (d @ [n]) \<noteq> [] then (Inl ENOTEMPTY, fs)
           else (Inr (), del_node (d @ [n]) fs))"

definition set_mode :: "path \<Rightarrow> u32 \<Rightarrow> host_fs \<Rightarrow> host_fs" where
  "set_mode p mode fs =
     (case node_at fs p of
        Some (NDir _) \<Rightarrow> put_node p (NDir mode) fs
      | Some (NFile i) \<Rightarrow>
          (case inode_at fs i of Some (_, c) \<Rightarrow> put_inode i (mode, c) fs | None \<Rightarrow> fs)
      | _ \<Rightarrow> fs)"

text \<open>\<open>fchmod\<close> on an open directory: a directory that has been removed is not in the tree any more.\<close>

definition chmod :: "path \<Rightarrow> u32 \<Rightarrow> unit fs_call" where
  "chmod d mode = sys_call (\<lambda>fs.
     case node_at fs d of
       Some (NDir _) \<Rightarrow> (Inr (), put_node d (NDir mode) fs)
     | _ \<Rightarrow> (Inr (), fs))"

text \<open>
  The kernel's resolution of a link target: component by component, through further links,
  \<open>..\<close> to the parent. The bound is the kernel's own refusal of long chains.
\<close>

function follow :: "nat \<Rightarrow> host_fs \<Rightarrow> path \<Rightarrow> path \<Rightarrow> path option" where
  "follow k fs cur comps =
     (if k = 0 then None
      else case comps of
          [] \<Rightarrow> Some cur
        | c # rest \<Rightarrow>
            if c = [] \<or> c = ''.'' then follow (k - 1) fs cur rest
            else if c = ''..'' then follow (k - 1) fs (butlast cur) rest
            else case node_at fs (cur @ [c]) of
                Some (NLink t) \<Rightarrow>
                  (let ts = split_on CHR ''/'' (map byte_char t) in
                   follow (k - 1) fs (if hd ts = [] then [] else cur) (ts @ rest))
              | _ \<Rightarrow> follow (k - 1) fs (cur @ [c]) rest)"
  by pat_completeness auto
termination
  by (relation "measure (\<lambda>(k, _, _, _). k)") auto

declare follow.simps [simp del]

definition MAX_FOLLOW :: nat where "MAX_FOLLOW = 4096"

definition chmod_child :: "path \<Rightarrow> string \<Rightarrow> u32 \<Rightarrow> unit fs_call" where
  "chmod_child d n mode = named n (\<lambda>fs.
     if \<not> grants fs d O100 then (Inl EACCES, fs)
     else case follow MAX_FOLLOW fs d [n] of
         None \<Rightarrow> (Inl ELOOP, fs)
       | Some p \<Rightarrow>
           (case node_at fs p of
              None \<Rightarrow> (Inl ENOENT, fs)
            | Some _ \<Rightarrow> (Inr (), set_mode p mode fs)))"

definition entries :: "path \<Rightarrow> string list fs_call" where
  "entries d = sys_call (\<lambda>fs. (Inr (children fs d), fs))"

section \<open>Reading the file system back\<close>

lemma node_at_put [simp]: "node_at (put_node p n fs) q = (if q = p then Some n else node_at fs q)"
  by (simp add: node_at_def put_node_def update_conv')

lemma node_at_del [simp]: "node_at (del_node p fs) q = (if q = p then None else node_at fs q)"
  by (simp add: node_at_def del_node_def delete_conv')

lemma node_at_other [simp]:
  "node_at (put_inode i v fs) = node_at fs" "node_at (fs\<lparr>faults := f\<rparr>) = node_at fs"
  "node_at (fs\<lparr>next_ino := k\<rparr>) = node_at fs"
  by (simp_all add: fun_eq_iff node_at_def put_inode_def)

lemma inode_at_simps [simp]:
  "inode_at (put_inode i v fs) j = (if j = i then Some v else inode_at fs j)"
  "inode_at (put_node p n fs) = inode_at fs" "inode_at (del_node p fs) = inode_at fs"
  "inode_at (fs\<lparr>faults := f\<rparr>) = inode_at fs" "inode_at (fs\<lparr>next_ino := k\<rparr>) = inode_at fs"
  by (simp_all add: fun_eq_iff inode_at_def put_inode_def put_node_def del_node_def update_conv')

lemma fs_fields [simp]:
  "next_ino (put_node p n fs) = next_ino fs" "next_ino (del_node p fs) = next_ino fs"
  "next_ino (put_inode i v fs) = next_ino fs"
  "umask (put_node p n fs) = umask fs" "umask (del_node p fs) = umask fs"
  "umask (put_inode i v fs) = umask fs"
  "faults (put_node p n fs) = faults fs" "faults (del_node p fs) = faults fs"
  "faults (put_inode i v fs) = faults fs"
  by (simp_all add: put_node_def del_node_def put_inode_def)

lemma grants_simps [simp]: "grants (fs\<lparr>faults := f\<rparr>) = grants fs"
  by (simp add: fun_eq_iff grants_def)

lemma set_children: "n \<in> set (children fs d) \<longleftrightarrow> node_at fs (d @ [n]) \<noteq> None"
proof
  assume "n \<in> set (children fs d)"
  then obtain p where p: "p \<in> fst ` set (nodes fs)" "p \<noteq> []" "butlast p = d" "n = last p"
    by (auto simp: children_def)
  then have "p = d @ [n]" by auto
  with p(1) show "node_at fs (d @ [n]) \<noteq> None" by (auto simp: node_at_def map_of_eq_None_iff)
next
  assume "node_at fs (d @ [n]) \<noteq> None"
  then have "d @ [n] \<in> fst ` set (nodes fs)" by (simp add: node_at_def map_of_eq_None_iff)
  then show "n \<in> set (children fs d)" by (force simp: children_def)
qed

end
