(* ===== verification/Oci_Name.thy ===== *)
theory Oci_Name
  imports Oci_Fs
begin

text \<open>
  \<open>oci-unpack/src/name.rs\<close>, with the limits and refusals of \<open>oci-unpack/src/lib.rs\<close>: what a
  layer entry's name asks the extractor to do. The lemmas show that a planned path is made
  of self-naming components, none of which is a whiteout marker, within the depth limit, and
  that it is the archive's own spelling with empty and \<open>.\<close> components dropped.
\<close>

section \<open>Limits and refusals\<close>

text \<open>
  The counters are natural numbers: they count bytes and entries actually processed, which a
  64-bit counter cannot overflow.
\<close>

record limits =
  max_total_bytes :: nat
  max_entry_bytes :: nat
  max_entries :: nat
  max_path_len :: nat
  max_path_depth :: nat

definition limits_default :: limits where
  "limits_default =
     \<lparr>max_total_bytes = 8 * 2 ^ 30, max_entry_bytes = 4 * 2 ^ 30, max_entries = 500000,
      max_path_len = 4096, max_path_depth = 256\<rparr>"

text \<open>
  Refusals carry what the message is built from: for a malformed entry which defect it is,
  for a failed call its error.
\<close>

datatype defect =
    MarkerAsDirectory string | MarkerWithoutName | MarkerOfOwnDirectory
  | UnreadableArchive string | SparseEntry | UnsupportedType u8 | UnreadableMode
  | NoTarget | EmptyTarget | MissingTarget bytes | TruncatedData

datatype refusal =
    PathEscapesRoot string
  | AbsolutePath string
  | SymlinkEscape string string
  | HardlinkEscape string bytes
  | NonUtf8Name bytes
  | ControlCharInName string
  | LimitExceeded string nat string
  | Malformed string defect
  | Io string errno

section \<open>Planning a name\<close>

datatype plan =
    PlanWrite path
  | PlanWhiteout path string
  | PlanOpaque path
  | PlanRoot

definition WH :: string where "WH = ''.wh.''"
definition OPQ :: string where "OPQ = ''.wh..wh..opq''"

definition control_char :: "char \<Rightarrow> bool" where
  "control_char c \<longleftrightarrow> code c < 0x20 \<or> code c = 0x7f"

fun plan_components :: "string \<Rightarrow> string list \<Rightarrow> refusal + path" where
  "plan_components name [] = Inr []"
| "plan_components name (part # parts) =
     (if part = [] \<or> part = ''.'' then plan_components name parts
      else if part = ''..'' then Inl (PathEscapesRoot name)
      else try_bind (plan_components name parts) (\<lambda>cs. Inr (part # cs)))"

definition plan_last :: "string \<Rightarrow> path \<Rightarrow> string \<Rightarrow> refusal + plan" where
  "plan_last name parent lst =
     (if lst = OPQ then Inr (PlanOpaque parent)
      else case strip_prefix WH lst of
          Some target \<Rightarrow>
            if target = [] then Inl (Malformed name MarkerWithoutName)
            else if target = ''..'' then Inl (PathEscapesRoot name)
            else if target = ''.'' then Inl (Malformed name MarkerOfOwnDirectory)
            else Inr (PlanWhiteout parent target)
        | None \<Rightarrow> Inr (PlanWrite (parent @ [lst])))"

definition plan_name :: "bytes \<Rightarrow> limits \<Rightarrow> refusal + plan" where
  "plan_name raw lim =
     (if max_path_len lim < length raw then
        Inl (LimitExceeded ''max_path_len'' (max_path_len lim) ''Limits::max_path_len'')
      else case from_utf8 raw of
          None \<Rightarrow> Inl (NonUtf8Name raw)
        | Some name \<Rightarrow>
            if list_ex control_char name then Inl (ControlCharInName name)
            else if starts_with ''/'' name then Inl (AbsolutePath name)
            else try_bind (plan_components name (split_on CHR ''/'' name)) (\<lambda>components.
              if components = [] then Inr PlanRoot
              else if max_path_depth lim < length components then
                Inl (LimitExceeded ''max_path_depth'' (max_path_depth lim) ''Limits::max_path_depth'')
              else case find (starts_with WH) (butlast components) of
                  Some bad \<Rightarrow> Inl (Malformed name (MarkerAsDirectory bad))
                | None \<Rightarrow> plan_last name (butlast components) (last components)))"

definition join :: "path \<Rightarrow> string" where
  "join components = join_with ''/'' components"

section \<open>What a plan can name\<close>

text \<open>The components of a name that the extractor acts on.\<close>

definition named_parts :: "string \<Rightarrow> path" where
  "named_parts name = filter (\<lambda>p. p \<noteq> [] \<and> p \<noteq> ''.'') (split_on CHR ''/'' name)"

text \<open>A component of the tree: one name, not a marker, printable.\<close>

definition tree_name :: "string \<Rightarrow> bool" where
  "tree_name n \<longleftrightarrow> cname_ok n \<and> \<not> starts_with WH n \<and> \<not> list_ex control_char n"

lemma tree_name_cname: "tree_name n \<Longrightarrow> cname_ok n"
  by (simp add: tree_name_def)

lemma plan_components_iff:
  "plan_components name parts = Inr cs \<longleftrightarrow>
   ''..'' \<notin> set parts \<and> cs = filter (\<lambda>p. p \<noteq> [] \<and> p \<noteq> ''.'') parts"
  by (induction parts arbitrary: cs) (auto simp: result_iff)

lemma named_parts_mem:
  "c \<in> set (named_parts name) \<Longrightarrow> c \<noteq> [] \<and> c \<noteq> ''.'' \<and> CHR ''/'' \<notin> set c \<and> set c \<subseteq> set name"
  using split_on_no_delim split_on_subset by (fastforce simp: named_parts_def)

lemma plan_name_ok:
  assumes "plan_name raw lim = Inr pl"
  obtains (root) name where "from_utf8 raw = Some name" "named_parts name = []" "pl = PlanRoot"
  | (named) name parent lst where "from_utf8 raw = Some name" "named_parts name = parent @ [lst]"
      "length parent < max_path_depth lim" "list_all tree_name parent"
      "plan_last name parent lst = Inr pl" "cname_ok lst" "\<not> list_ex control_char lst"
proof -
  from assms obtain name where name: "from_utf8 raw = Some name"
    and ctl: "\<not> list_ex control_char name"
    and parts: "''..'' \<notin> set (split_on CHR ''/'' name)"
    and pl: "(if named_parts name = [] then Inr PlanRoot
        else if max_path_depth lim < length (named_parts name) then
          Inl (LimitExceeded ''max_path_depth'' (max_path_depth lim) ''Limits::max_path_depth'')
        else case find (starts_with WH) (butlast (named_parts name)) of
            Some bad \<Rightarrow> Inl (Malformed name (MarkerAsDirectory bad))
          | None \<Rightarrow> plan_last name (butlast (named_parts name)) (last (named_parts name))) = Inr pl"
    by (auto simp: plan_name_def try_bind_Inr_iff plan_components_iff named_parts_def
        split: if_splits option.splits)
  show ?thesis
  proof (cases "named_parts name = []")
    case True
    with pl name root show ?thesis by auto
  next
    case False
    let ?p = "butlast (named_parts name)" and ?l = "last (named_parts name)"
    have eq: "named_parts name = ?p @ [?l]" using False by simp
    have c: "cname_ok c \<and> \<not> list_ex control_char c" if "c \<in> set (named_parts name)" for c
    proof -
      have "c \<noteq> ''..''" using that parts by (auto simp: named_parts_def)
      moreover have "char_of (0 :: nat) \<notin> set name"
        using ctl by (auto simp: list_ex_iff control_char_def code_def)
      ultimately show ?thesis
        using named_parts_mem [OF that] ctl by (auto simp: cname_ok_def list_ex_iff)
    qed
    have len: "length ?p < max_path_depth lim"
    proof -
      have "0 < length (named_parts name)" using False by simp
      moreover have "\<not> max_path_depth lim < length (named_parts name)"
        using pl False by (auto split: if_splits)
      ultimately show ?thesis unfolding length_butlast by linarith
    qed
    have "find (starts_with WH) ?p = None" using pl False by (auto split: if_splits option.splits)
    then have "list_all tree_name ?p"
      using c by (auto simp: list_all_iff tree_name_def find_None_iff dest: in_set_butlastD)
    moreover have "plan_last name ?p ?l = Inr pl" using pl False by (auto split: if_splits option.splits)
    moreover have "cname_ok ?l \<and> \<not> list_ex control_char ?l" using False by (intro c) simp
    ultimately show ?thesis using named [OF name eq len] by blast
  qed
qed

lemma plan_write_ok:
  assumes "plan_name raw lim = Inr (PlanWrite cs)"
  shows "cs \<noteq> []" "list_all tree_name cs" "length cs \<le> max_path_depth lim"
proof -
  from assms have "cs \<noteq> [] \<and> list_all tree_name cs \<and> length cs \<le> max_path_depth lim"
  proof (cases rule: plan_name_ok)
    case (named name parent lst)
    then have "cs = parent @ [lst]" "strip_prefix WH lst = None"
      by (auto simp: plan_last_def split: if_splits option.splits)
    moreover from this(2) have "\<not> starts_with WH lst" by (simp add: starts_with_def)
    ultimately show ?thesis using named by (simp add: tree_name_def)
  qed simp
  then show "cs \<noteq> []" "list_all tree_name cs" "length cs \<le> max_path_depth lim" by simp_all
qed

lemma plan_whiteout_ok:
  assumes "plan_name raw lim = Inr (PlanWhiteout parent target)"
  shows "list_all tree_name parent" "length parent < max_path_depth lim" "cname_ok target"
proof -
  from assms have "list_all tree_name parent \<and> length parent < max_path_depth lim \<and> cname_ok target"
  proof (cases rule: plan_name_ok)
    case (named name p lst)
    then have l: "p = parent" "lst = WH @ target" "target \<noteq> []" "target \<noteq> ''..''" "target \<noteq> ''.''"
      by (auto simp: plan_last_def text_simps split: if_splits option.splits)
    with named show ?thesis by (simp add: cname_ok_def)
  qed simp
  then show "list_all tree_name parent" "length parent < max_path_depth lim" "cname_ok target"
    by simp_all
qed

lemma plan_opaque_ok:
  assumes "plan_name raw lim = Inr (PlanOpaque parent)"
  shows "list_all tree_name parent" "length parent < max_path_depth lim"
proof -
  from assms have "list_all tree_name parent \<and> length parent < max_path_depth lim"
    by (cases rule: plan_name_ok) (auto simp: plan_last_def split: if_splits option.splits)
  then show "list_all tree_name parent" "length parent < max_path_depth lim" by simp_all
qed

end
