(* ===== verification/Oci_Unpack.thy ===== *)
theory Oci_Unpack
  imports Oci_Name "HOL-Library.List_Lexorder" "HOL-Library.Char_ord"
begin

text \<open>
  \<open>oci-unpack/src/lib.rs\<close>: applying untrusted image layers to a staging tree on the host, one
  component at a time and without following links, and promoting the tree only on success.
  The tar reader is third-party code: a layer is the sequence of entries it yields. The
  extractor's own fields, the host file system, the report of the layer in progress and the
  set of paths that layer wrote are one state, which every method passes on.
\<close>

section \<open>Reports, entries and the unpacker\<close>

record report =
  entries_written :: nat
  bytes_written :: nat
  whiteouts_applied :: nat
  opaque_dirs_applied :: nat
  devices_skipped :: "string list"
  setuid_paths :: "(string \<times> u32) list"
  xattrs_dropped :: nat

definition report_default :: report where
  "report_default =
     \<lparr>entries_written = 0, bytes_written = 0, whiteouts_applied = 0, opaque_dirs_applied = 0,
      devices_skipped = [], setuid_paths = [], xattrs_dropped = 0\<rparr>"

definition merge_report :: "report \<Rightarrow> report \<Rightarrow> report" where
  "merge_report self other = self\<lparr>
     entries_written := entries_written self + entries_written other,
     bytes_written := bytes_written self + bytes_written other,
     whiteouts_applied := whiteouts_applied self + whiteouts_applied other,
     opaque_dirs_applied := opaque_dirs_applied self + opaque_dirs_applied other,
     xattrs_dropped := xattrs_dropped self + xattrs_dropped other,
     devices_skipped := devices_skipped self @ devices_skipped other\<rparr>"

text \<open>
  A tar entry as the reader yields it: name, type, mode (\<^const>\<open>None\<close>: unreadable), link name,
  the keys of its PAX records (a record may be unreadable, and so may the whole list), and
  its content as the reads return it, with whether a read fails at the end.
\<close>

datatype entry_type =
    Regular | Continuous | Directory | Symlink | Link | CharDev | BlockDev | Fifo | GNUSparse
  | OtherType u8

record tar_entry =
  path_bytes :: bytes
  kind :: entry_type
  mode_field :: "u32 option"
  link_name :: "bytes option"
  pax_keys :: "bytes option list option"
  reads :: "bytes list"
  read_fails :: bool

definition host_mode :: "u32 \<Rightarrow> u32" where
  "host_mode raw = and raw O777"

definition DIR_MODE :: u32 where "DIR_MODE = O755"

record unpacker =
  dest :: path
  staging :: path
  u_limits :: limits
  total :: report
  entries_seen :: nat
  deferred_modes :: "(path \<times> u32) list"
  special_modes :: "(string \<times> u32) list"
  promoted :: bool

text \<open>The state: the unpacker, the host, and the layer in progress.\<close>

record world =
  up :: unpacker
  fs :: host_fs
  rep :: report
  written :: "string list"

type_synonym 'a step = "(world, refusal, 'a) comp"

definition on_fs :: "'a fs_call \<Rightarrow> world \<Rightarrow> (errno + 'a) \<times> world" where
  "on_fs m w = (case m (fs w) of (r, fs') \<Rightarrow> (r, w\<lparr>fs := fs'\<rparr>))"

text \<open>\<open>map_err\<close> to \<open>Refusal::Io\<close> with the path, and a call whose result is matched on.\<close>

definition io_at :: "string \<Rightarrow> 'a fs_call \<Rightarrow> 'a step" where
  "io_at path m = map_fail (Io path) (on_fs m)"

definition try_fs :: "'a fs_call \<Rightarrow> (errno + 'a) step" where
  "try_fs m = attempt (on_fs m)"

section \<open>Deleting\<close>

text \<open>
  \<open>remove_child\<close> and \<open>prune\<close>, whose recursion is bounded by \<open>max_path_depth\<close>. A failed
  \<open>chmod_child\<close> is ignored.
\<close>

function remove_child :: "path \<Rightarrow> string \<Rightarrow> limits \<Rightarrow> nat \<Rightarrow> unit fs_call" where
  "remove_child dir name lim depth =
     (if max_path_depth lim < depth then fail InvalidData
      else seq (attempt (unlink dir name False)) (\<lambda>r.
        case r of
          Inr _ \<Rightarrow> ret ()
        | Inl e \<Rightarrow>
            if e = ENOENT then ret ()
            else if e = EISDIR \<or> e = EPERM then
              seq (attempt (chmod_child dir name O700)) (\<lambda>_.
              seq (open_dir dir name) (\<lambda>sub.
              seq (entries sub) (\<lambda>names.
              seq (each (\<lambda>child. remove_child sub child lim (depth + 1)) names) (\<lambda>_.
              unlink dir name True))))
            else fail e))"
  by pat_completeness auto
termination
  by (relation "measure (\<lambda>(_, _, lim, depth). Suc (max_path_depth lim) - depth)") auto

declare remove_child.simps [simp del]

function prune :: "path \<Rightarrow> path \<Rightarrow> string list \<Rightarrow> limits \<Rightarrow> nat \<Rightarrow> unit fs_call" where
  "prune dir pre keep lim depth =
     (if max_path_depth lim < depth then fail InvalidData
      else seq (entries dir) (\<lambda>names.
        each (\<lambda>child.
          let components = pre @ [child]; key = join components in
          if key \<notin> set keep then remove_child dir child lim depth
          else seq (lstat dir child) (\<lambda>st.
            if is_dir st then
              seq (open_dir dir child) (\<lambda>sub. prune sub components keep lim (depth + 1))
            else ret ())) names))"
  by pat_completeness auto
termination
  by (relation "measure (\<lambda>(_, _, _, lim, depth). Suc (max_path_depth lim) - depth)") auto

declare prune.simps [simp del]

section \<open>The confined walk\<close>

text \<open>One component of \<open>dir_create\<close>: open it, or make it, or replace what is not a directory.\<close>

definition remake_dir :: "string \<Rightarrow> path \<Rightarrow> string \<Rightarrow> path step" where
  "remake_dir path cur name =
     seq (io_at path (open_dir cur name)) (\<lambda>made.
     seq (io_at path (chmod made DIR_MODE)) (\<lambda>_. ret made))"

definition walk_step :: "string \<Rightarrow> string \<Rightarrow> path \<Rightarrow> string \<Rightarrow> path step" where
  "walk_step entry path cur name =
     seq (try_fs (open_dir cur name)) (\<lambda>r.
       case r of
         Inr d \<Rightarrow> ret d
       | Inl e \<Rightarrow>
           if e = ENOENT then
             seq (try_fs (mkdir cur name DIR_MODE)) (\<lambda>_. remake_dir path cur name)
           else
             seq (map_fail (\<lambda>_. Io path e) (on_fs (lstat cur name))) (\<lambda>st.
               if is_symlink st then fail (SymlinkEscape entry path)
               else if is_dir st then fail (Io path e)
               else
                 seq (gets (\<lambda>w. u_limits (up w))) (\<lambda>lim.
                 seq (io_at path (remove_child cur name lim 0)) (\<lambda>_.
                 seq (io_at path (mkdir cur name DIR_MODE)) (\<lambda>_. remake_dir path cur name)))))"

fun create_walk :: "string \<Rightarrow> path \<Rightarrow> path \<Rightarrow> path \<Rightarrow> path step" where
  "create_walk entry cur so_far [] = ret cur"
| "create_walk entry cur so_far (name # comps) =
     (let path = join (so_far @ [name]) in
      seq (walk_step entry path cur name) (\<lambda>nxt.
      seq (modify (\<lambda>w. w\<lparr>written := path # written w\<rparr>)) (\<lambda>_.
      create_walk entry nxt (so_far @ [name]) comps)))"

definition dir_create :: "path \<Rightarrow> string \<Rightarrow> path step" where
  "dir_create components entry =
     seq (gets (\<lambda>w. staging (up w))) (\<lambda>root.
     seq (io_at [] (try_clone root)) (\<lambda>cur. create_walk entry cur [] components))"

fun existing_walk :: "string \<Rightarrow> path \<Rightarrow> path \<Rightarrow> path \<Rightarrow> path option step" where
  "existing_walk entry cur so_far [] = ret (Some cur)"
| "existing_walk entry cur so_far (name # comps) =
     (let path = join (so_far @ [name]) in
      seq (try_fs (open_dir cur name)) (\<lambda>r.
        case r of
          Inr d \<Rightarrow> existing_walk entry d (so_far @ [name]) comps
        | Inl e \<Rightarrow>
            if e = ENOENT then ret None
            else seq (map_fail (\<lambda>_. Io path e) (on_fs (lstat cur name))) (\<lambda>st.
              if is_symlink st then fail (SymlinkEscape entry path) else ret None)))"

definition dir_existing :: "path \<Rightarrow> string \<Rightarrow> path option step" where
  "dir_existing components entry =
     seq (gets (\<lambda>w. staging (up w))) (\<lambda>root.
     seq (io_at [] (try_clone root)) (\<lambda>cur. existing_walk entry cur [] components))"

definition ensure_dir :: "path \<Rightarrow> string \<Rightarrow> string \<Rightarrow> unit step" where
  "ensure_dir parent name path =
     seq (try_fs (mkdir parent name DIR_MODE)) (\<lambda>r.
       case r of
         Inr _ \<Rightarrow> ret ()
       | Inl e \<Rightarrow>
           if e = EEXIST then
             seq (io_at path (lstat parent name)) (\<lambda>st.
               if is_dir st then ret ()
               else
                 seq (gets (\<lambda>w. u_limits (up w))) (\<lambda>lim.
                 seq (io_at path (remove_child parent name lim 0)) (\<lambda>_.
                 io_at path (mkdir parent name O755))))
           else fail (Io path e))"

definition set_dir_mode :: "path \<Rightarrow> string \<Rightarrow> path \<Rightarrow> u32 \<Rightarrow> string \<Rightarrow> unit step" where
  "set_dir_mode parent name components mode path =
     (if and mode O700 = O700 then
        seq (io_at path (seq (open_dir parent name) (\<lambda>d. chmod d mode))) (\<lambda>_.
        modify (\<lambda>w. w\<lparr>up := (up w)\<lparr>deferred_modes := AList.delete components (deferred_modes (up w))\<rparr>\<rparr>))
      else
        modify (\<lambda>w. w\<lparr>up := (up w)\<lparr>deferred_modes :=
          AList.update components mode (deferred_modes (up w))\<rparr>\<rparr>))"

section \<open>Whiteouts\<close>

definition whiteout :: "path \<Rightarrow> string \<Rightarrow> unit step" where
  "whiteout parent target =
     seq (modify (\<lambda>w. w\<lparr>rep := (rep w)\<lparr>whiteouts_applied := whiteouts_applied (rep w) + 1\<rparr>\<rparr>)) (\<lambda>_.
     let path = join parent in
     seq (dir_existing parent path) (\<lambda>r.
       case r of
         None \<Rightarrow> ret ()
       | Some dir \<Rightarrow>
           seq (gets (\<lambda>w. u_limits (up w))) (\<lambda>lim.
           io_at (if path = [] then target else path @ ''/'' @ target) (remove_child dir target lim 0))))"

definition opaque :: "path \<Rightarrow> unit step" where
  "opaque parent =
     seq (modify (\<lambda>w. w\<lparr>rep := (rep w)\<lparr>opaque_dirs_applied := opaque_dirs_applied (rep w) + 1\<rparr>\<rparr>)) (\<lambda>_.
     let path = join parent in
     seq (dir_existing parent path) (\<lambda>r.
       case r of
         None \<Rightarrow> ret ()
       | Some dir \<Rightarrow>
           seq (gets (\<lambda>w. (u_limits (up w), written w))) (\<lambda>(lim, keep).
           io_at path (prune dir parent keep lim 0))))"

section \<open>Writing an entry\<close>

definition count_xattrs :: "tar_entry \<Rightarrow> nat" where
  "count_xattrs entry =
     (case pax_keys entry of
        None \<Rightarrow> 0
      | Some exts \<Rightarrow>
          length (filter (\<lambda>k. case k of
              None \<Rightarrow> False
            | Some key \<Rightarrow> starts_with (bytes_of ''SCHILY.xattr.'') key \<or>
                starts_with (bytes_of ''LIBARCHIVE.xattr.'') key) exts))"

definition forget_subtree :: "string \<Rightarrow> unpacker \<Rightarrow> unpacker" where
  "forget_subtree path u =
     u\<lparr>special_modes := filter (\<lambda>(p, _). \<not> starts_with (path @ ''/'') p) (special_modes u)\<rparr>"

definition refresh_setuid_paths :: "unpacker \<Rightarrow> unpacker" where
  "refresh_setuid_paths u = u\<lparr>total := (total u)\<lparr>setuid_paths := sort_key fst (special_modes u)\<rparr>\<rparr>"

fun copy_bounded :: "bytes list \<Rightarrow> bool \<Rightarrow> nat \<Rightarrow> string \<Rightarrow> nat \<Rightarrow> unit step" where
  "copy_bounded [] fails file path this_entry =
     (if fails then fail (Malformed path TruncatedData) else ret ())"
| "copy_bounded (buf # bufs) fails file path this_entry =
     (let n = length buf in
      if n = 0 then ret ()
      else seq (gets (\<lambda>w. (u_limits (up w), bytes_written (total (up w)) + bytes_written (rep w)))) (\<lambda>(lim, sofar).
        if max_entry_bytes lim < this_entry + n then
          fail (LimitExceeded ''max_entry_bytes'' (max_entry_bytes lim) ''Limits::max_entry_bytes'')
        else if max_total_bytes lim < sofar + n then
          fail (LimitExceeded ''max_total_bytes'' (max_total_bytes lim) ''Limits::max_total_bytes'')
        else
          seq (io_at path (write_all file buf)) (\<lambda>_.
          seq (modify (\<lambda>w. w\<lparr>rep := (rep w)\<lparr>bytes_written := bytes_written (rep w) + n\<rparr>\<rparr>)) (\<lambda>_.
          copy_bounded bufs fails file path (this_entry + n)))))"

definition hardlink :: "path \<Rightarrow> string \<Rightarrow> bytes \<Rightarrow> string \<Rightarrow> unit step" where
  "hardlink parent lst target path =
     seq (gets (\<lambda>w. u_limits (up w))) (\<lambda>lim.
     case plan_name target lim of
       Inr (PlanWrite components) \<Rightarrow>
         seq (attempt (dir_existing (butlast components) path)) (\<lambda>r.
           case r of
             Inl (SymlinkEscape _ _) \<Rightarrow> fail (HardlinkEscape path target)
           | Inl e \<Rightarrow> fail e
           | Inr None \<Rightarrow> fail (Malformed path (MissingTarget target))
           | Inr (Some target_dir) \<Rightarrow>
               seq (try_fs (link_from parent target_dir (last components) lst)) (\<lambda>l.
                 case l of
                   Inr _ \<Rightarrow> ret ()
                 | Inl e \<Rightarrow>
                     if e = EEXIST then
                       seq (io_at path (remove_child parent lst lim 0)) (\<lambda>_.
                       io_at path (link_from parent target_dir (last components) lst))
                     else if e = ENOENT then fail (Malformed path (MissingTarget target))
                     else fail (Io path e)))
     | _ \<Rightarrow> fail (HardlinkEscape path target))"

text \<open>Creating something at a name, replacing what is there.\<close>

definition replacing :: "path \<Rightarrow> string \<Rightarrow> string \<Rightarrow> 'a fs_call \<Rightarrow> 'a step" where
  "replacing parent lst path create =
     seq (try_fs create) (\<lambda>r.
       case r of
         Inr a \<Rightarrow> ret a
       | Inl e \<Rightarrow>
           if e = EEXIST then
             seq (gets (\<lambda>w. u_limits (up w))) (\<lambda>lim.
             seq (io_at path (remove_child parent lst lim 0)) (\<lambda>_. io_at path create))
           else fail (Io path e))"

definition write_node :: "tar_entry \<Rightarrow> path \<Rightarrow> path \<Rightarrow> u32 \<Rightarrow> string \<Rightarrow> unit step" where
  "write_node entry parent components raw_mode path =
     (let lst = last components in
      case kind entry of
        Directory \<Rightarrow>
          seq (ensure_dir parent lst path) (\<lambda>_.
          set_dir_mode parent lst components (host_mode raw_mode) path)
      | Symlink \<Rightarrow>
         (case link_name entry of
            None \<Rightarrow> fail (Malformed path NoTarget)
          | Some target \<Rightarrow>
              if target = [] then fail (Malformed path EmptyTarget)
              else replacing parent lst path (symlink target parent lst))
      | Link \<Rightarrow>
         (case link_name entry of
            None \<Rightarrow> fail (Malformed path NoTarget)
          | Some target \<Rightarrow> hardlink parent lst target path)
      | _ \<Rightarrow>
          seq (replacing parent lst path (create_file parent lst (host_mode raw_mode))) (\<lambda>file.
          seq (io_at path (set_permissions file (host_mode raw_mode))) (\<lambda>_.
          copy_bounded (reads entry) (read_fails entry) file path 0)))"

definition record_modes :: "entry_type \<Rightarrow> u32 \<Rightarrow> string \<Rightarrow> unpacker \<Rightarrow> unpacker" where
  "record_modes k raw_mode path u =
     (let u1 = (if and raw_mode O7000 \<noteq> 0 \<and> k \<noteq> Symlink
                then u\<lparr>special_modes := AList.update path raw_mode (special_modes u)\<rparr>
                else u\<lparr>special_modes := AList.delete path (special_modes u)\<rparr>) in
      if k \<noteq> Directory then forget_subtree path u1 else u1)"

definition write_entry :: "tar_entry \<Rightarrow> path \<Rightarrow> unit step" where
  "write_entry entry components =
     (let path = join components in
      if kind entry \<in> {CharDev, BlockDev, Fifo} then
        modify (\<lambda>w. w\<lparr>rep := (rep w)\<lparr>devices_skipped := devices_skipped (rep w) @ [path]\<rparr>\<rparr>)
      else if kind entry = GNUSparse then fail (Malformed path SparseEntry)
      else case kind entry of
          OtherType b \<Rightarrow> fail (Malformed path (UnsupportedType b))
        | _ \<Rightarrow>
           (case mode_field entry of
              None \<Rightarrow> fail (Malformed path UnreadableMode)
            | Some m \<Rightarrow>
               (let raw_mode = and m O7777 in
                seq (modify (\<lambda>w. w\<lparr>rep := (rep w)\<lparr>xattrs_dropped := xattrs_dropped (rep w) + count_xattrs entry\<rparr>\<rparr>)) (\<lambda>_.
                seq (dir_create (butlast components) path) (\<lambda>parent.
                seq (write_node entry parent components raw_mode path) (\<lambda>_.
                modify (\<lambda>w. w\<lparr>up := record_modes (kind entry) raw_mode path (up w),
                   rep := (rep w)\<lparr>entries_written := entries_written (rep w) + 1\<rparr>,
                   written := path # written w\<rparr>)))))))"

section \<open>Layers\<close>

text \<open>One step of the loop over a layer's entries; \<^const>\<open>Inl\<close> is an entry the reader rejects.\<close>

definition apply_entry :: "string + tar_entry \<Rightarrow> unit step" where
  "apply_entry e =
     (case e of
        Inl detail \<Rightarrow> fail (Malformed [] (UnreadableArchive detail))
      | Inr entry \<Rightarrow>
          seq (modify (\<lambda>w. w\<lparr>up := (up w)\<lparr>entries_seen := entries_seen (up w) + 1\<rparr>\<rparr>)) (\<lambda>_.
          seq (gets (\<lambda>w. (u_limits (up w), entries_seen (up w)))) (\<lambda>(lim, seen).
            if max_entries lim < seen then
              fail (LimitExceeded ''max_entries'' (max_entries lim) ''Limits::max_entries'')
            else case plan_name (path_bytes entry) lim of
                Inl r \<Rightarrow> fail r
              | Inr PlanRoot \<Rightarrow> ret ()
              | Inr (PlanOpaque parent) \<Rightarrow> opaque parent
              | Inr (PlanWhiteout parent target) \<Rightarrow> whiteout parent target
              | Inr (PlanWrite components) \<Rightarrow> write_entry entry components)))"

definition end_layer :: "world \<Rightarrow> world" where
  "end_layer w =
     (let u = refresh_setuid_paths ((up w)\<lparr>total := merge_report (total (up w)) (rep w)\<rparr>) in
      w\<lparr>up := u, rep := (rep w)\<lparr>setuid_paths := setuid_paths (total u)\<rparr>\<rparr>)"

definition apply_layer :: "string + (string + tar_entry) list \<Rightarrow> report step" where
  "apply_layer layer =
     seq (modify (\<lambda>w. w\<lparr>rep := report_default, written := []\<rparr>)) (\<lambda>_.
     case layer of
       Inl detail \<Rightarrow> fail (Malformed [] (UnreadableArchive detail))
     | Inr es \<Rightarrow>
         seq (each apply_entry es) (\<lambda>_.
         seq (modify end_layer) (\<lambda>_. gets rep)))"

section \<open>Creation, promotion and removal\<close>

definition show_path :: "path \<Rightarrow> string" where
  "show_path p = ''/'' @ join p"

definition rename_tree :: "path \<Rightarrow> path \<Rightarrow> host_fs \<Rightarrow> host_fs" where
  "rename_tree s d h =
     h\<lparr>nodes := map (\<lambda>(p, n). (if prefix s p then d @ drop (length s) p else p, n))
        (AList.delete d (nodes h))\<rparr>"

definition rename :: "path \<Rightarrow> path \<Rightarrow> unit fs_call" where
  "rename s d = sys_call (\<lambda>h.
     if \<not> grants h (butlast s) O300 \<or> \<not> grants h (butlast d) O300 then (Inl EACCES, h)
     else case node_at h s of
         None \<Rightarrow> (Inl ENOENT, h)
       | Some _ \<Rightarrow>
          (case node_at h d of
             None \<Rightarrow> (Inr (), rename_tree s d h)
           | Some (NDir _) \<Rightarrow>
               if children h d \<noteq> [] then (Inl ENOTEMPTY, h) else (Inr (), rename_tree s d h)
           | Some _ \<Rightarrow> (Inl ENOTDIR, h)))"

definition symlink_metadata :: "path \<Rightarrow> node fs_call" where
  "symlink_metadata p = sys_call (\<lambda>h.
     case node_at h p of None \<Rightarrow> (Inl ENOENT, h) | Some n \<Rightarrow> (Inr n, h))"

definition open_root :: "path \<Rightarrow> path fs_call" where
  "open_root p = sys_call (\<lambda>h.
     case node_at h p of
       None \<Rightarrow> (Inl ENOENT, h)
     | Some (NDir m) \<Rightarrow> if and m O400 = 0 then (Inl EACCES, h) else (Inr p, h)
     | Some (NLink _) \<Rightarrow> (Inl ELOOP, h)
     | Some _ \<Rightarrow> (Inl ENOTDIR, h))"

definition staging_of :: "path \<Rightarrow> nat \<Rightarrow> path" where
  "staging_of dst pid =
     butlast dst @ [''.'' @ last dst @ ''.oci-unpack.'' @ show_nat pid]"

text \<open>The root of the image opened and given its mode; the directory is removed again on failure.\<close>

definition open_staging :: "path \<Rightarrow> limits \<Rightarrow> path \<Rightarrow> (host_fs, refusal, unpacker) comp" where
  "open_staging dst lim stg =
     (let abandon = (\<lambda>e. seq (attempt (unlink (butlast stg) (last stg) True)) (\<lambda>_. fail (Io (show_path stg) e))) in
      seq (attempt (open_root stg)) (\<lambda>r.
        case r of
          Inl e \<Rightarrow> abandon e
        | Inr root \<Rightarrow>
            seq (attempt (chmod root DIR_MODE)) (\<lambda>c.
              case c of
                Inl e \<Rightarrow> abandon e
              | Inr _ \<Rightarrow>
                  ret \<lparr>dest = dst, staging = stg, u_limits = lim, total = report_default,
                       entries_seen = 0, deferred_modes = [], special_modes = [], promoted = False\<rparr>)))"

definition create :: "path \<Rightarrow> limits \<Rightarrow> nat \<Rightarrow> (host_fs, refusal, unpacker) comp" where
  "create dst lim pid =
     (if dst = [] \<or> last dst = ''..'' then fail (Io (show_path dst) InvalidInput)
      else seq (attempt (symlink_metadata dst)) (\<lambda>m.
        case m of
          Inr _ \<Rightarrow> fail (Io (show_path dst) EEXIST)
        | Inl _ \<Rightarrow>
           (let stg = staging_of dst pid in
            seq (map_fail (Io (show_path stg)) (mkdir (butlast stg) (last stg) O777)) (\<lambda>_.
            open_staging dst lim stg))))"

fun apply_deferred :: "(path \<times> u32) list \<Rightarrow> unit step" where
  "apply_deferred [] = ret ()"
| "apply_deferred ((components, mode) # modes) =
     seq (attempt (dir_existing components ''<deferred mode>'')) (\<lambda>r.
       case r of
         Inr (Some d) \<Rightarrow> seq (io_at (join components) (chmod d mode)) (\<lambda>_. apply_deferred modes)
       | Inr None \<Rightarrow> apply_deferred modes
       | Inl (SymlinkEscape _ _) \<Rightarrow> apply_deferred modes
       | Inl e \<Rightarrow> fail e)"

fun drop_vanished :: "string list \<Rightarrow> unit step" where
  "drop_vanished [] = ret ()"
| "drop_vanished (path # paths) =
     (let components = split_on CHR ''/'' path in
      seq (attempt (dir_existing (butlast components) path)) (\<lambda>r.
      seq (case r of
             Inr (Some dir) \<Rightarrow> seq (try_fs (lstat dir (last components))) (\<lambda>st. ret (\<not> isl st))
           | Inr None \<Rightarrow> ret False
           | Inl (SymlinkEscape _ _) \<Rightarrow> ret False
           | Inl e \<Rightarrow> fail e) (\<lambda>present.
      seq (if present then ret ()
           else modify (\<lambda>w. w\<lparr>up := (up w)\<lparr>special_modes := AList.delete path (special_modes (up w))\<rparr>\<rparr>)) (\<lambda>_.
      drop_vanished paths))))"

definition drop_vanished_special_modes :: "unit step" where
  "drop_vanished_special_modes =
     seq (gets (\<lambda>w. sort (map fst (special_modes (up w))))) drop_vanished"

text \<open>\<open>finish\<close>: the last modes and the report, then the rename.\<close>

definition settle :: "unit step" where
  "settle =
     seq (gets (\<lambda>w. rev (sort_key fst (deferred_modes (up w))))) (\<lambda>modes.
     seq (modify (\<lambda>w. w\<lparr>up := (up w)\<lparr>deferred_modes := []\<rparr>\<rparr>)) (\<lambda>_.
     seq (apply_deferred modes) (\<lambda>_.
     seq drop_vanished_special_modes (\<lambda>_.
     modify (\<lambda>w. w\<lparr>up := refresh_setuid_paths (up w)\<rparr>)))))"

definition finish :: "report step" where
  "finish =
     seq settle (\<lambda>_.
     seq (gets (\<lambda>w. (staging (up w), dest (up w)))) (\<lambda>(s, d).
     seq (io_at (show_path d) (rename s d)) (\<lambda>_.
     seq (modify (\<lambda>w. w\<lparr>up := (up w)\<lparr>promoted := True\<rparr>\<rparr>)) (\<lambda>_.
     gets (\<lambda>w. total (up w))))))"

text \<open>\<open>Drop\<close>: every failure while tearing down is ignored.\<close>

definition teardown :: "unpacker \<Rightarrow> unit fs_call" where
  "teardown u =
     seq (attempt (entries (staging u))) (\<lambda>r.
     seq (case r of
            Inl _ \<Rightarrow> ret ()
          | Inr names \<Rightarrow>
              each (\<lambda>child. seq (attempt (remove_child (staging u) child (u_limits u) 0)) (\<lambda>_. ret ())) names) (\<lambda>_.
     seq (attempt (unlink (butlast (staging u)) (last (staging u)) True)) (\<lambda>_. ret ())))"

definition drop_unpacker :: "unpacker \<Rightarrow> host_fs \<Rightarrow> host_fs" where
  "drop_unpacker u h = (if promoted u then h else snd (teardown u h))"

section \<open>Unpacking an image\<close>

text \<open>
  The caller's loop in \<open>image/import/mod.rs\<close>: each layer's blob is opened and decoded
  (\<^const>\<open>None\<close>: it cannot be), and the unpacker is dropped on every exit.
\<close>

datatype import_error = Refused refusal | LayerUnavailable

fun apply_layers :: "(string + (string + tar_entry) list) option list \<Rightarrow> (world, import_error, unit) comp" where
  "apply_layers [] = ret ()"
| "apply_layers (l # ls) =
     (case l of
        None \<Rightarrow> fail LayerUnavailable
      | Some layer \<Rightarrow> seq (map_fail Refused (apply_layer layer)) (\<lambda>_. apply_layers ls))"

definition start_world :: "unpacker \<Rightarrow> host_fs \<Rightarrow> world" where
  "start_world u h = \<lparr>up = u, fs = h, rep = report_default, written = []\<rparr>"

definition unpack_image ::
  "path \<Rightarrow> limits \<Rightarrow> nat \<Rightarrow> (string + (string + tar_entry) list) option list \<Rightarrow> host_fs \<Rightarrow>
   (import_error + report) \<times> host_fs" where
  "unpack_image dst lim pid layers h =
     (case create dst lim pid h of
        (Inl r, h1) \<Rightarrow> (Inl (Refused r), h1)
      | (Inr u, h1) \<Rightarrow>
         (case seq (apply_layers layers) (\<lambda>_. map_fail Refused finish) (start_world u h1) of
            (r, w) \<Rightarrow> (r, drop_unpacker (up w) (fs w))))"

end
