(* ===== verification/Oci_Confine.thy ===== *)
theory Oci_Confine
  imports Oci_Unpack
begin

text \<open>
  What the extractor does to the host, for any invariant of the file system that its
  primitive updates keep: creating a node under the staging root at a planned name, changing
  the mode of a directory there, writing an inode of its own, deleting a node there. The
  locale's lemmas carry such an invariant through the recursive deletes, the confined walk,
  the entry handlers and a whole layer, on success and on every refusal.
\<close>

section \<open>Invariants of the primitive updates\<close>

definition plain_mode :: "u32 \<Rightarrow> bool" where
  "plain_mode m \<longleftrightarrow> and m O7000 = 0"

text \<open>
  Spurious failures that the code would mistake for \<open>this is a directory\<close>; see
  \<open>chmod_through_link\<close> for what they can do.
\<close>

definition tame :: "host_fs \<Rightarrow> bool" where
  "tame h \<longleftrightarrow> Some EISDIR \<notin> set (faults h) \<and> Some EPERM \<notin> set (faults h)"

definition dir_at :: "host_fs \<Rightarrow> path \<Rightarrow> bool" where
  "dir_at h p \<longleftrightarrow> (\<exists>m. node_at h p = Some (NDir m))"

lemma grants_dir: "grants h d bits \<Longrightarrow> dir_at h d"
  by (auto simp: grants_def dir_at_def split: option.splits node.splits)

lemma strict_prefix_snoc: "prefix root d \<Longrightarrow> strict_prefix root (d @ [n])"
  by (auto simp: strict_prefix_def prefix_def)

lemma plain_host_mode [simp]: "plain_mode (host_mode r)"
proof -
  have "and (and r O777) O7000 = and r (and O777 O7000)" by (simp only: and.assoc)
  also have "and O777 O7000 = (0 :: u32)" by simp
  finally show ?thesis by (simp add: plain_mode_def host_mode_def)
qed

lemma plain_and: "plain_mode m \<Longrightarrow> plain_mode (and m k)"
  unfolding plain_mode_def by (metis and.assoc and.commute and_zero_eq)

locale fs_invariant =
  fixes root :: path
    and dst :: path
    and lim :: limits
    and base :: nat
    and mode_ok :: "u32 \<Rightarrow> bool"
    and I :: "host_fs \<Rightarrow> bool"
  assumes I_tame: "I h \<Longrightarrow> tame h"
    and I_faults: "I h \<Longrightarrow> set f \<subseteq> set (faults h) \<Longrightarrow> I (h\<lparr>faults := f\<rparr>)"
    and I_base: "I h \<Longrightarrow> base \<le> next_ino h"
    and I_umask: "I h \<Longrightarrow> mode_ok m \<Longrightarrow> mode_ok (and m (not (umask h)))"
    and mode_ok_own: "mode_ok DIR_MODE" "mode_ok O700"
    and mode_ok_host: "and (host_mode r) O700 = O700 \<Longrightarrow> mode_ok (host_mode r)"
    and I_put: "I h \<Longrightarrow> prefix root d \<Longrightarrow> dir_at h d \<Longrightarrow> tree_name n \<Longrightarrow>
        length d < length root + max_path_depth lim \<Longrightarrow> node_at h (d @ [n]) = None \<Longrightarrow>
        (nd = NDir m \<and> mode_ok m) \<or> nd = NLink t \<or>
          (strict_prefix root s \<and> node_at h s = Some nd \<and> \<not> is_dir nd) \<Longrightarrow>
        I (put_node (d @ [n]) nd h)"
    and I_file: "I h \<Longrightarrow> prefix root d \<Longrightarrow> dir_at h d \<Longrightarrow> tree_name n \<Longrightarrow>
        length d < length root + max_path_depth lim \<Longrightarrow> node_at h (d @ [n]) = None \<Longrightarrow> plain_mode m \<Longrightarrow>
        I (put_node (d @ [n]) (NFile (next_ino h))
             (put_inode (next_ino h) (m, []) (h\<lparr>next_ino := Suc (next_ino h)\<rparr>)))"
    and I_inode: "I h \<Longrightarrow> base \<le> i \<Longrightarrow> inode_at h i = Some (m, c) \<Longrightarrow> m' = m \<or> plain_mode m' \<Longrightarrow>
        I (put_inode i (m', c') h)"
    and I_chmod: "I h \<Longrightarrow> strict_prefix root d \<Longrightarrow> dir_at h d \<Longrightarrow> mode_ok m \<Longrightarrow> I (put_node d (NDir m) h)"
    and I_del: "I h \<Longrightarrow> strict_prefix root p \<Longrightarrow> node_at h p = Some nd \<Longrightarrow>
        (is_dir nd \<Longrightarrow> children h p = []) \<Longrightarrow> I (del_node p h)"
begin

lemma sys_call_triple_pre:
  assumes P: "\<And>h r. P h \<Longrightarrow> P (h\<lparr>faults := r\<rparr>)"
    and f: "\<And>h. I h \<Longrightarrow> P h \<Longrightarrow> case f h of (Inr a, h') \<Rightarrow> Q a h' | (Inl e, h') \<Rightarrow> E e h'"
    and E: "\<And>h e. I h \<Longrightarrow> e \<noteq> EISDIR \<Longrightarrow> e \<noteq> EPERM \<Longrightarrow> E e h"
  shows "triple (\<lambda>h. I h \<and> P h) (sys_call f) Q E"
  unfolding triple_def
proof (intro allI impI)
  fix h assume "I h \<and> P h"
  then have h: "I h" "P h" by simp_all
  show "case sys_call f h of (Inl e, h') \<Rightarrow> E e h' | (Inr a, h') \<Rightarrow> Q a h'"
  proof (cases "faults h")
    case Nil
    then show ?thesis using f [OF h] by (auto simp: sys_call_def split: prod.splits sum.splits)
  next
    case (Cons fault rest)
    have rest: "I (h\<lparr>faults := rest\<rparr>)" using I_faults [OF h(1), of rest] Cons by auto
    show ?thesis
    proof (cases fault)
      case None
      then show ?thesis
        using f [OF rest P [OF h(2)]] Cons by (auto simp: sys_call_def split: prod.splits sum.splits)
    next
      case (Some e)
      then have "e \<noteq> EISDIR" "e \<noteq> EPERM" using I_tame [OF h(1)] Cons by (auto simp: tame_def)
      with Some Cons E [OF rest] show ?thesis by (simp add: sys_call_def)
    qed
  qed
qed

lemmas sys_call_triple = sys_call_triple_pre [where P = "\<lambda>_. True", simplified]

lemma I_pop: "I h \<Longrightarrow> faults h = f # r \<Longrightarrow> I (h\<lparr>faults := r\<rparr>)"
  by (rule I_faults) auto

lemma sys_call_keeps: "(\<And>h. I h \<Longrightarrow> I (snd (f h))) \<Longrightarrow> keeps I (sys_call f)"
  unfolding keeps_def
  by (rule sys_call_triple) (auto split: prod.splits sum.splits dest: sndI)

lemma fail_keeps [simp]: "keeps I (fail e)" "keeps I (ret a)"
  by (simp_all add: keeps_def triple_fail triple_ret)

lemma named_keeps: "(\<And>h. I h \<Longrightarrow> cname_ok n \<Longrightarrow> I (snd (f h))) \<Longrightarrow> keeps I (named n f)"
  by (auto simp: named_def intro: sys_call_keeps)

lemma named_triple:
  assumes "cname_ok n \<Longrightarrow> triple I (sys_call f) Q E" and "\<And>h. I h \<Longrightarrow> E InvalidInput h"
  shows "triple I (named n f) Q E"
  using assms by (auto simp: named_def intro: triple_fail)

subsection \<open>The calls\<close>

lemma reading_keeps:
  "keeps I (lstat d n)" "keeps I (entries d)" "keeps I (try_clone d)"
  unfolding lstat_def entries_def try_clone_def
  by (intro named_keeps sys_call_keeps; simp add: ret_def split: option.splits)+

lemma open_dir_triple:
  assumes "prefix root d"
  shows "triple I (open_dir d n) (\<lambda>d' h. I h \<and> prefix root d' \<and> d' = d @ [n] \<and> cname_ok n) (\<lambda>_. I)"
  unfolding open_dir_def
  by (intro named_triple sys_call_triple) (use assms in \<open>auto split: option.splits node.splits\<close>)

lemma open_dir_keeps: "prefix root d \<Longrightarrow> keeps I (open_dir d n)"
  unfolding keeps_def by (rule triple_conseq [OF open_dir_triple]) auto

lemma mkdir_keeps:
  assumes "prefix root d" "tree_name n" "length d < length root + max_path_depth lim" "mode_ok m"
  shows "keeps I (mkdir d n m)"
  unfolding mkdir_def
proof (rule named_keeps)
  fix h assume "I h"
  then show "I (snd (if \<not> grants h d O100 then (Inl EACCES, h)
     else if node_at h (d @ [n]) \<noteq> None then (Inl EEXIST, h)
     else if \<not> grants h d O300 then (Inl EACCES, h)
     else (Inr (), put_node (d @ [n]) (NDir (and m (not (umask h)))) h)))"
    using assms I_put [of h d n "NDir (and m (not (umask h)))"] I_umask [of h m] grants_dir [of h d]
    by auto
qed

lemma create_file_triple:
  assumes "prefix root d" "tree_name n" "length d < length root + max_path_depth lim" "plain_mode m"
  shows "triple I (create_file d n m) (\<lambda>i h. I h \<and> base \<le> i) (\<lambda>_. I)"
  unfolding create_file_def
proof (intro named_triple sys_call_triple)
  fix h assume "I h"
  then show "case if \<not> grants h d O100 then (Inl EACCES, h)
      else if node_at h (d @ [n]) \<noteq> None then (Inl EEXIST, h)
      else if \<not> grants h d O300 then (Inl EACCES, h)
      else (Inr (next_ino h), put_node (d @ [n]) (NFile (next_ino h))
        (put_inode (next_ino h) (and m (not (umask h)), []) (h\<lparr>next_ino := Suc (next_ino h)\<rparr>))) of
      (Inl e, h') \<Rightarrow> I h' | (Inr i, h') \<Rightarrow> I h' \<and> base \<le> i"
    using assms I_file [of h d n] I_base [of h] plain_and [of m] grants_dir [of h d] by auto
qed auto

lemma set_permissions_keeps: "base \<le> i \<Longrightarrow> plain_mode m \<Longrightarrow> keeps I (set_permissions i m)"
  unfolding set_permissions_def
  by (rule sys_call_keeps) (auto split: option.splits intro: I_inode)

lemma write_all_keeps: "base \<le> i \<Longrightarrow> keeps I (write_all i bs)"
  unfolding write_all_def
  by (rule sys_call_keeps) (auto split: option.splits intro: I_inode)

lemma I_put_link: "I h \<Longrightarrow> prefix root d \<Longrightarrow> dir_at h d \<Longrightarrow> tree_name n \<Longrightarrow>
    length d < length root + max_path_depth lim \<Longrightarrow> node_at h (d @ [n]) = None \<Longrightarrow>
    I (put_node (d @ [n]) (NLink t) h)"
  by (rule I_put [where t = t]) simp_all

lemma I_put_copy: "I h \<Longrightarrow> prefix root d \<Longrightarrow> dir_at h d \<Longrightarrow> tree_name n \<Longrightarrow>
    length d < length root + max_path_depth lim \<Longrightarrow> node_at h (d @ [n]) = None \<Longrightarrow>
    strict_prefix root s \<Longrightarrow> node_at h s = Some nd \<Longrightarrow> \<not> is_dir nd \<Longrightarrow> I (put_node (d @ [n]) nd h)"
  by (rule I_put [where s = s]) simp_all

lemma symlink_keeps:
  assumes "prefix root d" "tree_name n" "length d < length root + max_path_depth lim"
  shows "keeps I (symlink t d n)"
  using assms by (auto simp: symlink_def intro!: sys_call_keeps intro!: I_put_link intro: grants_dir)

lemma link_from_keeps:
  assumes "prefix root d" "tree_name n" "length d < length root + max_path_depth lim" "prefix root s"
  shows "keeps I (link_from d s src n)"
proof -
  have "strict_prefix root (s @ [src])" using assms(4) by (auto simp: strict_prefix_def prefix_def)
  with assms show ?thesis
    unfolding link_from_def
    by (auto intro!: sys_call_keeps intro!: I_put_copy [of _ _ _ "s @ [src]"] intro: grants_dir split: option.splits)
qed

lemma unlink_triple:
  assumes "prefix root d"
  shows "triple I (unlink d n False) (\<lambda>_. I)
    (\<lambda>e h. I h \<and> (e = EISDIR \<or> e = EPERM \<longrightarrow> dir_at h (d @ [n])))"
proof -
  have sp: "strict_prefix root (d @ [n])" using assms by (auto simp: strict_prefix_def prefix_def)
  have d: "is_dir nd \<longleftrightarrow> (\<exists>m. nd = NDir m)" for nd by (cases nd) auto
  show ?thesis
    unfolding unlink_def
  proof (intro named_triple sys_call_triple)
    fix h assume "I h"
    then show "case if \<not> grants h d O100 then (Inl EACCES, h)
        else case node_at h (d @ [n]) of
            None \<Rightarrow> (Inl ENOENT, h)
          | Some nd \<Rightarrow>
              if \<not> grants h d O300 then (Inl EACCES, h)
              else if False \<and> \<not> is_dir nd then (Inl ENOTDIR, h)
              else if \<not> False \<and> is_dir nd then (Inl EISDIR, h)
              else if False \<and> children h (d @ [n]) \<noteq> [] then (Inl ENOTEMPTY, h)
              else (Inr (), del_node (d @ [n]) h) of
        (Inl e, h') \<Rightarrow> I h' \<and> (e = EISDIR \<or> e = EPERM \<longrightarrow> dir_at h' (d @ [n]))
      | (Inr _, h') \<Rightarrow> I h'"
      using sp by (auto simp: dir_at_def d split: option.splits intro: I_del)
  qed auto
qed

lemma unlink_keeps:
  assumes "prefix root d"
  shows "keeps I (unlink d n b)"
proof -
  have sp: "strict_prefix root (d @ [n])" using assms by (auto simp: strict_prefix_def prefix_def)
  show ?thesis
    unfolding unlink_def
    by (rule named_keeps) (use sp in \<open>auto split: option.splits intro!: I_del\<close>)
qed

lemma set_mode_keeps: "I h \<Longrightarrow> strict_prefix root d \<Longrightarrow> mode_ok m \<Longrightarrow> dir_at h d \<Longrightarrow> I (set_mode d m h)"
  using I_chmod [of h d m] by (auto simp: set_mode_def dir_at_def)

lemma follow_dir: "dir_at h (d @ [n]) \<Longrightarrow> cname_ok n \<Longrightarrow> follow MAX_FOLLOW h d [n] = Some (d @ [n])"
  by (auto simp: follow.simps MAX_FOLLOW_def dir_at_def cname_ok_def)

lemma chmod_child_triple:
  assumes "prefix root d"
  shows "triple (\<lambda>h. I h \<and> dir_at h (d @ [n])) (chmod_child d n O700) (\<lambda>_. I) (\<lambda>_. I)"
proof -
  have "triple (\<lambda>h. I h \<and> dir_at h (d @ [n])) (sys_call (\<lambda>h.
     if \<not> grants h d O100 then (Inl EACCES, h)
     else case follow MAX_FOLLOW h d [n] of
         None \<Rightarrow> (Inl ELOOP, h)
       | Some p \<Rightarrow>
           (case node_at h p of
              None \<Rightarrow> (Inl ENOENT, h)
            | Some _ \<Rightarrow> (Inr (), set_mode p O700 h)))) (\<lambda>_. I) (\<lambda>_. I)" if "cname_ok n"
    using that assms mode_ok_own follow_dir [of _ d n] strict_prefix_snoc [OF assms]
    by (intro sys_call_triple_pre) (auto simp: dir_at_def intro!: set_mode_keeps split: option.splits)
  then show ?thesis by (auto simp: chmod_child_def named_def intro: triple_fail)
qed

subsection \<open>Recursive deletion\<close>

lemma remove_child_keeps: "prefix root d \<Longrightarrow> keeps I (remove_child d n l k)"
proof (induction "Suc (max_path_depth l) - k" arbitrary: d n k rule: less_induct)
  case less
  note d = less.prems
  let ?D = "\<lambda>h. I h \<and> dir_at h (d @ [n])"
  have rest: "keeps I (seq (open_dir d n) (\<lambda>sub. seq (entries sub) (\<lambda>names.
      seq (each (\<lambda>child. remove_child sub child l (k + 1)) names) (\<lambda>_. unlink d n True))))"
    if "\<not> max_path_depth l < k"
    unfolding keeps_def
  proof (rule triple_seq [OF open_dir_triple [OF d]])
    fix sub
    show "triple (\<lambda>h. I h \<and> prefix root sub \<and> sub = d @ [n] \<and> cname_ok n)
       (seq (entries sub) (\<lambda>names. seq (each (\<lambda>child. remove_child sub child l (k + 1)) names)
         (\<lambda>_. unlink d n True))) (\<lambda>_. I) (\<lambda>_. I)"
    proof (rule triple_assume)
      assume "prefix root sub \<and> sub = d @ [n] \<and> cname_ok n"
      moreover have "Suc (max_path_depth l) - (k + 1) < Suc (max_path_depth l) - k" using that by linarith
      ultimately have "keeps I (remove_child sub child l (k + 1))" for child
        using less.hyps by blast
      then show "triple I (seq (entries sub) (\<lambda>names.
           seq (each (\<lambda>child. remove_child sub child l (k + 1)) names) (\<lambda>_. unlink d n True)))
         (\<lambda>_. I) (\<lambda>_. I)"
        unfolding keeps_def [symmetric]
        by (intro keeps_seq keeps_each reading_keeps unlink_keeps d)
    qed
  qed
  have dir: "triple ?D (seq (attempt (chmod_child d n O700)) (\<lambda>_. seq (open_dir d n) (\<lambda>sub.
      seq (entries sub) (\<lambda>names. seq (each (\<lambda>child. remove_child sub child l (k + 1)) names)
        (\<lambda>_. unlink d n True))))) (\<lambda>_. I) (\<lambda>_. I)"
    if "\<not> max_path_depth l < k"
    by (rule triple_seq [where R = "\<lambda>_. I"], rule triple_attempt, rule chmod_child_triple [OF d],
        rule rest [OF that, unfolded keeps_def])
  show ?case
  proof (cases "max_path_depth l < k")
    case False
    have "triple I (attempt (unlink d n False))
        (\<lambda>r h. I h \<and> (r = Inl EISDIR \<or> r = Inl EPERM \<longrightarrow> dir_at h (d @ [n]))) (\<lambda>_. I)"
      by (rule triple_attempt, rule triple_conseq [OF unlink_triple [OF d]]) auto
    then show ?thesis
      unfolding keeps_def remove_child.simps [of d n l k] if_not_P [OF False]
    proof (rule triple_seq)
      fix r :: "errno + unit"
      let ?P = "\<lambda>h. I h \<and> (r = Inl EISDIR \<or> r = Inl EPERM \<longrightarrow> dir_at h (d @ [n]))"
      show "triple ?P (case r of Inl e \<Rightarrow>
              if e = ENOENT then ret ()
              else if e = EISDIR \<or> e = EPERM then
                seq (attempt (chmod_child d n O700)) (\<lambda>_. seq (open_dir d n) (\<lambda>sub.
                seq (entries sub) (\<lambda>names.
                seq (each (\<lambda>child. remove_child sub child l (k + 1)) names) (\<lambda>_. unlink d n True))))
              else fail e
            | Inr _ \<Rightarrow> ret ()) (\<lambda>_. I) (\<lambda>_. I)"
        by (intro triple_case_sum triple_if triple_ret triple_fail)
           (use dir [OF False] in auto)
    qed
  qed (subst remove_child.simps, simp)
qed

lemma prune_keeps: "prefix root d \<Longrightarrow> keeps I (prune d pre keep l k)"
proof (induction "Suc (max_path_depth l) - k" arbitrary: d pre k rule: less_induct)
  case less
  note d = less.prems
  show ?case
  proof (cases "max_path_depth l < k")
    case False
    have sub: "keeps I (seq (open_dir d child) (\<lambda>sub. prune sub (pre @ [child]) keep l (k + 1)))" for child
      unfolding keeps_def
    proof (rule triple_seq [OF open_dir_triple [OF d]], rule triple_assume)
      fix sub assume "prefix root sub \<and> sub = d @ [child] \<and> cname_ok child"
      moreover have "Suc (max_path_depth l) - (k + 1) < Suc (max_path_depth l) - k" using False by linarith
      ultimately show "triple I (prune sub (pre @ [child]) keep l (k + 1)) (\<lambda>_. I) (\<lambda>_. I)"
        using less.hyps unfolding keeps_def by blast
    qed
    show ?thesis
      by (subst prune.simps)
         (use False sub d in \<open>auto simp: Let_def intro!: keeps_seq keeps_each reading_keeps remove_child_keeps\<close>)
  qed (subst prune.simps, simp)
qed

end

section \<open>The extractor's state\<close>

text \<open>
  The invariant on the host, with the fields of the unpacker that stay as they were created,
  and only permission bits waiting to be applied.
\<close>

definition world_inv :: "(host_fs \<Rightarrow> bool) \<Rightarrow> path \<Rightarrow> path \<Rightarrow> limits \<Rightarrow> world \<Rightarrow> bool" where
  "world_inv I root dst lim w \<longleftrightarrow>
     I (fs w) \<and> staging (up w) = root \<and> dest (up w) = dst \<and> u_limits (up w) = lim \<and>
     \<not> promoted (up w) \<and>
     list_all (\<lambda>(c, m). c \<noteq> [] \<and> plain_mode m) (deferred_modes (up w))"

lemma modify_keeps: "(\<And>w. J w \<Longrightarrow> J (f w)) \<Longrightarrow> keeps J (modify f)"
  by (simp add: keeps_def triple_modify)

lemma gets_keeps [simp]: "keeps J (gets f)"
  by (simp add: keeps_def triple_gets)

lemma ret_keeps [simp]: "keeps J (ret a)" "keeps J (fail e)"
  by (simp_all add: keeps_def triple_ret triple_fail)

lemma world_inv_simps [simp]:
  "world_inv I root dst lim (w\<lparr>rep := r\<rparr>) = world_inv I root dst lim w"
  "world_inv I root dst lim (w\<lparr>written := x\<rparr>) = world_inv I root dst lim w"
  "world_inv I root dst lim (w\<lparr>up := (up w)\<lparr>entries_seen := k\<rparr>\<rparr>) = world_inv I root dst lim w"
  "world_inv I root dst lim (w\<lparr>up := (up w)\<lparr>special_modes := x'\<rparr>\<rparr>) = world_inv I root dst lim w"
  by (simp_all add: world_inv_def)

lemma on_fs_triple:
  assumes "triple I m (\<lambda>a h. I h \<and> Q a) (\<lambda>e h. I h)"
  shows "triple (world_inv I root dst lim) (on_fs m) (\<lambda>a w. world_inv I root dst lim w \<and> Q a)
    (\<lambda>_. world_inv I root dst lim)"
  using assms unfolding triple_def on_fs_def
  by (fastforce simp: world_inv_def split: prod.splits sum.splits)

lemma on_fs_keeps: "keeps I m \<Longrightarrow> keeps (world_inv I root dst lim) (on_fs m)"
  using on_fs_triple [of I m "\<lambda>_. True"] by (simp add: keeps_def)

lemma io_at_keeps: "keeps I m \<Longrightarrow> keeps (world_inv I root dst lim) (io_at path m)"
  unfolding io_at_def by (intro keeps_map_fail on_fs_keeps)

lemma try_fs_keeps: "keeps I m \<Longrightarrow> keeps (world_inv I root dst lim) (try_fs m)"
  unfolding try_fs_def by (intro keeps_attempt on_fs_keeps)

lemma io_at_triple:
  assumes "triple I m (\<lambda>a h. I h \<and> Q a) (\<lambda>e h. I h)"
  shows "triple (world_inv I root dst lim) (io_at path m) (\<lambda>a w. world_inv I root dst lim w \<and> Q a)
    (\<lambda>_. world_inv I root dst lim)"
  unfolding io_at_def by (intro triple_map_fail on_fs_triple assms)

lemma try_fs_triple:
  assumes "triple I m (\<lambda>a h. I h \<and> Q a) (\<lambda>e h. I h)"
  shows "triple (world_inv I root dst lim) (try_fs m)
    (\<lambda>r w. world_inv I root dst lim w \<and> (\<forall>a. r = Inr a \<longrightarrow> Q a)) E"
  unfolding try_fs_def
  by (rule triple_attempt, rule triple_conseq [OF on_fs_triple [OF assms]]) auto

text \<open>A known limit and a known root, read from the state.\<close>

lemma gets_limits_keeps:
  "keeps (world_inv I root dst lim) (f lim) \<Longrightarrow>
   keeps (world_inv I root dst lim) (seq (gets (\<lambda>w. u_limits (up w))) f)"
  unfolding keeps_def
  by (rule triple_seq [where R = "\<lambda>l w. world_inv I root dst lim w \<and> l = lim"])
     (rule triple_gets, simp add: world_inv_def, rule triple_assume, simp)

lemma gets_root_triple:
  "triple (world_inv I root dst lim) (f root) Q E \<Longrightarrow>
   triple (world_inv I root dst lim) (seq (gets (\<lambda>w. staging (up w))) f) Q E"
  by (rule triple_seq [where R = "\<lambda>l w. world_inv I root dst lim w \<and> l = root"])
     (rule triple_gets, simp add: world_inv_def, rule triple_assume, simp)

context fs_invariant
begin

abbreviation J :: "world \<Rightarrow> bool" where "J \<equiv> world_inv I root dst lim"

lemma open_triple: "prefix root d \<Longrightarrow> triple I (open_dir d n) (\<lambda>d' h. I h \<and> d' = d @ [n]) (\<lambda>_ h. I h)"
  by (rule triple_conseq [OF open_dir_triple]) auto

lemma chmod_keeps: "strict_prefix root d \<Longrightarrow> mode_ok m \<Longrightarrow> keeps I (chmod d m)"
  unfolding chmod_def
  by (rule sys_call_keeps) (auto simp: dir_at_def split: option.splits node.splits intro!: I_chmod)

subsection \<open>The confined walk\<close>

text \<open>Opening a directory just made, and giving it its mode.\<close>

lemma made_triple:
  assumes "prefix root d"
  shows "triple J (remake_dir path d n) (\<lambda>d' w. J w \<and> d' = d @ [n]) (\<lambda>_. J)"
  unfolding remake_dir_def
proof (rule triple_seq [OF io_at_triple [OF open_triple [OF assms]]], rule triple_assume)
  fix made assume m: "made = d @ [n]"
  have "keeps J (io_at path (chmod made DIR_MODE))"
    using assms mode_ok_own by (auto simp: m intro!: io_at_keeps chmod_keeps strict_prefix_snoc)
  then show "triple J (seq (io_at path (chmod made DIR_MODE)) (\<lambda>_. ret made))
      (\<lambda>d' w. J w \<and> d' = d @ [n]) (\<lambda>_. J)"
    unfolding keeps_def by (rule triple_seq) (simp add: m triple_ret)
qed

lemma walk_triple:
  assumes "prefix root d" "tree_name n" "length d < length root + max_path_depth lim"
  shows "triple J (walk_step entry path d n) (\<lambda>d' w. J w \<and> d' = d @ [n]) (\<lambda>_. J)"
proof -
  have mk: "triple J (try_fs (mkdir d n DIR_MODE)) (\<lambda>_. J) (\<lambda>_. J)"
    "triple J (io_at path (mkdir d n DIR_MODE)) (\<lambda>_. J) (\<lambda>_. J)"
    using try_fs_keeps [OF mkdir_keeps [OF assms mode_ok_own(1)]]
      io_at_keeps [OF mkdir_keeps [OF assms mode_ok_own(1)]] by (simp_all add: keeps_def)
  have rm: "triple J (io_at path (remove_child d n l 0)) (\<lambda>_. J) (\<lambda>_. J)" for l
    using io_at_keeps [OF remove_child_keeps [OF assms(1)]] by (simp add: keeps_def)
  have st: "triple J (map_fail (\<lambda>_. Io path e) (on_fs (lstat d n))) (\<lambda>_. J) (\<lambda>_. J)" for e
    using keeps_map_fail [OF on_fs_keeps [OF reading_keeps(1)]] by (simp add: keeps_def)
  have lm: "triple J (gets (\<lambda>w. u_limits (up w))) (\<lambda>_. J) (\<lambda>_. J)"
    by (simp add: triple_gets)
  note made = made_triple [OF assms(1), of path n]
  show ?thesis
    unfolding walk_step_def
    by (intro triple_seq [OF try_fs_triple [OF open_triple [OF assms(1)]]] triple_assume
          triple_case_sum triple_if triple_seq [OF mk(1)] made triple_seq [OF lm]
          triple_seq [OF st] triple_seq [OF rm] triple_seq [OF mk(2)])
       (auto intro: triple_ret triple_fail)
qed

lemma create_walk_triple:
  "prefix root d \<Longrightarrow> list_all tree_name comps \<Longrightarrow> length d + length comps \<le> length root + max_path_depth lim \<Longrightarrow>
   triple J (create_walk entry d so_far comps) (\<lambda>d' w. J w \<and> d' = d @ comps) (\<lambda>_. J)"
proof (induction comps arbitrary: d so_far)
  case (Cons n comps)
  have wr: "triple J (modify (\<lambda>w. w\<lparr>written := p # written w\<rparr>)) (\<lambda>_. J) (\<lambda>_. J)" for p
    by (simp add: triple_modify)
  have "triple J (create_walk entry (d @ [n]) (so_far @ [n]) comps) (\<lambda>d' w. J w \<and> d' = d @ n # comps) (\<lambda>_. J)"
    using Cons.IH [of "d @ [n]"] Cons.prems by simp
  then have "triple J (seq (modify (\<lambda>w. w\<lparr>written := p # written w\<rparr>)) (\<lambda>_.
      create_walk entry (d @ [n]) (so_far @ [n]) comps)) (\<lambda>d' w. J w \<and> d' = d @ n # comps) (\<lambda>_. J)" for p
    using wr by (rule triple_seq [rotated])
  then show ?case
    unfolding create_walk.simps Let_def
    using Cons.prems by (intro triple_seq [OF walk_triple] triple_assume) auto
qed (simp add: triple_ret)

lemma dir_create_triple:
  assumes "list_all tree_name comps" "length comps \<le> max_path_depth lim"
  shows "triple J (dir_create comps entry) (\<lambda>d w. J w \<and> d = root @ comps) (\<lambda>_. J)"
  unfolding dir_create_def
proof (rule gets_root_triple, rule triple_seq [OF io_at_triple])
  show "triple I (try_clone root) (\<lambda>d h. I h \<and> d = root) (\<lambda>_. I)"
    unfolding try_clone_def by (rule sys_call_triple) (auto simp: ret_def)
  show "triple (\<lambda>w. J w \<and> d = root) (create_walk entry d [] comps) (\<lambda>d w. J w \<and> d = root @ comps) (\<lambda>_. J)" for d
    using assms by (intro triple_assume) (simp add: create_walk_triple)
qed

lemma existing_walk_triple:
  "prefix root d \<Longrightarrow>
   triple J (existing_walk entry d so_far comps)
     (\<lambda>r w. J w \<and> (r = None \<or> r = Some (d @ comps))) (\<lambda>_. J)"
proof (induction comps arbitrary: d so_far)
  case (Cons n comps)
  have st: "triple J (map_fail (\<lambda>_. Io path e) (on_fs (lstat d n))) (\<lambda>_. J) (\<lambda>_. J)" for path e
    using keeps_map_fail [OF on_fs_keeps [OF reading_keeps(1)]] by (simp add: keeps_def)
  have IH: "triple J (existing_walk entry (d @ [n]) (so_far @ [n]) comps)
     (\<lambda>r w. J w \<and> (r = None \<or> r = Some (d @ n # comps))) (\<lambda>_. J)"
    using Cons.IH [of "d @ [n]"] Cons.prems by simp
  show ?case
    unfolding existing_walk.simps Let_def
    using IH
    by (intro triple_seq [OF try_fs_triple [OF open_triple [OF Cons.prems]]] triple_assume
        triple_case_sum triple_if triple_seq [OF st]) (auto intro: triple_ret triple_fail)
qed (simp add: triple_ret)

lemma dir_existing_triple:
  "triple J (dir_existing comps entry) (\<lambda>r w. J w \<and> (r = None \<or> r = Some (root @ comps))) (\<lambda>_. J)"
  unfolding dir_existing_def
proof (rule gets_root_triple, rule triple_seq [OF io_at_triple])
  show "triple I (try_clone root) (\<lambda>d h. I h \<and> d = root) (\<lambda>_. I)"
    unfolding try_clone_def by (rule sys_call_triple) (auto simp: ret_def)
  show "triple (\<lambda>w. J w \<and> d = root) (existing_walk entry d [] comps)
      (\<lambda>r w. J w \<and> (r = None \<or> r = Some (root @ comps))) (\<lambda>_. J)" for d
    by (intro triple_assume) (simp add: existing_walk_triple)
qed

subsection \<open>Entries\<close>

lemma remove_io_keeps: "prefix root d \<Longrightarrow> keeps J (io_at path (remove_child d n l 0))"
  by (intro io_at_keeps remove_child_keeps)

lemma ensure_dir_keeps:
  assumes "prefix root d" "tree_name n" "length d < length root + max_path_depth lim"
  shows "keeps J (ensure_dir d n path)"
proof -
  have mk: "keeps I (mkdir d n DIR_MODE)" by (rule mkdir_keeps [OF assms mode_ok_own(1)])
  then have "keeps I (mkdir d n O755)" by (simp add: DIR_MODE_def)
  then show ?thesis
    unfolding ensure_dir_def
    using mk assms(1) by (auto intro!: keeps_seq try_fs_keeps io_at_keeps reading_keeps remove_child_keeps
        split: sum.split)
qed

lemma deferred_keeps:
  "J w \<Longrightarrow> J (w\<lparr>up := (up w)\<lparr>deferred_modes := AList.delete c (deferred_modes (up w))\<rparr>\<rparr>)"
  "J w \<Longrightarrow> plain_mode m \<Longrightarrow>
   c \<noteq> [] \<Longrightarrow> J (w\<lparr>up := (up w)\<lparr>deferred_modes := AList.update c m (deferred_modes (up w))\<rparr>\<rparr>)"
proof -
  have "set (AList.update c m xs) \<subseteq> insert (c, m) (set xs)" for xs :: "(path \<times> u32) list"
    by (induction xs) auto
  then show "J w \<Longrightarrow> plain_mode m \<Longrightarrow> c \<noteq> [] \<Longrightarrow>
     J (w\<lparr>up := (up w)\<lparr>deferred_modes := AList.update c m (deferred_modes (up w))\<rparr>\<rparr>)"
    by (fastforce simp: world_inv_def list_all_iff)
  show "J w \<Longrightarrow> J (w\<lparr>up := (up w)\<lparr>deferred_modes := AList.delete c (deferred_modes (up w))\<rparr>\<rparr>)"
    by (auto simp: world_inv_def list_all_iff AList.delete_eq)
qed

lemma set_dir_mode_keeps:
  assumes "prefix root d" "comps \<noteq> []"
  shows "keeps J (set_dir_mode d n comps (host_mode r) path)"
proof -
  have "keeps I (seq (open_dir d n) (\<lambda>d. chmod d (host_mode r)))" if "and (host_mode r) O700 = O700"
    unfolding keeps_def
  proof (rule triple_seq [OF open_dir_triple [OF assms(1)]], rule triple_assume)
    fix d' assume "prefix root d' \<and> d' = d @ [n] \<and> cname_ok n"
    with chmod_keeps [OF strict_prefix_snoc [OF assms(1)]] mode_ok_host [OF that]
    show "triple I (chmod d' (host_mode r)) (\<lambda>_. I) (\<lambda>_. I)" unfolding keeps_def by blast
  qed
  then show ?thesis
    unfolding set_dir_mode_def
    by (auto simp: assms(2) intro!: keeps_seq [OF io_at_keeps modify_keeps] modify_keeps deferred_keeps)
qed

lemma whiteout_keeps: "keeps J (whiteout parent target)"
proof -
  have "triple J (dir_existing parent p) (\<lambda>r w. J w \<and> (r = None \<or> r = Some (root @ parent))) (\<lambda>_. J)" for p
    by (rule dir_existing_triple)
  then have "keeps J (seq (dir_existing parent p) (\<lambda>r. case r of None \<Rightarrow> ret ()
      | Some dir \<Rightarrow> seq (gets (\<lambda>w. u_limits (up w))) (\<lambda>l. io_at q (remove_child dir target l 0))))" for p q
    unfolding keeps_def
    by (rule triple_seq) (intro triple_assume, auto simp: keeps_def [symmetric] intro!: keeps_seq remove_io_keeps)
  then show ?thesis
    unfolding whiteout_def Let_def by (intro keeps_seq [OF modify_keeps]) simp_all
qed

lemma opaque_keeps: "keeps J (opaque parent)"
proof -
  have "triple J (dir_existing parent p) (\<lambda>r w. J w \<and> (r = None \<or> r = Some (root @ parent))) (\<lambda>_. J)" for p
    by (rule dir_existing_triple)
  then have "keeps J (seq (dir_existing parent p) (\<lambda>r. case r of None \<Rightarrow> ret ()
      | Some dir \<Rightarrow> seq (gets (\<lambda>w. (u_limits (up w), written w))) (\<lambda>(l, keep). io_at q (prune dir parent keep l 0))))" for p q
    unfolding keeps_def
    by (rule triple_seq)
       (intro triple_assume, auto simp: keeps_def [symmetric] intro!: keeps_seq io_at_keeps prune_keeps)
  then show ?thesis
    unfolding opaque_def Let_def by (intro keeps_seq [OF modify_keeps]) simp_all
qed

lemma copy_bounded_keeps: "base \<le> file \<Longrightarrow> keeps J (copy_bounded bufs fails file path k)"
proof (induction bufs arbitrary: k)
  case (Cons buf bufs)
  then show ?case
    unfolding copy_bounded.simps Let_def
    by (auto intro!: keeps_seq io_at_keeps write_all_keeps modify_keeps)
qed simp

lemma hardlink_keeps:
  assumes "prefix root d" "tree_name n" "length d < length root + max_path_depth lim"
  shows "keeps J (hardlink d n target path)"
proof -
  have link: "keeps J (seq (attempt (dir_existing c p)) (\<lambda>r.
           case r of
             Inl (SymlinkEscape _ _) \<Rightarrow> fail (HardlinkEscape path target)
           | Inl e \<Rightarrow> fail e
           | Inr None \<Rightarrow> fail (Malformed path (MissingTarget target))
           | Inr (Some target_dir) \<Rightarrow>
               seq (try_fs (link_from d target_dir t n)) (\<lambda>l.
                 case l of
                   Inr _ \<Rightarrow> ret ()
                 | Inl e \<Rightarrow>
                     if e = EEXIST then
                       seq (io_at path (remove_child d n lm 0)) (\<lambda>_.
                       io_at path (link_from d target_dir t n))
                     else if e = ENOENT then fail (Malformed path (MissingTarget target))
                     else fail (Io path e))))" for c p t lm
    unfolding keeps_def
  proof (rule triple_seq)
    show "triple J (attempt (dir_existing c p))
        (\<lambda>r w. J w \<and> (\<forall>d. r = Inr (Some d) \<longrightarrow> prefix root d)) (\<lambda>_. J)"
      by (rule triple_attempt, rule triple_conseq [OF dir_existing_triple]) auto
  qed (intro triple_assume, use assms in \<open>auto simp: keeps_def [symmetric]
        intro!: keeps_seq try_fs_keeps io_at_keeps link_from_keeps remove_child_keeps
        split: sum.split refusal.split option.split\<close>)
  show ?thesis
    unfolding hardlink_def
  proof (rule keeps_seq [OF gets_keeps])
    fix l
    show "keeps J (case plan_name target l of
       Inr (PlanWrite components) \<Rightarrow>
         seq (attempt (dir_existing (butlast components) path)) (\<lambda>r.
           case r of
             Inl (SymlinkEscape _ _) \<Rightarrow> fail (HardlinkEscape path target)
           | Inl e \<Rightarrow> fail e
           | Inr None \<Rightarrow> fail (Malformed path (MissingTarget target))
           | Inr (Some target_dir) \<Rightarrow>
               seq (try_fs (link_from d target_dir (last components) n)) (\<lambda>k.
                 case k of
                   Inr _ \<Rightarrow> ret ()
                 | Inl e \<Rightarrow>
                     if e = EEXIST then
                       seq (io_at path (remove_child d n l 0)) (\<lambda>_.
                       io_at path (link_from d target_dir (last components) n))
                     else if e = ENOENT then fail (Malformed path (MissingTarget target))
                     else fail (Io path e)))
     | _ \<Rightarrow> fail (HardlinkEscape path target))"
      using link [of "butlast _" path "last _" l] link by (cases "plan_name target l") (auto split: plan.split)
  qed
qed

lemma replacing_keeps: "prefix root d \<Longrightarrow> keeps I m \<Longrightarrow> keeps J (replacing d n path m)"
  unfolding replacing_def
  by (auto intro!: keeps_seq try_fs_keeps io_at_keeps remove_child_keeps split: sum.split)

lemma replacing_file_triple:
  assumes "prefix root d" "tree_name n" "length d < length root + max_path_depth lim"
  shows "triple J (replacing d n path (create_file d n (host_mode r))) (\<lambda>i w. J w \<and> base \<le> i) (\<lambda>_. J)"
proof -
  note cf = create_file_triple [OF assms plain_host_mode [of r]]
  have rm: "triple J (seq (gets (\<lambda>w. u_limits (up w))) (\<lambda>l. seq (io_at path (remove_child d n l 0))
      (\<lambda>_. io_at path (create_file d n (host_mode r))))) (\<lambda>i w. J w \<and> base \<le> i) (\<lambda>_. J)"
    using remove_io_keeps [OF assms(1)] io_at_triple [OF cf]
    by (intro triple_seq [where R = "\<lambda>_. J"]) (auto simp: keeps_def intro: triple_gets)
  show ?thesis
    unfolding replacing_def
    by (intro triple_seq [OF try_fs_triple [OF cf]] triple_assume triple_case_sum triple_if rm)
       (auto intro: triple_ret triple_fail)
qed

lemma write_node_keeps:
  assumes "d = root @ butlast comps" "list_all tree_name comps" "comps \<noteq> []"
    "length comps \<le> max_path_depth lim"
  shows "keeps J (write_node entry d comps raw path)"
proof -
  have ok: "prefix root d" "tree_name (last comps)" "length d < length root + max_path_depth lim"
  proof -
    have "length (butlast comps) < length comps" using assms(3) by (cases comps rule: rev_cases) auto
    with assms(1,4) show "length d < length root + max_path_depth lim" by simp
  qed (use assms in \<open>auto simp: list_all_iff\<close>)
  have newfile: "keeps J (seq (replacing d (last comps) path (create_file d (last comps) (host_mode raw)))
      (\<lambda>file. seq (io_at path (set_permissions file (host_mode raw))) (\<lambda>_.
        copy_bounded (reads entry) (read_fails entry) file path 0)))"
    unfolding keeps_def
    by (rule triple_seq [OF replacing_file_triple [OF ok]], rule triple_assume)
       (auto simp: keeps_def [symmetric] intro!: keeps_seq io_at_keeps set_permissions_keeps copy_bounded_keeps)
  show ?thesis
    unfolding write_node_def Let_def
    using newfile ok assms(3)
    by (auto intro!: keeps_seq ensure_dir_keeps set_dir_mode_keeps replacing_keeps symlink_keeps hardlink_keeps
        split: entry_type.split option.split)
qed

lemma write_entry_keeps:
  assumes "list_all tree_name comps" "comps \<noteq> []" "length comps \<le> max_path_depth lim"
  shows "keeps J (write_entry entry comps)"
proof -
  have rec: "J (w\<lparr>up := record_modes k r p (up w), rep := r', written := x\<rparr>)" if "J w" for w k r p r' x
    using that by (simp add: world_inv_def record_modes_def forget_subtree_def Let_def)
  have "list_all tree_name (butlast comps)" using assms(1) by (auto simp: list_all_iff dest: in_set_butlastD)
  then have dc: "triple J (dir_create (butlast comps) p) (\<lambda>d w. J w \<and> d = root @ butlast comps) (\<lambda>_. J)" for p
    using assms(3) by (intro dir_create_triple) simp_all
  have "keeps J (seq (dir_create (butlast comps) p) (\<lambda>parent.
      seq (write_node entry parent comps r p) (\<lambda>_.
      modify (\<lambda>w. w\<lparr>up := record_modes k r p (up w),
         rep := (rep w)\<lparr>entries_written := entries_written (rep w) + 1\<rparr>, written := p # written w\<rparr>))))" for p r k
    unfolding keeps_def
    by (rule triple_seq [OF dc], rule triple_assume)
       (use assms in \<open>auto simp: keeps_def [symmetric] intro!: keeps_seq write_node_keeps modify_keeps rec\<close>)
  then show ?thesis
    unfolding write_entry_def Let_def
    by (auto intro!: keeps_seq [OF modify_keeps] modify_keeps split: entry_type.split option.split)
qed

lemma apply_entry_keeps: "keeps J (apply_entry e)"
proof -
  have "keeps J (seq (gets (\<lambda>w. (u_limits (up w), entries_seen (up w)))) (\<lambda>(l, seen).
      if max_entries l < seen then
        fail (LimitExceeded ''max_entries'' (max_entries l) ''Limits::max_entries'')
      else case plan_name raw l of
          Inl r \<Rightarrow> fail r
        | Inr PlanRoot \<Rightarrow> ret ()
        | Inr (PlanOpaque parent) \<Rightarrow> opaque parent
        | Inr (PlanWhiteout parent target) \<Rightarrow> whiteout parent target
        | Inr (PlanWrite components) \<Rightarrow> write_entry entry components))" for raw entry
    unfolding keeps_def
  proof (rule triple_seq)
    show "triple J (gets (\<lambda>w. (u_limits (up w), entries_seen (up w)))) (\<lambda>p w. J w \<and> fst p = lim) (\<lambda>_. J)"
      by (rule triple_gets) (simp add: world_inv_def)
  qed (intro triple_assume, auto simp: keeps_def [symmetric] case_prod_unfold plan_write_ok
        intro!: whiteout_keeps opaque_keeps write_entry_keeps dest: plan_write_ok(1)
        split: sum.split plan.split)
  then show ?thesis
    unfolding apply_entry_def by (auto intro!: keeps_seq [OF modify_keeps] split: sum.split)
qed

lemma apply_layer_keeps: "keeps J (apply_layer layer)"
proof -
  have e: "J (end_layer w)" if "J w" for w
    using that by (simp add: world_inv_def end_layer_def refresh_setuid_paths_def Let_def)
  show ?thesis
    unfolding apply_layer_def
    using apply_entry_keeps e by (auto intro!: keeps_seq modify_keeps keeps_each split: sum.split)
qed

end

section \<open>Promotion and removal\<close>

lemma rename_fails:
  "rename s d h = (Inl e, h') \<Longrightarrow> h' = h \<or> (\<exists>f r. faults h = f # r \<and> h' = h\<lparr>faults := r\<rparr>)"
  by (auto simp: rename_def sys_call_def split: list.splits option.splits if_splits node.splits)

lemma each_attempt_ok: "fst (each (\<lambda>x. seq (attempt (f x)) (\<lambda>_. ret ())) xs s) = Inr ()"
  by (induction xs arbitrary: s) (auto simp: seq_def attempt_def ret_def split: prod.splits)

lemma unlink_effect:
  "node_at (snd (unlink d n b h)) p = node_at h p \<or> p = d @ [n] \<and> node_at (snd (unlink d n b h)) p = None"
  "inode_at (snd (unlink d n b h)) = inode_at h" "next_ino (snd (unlink d n b h)) = next_ino h"
  by (cases "cname_ok n"; cases "faults h"; (cases "hd (faults h)")?;
      simp add: unlink_def named_def fail_def sys_call_def split: option.split)+

context fs_invariant
begin

lemma teardown_pre:
  assumes "staging u = root" and "I h"
  obtains h1 where "I h1" "snd (teardown u h) = snd (unlink (butlast root) (last root) True h1)"
proof -
  let ?f = "\<lambda>child. seq (attempt (remove_child root child (u_limits u) 0)) (\<lambda>_. ret ()) :: unit fs_call"
  obtain r h2 where r: "entries root h = (r, h2)" by force
  then have h2: "I h2" using keeps_snd [OF reading_keeps(2) assms(2)] by (metis snd_conv)
  have k: "keeps I (each ?f names)" for names
    by (intro keeps_each keeps_seq keeps_attempt remove_child_keeps) simp_all
  have h3: "I (snd (each ?f names h2))" for names by (rule keeps_snd [OF k h2])
  have e: "each ?f names h2 = (Inr (), snd (each ?f names h2))" for names
    using each_attempt_ok [of "\<lambda>child. remove_child root child (u_limits u) 0" names h2] by (simp add: prod_eq_iff)
  let ?last = "seq (attempt (unlink (butlast root) (last root) True)) (\<lambda>_. ret ()) :: unit fs_call"
  have t: "teardown u h = seq (case r of Inl _ \<Rightarrow> ret () | Inr names \<Rightarrow> each ?f names) (\<lambda>_. ?last) h2"
    unfolding teardown_def assms(1) by (rule seq_Inr) (simp add: attempt_def r)
  show ?thesis
  proof (cases r)
    case (Inl err)
    have "teardown u h = ?last h2" unfolding t Inl sum.case by (rule seq_Inr) (simp add: ret_def)
    with h2 that snd_attempt_ret show ?thesis by metis
  next
    case (Inr names)
    have "teardown u h = ?last (snd (each ?f names h2))" unfolding t Inr sum.case by (rule seq_Inr) (rule e)
    with h3 that snd_attempt_ret show ?thesis by metis
  qed
qed

end

text \<open>What a successful \<open>finish\<close> leaves: the tree it had, renamed.\<close>

definition renamed :: "(host_fs \<Rightarrow> bool) \<Rightarrow> path \<Rightarrow> path \<Rightarrow> world \<Rightarrow> bool" where
  "renamed I s d w \<longleftrightarrow> (\<exists>h x. I h \<and> promoted (up w) \<and> rename s d h = (Inr x, fs w))"

text \<open>Invariants that do not mind which permission bits a directory ends up with.\<close>

locale fs_invariant_final = fs_invariant +
  assumes plain_ok: "plain_mode m \<Longrightarrow> mode_ok m"
begin

lemma apply_deferred_keeps:
  "list_all (\<lambda>(c, m). c \<noteq> [] \<and> plain_mode m) modes \<Longrightarrow> keeps J (apply_deferred modes)"
proof (induction modes rule: apply_deferred.induct)
  case (2 c m modes)
  have ch: "keeps J (seq (io_at p (chmod d m)) (\<lambda>_. apply_deferred modes))" if "strict_prefix root d" for d p
    using 2 that plain_ok by (auto intro!: keeps_seq io_at_keeps chmod_keeps)
  show ?case
    unfolding apply_deferred.simps keeps_def
  proof (rule triple_seq)
    show "triple J (attempt (dir_existing c ''<deferred mode>''))
        (\<lambda>r w. J w \<and> (\<forall>d. r = Inr (Some d) \<longrightarrow> strict_prefix root d)) (\<lambda>_. J)"
      by (rule triple_attempt, rule triple_conseq [OF dir_existing_triple])
         (use 2 in \<open>auto simp: strict_prefix_def\<close>)
  qed (intro triple_assume, use 2 ch in \<open>auto simp: keeps_def [symmetric] split: sum.split refusal.split option.split\<close>)
qed simp

lemma drop_vanished_keeps: "keeps J (drop_vanished paths)"
proof (induction paths)
  case (Cons p paths)
  have "keeps J (attempt (dir_existing c e))" for c e
    unfolding keeps_def by (rule triple_attempt, rule triple_conseq [OF dir_existing_triple]) auto
  with Cons show ?case
    unfolding drop_vanished.simps Let_def
    by (auto intro!: keeps_seq try_fs_keeps reading_keeps modify_keeps split: sum.split refusal.split option.split)
qed simp

lemma settle_keeps: "keeps J settle"
proof -
  have d: "keeps J (seq (apply_deferred modes) (\<lambda>_. seq drop_vanished_special_modes
      (\<lambda>_. modify (\<lambda>w. w\<lparr>up := refresh_setuid_paths (up w)\<rparr>))))"
    if "list_all (\<lambda>(c, m). c \<noteq> [] \<and> plain_mode m) modes" for modes
    using apply_deferred_keeps [OF that] drop_vanished_keeps
    by (auto simp: drop_vanished_special_modes_def intro!: keeps_seq modify_keeps
        simp: world_inv_def refresh_setuid_paths_def)
  show ?thesis
    unfolding settle_def keeps_def
  proof (rule triple_seq)
    show "triple J (gets (\<lambda>w. rev (sort_key fst (deferred_modes (up w)))))
        (\<lambda>ms w. J w \<and> list_all (\<lambda>(c, m). c \<noteq> [] \<and> plain_mode m) ms) (\<lambda>_. J)"
      by (rule triple_gets) (simp add: world_inv_def list_all_iff)
  qed (intro triple_assume, unfold keeps_def [symmetric], rule keeps_seq [OF modify_keeps],
       simp add: world_inv_def, rule d)
qed

lemma finish_triple: "triple J (map_fail f finish) (\<lambda>_. renamed I root dst) (\<lambda>_. J)"
proof -
  have "triple J (seq (gets (\<lambda>w. (staging (up w), dest (up w)))) (\<lambda>(s, d).
     seq (io_at (show_path d) (rename s d)) (\<lambda>_.
     seq (modify (\<lambda>w. w\<lparr>up := (up w)\<lparr>promoted := True\<rparr>\<rparr>)) (\<lambda>_. gets (\<lambda>w. total (up w))))))
    (\<lambda>_. renamed I root dst) (\<lambda>_. J)"
    unfolding triple_def
  proof (intro allI impI)
    fix w assume w: "J w"
    obtain r h' where r: "rename (staging (up w)) (dest (up w)) (fs w) = (r, h')" by force
    have "J (w\<lparr>fs := h'\<rparr>)" if "r = Inl e" for e
      using w r that rename_fails [of "staging (up w)" "dest (up w)" "fs w" e h']
      by (auto simp: world_inv_def intro: I_pop)
    then show "case seq (gets (\<lambda>w. (staging (up w), dest (up w)))) (\<lambda>(s, d).
       seq (io_at (show_path d) (rename s d)) (\<lambda>_.
       seq (modify (\<lambda>w. w\<lparr>up := (up w)\<lparr>promoted := True\<rparr>\<rparr>)) (\<lambda>_. gets (\<lambda>w. total (up w))))) w of
         (Inl e, w') \<Rightarrow> J w'
       | (Inr a, w') \<Rightarrow> renamed I root dst w'"
      using w r
      by (cases r) (auto simp: renamed_def world_inv_def seq_def gets_def modify_def io_at_def
          map_fail_def on_fs_def)
  qed
  then show ?thesis
    unfolding finish_def
    by (intro triple_map_fail triple_seq [OF settle_keeps [unfolded keeps_def]])
qed

lemma apply_layers_keeps: "keeps J (apply_layers ls)"
  by (induction ls) (auto intro!: keeps_seq keeps_map_fail apply_layer_keeps split: option.split)

lemma run_triple:
  "triple J (seq (apply_layers ls) (\<lambda>_. map_fail Refused finish)) (\<lambda>_. renamed I root dst) (\<lambda>_. J)"
  by (rule triple_seq [OF apply_layers_keeps [unfolded keeps_def] finish_triple])

end

end
