(* ===== verification/Oci_Image.thy ===== *)
theory Oci_Image
  imports Oci_Confine
begin

text \<open>
  What importing an image does to the host: the invariants of \<open>Oci_Confine\<close> for the
  extractor. Nothing outside the staging tree changes, whatever the layers contain and
  wherever an operation fails; the tree that is built holds only printable, self-naming
  entries within the depth limit, no marker, no device, no setuid bit, and no file it shares
  with the host.
\<close>

section \<open>The rest of the host\<close>

definition host_kept :: "host_fs \<Rightarrow> path \<Rightarrow> host_fs \<Rightarrow> bool" where
  "host_kept h0 root h \<longleftrightarrow>
     tame h \<and> set (faults h) \<subseteq> set (faults h0) \<and> next_ino h0 \<le> next_ino h \<and>
     (\<forall>p. \<not> prefix root p \<longrightarrow> node_at h p = node_at h0 p) \<and>
     (\<forall>i < next_ino h0. inode_at h i = inode_at h0 i) \<and>
     (\<forall>p i. prefix root p \<and> node_at h p = Some (NFile i) \<longrightarrow> next_ino h0 \<le> i)"

lemma strict_prefix_prefix: "strict_prefix xs ys \<Longrightarrow> prefix xs ys"
  by (simp add: strict_prefix_def)

interpretation kept: fs_invariant_final root dst lim "next_ino h0" "\<lambda>_. True" "host_kept h0 root"
  for root dst lim h0
proof
  fix h d n nd m t s assume h: "host_kept h0 root h" and d: "prefix root d"
    and nd: "(nd = NDir m \<and> True) \<or> nd = NLink t \<or> (strict_prefix root s \<and> node_at h s = Some nd \<and> \<not> is_dir nd)"
  have "next_ino h0 \<le> i" if "nd = NFile i" for i
    using nd h that strict_prefix_prefix [of root s] by (auto simp: host_kept_def)
  with h d show "host_kept h0 root (put_node (d @ [n]) nd h)"
    by (auto simp: host_kept_def tame_def)
next
  fix h i m c m' c' assume "host_kept h0 root h" "next_ino h0 \<le> i"
  then show "host_kept h0 root (put_inode i (m', c') h)" by (auto simp: host_kept_def tame_def)
next
  fix h p assume "host_kept h0 root h" "strict_prefix root p"
  then show "host_kept h0 root (del_node p h)"
    using strict_prefix_prefix [of root p] by (auto simp: host_kept_def tame_def)
qed (auto simp: host_kept_def tame_def)

section \<open>The tree\<close>

fun clean_node :: "host_fs \<Rightarrow> node \<Rightarrow> bool" where
  "clean_node h (NDir m) = plain_mode m"
| "clean_node h (NFile i) = (i < next_ino h \<and> (\<exists>m c. inode_at h i = Some (m, c) \<and> plain_mode m))"
| "clean_node h (NLink t) = True"
| "clean_node h NSpecial = False"

definition clean_tree :: "path \<Rightarrow> limits \<Rightarrow> host_fs \<Rightarrow> bool" where
  "clean_tree root lim h \<longleftrightarrow>
     tame h \<and> dir_at h root \<and>
     (\<forall>rel nd. node_at h (root @ rel) = Some nd \<longrightarrow>
        list_all tree_name rel \<and> length rel \<le> max_path_depth lim \<and> clean_node h nd)"

lemma clean_node_cong:
  "next_ino h \<le> next_ino h' \<Longrightarrow> (\<And>i. i < next_ino h \<Longrightarrow> inode_at h' i = inode_at h i) \<Longrightarrow>
   clean_node h nd \<Longrightarrow> clean_node h' nd"
  by (cases nd) auto

lemma clean_node_faults [simp]: "clean_node (h\<lparr>faults := f\<rparr>) nd = clean_node h nd"
  by (cases nd) simp_all

lemma clean_node_put_inode:
  "clean_node h nd \<Longrightarrow> inode_at h i = Some (m, c) \<Longrightarrow> m' = m \<or> plain_mode m' \<Longrightarrow>
   clean_node (put_inode i (m', c') h) nd"
  by (cases nd) auto

lemma clean_treeI:
  assumes "tame h'" and "clean_tree root lim h" and "dir_at h' root"
    and "\<And>rel nd. node_at h' (root @ rel) = Some nd \<Longrightarrow>
      (\<exists>nd'. node_at h (root @ rel) = Some nd') \<or> (list_all tree_name rel \<and> length rel \<le> max_path_depth lim)"
    and "\<And>rel nd. node_at h' (root @ rel) = Some nd \<Longrightarrow> clean_node h' nd"
  shows "clean_tree root lim h'"
  using assms unfolding clean_tree_def by blast

lemma plain_own: "plain_mode DIR_MODE" "plain_mode O700"
  by (simp_all add: plain_mode_def DIR_MODE_def)

lemma place_rel:
  assumes "clean_tree root lim h" "prefix root d" "dir_at h d" "tree_name n"
    "length d < length root + max_path_depth lim" "root @ rel = d @ [n]"
  shows "list_all tree_name rel \<and> length rel \<le> max_path_depth lim"
proof -
  from assms(2) obtain r where r: "d = root @ r" by (auto simp: prefix_def)
  with assms(6) have "rel = r @ [n]" by simp
  moreover have "list_all tree_name r" using assms(1,3) r by (auto simp: clean_tree_def dir_at_def)
  ultimately show ?thesis using assms(4,5) r by simp
qed

interpretation clean: fs_invariant_final root dst lim 0 plain_mode "clean_tree root lim" for root dst lim
proof
  fix h d n nd m t s assume h: "clean_tree root lim h" and d: "prefix root d" "dir_at h d" "tree_name n"
      "length d < length root + max_path_depth lim"
    and nd: "(nd = NDir m \<and> plain_mode m) \<or> nd = NLink t \<or>
      (strict_prefix root s \<and> node_at h s = Some nd \<and> \<not> is_dir nd)"
  have old: "clean_node h k" if "node_at h (root @ rel) = Some k" for rel k
    using h that by (simp add: clean_tree_def)
  have nd': "clean_node h nd"
    using nd
  proof (elim disjE conjE)
    assume "strict_prefix root s" "node_at h s = Some nd"
    then show "clean_node h nd" using old by (auto simp: strict_prefix_def prefix_def)
  qed simp_all
  have c: "clean_node (put_node (d @ [n]) nd h) k \<longleftrightarrow> clean_node h k" for k by (cases k) simp_all
  show "clean_tree root lim (put_node (d @ [n]) nd h)"
  proof (rule clean_treeI [OF _ h])
    show "tame (put_node (d @ [n]) nd h)" "dir_at (put_node (d @ [n]) nd h) root"
      using h d(1) by (auto simp: clean_tree_def tame_def dir_at_def prefix_def)
  next
    fix rel k assume k: "node_at (put_node (d @ [n]) nd h) (root @ rel) = Some k"
    then show "(\<exists>nd'. node_at h (root @ rel) = Some nd') \<or>
        (list_all tree_name rel \<and> length rel \<le> max_path_depth lim)"
      using place_rel [OF h d] by (auto split: if_splits)
    show "clean_node (put_node (d @ [n]) nd h) k"
      unfolding c using k nd' old [of rel k] by (simp split: if_splits)
  qed
next
  fix h d n m assume h: "clean_tree root lim h" and d: "prefix root d" "dir_at h d" "tree_name n"
      "length d < length root + max_path_depth lim" and m: "plain_mode m"
  let ?h = "put_inode (next_ino h) (m, []) (h\<lparr>next_ino := Suc (next_ino h)\<rparr>)"
  let ?h' = "put_node (d @ [n]) (NFile (next_ino h)) ?h"
  have old: "clean_node ?h' k" if "node_at h (root @ rel) = Some k" for rel k
    using clean_node_cong [of h ?h' k] h that by (simp add: clean_tree_def)
  show "clean_tree root lim ?h'"
  proof (rule clean_treeI [OF _ h])
    show "tame ?h'" "dir_at ?h' root"
      using h d(1) by (auto simp: clean_tree_def tame_def dir_at_def prefix_def)
  next
    fix rel k assume k: "node_at ?h' (root @ rel) = Some k"
    then show "(\<exists>nd'. node_at h (root @ rel) = Some nd') \<or>
        (list_all tree_name rel \<and> length rel \<le> max_path_depth lim)"
      using place_rel [OF h d] by (auto split: if_splits)
    show "clean_node ?h' k"
    proof (cases "root @ rel = d @ [n]")
      case True
      with k have "k = NFile (next_ino h)" by simp
      with m show ?thesis by simp
    next
      case False
      with k old show ?thesis by simp
    qed
  qed
next
  fix h i m c m' c' assume h: "clean_tree root lim h" and "inode_at h i = Some (m, c)" "m' = m \<or> plain_mode m'"
  then show "clean_tree root lim (put_inode i (m', c') h)"
    using clean_node_put_inode [of h _ i m c m' c'] by (auto simp: clean_tree_def tame_def dir_at_def)
next
  fix h d m assume h: "clean_tree root lim h" and d: "strict_prefix root d" "dir_at h d" and m: "plain_mode m"
  have c: "clean_node (put_node d (NDir m) h) k \<longleftrightarrow> clean_node h k" for k by (cases k) simp_all
  from h d m show "clean_tree root lim (put_node d (NDir m) h)"
    by (auto simp: clean_tree_def tame_def c dir_at_def)
next
  fix h p nd assume h: "clean_tree root lim h" and p: "strict_prefix root p"
  have c: "clean_node (del_node p h) k \<longleftrightarrow> clean_node h k" for k by (cases k) simp_all
  from h p show "clean_tree root lim (del_node p h)" by (auto simp: clean_tree_def tame_def c dir_at_def)
qed (auto simp: dir_at_def clean_tree_def tame_def plain_own plain_and)

text \<open>The staging directory keeps its own mode, and what is below it is a tree.\<close>

definition rooted :: "path \<Rightarrow> host_fs \<Rightarrow> bool" where
  "rooted root h \<longleftrightarrow>
     tame h \<and> node_at h root = Some (NDir DIR_MODE) \<and>
     (\<forall>p n. prefix root p \<and> node_at h (p @ [n]) \<noteq> None \<longrightarrow> dir_at h p)"

lemma rootedD: "rooted root h \<Longrightarrow> prefix root p \<Longrightarrow> node_at h (p @ [n]) = Some nd \<Longrightarrow> dir_at h p"
  unfolding rooted_def by blast

lemma rootedI:
  assumes "rooted root h" "tame h'" "node_at h' root = Some (NDir DIR_MODE)"
    and "\<And>p n. prefix root p \<Longrightarrow> node_at h' (p @ [n]) \<noteq> None \<Longrightarrow> dir_at h p \<Longrightarrow> dir_at h' p"
    and "\<And>p n. prefix root p \<Longrightarrow> node_at h' (p @ [n]) \<noteq> None \<Longrightarrow> node_at h (p @ [n]) \<noteq> None \<or> dir_at h p"
  shows "rooted root h'"
  using assms unfolding rooted_def by metis

lemma rooted_put:
  assumes "rooted root h" "prefix root d" "dir_at h d" "node_at h (d @ [n]) = None" "tame h'"
    and h': "\<And>q. node_at h' q = (if q = d @ [n] then Some nd else node_at h q)"
  shows "rooted root h'"
proof (rule rootedI [OF assms(1)])
  show "node_at h' root = Some (NDir DIR_MODE)"
    using assms(1,2) by (auto simp: h' rooted_def prefix_def)
  fix p k assume "prefix root p" "node_at h' (p @ [k]) \<noteq> None"
  then show "node_at h (p @ [k]) \<noteq> None \<or> dir_at h p" using assms(3) by (auto simp: h' split: if_splits)
  show "dir_at h' p" if "dir_at h p"
    using that assms(4) by (auto simp: h' dir_at_def)
qed fact

interpretation staged: fs_invariant_final root dst lim 0 "\<lambda>_. True" "rooted root" for root dst lim
proof
  fix h d n nd m t s assume h: "rooted root h" "prefix root d" "dir_at h d" "node_at h (d @ [n]) = None"
  show "rooted root (put_node (d @ [n]) nd h)"
    by (rule rooted_put [OF h]) (use h(1) in \<open>auto simp: rooted_def tame_def\<close>)
next
  fix h d n m assume h: "rooted root h" "prefix root d" "dir_at h d" "node_at h (d @ [n]) = None"
  show "rooted root (put_node (d @ [n]) (NFile (next_ino h))
      (put_inode (next_ino h) (m, []) (h\<lparr>next_ino := Suc (next_ino h)\<rparr>)))"
    by (rule rooted_put [OF h]) (use h(1) in \<open>auto simp: rooted_def tame_def\<close>)
next
  fix h d m assume h: "rooted root h" and d: "strict_prefix root d" "dir_at h d"
  show "rooted root (put_node d (NDir m) h)"
    by (rule rootedI [OF h]) (use h d in \<open>auto simp: rooted_def tame_def dir_at_def split: if_splits\<close>)
next
  fix h p nd assume h: "rooted root h" and p: "strict_prefix root p" "node_at h p = Some nd"
    and e: "is_dir nd \<Longrightarrow> children h p = []"
  have none: "node_at h (p @ [k]) = None" for k
  proof (cases "is_dir nd")
    case True
    with e set_children [of k h p] show ?thesis by auto
  next
    case False
    then have "\<not> dir_at h p" using p(2) by (auto simp: dir_at_def)
    with rootedD [OF h, of p k] p(1) show ?thesis
      by (cases "node_at h (p @ [k])") (auto simp: strict_prefix_def)
  qed
  show "rooted root (del_node p h)"
    by (rule rootedI [OF h]) (use h p(1) none in \<open>auto simp: rooted_def tame_def dir_at_def split: if_splits\<close>)
next
  fix h i v assume "rooted root h"
  then show "rooted root (put_inode i v h)" by (auto simp: rooted_def tame_def dir_at_def)
qed (auto simp: rooted_def tame_def dir_at_def)

text \<open>All at once.\<close>

definition image_inv :: "host_fs \<Rightarrow> path \<Rightarrow> limits \<Rightarrow> host_fs \<Rightarrow> bool" where
  "image_inv h0 root lim h \<longleftrightarrow> host_kept h0 root h \<and> clean_tree root lim h \<and> rooted root h"

interpretation image: fs_invariant_final root dst lim "next_ino h0" plain_mode "image_inv h0 root lim"
  for root dst lim h0
  unfolding image_inv_def
  by unfold_locales
     (auto intro: staged.I_faults staged.I_put staged.I_file staged.I_inode staged.I_chmod staged.I_del
       kept.I_tame kept.I_faults clean.I_faults clean.I_umask clean.mode_ok_own clean.mode_ok_host
       kept.I_base kept.I_put clean.I_put kept.I_file clean.I_file kept.I_inode clean.I_inode
       kept.I_chmod clean.I_chmod kept.I_del clean.I_del)

section \<open>Creating the staging tree\<close>

text \<open>A file system whose nodes all have a parent directory.\<close>

definition tree_fs :: "host_fs \<Rightarrow> bool" where
  "tree_fs h \<longleftrightarrow> (\<forall>p n. node_at h (p @ [n]) \<noteq> None \<longrightarrow> dir_at h p)"

lemma tree_fs_below: "tree_fs h \<Longrightarrow> node_at h p = None \<Longrightarrow> node_at h (p @ q) = None"
proof (induction q rule: rev_induct)
  case (snoc n q)
  then have "\<not> dir_at h (p @ q)" by (simp add: dir_at_def)
  with snoc.prems(1) show ?case by (metis append_assoc tree_fs_def)
qed simp

text \<open>The two file systems differ at most in the node at \<open>p\<close>.\<close>

definition only_at :: "path \<Rightarrow> host_fs \<Rightarrow> host_fs \<Rightarrow> bool" where
  "only_at p h h' \<longleftrightarrow>
     (\<forall>q. q \<noteq> p \<longrightarrow> node_at h' q = node_at h q) \<and> inode_at h' = inode_at h \<and>
     next_ino h' = next_ino h \<and> set (faults h') \<subseteq> set (faults h)"

lemma sys_call_frame:
  assumes "\<And>h r. P h \<Longrightarrow> set r \<subseteq> set (faults h) \<Longrightarrow> P (h\<lparr>faults := r\<rparr>)"
    and "\<And>h. P h \<Longrightarrow> case f h of (Inr a, h') \<Rightarrow> Q a h' | (Inl e, h') \<Rightarrow> E e h'"
    and "\<And>h e. P h \<Longrightarrow> E e h"
  shows "triple P (sys_call f) Q E"
  unfolding triple_def
proof (intro allI impI)
  fix h assume h: "P h"
  show "case sys_call f h of (Inl e, h') \<Rightarrow> E e h' | (Inr a, h') \<Rightarrow> Q a h'"
  proof (cases "faults h")
    case Nil
    then show ?thesis using assms(2) [OF h] by (auto simp: sys_call_def split: prod.splits sum.splits)
  next
    case (Cons fault rest)
    then have r: "P (h\<lparr>faults := rest\<rparr>)" using h assms(1) by (metis set_subset_Cons)
    then show ?thesis
      using assms(2) [OF r] assms(3) [OF r] Cons
      by (auto simp: sys_call_def split: prod.splits sum.splits option.splits)
  qed
qed

lemma only_at_faults: "only_at p h h' \<Longrightarrow> set r \<subseteq> set (faults h') \<Longrightarrow> only_at p h (h'\<lparr>faults := r\<rparr>)"
  by (auto simp: only_at_def)

lemma only_at_refl [simp]: "only_at p h h"
  by (simp add: only_at_def)

lemma only_at_put: "only_at p h h' \<Longrightarrow> only_at p h (put_node p nd h')" "only_at p h h' \<Longrightarrow> only_at p h (del_node p h')"
  by (simp_all add: only_at_def)

lemma create_triple:
  fixes dst :: path and pid :: nat
  defines "stg \<equiv> staging_of dst pid"
  shows "triple (\<lambda>h. h = h0) (create dst lim pid)
    (\<lambda>u h. only_at stg h0 h \<and> node_at h0 stg = None \<and> node_at h stg = Some (NDir DIR_MODE) \<and>
       u = \<lparr>dest = dst, staging = stg, u_limits = lim, total = report_default, entries_seen = 0,
            deferred_modes = [], special_modes = [], promoted = False\<rparr> \<and> dst \<noteq> [])
    (\<lambda>_. only_at stg h0)"
proof -
  let ?A = "\<lambda>h. only_at stg h0 h \<and> node_at h stg = node_at h0 stg"
  let ?B = "\<lambda>h. only_at stg h0 h \<and> node_at h0 stg = None \<and> (\<exists>m. node_at h stg = Some (NDir m))"
  have stg: "butlast stg @ [last stg] = stg" by (simp add: stg_def staging_of_def)
  have A: "?A h \<Longrightarrow> set r \<subseteq> set (faults h) \<Longrightarrow> ?A (h\<lparr>faults := r\<rparr>)" for h r by (simp add: only_at_faults)
  have B: "?B h \<Longrightarrow> set r \<subseteq> set (faults h) \<Longrightarrow> ?B (h\<lparr>faults := r\<rparr>)" for h r by (simp add: only_at_faults)
  have meta: "triple ?A (attempt (symlink_metadata dst)) (\<lambda>_. ?A) (\<lambda>_. only_at stg h0)"
    unfolding symlink_metadata_def
    by (intro triple_attempt sys_call_frame A) (auto split: option.splits)
  have mk: "triple ?A (map_fail f (mkdir (butlast stg) (last stg) O777)) (\<lambda>_. ?B) (\<lambda>_. only_at stg h0)" for f
    unfolding mkdir_def named_def stg
    by (auto intro!: triple_map_fail triple_fail sys_call_frame A only_at_put only_at_faults
        split: if_splits)
  have op: "triple ?B (attempt (open_root stg)) (\<lambda>r h. ?B h \<and> (\<forall>d. r = Inr d \<longrightarrow> d = stg)) (\<lambda>_. only_at stg h0)"
    unfolding open_root_def
    by (intro triple_attempt sys_call_frame B) (auto split: option.splits node.splits)
  have ch: "triple ?B (attempt (chmod stg DIR_MODE))
      (\<lambda>r h. ?B h \<and> (\<forall>x. r = Inr x \<longrightarrow> node_at h stg = Some (NDir DIR_MODE))) (\<lambda>_. only_at stg h0)"
    unfolding chmod_def
    by (intro triple_attempt sys_call_frame B) (auto intro: only_at_put split: option.splits node.splits)
  have "triple (only_at stg h0) (unlink (butlast stg) (last stg) True) (\<lambda>_. only_at stg h0) (\<lambda>_. only_at stg h0)"
    unfolding unlink_def named_def stg
    by (auto intro!: triple_fail sys_call_frame only_at_put only_at_faults split: if_splits option.splits)
  then have un: "triple ?B (seq (attempt (unlink (butlast stg) (last stg) True)) (\<lambda>_. fail r)) Q (\<lambda>_. only_at stg h0)"
    for r and Q :: "unpacker \<Rightarrow> host_fs \<Rightarrow> bool"
    by (intro triple_seq [where R = "\<lambda>_. only_at stg h0"] triple_attempt triple_fail) (auto elim: triple_pre)
  let ?u = "\<lparr>dest = dst, staging = stg, u_limits = lim, total = report_default, entries_seen = 0,
      deferred_modes = [], special_modes = [], promoted = False\<rparr>"
  have fin: "triple ?B (seq (attempt (chmod d DIR_MODE)) (\<lambda>c. case c of
        Inl e \<Rightarrow> seq (attempt (unlink (butlast stg) (last stg) True)) (\<lambda>_. fail (Io (show_path stg) e))
      | Inr _ \<Rightarrow> ret ?u))
    (\<lambda>u h. only_at stg h0 h \<and> node_at h0 stg = None \<and> node_at h stg = Some (NDir DIR_MODE) \<and> u = ?u \<and> dst \<noteq> [])
    (\<lambda>_. only_at stg h0)" if "d = stg" "dst \<noteq> []" for d
    unfolding that(1) by (intro triple_seq [OF ch] triple_case_sum triple_pre [OF un] triple_ret) (use that in auto)
  show ?thesis
    unfolding create_def open_staging_def Let_def stg_def [symmetric]
    by (intro triple_if triple_fail triple_seq [OF triple_pre [OF meta]] triple_seq [OF mk]
        triple_seq [OF op] triple_assume triple_case_sum un fin) auto
qed

section \<open>Promotion\<close>

lemma map_of_rekey:
  "(\<And>q. q \<in> fst ` set xs \<Longrightarrow> f q = p \<longleftrightarrow> q = p') \<Longrightarrow>
   map_of (map (\<lambda>(q, n). (f q, n)) xs) p = map_of xs p'"
proof (induction xs)
  case (Cons x xs)
  have "f (fst x) = p \<longleftrightarrow> fst x = p'" by (rule Cons.prems) simp
  with Cons show ?case by (auto simp: case_prod_unfold)
qed simp

lemma rename_tree_outside:
  assumes "\<not> prefix s p" "\<not> prefix d p"
  shows "node_at (rename_tree s d h) p = node_at h p"
proof -
  let ?f = "\<lambda>q. if prefix s q then d @ drop (length s) q else q"
  have "?f q = p \<longleftrightarrow> q = p" for q using assms by (auto simp: prefix_def)
  then have "node_at (rename_tree s d h) p = map_of (AList.delete d (nodes h)) p"
    using map_of_rekey [of "AList.delete d (nodes h)" ?f p p]
    by (simp add: node_at_def rename_tree_def case_prod_unfold)
  then show ?thesis using assms(2) by (auto simp: delete_conv' node_at_def)
qed

lemma rename_tree_inside:
  assumes "\<not> prefix s d" and "\<And>rel. rel \<noteq> [] \<Longrightarrow> node_at h (d @ rel) = None" and "\<not> prefix d s"
  shows "node_at (rename_tree s d h) (d @ rel) = node_at h (s @ rel)"
proof -
  let ?f = "\<lambda>q. if prefix s q then d @ drop (length s) q else q"
  have "?f q = d @ rel \<longleftrightarrow> q = s @ rel" if "q \<in> fst ` set (AList.delete d (nodes h))" for q
  proof -
    have q: "q \<noteq> d" "node_at h q \<noteq> None"
      using that by (auto simp: AList.delete_eq node_at_def map_of_eq_None_iff)
    then have "q \<noteq> d @ rel" using assms(2) [of rel] by (cases "rel = []") auto
    then show ?thesis by (auto simp: prefix_def)
  qed
  then have "node_at (rename_tree s d h) (d @ rel) = map_of (AList.delete d (nodes h)) (s @ rel)"
    using map_of_rekey [of "AList.delete d (nodes h)" ?f "d @ rel" "s @ rel"]
    by (simp add: node_at_def rename_tree_def case_prod_unfold)
  moreover have "s @ rel \<noteq> d" using assms(1) by auto
  ultimately show ?thesis by (simp add: delete_conv' node_at_def)
qed

lemma rename_tree_source:
  assumes "\<not> prefix s d" "\<not> prefix d s" "prefix s p"
  shows "node_at (rename_tree s d h) p = None"
proof -
  have "p \<noteq> d @ r" for r
    using assms prefix_same_cases [of d p s] by (auto simp: prefix_def)
  then have "(if prefix s q then d @ drop (length s) q else q) \<noteq> p" for q
    using assms(3) by (metis (full_types))
  then show ?thesis by (force simp: node_at_def rename_tree_def map_of_eq_None_iff)
qed

lemma sys_call_Inr:
  "sys_call f h = (Inr x, h') \<Longrightarrow> \<exists>hp. (hp = h \<or> (\<exists>r. hp = h\<lparr>faults := r\<rparr>)) \<and> f hp = (Inr x, h')"
  by (auto simp: sys_call_def split: list.splits option.splits)

lemma rename_ok:
  assumes "rename s d h = (Inr x, h')"
  obtains hp where "node_at hp = node_at h" "inode_at hp = inode_at h" "next_ino hp = next_ino h"
    "h' = rename_tree s d hp" "\<And>n. node_at h (d @ [n]) = None \<or> node_at h d = None"
proof -
  let ?g = "\<lambda>h. if \<not> grants h (butlast s) O300 \<or> \<not> grants h (butlast d) O300 then (Inl EACCES, h)
     else case node_at h s of
         None \<Rightarrow> (Inl ENOENT, h)
       | Some _ \<Rightarrow>
          (case node_at h d of
             None \<Rightarrow> (Inr (), rename_tree s d h)
           | Some (NDir _) \<Rightarrow>
               if children h d \<noteq> [] then (Inl ENOTEMPTY, h) else (Inr (), rename_tree s d h)
           | Some _ \<Rightarrow> (Inl ENOTDIR, h))"
  obtain hp where hp: "hp = h \<or> (\<exists>r. hp = h\<lparr>faults := r\<rparr>)" and g: "?g hp = (Inr x, h')"
    using sys_call_Inr [OF assms(1) [unfolded rename_def]] by metis
  have same: "node_at hp = node_at h" "inode_at hp = inode_at h" "next_ino hp = next_ino h"
    using hp by auto
  have c: "children hp d = [] \<or> node_at hp d = None" "h' = rename_tree s d hp"
    using g by (auto split: if_splits option.splits node.splits)
  have "node_at h (d @ [n]) = None \<or> node_at h d = None" for n
    using c(1) set_children [of n hp d] by (auto simp: same)
  with c(2) same that show ?thesis by blast
qed

lemma siblings:
  assumes "dst \<noteq> []"
  shows "\<not> prefix (staging_of dst pid) dst" "\<not> prefix dst (staging_of dst pid)"
proof -
  have len: "length (staging_of dst pid) = length dst" using assms by (simp add: staging_of_def)
  have ne: "staging_of dst pid \<noteq> dst"
  proof
    assume "staging_of dst pid = dst"
    then have "length (last (staging_of dst pid)) = length (last dst)" by simp
    then show False by (simp add: staging_of_def)
  qed
  have "xs = ys" if "prefix xs ys" "length xs = length ys" for xs ys :: path
    using that by (auto simp: prefix_def)
  with len ne show "\<not> prefix (staging_of dst pid) dst" "\<not> prefix dst (staging_of dst pid)" by metis+
qed

section \<open>An import, as the host sees it\<close>

text \<open>The state in which an import's layers start.\<close>

lemma create_ok:
  assumes "create dst lim pid h = (Inr u, h1)" and "tree_fs h" and "tame h"
  shows "world_inv (image_inv h (staging_of dst pid) lim) (staging_of dst pid) dst lim (start_world u h1) \<and> dst \<noteq> []"
proof -
  let ?s = "staging_of dst pid"
  have c: "only_at ?s h h1" "node_at h ?s = None" "node_at h1 ?s = Some (NDir DIR_MODE)" "dst \<noteq> []"
    and u: "staging u = ?s" "dest u = dst" "u_limits u = lim" "deferred_modes u = []" "\<not> promoted u"
    using tripleD [OF create_triple refl assms(1)] by simp_all
  have none: "node_at h1 (?s @ rel) = None" if "rel \<noteq> []" for rel
    using c(1) tree_fs_below [OF assms(2) c(2), of rel] that by (simp add: only_at_def)
  have "tame h1" using c(1) assms(3) by (auto simp: only_at_def tame_def)
  moreover have "host_kept h ?s h1"
    unfolding host_kept_def
  proof (intro conjI allI impI)
    fix p i assume "prefix ?s p \<and> node_at h1 p = Some (NFile i)"
    then obtain rel where "p = ?s @ rel" "node_at h1 (?s @ rel) = Some (NFile i)" by (auto simp: prefix_def)
    with none c(3) show "next_ino h \<le> i" by (cases "rel = []") auto
  qed (use c(1) \<open>tame h1\<close> in \<open>auto simp: only_at_def\<close>)
  moreover have "clean_tree ?s lim h1"
    unfolding clean_tree_def
  proof (intro conjI allI impI)
    fix rel nd assume nd: "node_at h1 (?s @ rel) = Some nd"
    then have "rel = []" using none by (metis option.distinct(1))
    with nd c(3) show "list_all tree_name rel" "length rel \<le> max_path_depth lim" "clean_node h1 nd"
      using plain_own(1) by auto
  qed (use c(3) \<open>tame h1\<close> in \<open>auto simp: dir_at_def\<close>)
  moreover have "rooted ?s h1"
    unfolding rooted_def
  proof (intro conjI allI impI)
    fix p n assume pn: "prefix ?s p \<and> node_at h1 (p @ [n]) \<noteq> None"
    then obtain rel where "p = ?s @ rel" by (auto simp: prefix_def)
    with pn none [of "rel @ [n]"] show "dir_at h1 p" by simp
  qed (use c(3) \<open>tame h1\<close> in simp_all)
  ultimately show ?thesis using u c(4) by (simp add: world_inv_def start_world_def image_inv_def)
qed

text \<open>How an import ends.\<close>

lemma unpack_image_cases:
  assumes "unpack_image dst lim pid layers h = (r, h')" and "tree_fs h" and "tame h"
  obtains (not_created) e e' where "r = Inl e" "only_at (staging_of dst pid) h h'" "create dst lim pid h = (Inl e', h')"
  | (refused) e u h1 where "r = Inl e" "\<not> isl (fst (create dst lim pid h))" "image_inv h (staging_of dst pid) lim h1"
      "staging u = staging_of dst pid" "u_limits u = lim" "h' = snd (teardown u h1)"
  | (promoted) rp h1 x where "r = Inr rp" "image_inv h (staging_of dst pid) lim h1" "dst \<noteq> []"
      "rename (staging_of dst pid) dst h1 = (Inr x, h')"
proof (cases "create dst lim pid h")
  case (Pair c h1)
  show ?thesis
  proof (cases c)
    case (Inl e)
    with Pair assms(1) have "r = Inl (Refused e)" "h' = h1" by (simp_all add: unpack_image_def)
    with not_created tripleD_fail [OF create_triple refl, of dst lim pid h e h1] Pair Inl
    show ?thesis by blast
  next
    case (Inr u)
    let ?s = "staging_of dst pid" and ?J = "world_inv (image_inv h (staging_of dst pid) lim) (staging_of dst pid) dst lim"
    let ?m = "seq (apply_layers layers) (\<lambda>_. map_fail Refused finish)"
    have start: "?J (start_world u h1)" "dst \<noteq> []"
      using create_ok [of dst lim pid h u h1] Pair Inr assms(2,3) by simp_all
    obtain q w where q: "?m (start_world u h1) = (q, w)" by force
    with assms(1) Pair Inr have r: "r = q" "h' = drop_unpacker (up w) (fs w)"
      by (simp_all add: unpack_image_def)
    show ?thesis
    proof (cases q)
      case (Inl e)
      have J: "?J w" using tripleD_fail [OF image.run_triple start(1)] q Inl by blast
      then have "staging (up w) = ?s" "image_inv h ?s lim (fs w)" "\<not> promoted (up w)" "u_limits (up w) = lim"
        by (simp_all add: world_inv_def)
      with r Inl Pair \<open>c = Inr u\<close> refused show ?thesis by (simp add: drop_unpacker_def)
    next
      case (Inr rp)
      have "renamed (image_inv h ?s lim) ?s dst w"
        using tripleD [OF image.run_triple start(1)] q Inr by blast
      with r Inr start(2) promoted show ?thesis by (auto simp: renamed_def drop_unpacker_def)
    qed
  qed
qed

lemma promoted_tree:
  assumes "rename (staging_of dst pid) dst h1 = (Inr x, h')" "image_inv h (staging_of dst pid) lim h1"
    "tree_fs h" "dst \<noteq> []"
  shows "node_at h' (dst @ rel) = node_at h1 (staging_of dst pid @ rel)"
    and "prefix (staging_of dst pid) p \<Longrightarrow> node_at h' p = None"
    and "\<not> prefix (staging_of dst pid) p \<Longrightarrow> \<not> prefix dst p \<Longrightarrow> node_at h' p = node_at h p"
    and "inode_at h' = inode_at h1" and "next_ino h' = next_ino h1"
proof -
  let ?s = "staging_of dst pid"
  obtain hp where hp: "node_at hp = node_at h1" "inode_at hp = inode_at h1" "next_ino hp = next_ino h1"
    and h': "h' = rename_tree ?s dst hp"
    and c: "\<And>n. node_at h1 (dst @ [n]) = None \<or> node_at h1 dst = None"
    by (rule rename_ok [OF assms(1)]) blast
  note sib = siblings [OF assms(4), of pid]
  have out: "node_at h1 q = node_at h q" if "\<not> prefix ?s q" for q
    using assms(2) that by (simp add: image_inv_def host_kept_def)
  have below: "\<not> prefix ?s (dst @ r)" for r
    using sib prefix_same_cases [of ?s "dst @ r" dst] by auto
  have empty: "node_at hp (dst @ r) = None" if r: "r \<noteq> []" for r
  proof -
    obtain n q where nq: "r = n # q" using r by (cases r) auto
    have "node_at h (dst @ [n]) = None \<or> node_at h dst = None"
      using c [of n] out [OF below [of "[n]"]] out [OF below [of "[]"]] by simp
    then have "node_at h ((dst @ [n]) @ q) = None"
      using tree_fs_below [OF assms(3), of "dst @ [n]" q] tree_fs_below [OF assms(3), of dst "n # q"] by auto
    then show ?thesis using out [OF below [of r]] by (simp add: hp nq)
  qed
  show "node_at h' (dst @ rel) = node_at h1 (?s @ rel)"
    unfolding h' by (simp add: rename_tree_inside [OF sib(1) empty sib(2)] hp)
  show "prefix ?s p \<Longrightarrow> node_at h' p = None" unfolding h' by (rule rename_tree_source [OF sib])
  show "\<not> prefix ?s p \<Longrightarrow> \<not> prefix dst p \<Longrightarrow> node_at h' p = node_at h p"
    unfolding h' by (simp add: rename_tree_outside hp out)
  show "inode_at h' = inode_at h1" "next_ino h' = next_ino h1"
    using hp(2,3) by (auto simp: h' rename_tree_def inode_at_def fun_eq_iff)
qed

text \<open>An unpack that is refused leaves everything outside the staging directory as it was.\<close>

lemma refused_unpack_spares:
  assumes "tree_fs h" "tame h" "unpack_image dst lim pid layers h = (Inl e, h')"
  shows "\<not> prefix (staging_of dst pid) p \<Longrightarrow> node_at h' p = node_at h p"
    and "i < next_ino h \<Longrightarrow> inode_at h' i = inode_at h i"
proof -
  let ?s = "staging_of dst pid"
  have "(\<forall>p. \<not> prefix ?s p \<longrightarrow> node_at h' p = node_at h p) \<and> (\<forall>i < next_ino h. inode_at h' i = inode_at h i)"
    using assms(3,1,2)
  proof (cases rule: unpack_image_cases)
    case (not_created e)
    then show ?thesis by (auto simp: only_at_def)
  next
    case (refused e u h0)
    obtain h1 where inv: "image_inv h ?s lim h1" and h': "h' = snd (unlink (butlast ?s) (last ?s) True h1)"
      using image.teardown_pre [OF refused(4,3)] refused(6) by metis
    have out: "node_at h1 p = node_at h p" if "\<not> prefix ?s p" for p
      using inv that by (simp add: image_inv_def host_kept_def)
    have s: "butlast ?s @ [last ?s] = ?s" by (simp add: staging_of_def)
    have "node_at h' p = node_at h p" if "\<not> prefix ?s p" for p
      using unlink_effect(1) [of "butlast ?s" "last ?s" True h1 p] out [OF that] that
      by (auto simp: h' s)
    moreover have "inode_at h' i = inode_at h i" if "i < next_ino h" for i
      using inv that by (simp add: h' unlink_effect(2) image_inv_def host_kept_def)
    ultimately show ?thesis by simp
  qed simp
  then show "\<not> prefix ?s p \<Longrightarrow> node_at h' p = node_at h p" "i < next_ino h \<Longrightarrow> inode_at h' i = inode_at h i" by simp_all
qed

text \<open>
  C10: importing an image leaves the host alone. Whatever the layers hold, in whatever order,
  and whichever calls fail on the way, no node outside the staging directory and the
  destination changes, no file that existed before is written or re-moded, and no file of the
  imported tree shares its inode with one; when the import is refused the destination is
  untouched as well. The faults exclude one kind: a spurious answer that a name is a
  directory, or that unlinking it is not permitted.
\<close>
theorem import_leaves_host_alone:
  assumes "tree_fs h" and "tame h" and "unpack_image dst lim pid layers h = (r, h')"
  shows "(\<forall>p. \<not> prefix (staging_of dst pid) p \<and> (prefix dst p \<longrightarrow> isl r) \<longrightarrow> node_at h' p = node_at h p) \<and>
    (\<forall>i < next_ino h. inode_at h' i = inode_at h i) \<and>
    (\<forall>p i. \<not> isl r \<and> prefix dst p \<and> node_at h' p = Some (NFile i) \<longrightarrow> next_ino h \<le> i)"
proof (cases r)
  case (Inl e)
  with refused_unpack_spares [OF assms(1,2)] assms(3) show ?thesis by simp
next
  case (Inr rp)
  with assms(3) have run: "unpack_image dst lim pid layers h = (Inr rp, h')" by simp
  obtain h1 x where p: "image_inv h (staging_of dst pid) lim h1" "dst \<noteq> []"
      "rename (staging_of dst pid) dst h1 = (Inr x, h')"
    by (rule unpack_image_cases [OF run assms(1,2)]) auto
  note t = promoted_tree [OF p(3,1) assms(1) p(2)]
  have k: "host_kept h (staging_of dst pid) h1" using p(1) by (simp add: image_inv_def)
  have "next_ino h \<le> i" if "prefix dst p" "node_at h' p = Some (NFile i)" for p i
  proof -
    from that(1) obtain zs where "p = dst @ zs" by (auto simp: prefix_def)
    with that(2) t(1) have "node_at h1 (staging_of dst pid @ zs) = Some (NFile i)" by simp
    with k show ?thesis unfolding host_kept_def by (meson prefixI)
  qed
  moreover have "inode_at h' i = inode_at h i" if "i < next_ino h" for i
    using k that by (simp add: t(4) host_kept_def)
  ultimately show ?thesis using Inr t(3) by auto
qed

text \<open>
  C12: what an import leaves at its destination is a directory tree of regular files,
  directories and links only, with printable self-naming components within the depth limit,
  no whiteout marker at any level, and permission bits alone on every directory and file;
  the staging directory is gone.
\<close>
theorem imported_tree_is_clean:
  assumes "tree_fs h" and "tame h" and "unpack_image dst lim pid layers h = (Inr rp, h')"
  shows "dir_at h' dst \<and>
    (\<forall>rel nd. node_at h' (dst @ rel) = Some nd \<longrightarrow>
       list_all tree_name rel \<and> length rel \<le> max_path_depth lim \<and> clean_node h' nd) \<and>
    (\<forall>p. prefix (staging_of dst pid) p \<longrightarrow> node_at h' p = None)"
  using assms(3,1,2)
proof (cases rule: unpack_image_cases)
  case (promoted rp' h1 x)
  note t = promoted_tree [OF promoted(4,2) assms(1) promoted(3)]
  have c: "clean_tree (staging_of dst pid) lim h1" using promoted(2) by (simp add: image_inv_def)
  have nd: "clean_node h' nd" if "clean_node h1 nd" for nd
    using that by (cases nd) (auto simp: t(4,5))
  have "dir_at h' dst" using c t(1) [of "[]"] by (simp add: clean_tree_def dir_at_def)
  then show ?thesis using c nd t(1,2) by (simp add: clean_tree_def)
qed simp_all

definition sample_host :: host_fs where
  "sample_host =
     \<lparr>nodes = [([], NDir O755), ([''home''], NDir O755), ([''home'', ''secret''], NFile 0)],
      inodes = [(0, (0x180, [1, 2, 3]))], next_ino = 1, umask = 0x12, faults = []\<rparr>"

definition sample_entry :: "string \<Rightarrow> entry_type \<Rightarrow> u32 \<Rightarrow> bytes option \<Rightarrow> bytes list \<Rightarrow> string + tar_entry" where
  "sample_entry p k m l c =
     Inr \<lparr>path_bytes = bytes_of p, kind = k, mode_field = Some m, link_name = l, pax_keys = None,
          reads = c, read_fails = False\<rparr>"

text \<open>A layer that plants a link to a directory of the host, and one that writes through it.\<close>

definition planting_layer :: "(string + (string + tar_entry) list) option" where
  "planting_layer = Some (Inr [sample_entry ''l'' Symlink O777 (Some (bytes_of ''/home'')) []])"

definition writing_layer :: "(string + (string + tar_entry) list) option" where
  "writing_layer = Some (Inr [sample_entry ''l/secret'' Regular O755 None [[65]]])"

lemma sample_host_tree: "tree_fs sample_host" "tame sample_host"
proof -
  have "p = [] \<or> p = [''home'']" if "node_at sample_host (p @ [n]) \<noteq> None" for p n
    using that by (auto simp: node_at_def sample_host_def split: if_splits)
  then show "tree_fs sample_host" by (force simp: tree_fs_def dir_at_def node_at_def sample_host_def)
qed (simp add: tame_def sample_host_def)

theorem import_leaves_host_alone_witness:
  "\<exists>r h'. unpack_image [''home'', ''img''] limits_default 7 [planting_layer, writing_layer] sample_host = (r, h') \<and>
     node_at h' [''home'', ''secret''] = Some (NFile 0) \<and> inode_at h' 0 = Some (0x180, [1, 2, 3])"
proof -
  obtain r h' where rh: "unpack_image [''home'', ''img''] limits_default 7 [planting_layer, writing_layer] sample_host = (r, h')"
    by force
  note t = import_leaves_host_alone [OF sample_host_tree rh]
  have "node_at sample_host [''home'', ''secret''] = Some (NFile 0)" "inode_at sample_host 0 = Some (0x180, [1, 2, 3])"
    "next_ino sample_host = 1"
    by (simp_all add: node_at_def inode_at_def sample_host_def)
  with t rh show ?thesis by (auto simp: staging_of_def)
qed

lemma sample_import_ok:
  "\<not> isl (fst (unpack_image [''home'', ''img''] limits_default 7 [planting_layer] sample_host))"
  by code_simp

theorem imported_tree_is_clean_witness:
  "\<exists>rp h'. unpack_image [''home'', ''img''] limits_default 7 [planting_layer] sample_host = (Inr rp, h') \<and>
     dir_at h' [''home'', ''img'']"
proof -
  obtain r h' where r: "unpack_image [''home'', ''img''] limits_default 7 [planting_layer] sample_host = (r, h')"
    by force
  with sample_import_ok obtain rp where "r = Inr rp" by (cases r) auto
  with r have rh: "unpack_image [''home'', ''img''] limits_default 7 [planting_layer] sample_host = (Inr rp, h')"
    by simp
  with imported_tree_is_clean [OF sample_host_tree rh] show ?thesis by blast
qed

end
