(* ===== verification/Oci_Delete.thy ===== *)
theory Oci_Delete
  imports Oci_Image
begin

text \<open>
  Deletion is total and exact: \<open>remove_child\<close> on a tree the extractor built always succeeds,
  whatever modes the image gave its directories, and takes away exactly the subtree it
  names; \<open>prune\<close> keeps exactly what the layer wrote. With that, a refused import leaves the
  host's tree as it found it.
\<close>

section \<open>Removing a subtree\<close>

definition without :: "path \<Rightarrow> host_fs \<Rightarrow> host_fs \<Rightarrow> bool" where
  "without p h h' \<longleftrightarrow>
     (\<forall>q. node_at h' q = (if prefix p q then None else node_at h q)) \<and>
     inode_at h' = inode_at h \<and> next_ino h' = next_ino h \<and> umask h' = umask h \<and> faults h' = []"

text \<open>Every name strictly below \<open>p\<close> is one the calls accept, at most \<open>k\<close> levels down.\<close>

definition fits :: "host_fs \<Rightarrow> path \<Rightarrow> nat \<Rightarrow> bool" where
  "fits h p k \<longleftrightarrow> (\<forall>rel. node_at h (p @ rel) \<noteq> None \<longrightarrow> list_all cname_ok rel \<and> length rel \<le> k)"

lemma tree_fs_without: "tree_fs h \<Longrightarrow> without p h h' \<Longrightarrow> tree_fs h'"
  by (auto simp: tree_fs_def without_def dir_at_def)

lemma grants_cong: "node_at h' d = node_at h d \<Longrightarrow> grants h' d = grants h d"
  by (simp add: fun_eq_iff grants_def)

lemma grants_mono: "grants h d a \<Longrightarrow> and a b = b \<Longrightarrow> grants h d b"
proof -
  have "and m b = b" if "and m a = a" "and a b = b" for m :: u32
    using that by (metis and.assoc)
  then show "grants h d a \<Longrightarrow> and a b = b \<Longrightarrow> grants h d b"
    by (auto simp: grants_def split: option.splits node.splits)
qed

lemma grants_x: "grants h d O300 \<Longrightarrow> grants h d O100"
  by (erule grants_mono) simp

lemma fits_sub: "fits h p k \<Longrightarrow> (\<And>q. node_at h' q \<noteq> None \<Longrightarrow> node_at h q \<noteq> None) \<Longrightarrow> fits h' p k"
  by (simp add: fits_def)

lemma fits_child: "fits h p (Suc k) \<Longrightarrow> fits h (p @ [c]) k"
  by (force simp: fits_def)

text \<open>Removing the children of a directory one after another.\<close>

lemma each_without:
  assumes step: "\<And>c h. c \<in> set names \<Longrightarrow> faults h = [] \<Longrightarrow> tree_fs h \<Longrightarrow> grants h sub O300 \<Longrightarrow>
      fits h (sub @ [c]) k \<Longrightarrow> cname_ok c \<Longrightarrow> \<exists>h'. f c h = (Inr (), h') \<and> without (sub @ [c]) h h'"
    and "faults h = []" "tree_fs h" "grants h sub O300"
    and "\<And>c. c \<in> set names \<Longrightarrow> fits h (sub @ [c]) k \<and> cname_ok c"
  shows "\<exists>h'. each f names h = (Inr (), h') \<and>
    (\<forall>q. node_at h' q = (if \<exists>c \<in> set names. prefix (sub @ [c]) q then None else node_at h q)) \<and>
    inode_at h' = inode_at h \<and> next_ino h' = next_ino h \<and> umask h' = umask h \<and> faults h' = []"
  using assms
proof (induction names arbitrary: h)
  case (Cons c names)
  obtain h1 where h1: "f c h = (Inr (), h1)" "without (sub @ [c]) h h1"
    using Cons.prems(1) [OF _ Cons.prems(2-4), of c] Cons.prems(5) [of c] by auto
  have n1: "node_at h1 q = (if prefix (sub @ [c]) q then None else node_at h q)" for q
    using h1(2) by (simp add: without_def)
  have g: "grants h1 sub O300" using Cons.prems(4) grants_cong [of h1 sub h] by (simp add: n1)
  have ft: "fits h1 (sub @ [c']) k \<and> cname_ok c'" if "c' \<in> set names" for c'
  proof
    show "fits h1 (sub @ [c']) k"
      by (rule fits_sub [of h]) (use Cons.prems(5) [of c'] that n1 in \<open>auto split: if_splits\<close>)
    show "cname_ok c'" using Cons.prems(5) [of c'] that by simp
  qed
  have st: "\<exists>h'. f c' h = (Inr (), h') \<and> without (sub @ [c']) h h'"
    if "c' \<in> set names" "faults h = []" "tree_fs h" "grants h sub O300" "fits h (sub @ [c']) k" "cname_ok c'" for c' h
    by (rule Cons.prems(1)) (use that in simp_all)
  have "faults h1 = []" using h1(2) by (simp add: without_def)
  from Cons.IH [OF st this tree_fs_without [OF Cons.prems(3) h1(2)] g ft]
  obtain h2 where h2: "each f names h1 = (Inr (), h2)"
    "\<forall>q. node_at h2 q = (if \<exists>c \<in> set names. prefix (sub @ [c]) q then None else node_at h1 q)"
    "inode_at h2 = inode_at h1" "next_ino h2 = next_ino h1" "umask h2 = umask h1" "faults h2 = []"
    by blast
  have "each f (c # names) h = (Inr (), h2)" using h1(1) h2(1) by (simp add: seq_Inr)
  moreover have "node_at h2 q = (if \<exists>c \<in> set (c # names). prefix (sub @ [c]) q then None else node_at h q)" for q
    using h2(2) n1 by auto
  ultimately show ?case using h1(2) h2 by (simp add: without_def)
qed (simp add: ret_def)

lemma sys_call_plain [simp]: "faults h = [] \<Longrightarrow> sys_call f h = f h"
  by (simp add: sys_call_def)

lemma tree_fs_nondir: "tree_fs h \<Longrightarrow> \<not> dir_at h p \<Longrightarrow> rel \<noteq> [] \<Longrightarrow> node_at h (p @ rel) = None"
proof -
  assume t: "tree_fs h" and p: "\<not> dir_at h p" and "rel \<noteq> []"
  then obtain n r where r: "rel = n # r" by (cases rel) auto
  have "node_at h (p @ [n]) = None" using t p unfolding tree_fs_def by blast
  from tree_fs_below [OF t this, of r] show ?thesis by (simp add: r)
qed

lemma without_leaf:
  assumes "tree_fs h" "\<not> dir_at h p" "faults h = []"
  shows "without p h (del_node p h)" "node_at h p = None \<Longrightarrow> without p h h"
proof -
  have r: "node_at h q = None" if "prefix p q" "q \<noteq> p" for q
  proof -
    from that obtain zs where q: "q = p @ zs" and zs: "zs \<noteq> []" by (auto simp: prefix_def)
    show ?thesis unfolding q by (rule tree_fs_nondir [OF assms(1,2) zs])
  qed
  show "without p h (del_node p h)" using assms(3) r by (simp add: without_def)
  show "without p h h" if "node_at h p = None"
    using assms(3) r that by (auto simp: without_def)
qed

text \<open>The last step: the emptied directory itself.\<close>

lemma unlink_emptied:
  assumes "faults h = []" "grants h d O300" "cname_ok n" "dir_at h (d @ [n])"
    and "\<And>c. node_at h (d @ [n, c]) = None"
  shows "unlink d n True h = (Inr (), del_node (d @ [n]) h)"
proof -
  have "children h (d @ [n]) = []" using assms(5) set_children [of _ h "d @ [n]"] by (metis append_assoc
      append_Cons append_Nil last_in_set)
  with assms(1-4) show ?thesis by (auto simp: unlink_def named_def grants_x dir_at_def)
qed

text \<open>What is left when every child of a directory has been removed.\<close>

lemma emptied:
  assumes "tree_fs h1"
    and n2: "\<And>q. node_at h2 q = (if \<exists>c \<in> set (children h1 sub). prefix (sub @ [c]) q then None else node_at h1 q)"
  shows "node_at h2 (sub @ c # r) = None"
    and "\<not> strict_prefix sub q \<Longrightarrow> node_at h2 q = node_at h1 q"
    and "node_at (del_node sub h2) q = (if prefix sub q then None else node_at h1 q)"
proof -
  show below: "node_at h2 (sub @ c # r) = None" for c r
  proof (cases "c \<in> set (children h1 sub)")
    case False
    then have "node_at h1 (sub @ [c]) = None" by (simp add: set_children)
    from tree_fs_below [OF assms(1) this, of r] show ?thesis by (simp add: n2)
  qed (auto simp: n2 prefix_def)
  show keep: "\<not> strict_prefix sub q \<Longrightarrow> node_at h2 q = node_at h1 q"
    by (auto simp: n2 strict_prefix_def prefix_def)
  show "node_at (del_node sub h2) q = (if prefix sub q then None else node_at h1 q)"
  proof (cases "prefix sub q")
    case True
    then obtain r where "q = sub @ r" by (auto simp: prefix_def)
    then show ?thesis using below by (cases r) auto
  next
    case False
    then show ?thesis using keep by (auto simp: strict_prefix_def)
  qed
qed

text \<open>A directory's own removal, once its children can be removed.\<close>

lemma remove_dir:
  fixes lim :: limits and k :: nat and d :: path and n :: string and h :: host_fs
  defines "sub \<equiv> d @ [n]" and "h1 \<equiv> put_node (d @ [n]) (NDir O700) h"
  assumes "faults h = []" "tree_fs h" "grants h d O300" "cname_ok n" "dir_at h sub" "\<not> max_path_depth lim < k"
    and h2: "each (\<lambda>child. remove_child sub child lim (k + 1)) (children h1 sub) h1 = (Inr (), h2)"
    and n2: "\<And>q. node_at h2 q = (if \<exists>c \<in> set (children h1 sub). prefix (sub @ [c]) q then None else node_at h1 q)"
    and r2: "inode_at h2 = inode_at h1" "next_ino h2 = next_ino h1" "umask h2 = umask h1" "faults h2 = []"
  shows "remove_child d n lim k h = (Inr (), del_node sub h2) \<and> without sub h (del_node sub h2)"
proof -
  obtain m where m: "node_at h sub = Some (NDir m)" using assms(7) by (auto simp: dir_at_def)
  have n1: "node_at h1 q = (if q = sub then Some (NDir O700) else node_at h q)" for q by (simp add: h1_def sub_def)
  have nf1: "faults h1 = []" and gr1: "grants h1 d O300" and tr1: "tree_fs h1"
    using assms(3,4,5,7) by (auto simp: h1_def sub_def grants_def tree_fs_def dir_at_def)
  note em = emptied [OF tr1 n2]
  have un: "unlink d n False h = (Inl EISDIR, h)"
    using m assms(3,6) assms(5) grants_x [OF assms(5)] by (simp add: unlink_def named_def sub_def)
  have ch: "chmod_child d n O700 h = (Inr (), h1)"
    using m assms(3,6) grants_x [OF assms(5)] image.follow_dir [OF assms(7) [unfolded sub_def] assms(6)]
    by (simp add: chmod_child_def named_def set_mode_def h1_def sub_def)
  have op: "open_dir d n h1 = (Inr sub, h1)"
    using nf1 grants_x [OF gr1] assms(6) by (simp add: open_dir_def named_def n1 sub_def)
  have en: "entries sub h1 = (Inr (children h1 sub), h1)"
    using nf1 by (simp add: entries_def)
  have "unlink d n True h2 = (Inr (), del_node sub h2)"
    unfolding sub_def
  proof (rule unlink_emptied [OF r2(4) _ assms(6)])
    show "grants h2 d O300"
      using gr1 grants_cong [of h2 d h1] em(2) [of d] by (simp add: strict_prefix_def sub_def)
    show "dir_at h2 (d @ [n])" using em(2) [of sub] by (simp add: dir_at_def n1 sub_def)
    show "node_at h2 (d @ [n, c]) = None" for c using em(1) [of c "[]"] by (simp add: sub_def)
  qed
  then have "remove_child d n lim k h = (Inr (), del_node sub h2)"
    by (subst remove_child.simps) (simp add: assms(8) seq_def attempt_def un ch op en h2 [simplified])
  moreover have "without sub h (del_node sub h2)"
    using r2 assms(3) em(3) by (auto simp: without_def h1_def n1 sub_def)
  ultimately show ?thesis by blast
qed

lemma remove_leaf:
  assumes "faults h = []" "tree_fs h" "grants h d O300" "cname_ok n" "\<not> dir_at h (d @ [n])"
    "\<not> max_path_depth lim < k"
  shows "\<exists>h'. remove_child d n lim k h = (Inr (), h') \<and> without (d @ [n]) h h'"
proof -
  have "unlink d n False h =
      (if node_at h (d @ [n]) = None then (Inl ENOENT, h) else (Inr (), del_node (d @ [n]) h))"
    using assms(5) assms(1,3,4) grants_x [OF assms(3)]
    by (auto simp: unlink_def named_def dir_at_def split: option.split elim: is_dir.elims)
  then have "remove_child d n lim k h =
      (Inr (), if node_at h (d @ [n]) = None then h else del_node (d @ [n]) h)"
    by (subst remove_child.simps) (simp add: assms(6) seq_def attempt_def ret_def)
  then show ?thesis using without_leaf [OF assms(2,5,1)] by auto
qed

lemma remove_child_total:
  "faults h = [] \<Longrightarrow> tree_fs h \<Longrightarrow> grants h d O300 \<Longrightarrow> fits h (d @ [n]) (max_path_depth lim - k) \<Longrightarrow>
   k \<le> max_path_depth lim \<Longrightarrow> cname_ok n \<Longrightarrow>
   \<exists>h'. remove_child d n lim k h = (Inr (), h') \<and> without (d @ [n]) h h'"
proof (induction "Suc (max_path_depth lim) - k" arbitrary: d n k h rule: less_induct)
  case less
  note nf = less.prems(1) and tr = less.prems(2) and gr = less.prems(3) and ft = less.prems(4)
    and k = less.prems(5) and cn = less.prems(6)
  let ?sub = "d @ [n]"
  have notk: "\<not> max_path_depth lim < k" using k by simp
  show ?case
  proof (cases "dir_at h ?sub")
    case False
    then show ?thesis using remove_leaf [OF nf tr gr cn _ notk] by blast
  next
    case True
    let ?h1 = "put_node ?sub (NDir O700) h"
    let ?names = "children ?h1 ?sub" and ?f = "\<lambda>child. remove_child ?sub child lim (k + 1)"
    have nf1: "faults ?h1 = []" and grs: "grants ?h1 ?sub O300" and tr1: "tree_fs ?h1"
      using nf tr True by (auto simp: grants_def tree_fs_def dir_at_def)
    have child: "k < max_path_depth lim \<and> fits ?h1 (?sub @ [c]) (max_path_depth lim - (k + 1)) \<and> cname_ok c"
      if "c \<in> set ?names" for c
    proof -
      have "node_at h (?sub @ [c]) \<noteq> None" using that by (simp add: set_children)
      with ft have l: "list_all cname_ok [c] \<and> length [c] \<le> max_path_depth lim - k"
        unfolding fits_def by blast
      have "fits ?h1 ?sub (max_path_depth lim - k)"
        by (rule fits_sub [OF ft]) (use True in \<open>auto simp: dir_at_def split: if_splits\<close>)
      moreover have "max_path_depth lim - k = Suc (max_path_depth lim - (k + 1))" using l by auto
      ultimately have "fits ?h1 ?sub (Suc (max_path_depth lim - (k + 1)))" by (simp only:)
      then have "fits ?h1 (?sub @ [c]) (max_path_depth lim - (k + 1))" by (rule fits_child)
      moreover have "k < max_path_depth lim" "cname_ok c" using l by auto
      ultimately show ?thesis by (intro conjI)
    qed
    have "\<exists>h'. each ?f ?names ?h1 = (Inr (), h') \<and>
        (\<forall>q. node_at h' q = (if \<exists>c \<in> set ?names. prefix (?sub @ [c]) q then None else node_at ?h1 q)) \<and>
        inode_at h' = inode_at ?h1 \<and> next_ino h' = next_ino ?h1 \<and> umask h' = umask ?h1 \<and> faults h' = []"
    proof (rule each_without [OF _ nf1 tr1 grs])
      fix c h' assume c: "c \<in> set ?names" and *: "faults h' = []" "tree_fs h'" "grants h' ?sub O300"
        "fits h' (?sub @ [c]) (max_path_depth lim - (k + 1))" "cname_ok c"
      show "\<exists>h''. remove_child ?sub c lim (k + 1) h' = (Inr (), h'') \<and> without (?sub @ [c]) h' h''"
        by (rule less.hyps [OF _ *(1-4) _ *(5)]) (use child [OF c] in linarith)+
    qed (use child in blast)
    then show ?thesis using remove_dir [OF nf tr gr cn True notk] by blast
  qed
qed

section \<open>A refused import\<close>

lemma snoc_staging: "butlast (staging_of dst pid) @ [last (staging_of dst pid)] = staging_of dst pid"
  by (simp add: staging_of_def)

lemma snoc2: "butlast p @ [last p] = p \<Longrightarrow> butlast p @ [last p, k] = p @ [k]"
  by (metis append.assoc append_Cons append_Nil)

lemma mkdir_plain:
  assumes "faults h = []" "mkdir d n m h = (Inr x, h')"
  shows "grants h d O300" "node_at h (d @ [n]) = None" "cname_ok n"
    "h' = put_node (d @ [n]) (NDir (and m (not (umask h)))) h"
  using assms by (auto simp: mkdir_def named_def fail_def split: if_splits)

lemma open_staging_plain:
  fixes dst :: path and pid :: nat and m :: u32 and h :: host_fs
  defines "s \<equiv> staging_of dst pid" and "h1 \<equiv> put_node (staging_of dst pid) (NDir m) h"
  assumes "faults h = []" "tree_fs h" "node_at h s = None" "grants h (butlast s) O300" "cname_ok (last s)"
    and "open_staging dst lim s h1 = (r, h')" "isl r"
  shows "node_at h' = node_at h"
proof -
  have s: "butlast s @ [last s] = s" unfolding s_def by (rule snoc_staging)
  have h1: "faults h1 = []" "node_at h1 = (node_at h)(s \<mapsto> NDir m)"
    using assms(3) by (auto simp: h1_def s_def fun_eq_iff)
  have "butlast s \<noteq> s" using s by (metis append_self_conv list.distinct(1))
  then have g: "grants h1 (butlast s) O300" using assms(6) grants_cong [of h1 "butlast s" h] by (simp add: h1)
  have none: "node_at h1 (butlast s @ [last s, k]) = None" for k
    using tree_fs_below [OF assms(4,5), of "[k]"] by (simp add: h1 snoc2 [OF s])
  have u: "unlink (butlast s) (last s) True h1 = (Inr (), del_node s h1)"
    using unlink_emptied [OF h1(1) g assms(7) _ none] by (simp add: s h1 dir_at_def)
  show ?thesis
  proof (cases "and m O400 = 0")
    case True
    then have "open_root s h1 = (Inl EACCES, h1)" using h1 by (simp add: open_root_def)
    with u have "open_staging dst lim s h1 = (Inl (Io (show_path s) EACCES), del_node s h1)"
      by (simp add: open_staging_def Let_def seq_def attempt_def fail_def)
    with assms(5,8) show ?thesis by (auto simp: h1 fun_eq_iff)
  next
    case False
    then have "\<not> isl (fst (open_staging dst lim s h1))"
      using h1 by (simp add: open_staging_def Let_def open_root_def chmod_def seq_def attempt_def ret_def)
    with assms(8,9) show ?thesis by simp
  qed
qed

lemma create_plain:
  assumes "faults h = []" "tree_fs h" "create dst lim pid h = (r, h')"
  shows "(isl r \<longrightarrow> node_at h' = node_at h) \<and>
    (\<not> isl r \<longrightarrow> grants h (butlast (staging_of dst pid)) O300 \<and> cname_ok (last (staging_of dst pid)))"
proof (cases "dst = [] \<or> last dst = ''..'' \<or> node_at h dst \<noteq> None")
  case True
  then have "create dst lim pid h = (Inl (Io (show_path dst) (if dst = [] \<or> last dst = ''..'' then InvalidInput else EEXIST)), h)"
    using assms(1) by (auto simp: create_def seq_def attempt_def symlink_metadata_def fail_def)
  with assms(3) show ?thesis by auto
next
  case False
  let ?s = "staging_of dst pid"
  obtain c h1 where mk: "mkdir (butlast ?s) (last ?s) O777 h = (c, h1)" by force
  have meta: "symlink_metadata dst h = (Inl ENOENT, h)"
    using False assms(1) by (simp add: symlink_metadata_def)
  show ?thesis
  proof (cases c)
    case (Inl e)
    have "h1 = h" using mk Inl assms(1) by (auto simp: mkdir_def named_def fail_def split: if_splits)
    moreover have "create dst lim pid h = (Inl (Io (show_path ?s) e), h1)"
      using False mk Inl meta by (simp add: create_def attempt_def Let_def seq_def map_fail_def)
    ultimately show ?thesis using assms(3) by simp
  next
    case (Inr x)
    note mk' = mkdir_plain [OF assms(1) mk [unfolded Inr], unfolded snoc_staging]
    have "create dst lim pid h = open_staging dst lim ?s h1"
      using False mk Inr meta by (simp add: create_def attempt_def Let_def seq_def map_fail_def)
    then show ?thesis
      using open_staging_plain [OF assms(1,2) mk'(2,1,3)] mk' assms(3) by metis
  qed
qed

text \<open>With no faults, the extractor's invariant makes the whole host a tree.\<close>

lemma image_tree_fs:
  assumes "image_inv h0 root lim h" "tree_fs h0" "dir_at h0 (butlast root)" "root \<noteq> []"
  shows "tree_fs h"
  unfolding tree_fs_def
proof (intro allI impI)
  fix p n assume pn: "node_at h (p @ [n]) \<noteq> None"
  have out: "node_at h q = node_at h0 q" if "\<not> prefix root q" for q
    using assms(1) that by (simp add: image_inv_def host_kept_def)
  show "dir_at h p"
  proof (cases "prefix root p")
    case True
    then show ?thesis using assms(1) pn by (auto simp: image_inv_def rooted_def)
  next
    case False
    have "dir_at h0 p"
    proof (cases "p @ [n] = root")
      case True
      then show ?thesis using assms(3) by auto
    next
      case ne: False
      then have "\<not> prefix root (p @ [n])" using False by simp
      with pn out assms(2) show ?thesis unfolding tree_fs_def by metis
    qed
    then show ?thesis using out [OF False] by (simp add: dir_at_def)
  qed
qed

text \<open>The names of an extracted tree fit the recursion of \<open>remove_child\<close>.\<close>

lemma clean_fits:
  assumes "clean_tree root lim h" "c \<in> set (children h root)"
  shows "fits h (root @ [c]) (max_path_depth lim) \<and> cname_ok c"
proof -
  have t: "list_all tree_name (c # rel) \<and> length (c # rel) \<le> max_path_depth lim"
    if "node_at h (root @ c # rel) \<noteq> None" for rel
    using assms(1) that unfolding clean_tree_def by blast
  have "fits h (root @ [c]) (max_path_depth lim)"
    unfolding fits_def
  proof (intro allI impI)
    fix rel assume "node_at h ((root @ [c]) @ rel) \<noteq> None"
    then have "list_all tree_name rel" "length rel \<le> max_path_depth lim" using t [of rel] by simp_all
    then show "list_all cname_ok rel \<and> length rel \<le> max_path_depth lim"
      by (auto simp: list_all_iff tree_name_def)
  qed
  moreover have "node_at h (root @ [c]) \<noteq> None" using assms(2) by (simp add: set_children)
  ultimately show ?thesis using t [of "[]"] by (simp add: tree_name_def)
qed

lemma teardown_children:
  fixes h :: host_fs
  defines "f \<equiv> \<lambda>root lim child. seq (attempt (remove_child root child lim 0)) (\<lambda>_. ret ()) :: unit fs_call"
  assumes "clean_tree root lim h" "faults h = []" "tree_fs h" "grants h root O300"
  shows "\<exists>h'. each (f root lim) (children h root) h = (Inr (), h') \<and>
      (\<forall>q. node_at h' q = (if \<exists>c \<in> set (children h root). prefix (root @ [c]) q then None else node_at h q)) \<and>
      inode_at h' = inode_at h \<and> next_ino h' = next_ino h \<and> umask h' = umask h \<and> faults h' = []"
proof (rule each_without [OF _ assms(3-5) clean_fits [OF assms(2)]])
  fix c h' assume "faults h' = []" "tree_fs h'" "grants h' root O300" "fits h' (root @ [c]) (max_path_depth lim)" "cname_ok c"
  then obtain h'' where "remove_child root c lim 0 h' = (Inr (), h'')" "without (root @ [c]) h' h''"
    using remove_child_total [of h' root c lim 0] by auto
  then show "\<exists>h''. f root lim c h' = (Inr (), h'') \<and> without (root @ [c]) h' h''"
    by (simp add: f_def seq_def attempt_def ret_def)
qed

lemma teardown_total:
  assumes inv: "image_inv h0 root lim h" and "tree_fs h0" "faults h0 = []" "grants h0 (butlast root) O300"
    "cname_ok (last root)" "root \<noteq> []" "staging u = root" "u_limits u = lim"
  shows "node_at (snd (teardown u h)) q = (if prefix root q then None else node_at h0 q)"
proof -
  have kept: "host_kept h0 root h" and clean: "clean_tree root lim h" and rt: "rooted root h"
    using inv by (simp_all add: image_inv_def)
  have nf: "faults h = []" using kept assms(3) by (simp add: host_kept_def)
  have tr: "tree_fs h" by (rule image_tree_fs [OF inv assms(2) grants_dir [OF assms(4)] assms(6)])
  have gr: "grants h root O300" using rt by (simp add: rooted_def grants_def DIR_MODE_def)
  obtain h2 where h2: "each (\<lambda>child. seq (attempt (remove_child root child lim 0)) (\<lambda>_. ret ()) :: unit fs_call)
      (children h root) h = (Inr (), h2)"
    and n2: "\<And>q. node_at h2 q = (if \<exists>c \<in> set (children h root). prefix (root @ [c]) q then None else node_at h q)"
    and f2: "faults h2 = []" using teardown_children [OF clean nf tr gr] by blast
  note em = emptied [OF tr n2]
  have out: "node_at h q = node_at h0 q" if "\<not> prefix root q" for q
    using kept that by (simp add: host_kept_def)
  have root: "butlast root @ [last root] = root" using assms(6) by simp
  have np: "\<not> prefix root (butlast root)" using assms(6) by (metis length_butlast diff_less length_greater_0_conv
        less_le_not_le prefix_length_le zero_less_one)
  have "node_at h2 (butlast root) = node_at h0 (butlast root)"
    using em(2) [of "butlast root"] out [OF np] np by (simp add: strict_prefix_def)
  then have "grants h2 (butlast root) O300" using assms(4) grants_cong [of h2 "butlast root" h0] by simp
  moreover have "dir_at h2 root" using em(2) [of root] rt by (simp add: dir_at_def rooted_def strict_prefix_def)
  moreover have "node_at h2 (butlast root @ [last root, c]) = None" for c
    using em(1) [of c "[]"] by (simp add: snoc2 [OF root])
  ultimately have "unlink (butlast root) (last root) True h2 = (Inr (), del_node root h2)"
    using unlink_emptied [OF f2 _ assms(5), of "butlast root"] by (simp add: root)
  moreover have "entries root h = (Inr (children h root), h)" using nf by (simp add: entries_def)
  ultimately have "snd (teardown u h) = del_node root h2"
    using h2 by (simp add: teardown_def assms(7,8) seq_def attempt_def ret_def)
  then show ?thesis
    using em(3) [of q] out [of q] by auto
qed


text \<open>The layers of the sample image plant a link and are refused when they write through it.\<close>

lemma sample_import_refused:
  "isl (fst (unpack_image [''home'', ''img''] limits_default 7 [planting_layer, writing_layer] sample_host))"
  by code_simp


text \<open>
  C22: deleting is total and exact. On a host whose calls do not fail spuriously, removing a
  name from a directory that may be written to always returns, with success, and takes away
  the named node and everything below it, whatever modes the image gave the directories there,
  and nothing else; it suffices that the names are ones the calls accept and that the subtree
  is no deeper than the limit on paths, which every tree of the extractor is.
\<close>
theorem remove_child_takes_subtree:
  assumes "faults h = []" and "tree_fs h" and "grants h d O300" and "cname_ok n"
    and "\<And>rel. node_at h (d @ n # rel) \<noteq> None \<Longrightarrow> list_all cname_ok rel \<and> length rel \<le> max_path_depth lim"
  shows "\<exists>h'. remove_child d n lim 0 h = (Inr (), h') \<and>
    (\<forall>p. node_at h' p = (if prefix (d @ [n]) p then None else node_at h p)) \<and> inode_at h' = inode_at h"
proof -
  have "fits h (d @ [n]) (max_path_depth lim - 0)" using assms(5) by (simp add: fits_def)
  from remove_child_total [OF assms(1-3) this _ assms(4)] show ?thesis by (auto simp: without_def)
qed

theorem remove_child_takes_subtree_witness:
  "\<exists>h'. remove_child [] ''home'' limits_default 0 sample_host = (Inr (), h') \<and>
     node_at h' [''home'', ''secret''] = None \<and> dir_at h' []"
proof -
  have nd: "node_at sample_host (''home'' # rel) \<noteq> None \<Longrightarrow> rel = [] \<or> rel = [''secret'']" for rel
    by (auto simp: node_at_def sample_host_def split: if_splits)
  have "\<exists>h'. remove_child [] ''home'' limits_default 0 sample_host = (Inr (), h') \<and>
    (\<forall>p. node_at h' p = (if prefix ([] @ [''home'']) p then None else node_at sample_host p)) \<and>
    inode_at h' = inode_at sample_host"
  proof (rule remove_child_takes_subtree [OF _ sample_host_tree(1)])
    show "faults sample_host = []" by (simp add: sample_host_def)
    show "grants sample_host [] O300" "cname_ok ''home''" by code_simp+
    fix rel assume "node_at sample_host ([] @ ''home'' # rel) \<noteq> None"
    then have "rel = [] \<or> rel = [''secret'']" using nd by simp
    moreover have "cname_ok ''secret''" "1 \<le> max_path_depth limits_default" by code_simp+
    ultimately show "list_all cname_ok rel \<and> length rel \<le> max_path_depth limits_default" by auto
  qed
  moreover have "dir_at sample_host []" by (simp add: dir_at_def node_at_def sample_host_def)
  ultimately show ?thesis by (auto simp: dir_at_def)
qed

end
