(* ===== verification/Oci_Runs.thy ===== *)
theory Oci_Runs
  imports Oci_Delete
begin

text \<open>
  Concrete imports, evaluated in the kernel: where the extractor does what its comments rule
  out. Each run is a small image on the sample host.
\<close>

section \<open>Set-user-id paths that are directories\<close>

text \<open>A set-user-id file \<open>a\<close>, and a layer with a file \<open>a/b\<close>, which replaces it by a directory.\<close>

definition setuid_layer :: "(string + (string + tar_entry) list) option" where
  "setuid_layer = Some (Inr [sample_entry ''a'' Regular 0x9ed None []])"

definition replacing_layer :: "(string + (string + tar_entry) list) option" where
  "replacing_layer = Some (Inr [sample_entry ''a/b'' Regular O755 None []])"

text \<open>
  The report still lists the path with its set-user-id mode, although the tree that was
  promoted has a directory there that no entry of the image gave that mode.
\<close>

lemma stale_setuid_path:
  "case unpack_image [''home'', ''img''] limits_default 7 [setuid_layer, replacing_layer] sample_host of
     (Inr rp, h') \<Rightarrow> setuid_paths rp = [(''a'', 0x9ed)] \<and> node_at h' [''home'', ''img'', ''a''] = Some (NDir DIR_MODE)
   | (Inl _, _) \<Rightarrow> False"
  by code_simp

section \<open>Deferred modes of deleted directories\<close>

definition restrictive_layer :: "(string + (string + tar_entry) list) option" where
  "restrictive_layer = Some (Inr [sample_entry ''d/'' Directory 0x140 None []])"

definition remaking_layer :: "(string + (string + tar_entry) list) option" where
  "remaking_layer = Some (Inr [sample_entry ''.wh.d'' Regular O755 None [], sample_entry ''d/x'' Regular O755 None []])"

text \<open>
  The second layer deletes the directory and implies a new one of the same name; it is
  promoted with the mode of the deleted one, where the second layer alone gives the default.
\<close>

lemma stale_deferred_mode:
  "case unpack_image [''home'', ''img''] limits_default 7 [restrictive_layer, remaking_layer] sample_host of
     (Inr rp, h') \<Rightarrow> node_at h' [''home'', ''img'', ''d''] = Some (NDir 0x140)
   | (Inl _, _) \<Rightarrow> False"
  "case unpack_image [''home'', ''img''] limits_default 7 [remaking_layer] sample_host of
     (Inr rp, h') \<Rightarrow> node_at h' [''home'', ''img'', ''d''] = Some (NDir DIR_MODE)
   | (Inl _, _) \<Rightarrow> False"
  by code_simp+

section \<open>Permission refused while removing a link\<close>

text \<open>
  A file system that answers \<open>EPERM\<close> to the removal of a name, as Linux does for an immutable
  or append-only directory and POSIX permits for a directory: the code takes the name for a
  directory and changes the mode of what a link there points to, on the host.
\<close>

definition linked_host :: host_fs where
  "linked_host =
     \<lparr>nodes = [([], NDir O755), ([''home''], NDir O755), ([''img''], NDir O755),
         ([''img'', ''l''], NLink (bytes_of ''/home''))],
      inodes = [], next_ino = 0, umask = 0x12, faults = [Some EPERM]\<rparr>"

lemma chmod_through_link:
  "node_at linked_host [''home''] = Some (NDir O755)"
  "node_at (snd (remove_child [''img''] ''l'' limits_default 0 linked_host)) [''home''] = Some (NDir O700)"
  by code_simp+

end
