(* ===== verification/Oci_Limits.thy ===== *)
theory Oci_Limits
  imports Oci_Runs
begin

text \<open>
  The resource limits of an import: what the report counts as written never exceeds
  \<open>max_total_bytes\<close> and \<open>max_entries\<close>, over all layers together, and the host holds no more
  than that, whether the import is accepted or refused: a byte is stored only while the count has
  room for it, and every name made is paid for by an entry.
\<close>

section \<open>The counters while a layer is applied\<close>

text \<open>Room for \<open>n\<close> more entries, over the layers before and the one in progress.\<close>

definition counted :: "limits \<Rightarrow> nat \<Rightarrow> world \<Rightarrow> bool" where
  "counted lm n w \<longleftrightarrow> u_limits (up w) = lm \<and>
     bytes_written (total (up w)) + bytes_written (rep w) \<le> max_total_bytes lm \<and>
     entries_written (total (up w)) + entries_written (rep w) + n \<le> max_entries lm \<and>
     entries_written (total (up w)) + entries_written (rep w) + n \<le> entries_seen (up w)"

text \<open>Between layers only the total counts.\<close>

definition summed :: "limits \<Rightarrow> world \<Rightarrow> bool" where
  "summed lm w \<longleftrightarrow> u_limits (up w) = lm \<and>
     bytes_written (total (up w)) \<le> max_total_bytes lm \<and>
     entries_written (total (up w)) \<le> max_entries lm \<and>
     entries_written (total (up w)) \<le> entries_seen (up w)"

lemma counted_summed: "counted lm n w \<Longrightarrow> summed lm w"
  by (simp add: counted_def summed_def)

lemma counted_mono: "counted lm n w \<Longrightarrow> m \<le> n \<Longrightarrow> counted lm m w"
  by (simp add: counted_def)

text \<open>Calls into the file system leave the counters alone.\<close>

lemma on_fs_counts: "keeps (counted lm n) (on_fs m)" "keeps (summed lm) (on_fs m)"
  by (rule keepsI, simp add: on_fs_def counted_def summed_def split: prod.splits)+

lemma fs_keeps [simp]:
  "keeps (counted lm n) (io_at p m)" "keeps (counted lm n) (try_fs m)" "keeps (counted lm n) (map_fail g (on_fs m))"
  "keeps (summed lm) (io_at p m)" "keeps (summed lm) (try_fs m)" "keeps (summed lm) (map_fail g (on_fs m))"
  by (simp_all add: io_at_def try_fs_def keeps_map_fail keeps_attempt on_fs_counts)

lemma counter_free_keeps:
  assumes "\<And>w. total (up (f w)) = total (up w) \<and> entries_seen (up (f w)) = entries_seen (up w) \<and>
      u_limits (up (f w)) = u_limits (up w) \<and> bytes_written (rep (f w)) = bytes_written (rep w) \<and>
      entries_written (rep (f w)) = entries_written (rep w)"
  shows "keeps (counted lm n) (modify f)" "keeps (summed lm) (modify f)"
  by (rule modify_keeps, simp add: counted_def summed_def assms)+

lemma walk_step_counted [simp]: "keeps (counted lm n) (walk_step e p cur name)"
  unfolding walk_step_def remake_dir_def by (auto intro!: keeps_seq split: sum.split)

lemma create_walk_counted [simp]: "keeps (counted lm n) (create_walk e cur so_far comps)"
  by (induction e cur so_far comps rule: create_walk.induct)
     (auto simp: Let_def intro!: keeps_seq counter_free_keeps)

lemma existing_walk_counted [simp]:
  "keeps (counted lm n) (existing_walk e cur so_far comps)" "keeps (summed lm) (existing_walk e cur so_far comps)"
  by (induction e cur so_far comps rule: existing_walk.induct)
     (auto simp: Let_def intro!: keeps_seq split: sum.split)

lemma dir_walks_counted [simp]:
  "keeps (counted lm n) (dir_create comps e)" "keeps (counted lm n) (dir_existing comps e)" "keeps (summed lm) (dir_existing comps e)"
  unfolding dir_create_def dir_existing_def by (auto intro!: keeps_seq)

lemma whiteouts_counted:
  "keeps (counted lm n) (whiteout parent target)" "keeps (counted lm n) (opaque parent)"
  unfolding whiteout_def opaque_def Let_def
  by (auto intro!: keeps_seq counter_free_keeps split: option.split)

text \<open>The one place that counts bytes checks before it writes.\<close>

lemma copy_bounded_counted: "keeps (counted lm n) (copy_bounded bufs fails f path this)"
proof (induction bufs arbitrary: this)
  case (Cons buf bufs)
  let ?n = "length buf"
  let ?rest = "seq (io_at path (write_all f buf)) (\<lambda>_. seq (modify (\<lambda>w. w\<lparr>rep := (rep w)\<lparr>bytes_written := bytes_written (rep w) + ?n\<rparr>\<rparr>))
      (\<lambda>_. copy_bounded bufs fails f path (this + ?n)))"
  let ?room = "\<lambda>w. counted lm n w \<and> bytes_written (total (up w)) + bytes_written (rep w) + ?n \<le> max_total_bytes (u_limits (up w))"
  have w: "triple ?room (io_at path (write_all f buf)) (\<lambda>_. ?room) (\<lambda>_. counted lm n)"
    by (auto simp: triple_def io_at_def map_fail_def on_fs_def counted_def split: prod.splits sum.splits)
  have c: "triple ?room (modify (\<lambda>w. w\<lparr>rep := (rep w)\<lparr>bytes_written := bytes_written (rep w) + ?n\<rparr>\<rparr>)) (\<lambda>_. counted lm n) (\<lambda>_. counted lm n)"
    by (rule triple_modify) (auto simp: counted_def)
  note rest = triple_seq [OF w triple_seq [OF c Cons.IH [unfolded keeps_def]]]
  show ?case
  proof (rule keepsI)
    fix w assume w: "counted lm n w"
    let ?room' = "bytes_written (total (up w)) + bytes_written (rep w) + ?n \<le> max_total_bytes (u_limits (up w))"
    show "counted lm n (snd (copy_bounded (buf # bufs) fails f path this w))"
    proof (cases "?room' \<and> ?n \<noteq> 0 \<and> this + ?n \<le> max_entry_bytes (u_limits (up w))")
      case True
      then have e: "copy_bounded (buf # bufs) fails f path this w = ?rest w"
        by (simp add: Let_def seq_def [where m = "gets g" for g] gets_def)
      obtain r w' where r: "?rest w = (r, w')" by force
      have "?room w" using w True by simp
      then have "counted lm n w'"
      proof (cases r)
        case (Inl e)
        from tripleD_fail [OF rest \<open>?room w\<close> r [unfolded Inl]] show ?thesis .
      next
        case (Inr x)
        from tripleD [OF rest \<open>?room w\<close> r [unfolded Inr]] show ?thesis .
      qed
      then show ?thesis by (simp only: e r snd_conv)
    next
      case False
      then show ?thesis using w by (auto simp: Let_def seq_def gets_def fail_def ret_def)
    qed
  qed
qed simp

lemma replacing_counted [simp]: "keeps (counted lm n) (replacing parent lst path c)"
  unfolding replacing_def by (auto intro!: keeps_seq split: sum.split)

lemma hardlink_counted: "keeps (counted lm n) (hardlink parent lst target path)"
  unfolding hardlink_def
  by (auto intro!: keeps_seq keeps_attempt split: sum.split plan.split refusal.split option.split)

lemma ensure_dir_counted: "keeps (counted lm n) (ensure_dir parent lst path)"
  unfolding ensure_dir_def by (auto intro!: keeps_seq split: sum.split)

lemma set_dir_mode_counted: "keeps (counted lm n) (set_dir_mode parent lst comps m path)"
  unfolding set_dir_mode_def by (auto intro!: keeps_seq counter_free_keeps)

lemma write_node_counted: "keeps (counted lm n) (write_node entry parent comps m path)"
  unfolding write_node_def Let_def
  by (auto intro!: keeps_seq ensure_dir_counted set_dir_mode_counted hardlink_counted copy_bounded_counted
      split: entry_type.split option.split)

lemma record_modes_free [simp]:
  "total (record_modes k m p u) = total u" "entries_seen (record_modes k m p u) = entries_seen u"
  "u_limits (record_modes k m p u) = u_limits u"
  by (simp_all add: record_modes_def forget_subtree_def Let_def)

lemma write_entry_counted: "triple (counted lm 1) (write_entry entry comps) (\<lambda>_. counted lm 0) (\<lambda>_. counted lm 0)"
proof -
  let ?path = "join comps"
  have skip: "triple (counted lm 1) (modify (\<lambda>w. w\<lparr>rep := (rep w)\<lparr>devices_skipped := devices_skipped (rep w) @ [?path]\<rparr>\<rparr>))
      (\<lambda>_. counted lm 0) E" for E
    by (rule triple_modify) (simp add: counted_def)
  have last: "triple (counted lm 1) (modify (\<lambda>w. w\<lparr>up := record_modes (kind entry) m ?path (up w),
       rep := (rep w)\<lparr>entries_written := entries_written (rep w) + 1\<rparr>, written := ?path # written w\<rparr>))
      (\<lambda>_. counted lm 0) E" for m E
    by (rule triple_modify) (simp add: counted_def)
  have step: "triple (counted lm 1) c (\<lambda>_. counted lm 1) (\<lambda>_. counted lm 0)" if "keeps (counted lm 1) c" for c :: "'a step"
    by (rule triple_conseq [OF that [unfolded keeps_def]]) (auto elim: counted_mono)
  have x: "keeps (counted lm 1) (modify (\<lambda>w. w\<lparr>rep := (rep w)\<lparr>xattrs_dropped := xattrs_dropped (rep w) + c\<rparr>\<rparr>))" for c
    by (rule counter_free_keeps) simp
  have main: "triple (counted lm 1)
      (seq (modify (\<lambda>w. w\<lparr>rep := (rep w)\<lparr>xattrs_dropped := xattrs_dropped (rep w) + count_xattrs entry\<rparr>\<rparr>)) (\<lambda>_.
       seq (dir_create (butlast comps) ?path) (\<lambda>parent.
       seq (write_node entry parent comps m ?path) (\<lambda>_.
       modify (\<lambda>w. w\<lparr>up := record_modes (kind entry) m ?path (up w),
         rep := (rep w)\<lparr>entries_written := entries_written (rep w) + 1\<rparr>, written := ?path # written w\<rparr>)))))
      (\<lambda>_. counted lm 0) (\<lambda>_. counted lm 0)" for m
    by (intro triple_seq [OF step [OF x]] triple_seq [OF step] dir_walks_counted write_node_counted last)
  have f: "triple (counted lm 1) (fail e) (\<lambda>_. counted lm 0) (\<lambda>_. counted lm 0)" for e
    by (rule triple_fail) (auto elim: counted_mono)
  show ?thesis
    unfolding write_entry_def Let_def using skip main f by (auto split: entry_type.split option.split)
qed

section \<open>Layers and the whole import\<close>

lemma apply_entry_counted: "triple (counted lm 0) (apply_entry e) (\<lambda>_. counted lm 0) (\<lambda>_. counted lm 0)"
proof (cases e)
  case (Inr entry)
  let ?seen = "\<lambda>w. counted lm 0 w \<and> entries_written (total (up w)) + entries_written (rep w) < entries_seen (up w)"
  have inc: "triple (counted lm 0) (modify (\<lambda>w. w\<lparr>up := (up w)\<lparr>entries_seen := entries_seen (up w) + 1\<rparr>\<rparr>)) (\<lambda>_. ?seen) E" for E
    by (rule triple_modify) (simp add: counted_def)
  have get: "triple ?seen (gets (\<lambda>w. (u_limits (up w), entries_seen (up w))))
      (\<lambda>x w. counted lm 0 w \<and> (snd x \<le> max_entries (fst x) \<longrightarrow> counted lm 1 w)) E" for E
    by (rule triple_gets) (auto simp: counted_def)
  have weak: "triple (counted lm 1) m (\<lambda>_. counted lm 0) (\<lambda>_. counted lm 0)" if "keeps (counted lm 1) m" for m :: "'a step"
    by (rule triple_conseq [OF that [unfolded keeps_def]]) (auto elim: counted_mono)
  have act: "triple (counted lm 1) (case plan_name (path_bytes entry) lim of
      Inl r \<Rightarrow> fail r | Inr PlanRoot \<Rightarrow> ret () | Inr (PlanOpaque parent) \<Rightarrow> opaque parent
    | Inr (PlanWhiteout parent target) \<Rightarrow> whiteout parent target
    | Inr (PlanWrite components) \<Rightarrow> write_entry entry components) (\<lambda>_. counted lm 0) (\<lambda>_. counted lm 0)" for lim
    by (auto simp del: One_nat_def split: sum.split plan.split
        intro!: weak whiteouts_counted write_entry_counted)
  have tail: "triple (\<lambda>w. counted lm 0 w \<and> (snd x \<le> max_entries (fst x) \<longrightarrow> counted lm 1 w))
     ((\<lambda>(lim, seen). if max_entries lim < seen then
              fail (LimitExceeded ''max_entries'' (max_entries lim) ''Limits::max_entries'')
            else case plan_name (path_bytes entry) lim of
                Inl r \<Rightarrow> fail r | Inr PlanRoot \<Rightarrow> ret () | Inr (PlanOpaque parent) \<Rightarrow> opaque parent
              | Inr (PlanWhiteout parent target) \<Rightarrow> whiteout parent target
              | Inr (PlanWrite components) \<Rightarrow> write_entry entry components) x)
      (\<lambda>_. counted lm 0) (\<lambda>_. counted lm 0)" for x
    unfolding case_prod_beta by (intro triple_if triple_fail triple_pre [OF act]) auto
  show ?thesis
    unfolding apply_entry_def Inr sum.case by (intro triple_seq [OF inc] triple_seq [OF get] tail)
qed (simp add: apply_entry_def triple_fail)

lemma apply_layer_summed: "keeps (summed lm) (apply_layer layer)"
proof -
  have start: "triple (summed lm) (modify (\<lambda>w. w\<lparr>rep := report_default, written := []\<rparr>)) (\<lambda>_. counted lm 0) E" for E
    by (rule triple_modify) (simp add: counted_def summed_def report_default_def)
  have stop: "triple (counted lm 0) (modify end_layer) (\<lambda>_. summed lm) E" for E
    by (rule triple_modify)
       (simp add: counted_def summed_def end_layer_def Let_def refresh_setuid_paths_def merge_report_def)
  have es: "triple (counted lm 0) (each apply_entry es) (\<lambda>_. counted lm 0) (\<lambda>_. summed lm)" for es
    by (rule triple_conseq [OF triple_each [OF apply_entry_counted]]) (auto dest: counted_summed)
  show ?thesis
    unfolding apply_layer_def keeps_def
    by (rule triple_seq [OF start], split sum.split, intro conjI allI impI)
       (auto intro!: triple_fail triple_seq [OF es] triple_seq [OF stop] triple_gets dest: counted_summed)
qed

lemma apply_deferred_summed: "keeps (summed lm) (apply_deferred modes)"
  by (induction modes rule: apply_deferred.induct)
     (auto intro!: keeps_seq keeps_attempt split: sum.split option.split refusal.split)

lemma drop_vanished_summed: "keeps (summed lm) (drop_vanished paths)"
  by (induction paths)
     (auto simp: Let_def intro!: keeps_seq keeps_attempt counter_free_keeps split: sum.split option.split refusal.split)

lemma finish_summed: "triple (summed lm) finish (\<lambda>rp w. summed lm w \<and> rp = total (up w)) (\<lambda>_. summed lm)"
proof -
  have "keeps (summed lm) settle"
    unfolding settle_def drop_vanished_special_modes_def
    by (auto intro!: keeps_seq apply_deferred_summed drop_vanished_summed modify_keeps
        simp: summed_def refresh_setuid_paths_def)
  moreover have "keeps (summed lm) (modify (\<lambda>w. w\<lparr>up := (up w)\<lparr>promoted := True\<rparr>\<rparr>))"
    by (rule counter_free_keeps) simp
  moreover have "triple (summed lm) (gets (\<lambda>w. total (up w))) (\<lambda>rp w. summed lm w \<and> rp = total (up w)) (\<lambda>_. summed lm)"
    by (simp add: triple_gets)
  ultimately show ?thesis
    unfolding finish_def case_prod_beta keeps_def
    using fs_keeps(4) [unfolded keeps_def] gets_keeps [unfolded keeps_def]
    by (intro triple_seq)
qed

lemma apply_layers_summed: "keeps (summed lm) (apply_layers ls)"
  by (induction ls) (auto intro!: keeps_seq keeps_map_fail apply_layer_summed split: option.split)

section \<open>What the host has to hold\<close>

text \<open>The names of the file system, and the bytes in files from an inode number on, unlinked or not.\<close>

definition name_count :: "host_fs \<Rightarrow> nat" where
  "name_count h = card (dom (node_at h))"

definition inode_size :: "host_fs \<Rightarrow> nat \<Rightarrow> nat" where
  "inode_size h i = (case inode_at h i of Some (_, c) \<Rightarrow> length c | None \<Rightarrow> 0)"

definition stored_since :: "nat \<Rightarrow> host_fs \<Rightarrow> nat" where
  "stored_since b h = (\<Sum>i \<in> {i \<in> dom (inode_at h). b \<le> i}. inode_size h i)"

lemma finite_names [simp]: "finite (dom (node_at h))" "finite (dom (inode_at h))"
proof -
  have "node_at h = map_of (nodes h)" "inode_at h = map_of (inodes h)"
    by (simp_all add: fun_eq_iff node_at_def inode_at_def)
  then show "finite (dom (node_at h))" "finite (dom (inode_at h))" by (simp_all add: finite_dom_map_of)
qed

lemma name_count_eq: "node_at h' = node_at h \<Longrightarrow> name_count h' = name_count h"
  by (simp add: name_count_def)

lemma name_count_put: "name_count (put_node p n h) \<le> Suc (name_count h)"
  "node_at h p \<noteq> None \<Longrightarrow> name_count (put_node p n h) = name_count h"
proof -
  have "dom (node_at (put_node p n h)) = insert p (dom (node_at h))" by (auto split: if_splits)
  then show "name_count (put_node p n h) \<le> Suc (name_count h)"
    "node_at h p \<noteq> None \<Longrightarrow> name_count (put_node p n h) = name_count h"
    by (auto simp: name_count_def card_insert_if insert_absorb)
qed

lemma name_count_del: "name_count (del_node p h) \<le> name_count h"
  unfolding name_count_def by (rule card_mono) (auto split: if_splits)

lemma name_count_rename: "name_count (rename_tree s d h) \<le> name_count h"
proof -
  let ?f = "\<lambda>p. if prefix s p then d @ drop (length s) p else p"
  have "dom (node_at (rename_tree s d h)) \<subseteq> ?f ` dom (node_at h)"
  proof
    fix p assume "p \<in> dom (node_at (rename_tree s d h))"
    then have "p \<in> fst ` set (nodes (rename_tree s d h))" by (simp add: node_at_def [abs_def] dom_map_of_conv_image_fst)
    then obtain q n where q: "(q, n) \<in> set (AList.delete d (nodes h))" "p = ?f q"
      by (auto simp: rename_tree_def)
    then have "q \<in> dom (node_at h)"
      unfolding node_at_def [abs_def] dom_map_of_conv_image_fst by (force simp: AList.delete_eq)
    with q(2) show "p \<in> ?f ` dom (node_at h)" by blast
  qed
  then show ?thesis unfolding name_count_def by (meson card_image_le card_mono finite_imageI finite_names(1) order_trans)
qed

lemma stored_eq: "inode_at h' = inode_at h \<Longrightarrow> stored_since b h' = stored_since b h"
  by (simp add: stored_since_def inode_size_def)

lemma stored_put: "stored_since b (put_inode i (m, c) h) \<le> stored_since b h + (length c - inode_size h i)"
proof -
  let ?A = "{j \<in> dom (inode_at h). b \<le> j}" and ?h = "put_inode i (m, c) h"
  have fin: "finite ?A" by simp
  have rest: "(\<Sum>j \<in> ?A - {i}. inode_size ?h j) = (\<Sum>j \<in> ?A - {i}. inode_size h j)"
    by (rule sum.cong) (auto simp: inode_size_def)
  show ?thesis
  proof (cases "b \<le> i")
    case True
    then have "{j \<in> dom (inode_at ?h). b \<le> j} = insert i (?A - {i})" by (auto split: if_splits)
    then have "stored_since b ?h = inode_size ?h i + (\<Sum>j \<in> ?A - {i}. inode_size ?h j)"
      using fin by (simp only: stored_since_def sum.insert finite_Diff Diff_iff insert_iff simp_thms)
    then have new: "stored_since b ?h = length c + (\<Sum>j \<in> ?A - {i}. inode_size h j)"
      by (simp only: rest) (simp add: inode_size_def)
    have "(\<Sum>j \<in> ?A. inode_size h j) = inode_size h i + (\<Sum>j \<in> ?A - {i}. inode_size h j)"
    proof (cases "i \<in> ?A")
      case False
      then have "inode_at h i = None" using True by auto
      then have "inode_size h i = 0" by (simp add: inode_size_def)
      with False show ?thesis by simp
    qed (simp add: sum.remove [OF fin])
    with new show ?thesis by (simp add: stored_since_def)
  next
    case False
    then have "{j \<in> dom (inode_at ?h). b \<le> j} = ?A - {i}" "?A - {i} = ?A" by (auto split: if_splits)
    then show ?thesis using rest by (simp add: stored_since_def)
  qed
qed

definition small :: "nat \<Rightarrow> nat \<Rightarrow> nat \<Rightarrow> host_fs \<Rightarrow> bool" where
  "small b N S h \<longleftrightarrow> name_count h \<le> N \<and> stored_since b h \<le> S"

lemma small_faults: "small b N S h \<Longrightarrow> small b N S (h\<lparr>faults := f\<rparr>)"
  by (simp add: small_def name_count_eq [of "h\<lparr>faults := f\<rparr>" h] stored_eq [of "h\<lparr>faults := f\<rparr>" h])

lemma small_put:
  "small b N S h \<Longrightarrow> node_at h p \<noteq> None \<Longrightarrow> small b N S (put_node p n h)"
  "small b N S h \<Longrightarrow> small b (Suc N) S (put_node p n h)"
  using name_count_put(1) [of p n h] name_count_put(2) [of h p n] stored_eq [of "put_node p n h" h b] by (auto simp: small_def)

lemma small_del: "small b N S h \<Longrightarrow> small b N S (del_node p h)"
  using name_count_del [of p h] stored_eq [of "del_node p h" h b] by (auto simp: small_def)

lemma small_put_inode:
  assumes "small b N S h" "length c \<le> inode_size h i + k"
  shows "small b N (S + k) (put_inode i (m, c) h)"
  using assms stored_put [of b i m c h] name_count_eq [of "put_inode i (m, c) h" h] by (auto simp: small_def)

lemma small_remode: "small b N S h \<Longrightarrow> inode_at h i = Some (m, c) \<Longrightarrow> small b N S (put_inode i (m', c) h)"
  using small_put_inode [of b N S h c i 0 m'] by (simp add: inode_size_def)

lemma small_rename: "small b N S h \<Longrightarrow> small b N S (rename_tree s d h)"
proof -
  assume "small b N S h"
  have "stored_since b (rename_tree s d h) = stored_since b h"
    by (rule stored_eq) (simp add: fun_eq_iff rename_tree_def inode_at_def)
  then show ?thesis using name_count_rename [of s d h] \<open>small b N S h\<close> by (simp add: small_def)
qed

text \<open>Calls that make no name and store no byte.\<close>

definition quiet :: "nat \<Rightarrow> 'a fs_call \<Rightarrow> bool" where
  "quiet b m \<longleftrightarrow> (\<forall>N S. keeps (small b N S) m)"

lemma quiet_sys_call: "(\<And>N S h. small b N S h \<Longrightarrow> small b N S (snd (f h))) \<Longrightarrow> quiet b (sys_call f)"
  unfolding quiet_def
  by (auto intro!: keepsI simp: sys_call_def small_faults split: list.split option.split)

lemma quiet_rules:
  "quiet b (ret a)" "quiet b (fail e)" "quiet b m \<Longrightarrow> quiet b (attempt m)"
  "quiet b m \<Longrightarrow> (\<And>a. quiet b (f a)) \<Longrightarrow> quiet b (seq m f)"
  "(\<And>x. x \<in> set xs \<Longrightarrow> quiet b (g x)) \<Longrightarrow> quiet b (each g xs)"
  unfolding quiet_def
  by (simp_all add: keeps_attempt keeps_seq keeps_each keepsI ret_def fail_def)

lemma quietD: "quiet b m \<Longrightarrow> small b N S h \<Longrightarrow> small b N S (snd (m h))"
  by (simp add: quiet_def keeps_snd)

lemma quiet_named: "quiet b (sys_call f) \<Longrightarrow> quiet b (named n f)"
  by (simp add: named_def quiet_rules)

lemma quiet_calls [simp]:
  "quiet b (try_clone d)" "quiet b (open_dir d n)" "quiet b (lstat d n)" "quiet b (unlink d n x)" "quiet b (entries d)"
  "quiet b (chmod d mode)" "quiet b (set_permissions i mode)" "quiet b (rename s d)" "quiet b (symlink_metadata p)" "quiet b (open_root p)"
  unfolding try_clone_def open_dir_def lstat_def unlink_def entries_def chmod_def set_permissions_def rename_def symlink_metadata_def open_root_def
  by (auto intro!: quiet_named quiet_sys_call small_put small_del small_remode small_rename simp: ret_def
      split: option.split node.split prod.split)

lemma quiet_chmod_child [simp]: "quiet b (chmod_child d n mode)"
proof -
  have "small b N S (set_mode p mode h)" if "small b N S h" for N S h p
    using that by (auto simp: set_mode_def intro!: small_put small_remode split: option.split node.split)
  then show ?thesis unfolding chmod_child_def by (auto intro!: quiet_named quiet_sys_call split: option.split)
qed

lemma quiet_remove_child [simp]: "quiet b (remove_child d n lim k)"
proof (induction "Suc (max_path_depth lim) - k" arbitrary: d n k rule: less_induct)
  case less
  show ?case
  proof (cases "max_path_depth lim < k")
    case False
    then have "quiet b (remove_child sub child lim (k + 1))" for sub child by (intro less.hyps) linarith
    then show ?thesis by (subst remove_child.simps) (auto intro!: quiet_rules split: sum.split)
  qed (subst remove_child.simps, simp add: quiet_rules)
qed

lemma quiet_prune [simp]: "quiet b (prune d pre keep lim k)"
proof (induction "Suc (max_path_depth lim) - k" arbitrary: d pre k rule: less_induct)
  case less
  show ?case
  proof (cases "max_path_depth lim < k")
    case False
    then have "quiet b (prune sub cs keep lim (k + 1))" for sub cs by (intro less.hyps) linarith
    then show ?thesis by (subst prune.simps) (auto intro!: quiet_rules simp: Let_def)
  qed (subst prune.simps, simp add: quiet_rules)
qed

text \<open>Calls that make one name if they succeed, and the one that stores bytes.\<close>

definition adding :: "nat \<Rightarrow> 'a fs_call \<Rightarrow> bool" where
  "adding b m \<longleftrightarrow> (\<forall>N S. triple (small b N S) m (\<lambda>_. small b (Suc N) S) (\<lambda>_. small b N S))"

lemma adding_sys_call:
  "(\<And>N S h. small b N S h \<Longrightarrow> case f h of (Inr a, h') \<Rightarrow> small b (Suc N) S h' | (Inl e, h') \<Rightarrow> small b N S h') \<Longrightarrow>
   adding b (sys_call f)"
  unfolding adding_def by (intro allI sys_call_frame) (auto simp: small_faults)

lemma small_new_file:
  assumes "small b N S h"
  shows "small b (Suc N) S (put_node p nd (put_inode i (m, []) (h\<lparr>next_ino := k\<rparr>)))"
proof -
  have "small b N S (h\<lparr>next_ino := k\<rparr>)"
    using assms name_count_eq [of "h\<lparr>next_ino := k\<rparr>" h] stored_eq [of "h\<lparr>next_ino := k\<rparr>" h b] by (simp add: small_def)
  then have "small b N (S + 0) (put_inode i (m, []) (h\<lparr>next_ino := k\<rparr>))" by (rule small_put_inode) simp
  then show ?thesis by (intro small_put) simp
qed

lemma adding_calls [simp]:
  "adding b (mkdir d n mode)" "adding b (create_file d n mode)" "adding b (symlink t d n)" "adding b (link_from d sd src n)"
proof -
  have n: "adding b (named n f)" if "adding b (sys_call f)" for n and f :: "'a fs_call"
    using that by (simp add: named_def) (simp add: adding_def triple_fail)
  have f: "adding b (if c then fail e else m)" if "adding b m" for c e and m :: "'a fs_call"
    using that by (simp add: adding_def triple_fail)
  show "adding b (mkdir d n mode)" unfolding mkdir_def by (intro n adding_sys_call) (auto intro: small_put)
  show "adding b (create_file d n mode)" unfolding create_file_def by (intro n adding_sys_call) (auto intro: small_new_file)
  show "adding b (symlink t d n)" unfolding symlink_def by (intro f adding_sys_call) (auto intro: small_put)
  show "adding b (link_from d sd src n)" unfolding link_from_def
    by (intro f adding_sys_call) (auto intro: small_put split: option.split)
qed

lemma write_all_small: "triple (small b N S) (write_all i bs) (\<lambda>_. small b N (S + length bs)) (\<lambda>_. small b N S)"
  unfolding write_all_def
proof (rule sys_call_frame)
  fix h assume "small b N S h"
  then show "case (case inode_at h i of None \<Rightarrow> (Inl ENOENT, h) | Some (mode, content) \<Rightarrow> (Inr (), put_inode i (mode, content @ bs) h)) of
      (Inr a, h') \<Rightarrow> small b N (S + length bs) h' | (Inl e, h') \<Rightarrow> small b N S h'"
    by (auto intro!: small_put_inode simp: inode_size_def split: option.split)
qed (simp_all add: small_faults)

section \<open>The host while layers are applied\<close>

text \<open>
  \<open>n\<close> more names can be made: every entry seen, up to \<open>max_entries\<close>, pays for as many names as a path
  may have components. What is stored is what the counters say.
\<close>

definition sized :: "nat \<Rightarrow> nat \<Rightarrow> nat \<Rightarrow> limits \<Rightarrow> nat \<Rightarrow> world \<Rightarrow> bool" where
  "sized b N S lm n w \<longleftrightarrow> u_limits (up w) = lm \<and>
     small b (N + min (entries_seen (up w)) (max_entries lm) * max_path_depth lm - n)
       (S + bytes_written (total (up w)) + bytes_written (rep w)) (fs w) \<and>
     n \<le> N + min (entries_seen (up w)) (max_entries lm) * max_path_depth lm"

lemma sized_mono: "sized b N S lm n w \<Longrightarrow> m \<le> n \<Longrightarrow> sized b N S lm m w"
  by (auto simp: sized_def small_def)

lemma sized_fs: "sized b N S lm n w \<Longrightarrow> small b (N + min (entries_seen (up w)) (max_entries lm) * max_path_depth lm - n)
    (S + bytes_written (total (up w)) + bytes_written (rep w)) h \<Longrightarrow> sized b N S lm n (w\<lparr>fs := h\<rparr>)"
  by (simp add: sized_def)

lemma quiet_on_fs: "quiet b m \<Longrightarrow> keeps (sized b N S lm n) (on_fs m)"
proof (rule keepsI)
  fix w assume m: "quiet b m" and w: "sized b N S lm n w"
  have "snd (on_fs m w) = w\<lparr>fs := snd (m (fs w))\<rparr>" by (simp add: on_fs_def split: prod.split)
  moreover have "small b (N + min (entries_seen (up w)) (max_entries lm) * max_path_depth lm - n)
    (S + bytes_written (total (up w)) + bytes_written (rep w)) (fs w)" using w by (simp add: sized_def)
  ultimately show "sized b N S lm n (snd (on_fs m w))" using sized_fs [OF w quietD [OF m]] by simp
qed

lemma quiet_keeps [simp]:
  "quiet b m \<Longrightarrow> keeps (sized b N S lm n) (io_at p m)" "quiet b m \<Longrightarrow> keeps (sized b N S lm n) (try_fs m)"
  "quiet b m \<Longrightarrow> keeps (sized b N S lm n) (map_fail g (on_fs m))"
  by (simp_all add: io_at_def try_fs_def keeps_map_fail keeps_attempt quiet_on_fs)

lemma adding_on_fs:
  assumes "adding b m"
  shows "triple (sized b N S lm (Suc n)) (on_fs m) (\<lambda>_. sized b N S lm n) (\<lambda>_. sized b N S lm (Suc n))"
  unfolding triple_def
proof (intro allI impI)
  fix w assume w: "sized b N S lm (Suc n) w"
  let ?N = "N + min (entries_seen (up w)) (max_entries lm) * max_path_depth lm"
  let ?S = "S + bytes_written (total (up w)) + bytes_written (rep w)"
  have t: "triple (small b (?N - Suc n) ?S) m (\<lambda>_. small b (Suc (?N - Suc n)) ?S) (\<lambda>_. small b (?N - Suc n) ?S)"
    using assms by (simp add: adding_def)
  obtain r h' where m: "m (fs w) = (r, h')" by force
  have "Suc (?N - Suc n) = ?N - n" using w unfolding sized_def by linarith
  then have "sized b N S lm (if isl r then Suc n else n) (w\<lparr>fs := h'\<rparr>)"
    using w m tripleD_fail [OF t, of "fs w" _ h'] tripleD [OF t, of "fs w" _ h'] by (cases r) (auto simp: sized_def)
  with m show "case on_fs m w of (Inl e, s') \<Rightarrow> sized b N S lm (Suc n) s' | (Inr a, s') \<Rightarrow> sized b N S lm n s'"
    by (cases r) (simp_all add: on_fs_def)
qed

lemma adding_steps:
  assumes "adding b m"
  shows "triple (sized b N S lm (Suc n)) (io_at p m) (\<lambda>_. sized b N S lm n) (\<lambda>_. sized b N S lm 0)"
    and "triple (sized b N S lm (Suc n)) (try_fs m) (\<lambda>r. sized b N S lm (if isl r then Suc n else n)) E"
proof -
  show "triple (sized b N S lm (Suc n)) (io_at p m) (\<lambda>_. sized b N S lm n) (\<lambda>_. sized b N S lm 0)"
    unfolding io_at_def
    by (rule triple_map_fail, rule triple_conseq [OF adding_on_fs [OF assms]]) (auto elim: sized_mono)
  show "triple (sized b N S lm (Suc n)) (try_fs m) (\<lambda>r. sized b N S lm (if isl r then Suc n else n)) E"
    unfolding try_fs_def
    by (rule triple_attempt, rule triple_conseq [OF adding_on_fs [OF assms]]) auto
qed

lemma sized_step: "keeps (sized b N S lm n) m \<Longrightarrow> triple (sized b N S lm n) m (\<lambda>_. sized b N S lm n) (\<lambda>_. sized b N S lm 0)"
  unfolding keeps_def by (erule triple_conseq) (auto elim: sized_mono)

lemma sized_spend:
  "keeps (sized b N S lm k) m \<Longrightarrow> k \<le> n \<Longrightarrow> triple (sized b N S lm n) m (\<lambda>_. sized b N S lm k) (\<lambda>_. sized b N S lm 0)"
  unfolding keeps_def by (erule triple_conseq) (auto elim: sized_mono)

lemma size_free_keeps:
  assumes "\<And>w. fs (f w) = fs w \<and> total (up (f w)) = total (up w) \<and> entries_seen (up (f w)) = entries_seen (up w) \<and>
      u_limits (up (f w)) = u_limits (up w) \<and> bytes_written (rep (f w)) = bytes_written (rep w)"
  shows "keeps (sized b N S lm n) (modify f)"
  by (rule modify_keeps) (simp add: sized_def assms)

lemma walk_step_sized: "triple (sized b N S lm (Suc n)) (walk_step e p cur name) (\<lambda>_. sized b N S lm n) (\<lambda>_. sized b N S lm 0)"
proof -
  have remake: "triple (sized b N S lm n) (remake_dir p cur name) (\<lambda>_. sized b N S lm n) (\<lambda>_. sized b N S lm 0)"
    unfolding remake_dir_def by (intro sized_step keeps_seq quiet_keeps) (simp_all add: keepsI ret_def)
  have mk: "triple (sized b N S lm (Suc n)) (try_fs (mkdir cur name DIR_MODE)) (\<lambda>_. sized b N S lm n) (\<lambda>_. sized b N S lm 0)"
    by (rule triple_post [OF adding_steps(2) [OF adding_calls(1)]]) (auto elim: sized_mono split: if_splits)
  have f: "triple (sized b N S lm (Suc n)) (fail x) Q (\<lambda>_. sized b N S lm 0)" for x and Q :: "path \<Rightarrow> world \<Rightarrow> bool"
    by (rule triple_fail) (auto elim: sized_mono)
  have r: "triple (sized b N S lm (Suc n)) (ret d) (\<lambda>_. sized b N S lm n) (\<lambda>_. sized b N S lm 0)" for d :: path
    by (rule triple_ret) (auto elim: sized_mono)
  show ?thesis
    unfolding walk_step_def
    by (intro triple_seq [OF sized_step [OF quiet_keeps(2)]] triple_seq [OF sized_step [OF quiet_keeps(3)]]
        triple_seq [OF sized_step [OF gets_keeps]] triple_seq [OF sized_step [OF quiet_keeps(1)]]
        triple_seq [OF adding_steps(1) [OF adding_calls(1)]] triple_seq [OF mk] remake triple_case_sum triple_if f r) simp_all
qed

lemma create_walk_sized:
  "triple (sized b N S lm (length comps + n)) (create_walk e cur so_far comps) (\<lambda>_. sized b N S lm n) (\<lambda>_. sized b N S lm 0)"
proof (induction e cur so_far comps rule: create_walk.induct)
  case (2 e cur so_far name comps)
  have m: "triple (sized b N S lm k) (modify (\<lambda>w. w\<lparr>written := x # written w\<rparr>)) (\<lambda>_. sized b N S lm k) (\<lambda>_. sized b N S lm 0)" for k x
    by (intro sized_step size_free_keeps) simp
  show ?case
    using 2 by (auto simp: Let_def intro!: triple_seq [OF walk_step_sized] triple_seq [OF m])
qed (simp add: triple_ret)

lemma dir_create_sized:
  "triple (sized b N S lm (length comps + n)) (dir_create comps e) (\<lambda>_. sized b N S lm n) (\<lambda>_. sized b N S lm 0)"
  unfolding dir_create_def
  by (intro triple_seq [OF sized_step [OF gets_keeps]] triple_seq [OF sized_step [OF quiet_keeps(1)]] create_walk_sized) simp

lemma existing_sized [simp]: "keeps (sized b N S lm n) (dir_existing comps e)"
proof -
  have "keeps (sized b N S lm n) (existing_walk e cur so_far comps)" for cur so_far
    by (induction e cur so_far comps rule: existing_walk.induct)
       (auto simp: Let_def intro!: keeps_seq split: sum.split)
  then show ?thesis unfolding dir_existing_def by (auto intro!: keeps_seq)
qed

lemma whiteouts_sized:
  "keeps (sized b N S lm n) (whiteout parent target)" "keeps (sized b N S lm n) (opaque parent)"
  unfolding whiteout_def opaque_def Let_def
  by (auto intro!: keeps_seq size_free_keeps split: option.split)

text \<open>The bytes that are stored are counted.\<close>

lemma write_counted_sized:
  "triple (sized b N S lm n) (seq (io_at p (write_all f buf))
      (\<lambda>_. modify (\<lambda>w. w\<lparr>rep := (rep w)\<lparr>bytes_written := bytes_written (rep w) + length buf\<rparr>\<rparr>)))
    (\<lambda>_. sized b N S lm n) (\<lambda>_. sized b N S lm n)"
  unfolding triple_def
proof (intro allI impI)
  fix w assume w: "sized b N S lm n w"
  let ?N = "N + min (entries_seen (up w)) (max_entries lm) * max_path_depth lm - n"
  let ?S = "S + bytes_written (total (up w)) + bytes_written (rep w)"
  have fs: "small b ?N ?S (fs w)" using w by (simp add: sized_def)
  obtain r h' where m: "write_all f buf (fs w) = (r, h')" by force
  show "case seq (io_at p (write_all f buf))
      (\<lambda>_. modify (\<lambda>w. w\<lparr>rep := (rep w)\<lparr>bytes_written := bytes_written (rep w) + length buf\<rparr>\<rparr>)) w of
      (Inl e, s') \<Rightarrow> sized b N S lm n s' | (Inr a, s') \<Rightarrow> sized b N S lm n s'"
  proof (cases r)
    case (Inl e)
    then have "small b ?N ?S h'" using tripleD_fail [OF write_all_small fs] m by simp
    then show ?thesis using w m Inl by (simp add: seq_def io_at_def map_fail_def on_fs_def sized_def)
  next
    case (Inr u)
    then have "small b ?N (?S + length buf) h'" using tripleD [OF write_all_small fs] m by simp
    then show ?thesis using w m Inr
      by (simp add: seq_def io_at_def map_fail_def on_fs_def modify_def sized_def add.assoc)
  qed
qed

lemma seq_assoc: "seq m (\<lambda>_. seq k f) = seq (seq m (\<lambda>_. k)) f"
  by (rule ext) (auto simp: seq_def split: prod.split sum.split)

lemma copy_bounded_sized: "keeps (sized b N S lm n) (copy_bounded bufs fails f path this)"
proof (induction bufs arbitrary: this)
  case (Cons buf bufs)
  have "keeps (sized b N S lm n) (seq (io_at path (write_all f buf))
      (\<lambda>_. seq (modify (\<lambda>w. w\<lparr>rep := (rep w)\<lparr>bytes_written := bytes_written (rep w) + length buf\<rparr>\<rparr>))
        (\<lambda>_. copy_bounded bufs fails f path (this + length buf))))"
    unfolding seq_assoc by (rule keeps_seq [OF write_counted_sized [folded keeps_def] Cons.IH])
  then show ?case by (auto simp: Let_def intro!: keeps_seq)
qed simp

lemma replacing_sized:
  assumes "adding b c"
  shows "triple (sized b N S lm (Suc n)) (replacing parent lst path c) (\<lambda>_. sized b N S lm n) (\<lambda>_. sized b N S lm 0)"
proof -
  have f: "triple (sized b N S lm (Suc n)) (fail x) Q (\<lambda>_. sized b N S lm 0)" for x and Q :: "'a \<Rightarrow> world \<Rightarrow> bool"
    by (rule triple_fail) (auto elim: sized_mono)
  have again: "triple (sized b N S lm (Suc n)) (seq (gets (\<lambda>w. u_limits (up w))) (\<lambda>lim.
             seq (io_at path (remove_child parent lst lim 0)) (\<lambda>_. io_at path c)))
           (\<lambda>_. sized b N S lm n) (\<lambda>_. sized b N S lm 0)"
    by (intro triple_seq [OF sized_step [OF gets_keeps]] triple_seq [OF sized_step [OF quiet_keeps(1)]] adding_steps(1) assms) simp
  have e: "triple (sized b N S lm (Suc n)) (if e = EEXIST then seq (gets (\<lambda>w. u_limits (up w))) (\<lambda>lim.
             seq (io_at path (remove_child parent lst lim 0)) (\<lambda>_. io_at path c))
           else fail (Io path e)) (\<lambda>_. sized b N S lm n) (\<lambda>_. sized b N S lm 0)" for e
    by (intro triple_if again f)
  show ?thesis
    unfolding replacing_def
  proof (rule triple_seq [OF adding_steps(2) [OF assms]])
    fix r :: "errno + 'a"
    show "triple (sized b N S lm (if isl r then Suc n else n)) (case r of
             Inl e \<Rightarrow> if e = EEXIST then seq (gets (\<lambda>w. u_limits (up w))) (\<lambda>lim.
                 seq (io_at path (remove_child parent lst lim 0)) (\<lambda>_. io_at path c))
               else fail (Io path e)
           | Inr a \<Rightarrow> ret a) (\<lambda>_. sized b N S lm n) (\<lambda>_. sized b N S lm 0)"
      using e by (cases r) (simp_all add: triple_ret)
  qed
qed

lemma fail_sized: "triple (sized b N S lm n) (fail x) Q (\<lambda>_. sized b N S lm 0)"
  by (rule triple_fail) (auto elim: sized_mono)

lemma ret_sized: "m \<le> n \<Longrightarrow> triple (sized b N S lm n) (ret a) (\<lambda>_. sized b N S lm m) E"
  by (rule triple_ret) (auto elim: sized_mono)

lemma hardlink_sized:
  "triple (sized b N S lm (Suc n)) (hardlink parent lst target path) (\<lambda>_. sized b N S lm n) (\<lambda>_. sized b N S lm 0)"
proof -
  have linked: "triple (sized b N S lm (Suc n)) (seq (try_fs (link_from parent d src lst)) (\<lambda>l.
                 case l of
                   Inr _ \<Rightarrow> ret ()
                 | Inl e \<Rightarrow>
                     if e = EEXIST then
                       seq (io_at path (remove_child parent lst lim 0)) (\<lambda>_.
                       io_at path (link_from parent d src lst))
                     else if e = ENOENT then fail (Malformed path (MissingTarget target))
                     else fail (Io path e))) (\<lambda>_. sized b N S lm n) (\<lambda>_. sized b N S lm 0)" for d src lim
  proof (rule triple_seq [OF adding_steps(2) [OF adding_calls(4)]])
    fix l :: "errno + unit"
    have "triple (sized b N S lm (Suc n)) (if e = EEXIST then
                       seq (io_at path (remove_child parent lst lim 0)) (\<lambda>_.
                       io_at path (link_from parent d src lst))
                     else if e = ENOENT then fail (Malformed path (MissingTarget target))
                     else fail (Io path e)) (\<lambda>_. sized b N S lm n) (\<lambda>_. sized b N S lm 0)" for e
      by (intro triple_if fail_sized triple_seq [OF sized_step [OF quiet_keeps(1)]] adding_steps(1)) simp_all
    then show "triple (sized b N S lm (if isl l then Suc n else n)) (case l of
                   Inl e \<Rightarrow>
                     if e = EEXIST then
                       seq (io_at path (remove_child parent lst lim 0)) (\<lambda>_.
                       io_at path (link_from parent d src lst))
                     else if e = ENOENT then fail (Malformed path (MissingTarget target))
                     else fail (Io path e)
                 | Inr _ \<Rightarrow> ret ()) (\<lambda>_. sized b N S lm n) (\<lambda>_. sized b N S lm 0)"
      by (cases l) (simp_all add: ret_sized)
  qed
  have found: "triple (sized b N S lm (Suc n)) (case r of
             Inl (SymlinkEscape _ _) \<Rightarrow> fail (HardlinkEscape path target)
           | Inl e \<Rightarrow> fail e
           | Inr None \<Rightarrow> fail (Malformed path (MissingTarget target))
           | Inr (Some d) \<Rightarrow> seq (try_fs (link_from parent d src lst)) (\<lambda>l.
                 case l of
                   Inr _ \<Rightarrow> ret ()
                 | Inl e \<Rightarrow>
                     if e = EEXIST then
                       seq (io_at path (remove_child parent lst lim 0)) (\<lambda>_.
                       io_at path (link_from parent d src lst))
                     else if e = ENOENT then fail (Malformed path (MissingTarget target))
                     else fail (Io path e))) (\<lambda>_. sized b N S lm n) (\<lambda>_. sized b N S lm 0)" for r src lim
    using linked fail_sized by (auto split: sum.split refusal.split option.split)
  show ?thesis
    unfolding hardlink_def
    by (intro triple_seq [OF sized_step [OF gets_keeps]] triple_case_sum fail_sized, split plan.split,
        intro conjI allI impI fail_sized triple_seq [OF sized_step [OF keeps_attempt]] found) simp
qed

lemma ensure_dir_sized:
  "triple (sized b N S lm (Suc n)) (ensure_dir parent lst path) (\<lambda>_. sized b N S lm n) (\<lambda>_. sized b N S lm 0)"
  unfolding ensure_dir_def
proof (rule triple_seq [OF adding_steps(2) [OF adding_calls(1)]])
  fix r :: "errno + unit"
  have "triple (sized b N S lm (Suc n)) (if e = EEXIST then
             seq (io_at path (lstat parent lst)) (\<lambda>st.
               if is_dir st then ret ()
               else
                 seq (gets (\<lambda>w. u_limits (up w))) (\<lambda>lim.
                 seq (io_at path (remove_child parent lst lim 0)) (\<lambda>_.
                 io_at path (mkdir parent lst O755))))
           else fail (Io path e)) (\<lambda>_. sized b N S lm n) (\<lambda>_. sized b N S lm 0)" for e
    by (intro triple_if fail_sized triple_seq [OF sized_step [OF quiet_keeps(1)]] triple_seq [OF sized_step [OF gets_keeps]]
        ret_sized adding_steps(1)) simp_all
  then show "triple (sized b N S lm (if isl r then Suc n else n)) (case r of
           Inl e \<Rightarrow>
           if e = EEXIST then
             seq (io_at path (lstat parent lst)) (\<lambda>st.
               if is_dir st then ret ()
               else
                 seq (gets (\<lambda>w. u_limits (up w))) (\<lambda>lim.
                 seq (io_at path (remove_child parent lst lim 0)) (\<lambda>_.
                 io_at path (mkdir parent lst O755))))
           else fail (Io path e)
         | Inr _ \<Rightarrow> ret ()) (\<lambda>_. sized b N S lm n) (\<lambda>_. sized b N S lm 0)"
    by (cases r) (simp_all add: ret_sized)
qed

lemma set_dir_mode_sized: "keeps (sized b N S lm n) (set_dir_mode parent lst comps m path)"
  unfolding set_dir_mode_def by (auto intro!: keeps_seq size_free_keeps quiet_keeps quiet_rules)

lemma write_node_sized:
  "triple (sized b N S lm (Suc n)) (write_node entry parent comps m path) (\<lambda>_. sized b N S lm n) (\<lambda>_. sized b N S lm 0)"
proof -
  have reg: "triple (sized b N S lm (Suc n)) (seq (replacing parent lst path (create_file parent lst md)) (\<lambda>file.
          seq (io_at path (set_permissions file md)) (\<lambda>_.
          copy_bounded (reads entry) (read_fails entry) file path 0))) (\<lambda>_. sized b N S lm n) (\<lambda>_. sized b N S lm 0)" for lst md
    by (intro triple_seq [OF replacing_sized] triple_seq [OF sized_step [OF quiet_keeps(1)]] sized_step copy_bounded_sized) simp_all
  have dir: "triple (sized b N S lm (Suc n)) (seq (ensure_dir parent lst path) (\<lambda>_. set_dir_mode parent lst comps md path))
      (\<lambda>_. sized b N S lm n) (\<lambda>_. sized b N S lm 0)" for lst md
    by (intro triple_seq [OF ensure_dir_sized] sized_step set_dir_mode_sized)
  show ?thesis
    unfolding write_node_def Let_def
    using reg dir hardlink_sized replacing_sized [OF adding_calls(3)] fail_sized
    by (auto split: entry_type.split option.split)
qed

lemma write_entry_sized:
  assumes "comps \<noteq> []"
  shows "triple (sized b N S lm (length comps)) (write_entry entry comps) (\<lambda>_. sized b N S lm 0) (\<lambda>_. sized b N S lm 0)"
proof -
  let ?path = "join comps"
  have n: "length comps = length (butlast comps) + 1" using assms by simp
  have skip: "triple (sized b N S lm k) (modify (\<lambda>w. w\<lparr>rep := (rep w)\<lparr>devices_skipped := devices_skipped (rep w) @ [?path]\<rparr>\<rparr>))
      (\<lambda>_. sized b N S lm 0) (\<lambda>_. sized b N S lm 0)" for k
    by (rule sized_spend [OF size_free_keeps]) simp_all
  have last: "triple (sized b N S lm 0) (modify (\<lambda>w. w\<lparr>up := record_modes (kind entry) m ?path (up w),
       rep := (rep w)\<lparr>entries_written := entries_written (rep w) + 1\<rparr>, written := ?path # written w\<rparr>))
      (\<lambda>_. sized b N S lm 0) (\<lambda>_. sized b N S lm 0)" for m
    by (intro sized_step size_free_keeps) simp
  have x: "keeps (sized b N S lm k) (modify (\<lambda>w. w\<lparr>rep := (rep w)\<lparr>xattrs_dropped := xattrs_dropped (rep w) + c\<rparr>\<rparr>))" for k c
    by (rule size_free_keeps) simp
  have main: "triple (sized b N S lm (length comps))
      (seq (modify (\<lambda>w. w\<lparr>rep := (rep w)\<lparr>xattrs_dropped := xattrs_dropped (rep w) + count_xattrs entry\<rparr>\<rparr>)) (\<lambda>_.
       seq (dir_create (butlast comps) ?path) (\<lambda>parent.
       seq (write_node entry parent comps m ?path) (\<lambda>_.
       modify (\<lambda>w. w\<lparr>up := record_modes (kind entry) m ?path (up w),
         rep := (rep w)\<lparr>entries_written := entries_written (rep w) + 1\<rparr>, written := ?path # written w\<rparr>)))))
      (\<lambda>_. sized b N S lm 0) (\<lambda>_. sized b N S lm 0)" for m
    by (rule triple_seq [OF sized_step [OF x]], subst (1) n)
       (intro triple_seq [OF dir_create_sized] triple_seq [OF write_node_sized [where n = 0, folded One_nat_def]] last)
  show ?thesis
    unfolding write_entry_def Let_def using skip main fail_sized by (auto split: entry_type.split option.split)
qed

lemma apply_entry_sized: "triple (sized b N S lm 0) (apply_entry e) (\<lambda>_. sized b N S lm 0) (\<lambda>_. sized b N S lm 0)"
proof (cases e)
  case (Inr entry)
  let ?paid = "\<lambda>w. sized b N S lm 0 w \<and> (entries_seen (up w) \<le> max_entries lm \<longrightarrow> sized b N S lm (max_path_depth lm) w)"
  have inc: "triple (sized b N S lm 0) (modify (\<lambda>w. w\<lparr>up := (up w)\<lparr>entries_seen := entries_seen (up w) + 1\<rparr>\<rparr>)) (\<lambda>_. ?paid) E" for E
  proof (rule triple_modify)
    fix w assume w: "sized b N S lm 0 w"
    have "min (Suc (entries_seen (up w))) (max_entries lm) =
        (if entries_seen (up w) < max_entries lm then Suc (min (entries_seen (up w)) (max_entries lm))
         else min (entries_seen (up w)) (max_entries lm))" by simp
    with w show "?paid (w\<lparr>up := (up w)\<lparr>entries_seen := entries_seen (up w) + 1\<rparr>\<rparr>)"
      by (auto simp: sized_def small_def)
  qed
  have get: "triple ?paid (gets (\<lambda>w. (u_limits (up w), entries_seen (up w))))
      (\<lambda>x w. fst x = lm \<and> sized b N S lm 0 w \<and> (snd x \<le> max_entries lm \<longrightarrow> sized b N S lm (max_path_depth lm) w)) E" for E
    by (rule triple_gets) (auto simp: sized_def)
  have tail: "triple (\<lambda>w. fst x = lm \<and> sized b N S lm 0 w \<and> (snd x \<le> max_entries lm \<longrightarrow> sized b N S lm (max_path_depth lm) w))
     ((\<lambda>(lim, seen). if max_entries lim < seen then
              fail (LimitExceeded ''max_entries'' (max_entries lim) ''Limits::max_entries'')
            else case plan_name (path_bytes entry) lim of
                Inl r \<Rightarrow> fail r | Inr PlanRoot \<Rightarrow> ret () | Inr (PlanOpaque parent) \<Rightarrow> opaque parent
              | Inr (PlanWhiteout parent target) \<Rightarrow> whiteout parent target
              | Inr (PlanWrite components) \<Rightarrow> write_entry entry components) x)
      (\<lambda>_. sized b N S lm 0) (\<lambda>_. sized b N S lm 0)" for x
  proof (cases "fst x = lm \<and> snd x \<le> max_entries lm")
    case True
    have w: "triple (sized b N S lm (max_path_depth lm)) (write_entry entry cs) (\<lambda>_. sized b N S lm 0) (\<lambda>_. sized b N S lm 0)"
      if "plan_name (path_bytes entry) lm = Inr (PlanWrite cs)" for cs
      by (rule triple_pre [OF write_entry_sized]) (use plan_write_ok [OF that] in \<open>auto elim: sized_mono\<close>)
    have q: "triple (sized b N S lm (max_path_depth lm)) m (\<lambda>_. sized b N S lm 0) (\<lambda>_. sized b N S lm 0)"
      if "keeps (sized b N S lm 0) m" for m :: "unit step"
      by (rule sized_spend [OF that]) simp
    have "triple (sized b N S lm (max_path_depth lm)) (case plan_name (path_bytes entry) lm of
                Inl r \<Rightarrow> fail r | Inr PlanRoot \<Rightarrow> ret () | Inr (PlanOpaque parent) \<Rightarrow> opaque parent
              | Inr (PlanWhiteout parent target) \<Rightarrow> whiteout parent target
              | Inr (PlanWrite components) \<Rightarrow> write_entry entry components) (\<lambda>_. sized b N S lm 0) (\<lambda>_. sized b N S lm 0)"
      by (auto split: sum.split plan.split intro: w q whiteouts_sized)
    then show ?thesis using True by (cases x) (auto elim!: triple_pre)
  next
    case False
    then show ?thesis by (cases x) (auto simp: triple_def fail_def)
  qed
  show ?thesis
    unfolding apply_entry_def Inr sum.case by (intro triple_seq [OF inc] triple_seq [OF get] tail)
qed (simp add: apply_entry_def triple_fail)

text \<open>Between layers the counters of the layer before count no more.\<close>

definition tallied :: "nat \<Rightarrow> nat \<Rightarrow> nat \<Rightarrow> limits \<Rightarrow> world \<Rightarrow> bool" where
  "tallied b N S lm w \<longleftrightarrow>
     small b (N + min (entries_seen (up w)) (max_entries lm) * max_path_depth lm) (S + bytes_written (total (up w))) (fs w)"

definition settled :: "nat \<Rightarrow> nat \<Rightarrow> nat \<Rightarrow> limits \<Rightarrow> world \<Rightarrow> bool" where
  "settled b N S lm w \<longleftrightarrow> summed lm w \<and> tallied b N S lm w"

definition within :: "nat \<Rightarrow> nat \<Rightarrow> nat \<Rightarrow> limits \<Rightarrow> world \<Rightarrow> bool" where
  "within b N S lm w \<longleftrightarrow> small b (N + max_entries lm * max_path_depth lm) (S + max_total_bytes lm) (fs w)"

lemma within_counted: "counted lm n w \<Longrightarrow> sized b N S lm 0 w \<Longrightarrow> within b N S lm w"
proof -
  assume c: "counted lm n w" and s: "sized b N S lm 0 w"
  have "min (entries_seen (up w)) (max_entries lm) * max_path_depth lm \<le> max_entries lm * max_path_depth lm"
    by (rule mult_le_mono1) simp
  with c s show ?thesis unfolding counted_def sized_def within_def small_def by linarith
qed

lemma within_settled: "settled b N S lm w \<Longrightarrow> within b N S lm w"
proof -
  assume s: "settled b N S lm w"
  then have "sized b N S lm 0 (w\<lparr>rep := report_default\<rparr>)" "counted lm 0 (w\<lparr>rep := report_default\<rparr>)"
    by (simp_all add: settled_def summed_def tallied_def counted_def sized_def report_default_def)
  then show ?thesis using within_counted [of lm 0 "w\<lparr>rep := report_default\<rparr>" b N S] by (simp add: within_def)
qed

lemma apply_layer_settled: "triple (settled b N S lm) (apply_layer layer) (\<lambda>_. settled b N S lm) (\<lambda>_. within b N S lm)"
proof -
  let ?I = "\<lambda>w. counted lm 0 w \<and> sized b N S lm 0 w"
  have start: "triple (settled b N S lm) (modify (\<lambda>w. w\<lparr>rep := report_default, written := []\<rparr>)) (\<lambda>_. ?I) E" for E
    by (rule triple_modify) (auto simp: settled_def tallied_def counted_def summed_def sized_def report_default_def)
  have stop: "triple ?I (modify end_layer) (\<lambda>_. settled b N S lm) E" for E
    by (rule triple_modify)
       (auto simp: settled_def tallied_def counted_def summed_def sized_def end_layer_def Let_def refresh_setuid_paths_def merge_report_def
         report_default_def add.assoc)
  have "triple ?I (apply_entry e) (\<lambda>_. ?I) (\<lambda>_. ?I)" for e
    by (rule triple_conj [OF triple_pre [OF apply_entry_counted] triple_pre [OF apply_entry_sized]]) simp_all
  then have es': "triple ?I (each apply_entry es) (\<lambda>_. ?I) (\<lambda>_. ?I)" for es by (rule triple_each)
  have es: "triple ?I (each apply_entry es) (\<lambda>_. ?I) (\<lambda>_. within b N S lm)" for es
    by (rule triple_conseq [OF es']) (auto intro: within_counted)
  show ?thesis
    unfolding apply_layer_def
    by (rule triple_seq [OF start], split sum.split, intro conjI allI impI)
       (auto intro!: triple_fail triple_seq [OF es] triple_seq [OF stop] triple_gets within_counted)
qed

lemma apply_layers_settled: "triple (settled b N S lm) (apply_layers ls) (\<lambda>_. settled b N S lm) (\<lambda>_. within b N S lm)"
  by (induction ls)
     (auto intro!: triple_ret triple_fail within_settled triple_seq [OF triple_map_fail [OF apply_layer_settled]] split: option.split)

text \<open>The end of an import makes nothing and stores nothing.\<close>

lemma tallied_on_fs: "quiet b m \<Longrightarrow> keeps (tallied b N S lm) (on_fs m)"
proof (rule keepsI)
  fix w assume m: "quiet b m" and w: "tallied b N S lm w"
  have "snd (on_fs m w) = w\<lparr>fs := snd (m (fs w))\<rparr>" by (simp add: on_fs_def split: prod.split)
  then show "tallied b N S lm (snd (on_fs m w))" using quietD [OF m] w by (simp add: tallied_def)
qed

lemma tallied_keeps [simp]:
  "quiet b m \<Longrightarrow> keeps (tallied b N S lm) (io_at p m)" "quiet b m \<Longrightarrow> keeps (tallied b N S lm) (try_fs m)"
  "quiet b m \<Longrightarrow> keeps (tallied b N S lm) (map_fail g (on_fs m))"
  by (simp_all add: io_at_def try_fs_def keeps_map_fail keeps_attempt tallied_on_fs)

lemma tally_free_keeps:
  assumes "\<And>w. fs (f w) = fs w \<and> bytes_written (total (up (f w))) = bytes_written (total (up w)) \<and>
    entries_seen (up (f w)) = entries_seen (up w)"
  shows "keeps (tallied b N S lm) (modify f)"
  by (rule modify_keeps) (simp add: tallied_def assms)

lemma existing_tallied [simp]: "keeps (tallied b N S lm) (dir_existing comps e)"
proof -
  have "keeps (tallied b N S lm) (existing_walk e cur so_far comps)" for cur so_far
    by (induction e cur so_far comps rule: existing_walk.induct)
       (auto simp: Let_def intro!: keeps_seq split: sum.split)
  then show ?thesis unfolding dir_existing_def by (auto intro!: keeps_seq)
qed

lemma settle_tallied: "keeps (tallied b N S lm) settle"
proof -
  have "keeps (tallied b N S lm) (apply_deferred modes)" for modes
    by (induction modes rule: apply_deferred.induct)
       (auto intro!: keeps_seq keeps_attempt split: sum.split option.split refusal.split)
  moreover have "keeps (tallied b N S lm) (drop_vanished paths)" for paths
    by (induction paths)
       (auto simp: Let_def intro!: keeps_seq keeps_attempt tally_free_keeps split: sum.split option.split refusal.split)
  ultimately show ?thesis
    unfolding settle_def drop_vanished_special_modes_def
    by (auto intro!: keeps_seq tally_free_keeps simp: refresh_setuid_paths_def)
qed

lemma finish_tallied: "keeps (tallied b N S lm) finish"
  unfolding finish_def case_prod_beta by (intro keeps_seq settle_tallied gets_keeps tallied_keeps tally_free_keeps) simp_all

lemma run_settled:
  "triple (settled b N S lm) (seq (apply_layers layers) (\<lambda>_. map_fail Refused finish))
     (\<lambda>rp w. settled b N S lm w \<and> rp = total (up w)) (\<lambda>_. within b N S lm)"
proof (rule triple_seq [OF apply_layers_settled], rule triple_map_fail)
  show "triple (settled b N S lm) finish (\<lambda>rp w. settled b N S lm w \<and> rp = total (up w)) (\<lambda>_. within b N S lm)"
  proof (rule triple_conseq)
    show "triple (settled b N S lm) finish (\<lambda>rp w. (summed lm w \<and> rp = total (up w)) \<and> tallied b N S lm w)
        (\<lambda>_ w. summed lm w \<and> tallied b N S lm w)"
      by (rule triple_conj [OF triple_pre [OF finish_summed] triple_pre [OF finish_tallied [unfolded keeps_def]]])
         (simp_all add: settled_def)
  qed (auto simp: settled_def intro: within_settled)
qed

lemma teardown_quiet: "quiet b (teardown u)"
  unfolding teardown_def by (auto intro!: quiet_rules split: sum.split)

lemma create_small: "triple (small b N S) (create dst lim pid) (\<lambda>_. small b (Suc N) S) (\<lambda>_. small b (Suc N) S)"
proof -
  let ?J = "small b (Suc N) S"
  have up: "small b N S h \<Longrightarrow> ?J h" for h by (simp add: small_def)
  have q: "triple ?J m (\<lambda>_. ?J) (\<lambda>_. ?J)" if "quiet b m" for m :: "'a fs_call"
    using that by (simp add: quiet_def keeps_def)
  have "triple ?J (open_staging dst lim stg) (\<lambda>_. ?J) (\<lambda>_. ?J)" for stg
    unfolding open_staging_def Let_def
    by (intro triple_seq [OF triple_attempt [where Q = "\<lambda>_. ?J"]] triple_case_sum q triple_fail triple_ret) simp_all
  moreover have "triple (small b N S) (map_fail f (mkdir d n mode)) (\<lambda>_. ?J) (\<lambda>_. ?J)" for f :: "errno \<Rightarrow> refusal" and d n mode
  proof (rule triple_map_fail, rule triple_conseq)
    show "triple (small b N S) (mkdir d n mode) (\<lambda>_. ?J) (\<lambda>_. small b N S)" using adding_calls(1) by (simp add: adding_def)
  qed (auto intro: up)
  moreover have "triple (small b N S) (attempt (symlink_metadata dst)) (\<lambda>_. small b N S) (\<lambda>_. ?J)"
  proof (rule triple_attempt, rule triple_conseq)
    show "triple (small b N S) (symlink_metadata dst) (\<lambda>_. small b N S) (\<lambda>_. small b N S)"
      using quiet_calls(9) by (simp add: quiet_def keeps_def)
  qed (auto intro: up)
  ultimately show ?thesis
    unfolding create_def Let_def by (auto intro!: triple_seq triple_case_sum triple_fail up)
qed

text \<open>
  C21: an import stays within its limits, on the host and in its report. Whatever the layers hold,
  whichever calls fail and whether the import is accepted or refused, all its layers together store
  at most \<open>max_total_bytes\<close> bytes in files, those they unlink again included, and make at most
  \<open>max_path_depth\<close> names for each of at most \<open>max_entries\<close> entries, besides the staging directory.
  An accepted import stores no byte that its report does not count, and the report's own counts of
  bytes and entries are within the limits.
\<close>
theorem import_within_limits:
  assumes "unpack_image dst lim pid layers h = (r, h')"
  shows "stored_since b h' \<le> stored_since b h + max_total_bytes lim \<and>
    name_count h' \<le> name_count h + 1 + max_entries lim * max_path_depth lim \<and>
    (\<forall>rp. r = Inr rp \<longrightarrow> bytes_written rp \<le> max_total_bytes lim \<and> entries_written rp \<le> max_entries lim \<and>
      stored_since b h' \<le> stored_since b h + bytes_written rp)"
proof -
  let ?m = "seq (apply_layers layers) (\<lambda>_. map_fail Refused finish)" and ?N = "Suc (name_count h)" and ?S = "stored_since b h"
  have h: "small b (name_count h) ?S h" by (simp add: small_def)
  show ?thesis
  proof (cases "create dst lim pid h")
    case (Pair c h1)
    have h1: "small b ?N ?S h1"
    proof (cases c)
      case (Inl e)
      from tripleD_fail [OF create_small h Pair [unfolded Inl]] show ?thesis .
    next
      case (Inr u)
      from tripleD [OF create_small h Pair [unfolded Inr]] show ?thesis .
    qed
    show ?thesis
    proof (cases c)
      case (Inl e)
      then show ?thesis using assms Pair h1 by (auto simp: unpack_image_def small_def)
    next
      case (Inr u)
      have u: "total u = report_default" "entries_seen u = 0" "u_limits u = lim"
        using tripleD [OF create_triple refl Pair [unfolded Inr]] by simp_all
      have start: "settled b ?N ?S lim (start_world u h1)"
        using h1 u by (simp add: settled_def summed_def tallied_def start_world_def report_default_def)
      obtain q w where q: "?m (start_world u h1) = (q, w)" by force
      have r: "r = q" "h' = drop_unpacker (up w) (fs w)" using assms Pair Inr q by (simp_all add: unpack_image_def)
      have drop: "small b A B h'" if "small b A B (fs w)" for A B
        using that quietD [OF teardown_quiet] by (simp add: r drop_unpacker_def)
      show ?thesis
      proof (cases q)
        case (Inl e)
        then have "within b ?N ?S lim w" using tripleD_fail [OF run_settled start] q by blast
        then show ?thesis using drop Inl r(1) by (fastforce simp: within_def small_def)
      next
        case (Inr rp)
        then have t: "settled b ?N ?S lim w" "rp = total (up w)" using tripleD [OF run_settled start] q by blast+
        have "within b ?N ?S lim w" by (rule within_settled [OF t(1)])
        then have "small b (?N + max_entries lim * max_path_depth lim) (?S + max_total_bytes lim) h'"
          by (intro drop) (simp add: within_def)
        moreover have "stored_since b h' \<le> ?S + bytes_written rp"
          using drop t by (fastforce simp: settled_def tallied_def small_def)
        ultimately show ?thesis using t r(1) Inr by (simp add: settled_def summed_def small_def)
      qed
    qed
  qed
qed

theorem import_within_limits_witness:
  "\<exists>rp h'. unpack_image [''home'', ''img''] limits_default 7 [planting_layer] sample_host = (Inr rp, h') \<and>
     entries_written rp \<le> 500000 \<and> stored_since 0 h' \<le> stored_since 0 sample_host + bytes_written rp"
proof -
  obtain rp h' where r: "unpack_image [''home'', ''img''] limits_default 7 [planting_layer] sample_host = (Inr rp, h')"
    using sample_import_ok by (metis isl_def old.sum.exhaust prod.collapse)
  from import_within_limits [OF r, of 0] r show ?thesis by (simp add: limits_default_def)
qed

end
