(* ===== verification/Names.thy ===== *)
theory Names
  imports Net_Addr
begin

text \<open>
  \<open>core/src/names.rs\<close>: vanity names for machines and stages, drawn from two word lists by a
  64-bit hash of the machine id, with a suffix when the name is taken.
\<close>

unbundle bit_operations_syntax

section \<open>The model\<close>

definition ADJECTIVES :: "string list" where
  "ADJECTIVES = [
    ''radiant'', ''taken'', ''ascendant'', ''lucent'', ''umbral'', ''solar'', ''arc'', ''void'',
    ''stasis'', ''strand'', ''gilded'', ''dredgen'', ''vaulted'', ''whispered'', ''hallowed'',
    ''forsaken'', ''risen'', ''fallen'', ''hive'', ''vex'', ''cabal'', ''scorn'', ''awoken'',
    ''exo'', ''cryptic'', ''splintered'', ''resilient'', ''intrepid'', ''cursed'', ''blighted'',
    ''radiolarian'', ''ionic'', ''cosmic'', ''lunar'', ''martian'', ''europan'', ''nessian'',
    ''wayward'', ''shattered'', ''resonant'']"

definition NOUNS :: "string list" where
  "NOUNS = [
    ''traveler'', ''ghost'', ''warmind'', ''sparrow'', ''gjallarhorn'', ''thunderlord'',
    ''icebreaker'', ''telesto'', ''thorn'', ''hawkmoon'', ''sunshot'', ''graviton'',
    ''riskrunner'', ''wardcliff'', ''borealis'', ''cloudstrike'', ''lament'', ''divinity'',
    ''witherhoard'', ''servitor'', ''dreg'', ''vandal'', ''captain'', ''kell'', ''archon'',
    ''ogre'', ''knight'', ''acolyte'', ''thrall'', ''wizard'', ''shrieker'', ''hydra'',
    ''minotaur'', ''goblin'', ''hobgoblin'', ''harpy'', ''cyclops'', ''colossus'', ''legionary'',
    ''phalanx'', ''psion'', ''warbeast'', ''screeb'', ''ahamkara'', ''cryptarch'', ''guardian'',
    ''saint'', ''drifter'', ''rasputin'', ''cayde'', ''ikora'', ''zavala'', ''shaxx'',
    ''osiris'', ''crota'', ''oryx'', ''savathun'', ''riven'', ''saladin'', ''efrideet'',
    ''leviathan'', ''dreadnaught'', ''cosmodrome'', ''glimmer'', ''shard'', ''relic'', ''vault'',
    ''spire'', ''wellspring'', ''gambit'', ''crucible'', ''vanguard'', ''banshee'']"

definition fnv1a :: "bytes \<Rightarrow> u64" where
  "fnv1a bs = foldl (\<lambda>hash b. (hash XOR ucast b) * 0x100000001b3) 0xcbf29ce484222325 bs"

definition mix :: "u64 \<Rightarrow> u64" where
  "mix h =
     (let h = h XOR drop_bit 33 h;
          h = h * 0xff51afd7ed558ccd;
          h = h XOR drop_bit 33 h;
          h = h * 0xc4ceb9fe1a85ec53 in
      h XOR drop_bit 33 h)"

definition base_name :: "string \<Rightarrow> string" where
  "base_name seed =
     (let h = mix (fnv1a (bytes_of seed));
          adj = ADJECTIVES ! (unat (drop_bit 32 h) mod length ADJECTIVES);
          noun = NOUNS ! (unat (h AND 0xffffffff) mod length NOUNS) in
      adj @ ''-'' @ noun)"

text \<open>\<open>{:06x}\<close>\<close>

definition hex6 :: "nat \<Rightarrow> string" where
  "hex6 n = replicate (6 - length (show_hex n)) (CHR ''0'') @ show_hex n"

definition name_fallback :: "string \<Rightarrow> string" where
  "name_fallback seed = base_name seed @ ''-'' @ hex6 (unat (fnv1a (bytes_of seed) AND 0xffffff))"

fun numbered_name :: "string \<Rightarrow> (string \<Rightarrow> bool) \<Rightarrow> nat list \<Rightarrow> string option" where
  "numbered_name base taken [] = None"
| "numbered_name base taken (n # ns) =
     (let candidate = base @ ''-'' @ show_nat n in
      if \<not> taken candidate then Some candidate else numbered_name base taken ns)"

definition unique_name :: "string \<Rightarrow> (string \<Rightarrow> bool) \<Rightarrow> string" where
  "unique_name seed taken =
     (let base = base_name seed in
      if \<not> taken base then base
      else case numbered_name base taken [2..<10] of
          Some candidate \<Rightarrow> candidate
        | None \<Rightarrow> name_fallback seed)"

section \<open>What the names are\<close>

definition handle_char :: "char \<Rightarrow> bool" where
  "handle_char c \<longleftrightarrow> is_ascii_lower c \<or> is_ascii_digit c \<or> c = CHR ''-''"

text \<open>The names tried for a seed before the fallback, in order.\<close>

definition name_candidates :: "string \<Rightarrow> string list" where
  "name_candidates seed = base_name seed # map (\<lambda>n. base_name seed @ ''-'' @ show_nat n) [2..<10]"

lemma word_lists:
  "list_all (\<lambda>w. list_all handle_char w \<and> length w \<le> 11) ADJECTIVES"
  "list_all (\<lambda>w. list_all handle_char w \<and> length w \<le> 11) NOUNS"
  "ADJECTIVES \<noteq> []" "NOUNS \<noteq> []"
  by code_simp+

lemma base_name_handle: "list_all handle_char (base_name seed) \<and> length (base_name seed) \<le> 23"
proof -
  have "list_all handle_char (ws ! (n mod length ws)) \<and> length (ws ! (n mod length ws)) \<le> 11"
    if "list_all (\<lambda>w. list_all handle_char w \<and> length w \<le> 11) ws" "ws \<noteq> []" for ws :: "string list" and n
  proof -
    have "ws ! (n mod length ws) \<in> set ws" using that(2) by (intro nth_mem) simp
    with that(1) show ?thesis by (simp add: list_all_iff)
  qed
  note w = this [OF word_lists(1,3)] this [OF word_lists(2,4)]
  have "handle_char CHR ''-''" by (simp add: handle_char_def)
  with w(1) [of "unat (drop_bit 32 (mix (fnv1a (bytes_of seed))))"]
    w(2) [of "unat (mix (fnv1a (bytes_of seed)) AND 0xffffffff)"]
  show ?thesis by (simp add: base_name_def Let_def)
qed

lemma numbered_name_eq:
  "numbered_name base taken ns = List.find (\<lambda>c. \<not> taken c) (map (\<lambda>n. base @ ''-'' @ show_nat n) ns)"
  by (induction ns) (simp_all add: Let_def)

lemma unique_name_eq:
  "unique_name seed taken =
   (case List.find (\<lambda>c. \<not> taken c) (name_candidates seed) of Some c \<Rightarrow> c | None \<Rightarrow> name_fallback seed)"
  unfolding unique_name_def name_candidates_def Let_def numbered_name_eq by simp

lemma length_show_hex: "n < 16 ^ Suc k \<Longrightarrow> length (show_hex n) \<le> Suc k"
proof (induction k arbitrary: n)
  case (Suc k)
  then have "n div 16 < 16 ^ Suc k" by (simp add: less_mult_imp_div_less)
  with Suc.IH [of "n div 16"] show ?case by (subst show_hex.simps) simp
qed (simp add: show_hex.simps)

lemma hex_digit_handle: "d < 16 \<Longrightarrow> handle_char (hex_digit d)"
  by (auto simp: handle_char_def hex_digit_def ascii_class_defs)

lemma show_hex_handle: "list_all handle_char (show_hex n)"
proof (induction n rule: show_hex.induct)
  case (1 n)
  then show ?case by (subst show_hex.simps) (simp add: hex_digit_handle)
qed

lemma hex6_handle:
  assumes "n < 2 ^ 24"
  shows "length (hex6 n) = 6 \<and> list_all handle_char (hex6 n)"
proof -
  have "length (show_hex n) \<le> 6" using length_show_hex [of n 5] assms by simp
  moreover have "handle_char CHR ''0''" by code_simp
  ultimately show ?thesis using show_hex_handle [of n] by (auto simp: hex6_def list_all_iff)
qed

lemma show_nat_handle: "list_all handle_char (show_nat n)"
  using show_nat_digits [of n] by (auto simp: list_all_iff handle_char_def)

text \<open>
  A vanity name is always a usable handle: lower-case letters, digits and hyphens, at most
  thirty characters. It is the first of the nine candidates that is not taken, and so it is
  not taken whenever one of them is free.
\<close>
theorem unique_name_spec:
  "list_all handle_char (unique_name seed taken) \<and> length (unique_name seed taken) \<le> 30 \<and>
   (\<forall>i < length (name_candidates seed). \<not> taken (name_candidates seed ! i) \<longrightarrow>
      \<not> taken (unique_name seed taken) \<and>
      (\<exists>j \<le> i. unique_name seed taken = name_candidates seed ! j))"
proof -
  have cand: "list_all handle_char c \<and> length c \<le> 30" if "c \<in> set (name_candidates seed)" for c
  proof -
    have "length (show_nat n) = 1" if "n \<in> {2..<10}" for n using that by (subst show_nat.simps) simp
    with that base_name_handle [of seed] show_nat_handle show ?thesis
      by (auto simp: name_candidates_def handle_char_def)
  qed
  have "fnv1a (bytes_of seed) AND 0xffffff = take_bit 24 (fnv1a (bytes_of seed))"
    by (simp add: take_bit_eq_mask mask_eq_exp_minus_1)
  then have "unat (fnv1a (bytes_of seed) AND 0xffffff) < 2 ^ 24"
    by (simp only: unsigned_take_bit_eq take_bit_nat_less_exp)
  then have fall: "list_all handle_char (name_fallback seed) \<and> length (name_fallback seed) \<le> 30"
    using base_name_handle [of seed] hex6_handle by (auto simp: name_fallback_def handle_char_def)
  show ?thesis
  proof (cases "List.find (\<lambda>c. \<not> taken c) (name_candidates seed)")
    case None
    then have "taken (name_candidates seed ! i)" if "i < length (name_candidates seed)" for i
      using that by (auto simp: find_None_iff)
    then show ?thesis using fall None by (auto simp: unique_name_eq)
  next
    case (Some c)
    then obtain j where j: "j < length (name_candidates seed)" "\<not> taken c" "c = name_candidates seed ! j"
      "\<forall>i < j. taken (name_candidates seed ! i)"
      by (auto simp: find_Some_iff)
    then have "j \<le> i" if "\<not> taken (name_candidates seed ! i)" for i using that by (meson not_le)
    moreover have "unique_name seed taken = c" using Some by (simp add: unique_name_eq)
    moreover have "c \<in> set (name_candidates seed)" using j by simp
    ultimately show ?thesis using cand [of c] j by blast
  qed
qed

theorem unique_name_spec_witness:
  "unique_name ''dev-00000001'' (\<lambda>n. n = base_name ''dev-00000001'') \<noteq> base_name ''dev-00000001''"
proof -
  let ?c = "name_candidates ''dev-00000001''" and ?b = "base_name ''dev-00000001''"
  have "1 < length ?c" "?c ! 1 \<noteq> ?b" by (simp_all add: name_candidates_def)
  with unique_name_spec [of "''dev-00000001''" "\<lambda>n. n = ?b"] show ?thesis by blast
qed

text \<open>
  The suffix of last resort is twenty-four bits of the hash, so two machine ids can share it
  and their base name.
\<close>

lemma sample_hashes:
  "fnv1a (bytes_of ''dev-00007195'') = 17426255690212658781" "fnv1a (bytes_of ''dev-0000e2d3'') = 4691858994464116317"
  by (simp_all add: fnv1a_def bytes_of_def char_byte_def code_def)

lemma sample_mixes: "mix 17426255690212658781 = 4180645267141814637" "mix 4691858994464116317 = 11554964786550644563"
  by (simp_all add: mix_def Let_def)

lemma fallback_collides: "name_fallback ''dev-00007195'' = name_fallback ''dev-0000e2d3''"
proof -
  have "base_name ''dev-00007195'' = ''stasis-gambit''" "base_name ''dev-0000e2d3'' = ''stasis-gambit''"
    unfolding base_name_def Let_def sample_hashes sample_mixes
    by (simp_all add: ADJECTIVES_def NOUNS_def)
  moreover have "fnv1a (bytes_of ''dev-00007195'') AND 0xffffff = fnv1a (bytes_of ''dev-0000e2d3'') AND 0xffffff"
    unfolding sample_hashes by simp
  ultimately show ?thesis by (simp only: name_fallback_def)
qed

end
