(* ===== verification/Stage.thy ===== *)
theory Stage
  imports Names Effects "HOL-Library.AList" "HOL-Library.List_Lexorder" "HOL-Library.Char_ord"
    "HOL-Library.Product_Lexorder" "HOL-Library.Sublist"
begin

text \<open>
  \<open>core/src/stage.rs\<close>: the content-addressed store of stages, frozen layers that later runs
  fork. The store is the directories below its root, each with the two files a stage has and
  their \<open>.partial\<close> siblings; the digest is a parameter, as are the moments at which a call of
  the operating system fails.
\<close>

section \<open>Bases and metadata\<close>

definition MAX_CHAIN_DEPTH :: nat where "MAX_CHAIN_DEPTH = 10"

definition LAYER_FILE :: string where "LAYER_FILE = ''layer.ext4''"

record base_id =
  flavor :: string
  sha256 :: "string option"

text \<open>Of a message, the stage it names and the chain it was reached through.\<close>

datatype base_note = About string | ReachedThrough base_note string

datatype base_check =
    BaseOk | Unverifiable base_note | RebuiltBase base_note | WrongFlavor base_note

fun message :: "base_check \<Rightarrow> base_note option" where
  "message BaseOk = None"
| "message (Unverifiable m) = Some m"
| "message (RebuiltBase m) = Some m"
| "message (WrongFlavor m) = Some m"

fun is_fatal :: "base_check \<Rightarrow> bool" where
  "is_fatal (WrongFlavor _) = True"
| "is_fatal _ = False"

record stage_meta =
  stage_id :: string
  vanity :: string
  label :: string
  parent :: "string option"
  chain :: "string list"
  base :: string
  base_sha256 :: "string option"
  created_unix :: nat
  bytes_apparent :: nat
  bytes_allocated :: nat

definition non_empty :: "string option \<Rightarrow> string option" where
  "non_empty sha = (case map_option trim sha of Some [] \<Rightarrow> None | s \<Rightarrow> s)"

definition check_base :: "stage_meta \<Rightarrow> base_id \<Rightarrow> base_check" where
  "check_base stage current =
     (if base stage \<noteq> flavor current then WrongFlavor (About (stage_id stage))
      else case non_empty (base_sha256 stage) of
          None \<Rightarrow> BaseOk
        | Some stamped \<Rightarrow>
           (case non_empty (sha256 current) of
              None \<Rightarrow> Unverifiable (About (stage_id stage))
            | Some present \<Rightarrow>
                if stamped = present then BaseOk else RebuiltBase (About (stage_id stage))))"

section \<open>The store\<close>

text \<open>\<open>meta.json\<close> as a reader finds it, and a layer file with its mode.\<close>

datatype meta_file = Readable stage_meta | Corrupt

record stage_dir =
  layer :: "(bytes \<times> u32) option"
  layer_partial :: "(bytes \<times> u32) option"
  meta :: "meta_file option"
  meta_partial :: bool

definition empty_dir :: stage_dir where
  "empty_dir = \<lparr>layer = None, layer_partial = None, meta = None, meta_partial = False\<rparr>"

type_synonym stage_store = "(string \<times> stage_dir) list"

text \<open>The calls of a commit that may fail, in order.\<close>

datatype commit_io =
    ScanLabels | ScanNames | MakeDir | CopyLayer | FreezeLayer | RenameLayer | StatLayer
  | WriteMeta | RenameMeta

datatype stage_error =
    EmptyLabel | HashFailed | MetaUnreadable string | LabelTaken stage_meta | SameContent stage_meta
  | ParentNotFound string | BaseRefused base_check | ChainTooDeep nat | IoFailed commit_io
  | EmptyReference | ScanFailed | NoMatch nat | Ambiguous string "(string \<times> string) list"
  | StillReferenced "(string \<times> string) list" | RemoveFailed
  | EmptyChain | MalformedChain | LayerMissing string

definition get_by_id_in :: "stage_store \<Rightarrow> string \<Rightarrow> stage_error + stage_meta option" where
  "get_by_id_in s sid =
     (case map_of s sid of
        None \<Rightarrow> Inr None
      | Some d \<Rightarrow>
         (case meta d of
            None \<Rightarrow> Inr None
          | Some Corrupt \<Rightarrow> Inl (MetaUnreadable sid)
          | Some (Readable m) \<Rightarrow> Inr (Some m)))"

definition listed :: "stage_dir \<Rightarrow> stage_meta list" where
  "listed d = (case meta d of Some (Readable m) \<Rightarrow> [m] | _ \<Rightarrow> [])"

definition list_in :: "stage_store \<Rightarrow> stage_meta list" where
  "list_in s = sort_key (\<lambda>m. (created_unix m, stage_id m)) (concat (map (listed \<circ> snd) s))"

definition stage_id_for :: "(bytes \<Rightarrow> string) \<Rightarrow> bytes \<Rightarrow> string" where
  "stage_id_for blake3_hex bs = ''st-'' @ take 16 (blake3_hex bs)"

section \<open>Resolving, checking and removing\<close>

definition mentioned :: "stage_meta \<Rightarrow> string \<times> string" where
  "mentioned m = (stage_id m, label m)"

definition resolve_among :: "stage_meta list \<Rightarrow> string \<Rightarrow> stage_error + stage_meta" where
  "resolve_among stages reference =
     (case List.find (\<lambda>m. stage_id m = reference) stages of
        Some m \<Rightarrow> Inr m
      | None \<Rightarrow>
         (case filter (\<lambda>m. vanity m = reference) stages of
            [m] \<Rightarrow> Inr m
          | m # n # ms \<Rightarrow> Inl (Ambiguous ''name'' (map mentioned (m # n # ms)))
          | [] \<Rightarrow>
             (case filter (\<lambda>m. label m = reference) stages of
                [m] \<Rightarrow> Inr m
              | m # n # ms \<Rightarrow> Inl (Ambiguous ''label'' (map mentioned (m # n # ms)))
              | [] \<Rightarrow>
                 (case filter (\<lambda>m. starts_with reference (label m)) stages of
                    [] \<Rightarrow> Inl (NoMatch (length stages))
                  | [m] \<Rightarrow> Inr m
                  | ms \<Rightarrow> Inl (Ambiguous ''label prefix'' (map mentioned ms))))))"

definition resolve_in :: "stage_store \<Rightarrow> string \<Rightarrow> stage_error + stage_meta" where
  "resolve_in s reference =
     (if trim reference = [] then Inl EmptyReference else resolve_among (list_in s) reference)"

definition referencing :: "stage_store \<Rightarrow> stage_meta \<Rightarrow> stage_meta list" where
  "referencing s target =
     filter (\<lambda>m. stage_id m \<noteq> stage_id target \<and> stage_id target \<in> set (chain m)) (list_in s)"

text \<open>\<open>remove_dir_all\<close>: everything goes, or some of it and then an error.\<close>

datatype removal = Gone | Stuck stage_dir

definition remove_in :: "removal \<Rightarrow> string \<Rightarrow> (stage_store, stage_error, stage_meta) comp" where
  "remove_in rm reference s =
     (case resolve_in s reference of
        Inl e \<Rightarrow> (Inl e, s)
      | Inr target \<Rightarrow>
          if referencing s target \<noteq> [] then (Inl (StillReferenced (map mentioned (referencing s target))), s)
          else case rm of
              Gone \<Rightarrow> (Inr target, AList.delete (stage_id target) s)
            | Stuck d \<Rightarrow> (Inl RemoveFailed, AList.map_entry (stage_id target) (\<lambda>_. d) s))"

fun rank :: "base_check \<Rightarrow> nat" where
  "rank BaseOk = 0"
| "rank (Unverifiable _) = 1"
| "rank (RebuiltBase _) = 2"
| "rank (WrongFlavor _) = 3"

definition worse :: "base_check \<Rightarrow> base_check \<Rightarrow> base_check" where
  "worse worst v = (if rank worst < rank v then v else worst)"

fun check_links :: "stage_store \<Rightarrow> stage_meta \<Rightarrow> base_id \<Rightarrow> base_check \<Rightarrow> string list \<Rightarrow> stage_error + base_check" where
  "check_links s stage current worst [] = Inr worst"
| "check_links s stage current worst (sid # sids) =
     (if sid = stage_id stage then check_links s stage current (worse worst (check_base stage current)) sids
      else case get_by_id_in s sid of
          Inl e \<Rightarrow> Inl e
        | Inr (Some m) \<Rightarrow> check_links s stage current (worse worst (check_base m current)) sids
        | Inr None \<Rightarrow>
            check_links s stage current (worse worst (Unverifiable (About (stage_id stage)))) sids)"

definition annotate :: "stage_meta \<Rightarrow> base_check \<Rightarrow> base_check" where
  "annotate stage worst =
     (if 1 < length (chain stage) then
        (case worst of
           BaseOk \<Rightarrow> BaseOk
         | Unverifiable m \<Rightarrow> Unverifiable (ReachedThrough m (stage_id stage))
         | RebuiltBase m \<Rightarrow> RebuiltBase (ReachedThrough m (stage_id stage))
         | WrongFlavor m \<Rightarrow> WrongFlavor (ReachedThrough m (stage_id stage)))
      else worst)"

definition check_base_chain_in :: "stage_store \<Rightarrow> stage_meta \<Rightarrow> base_id \<Rightarrow> stage_error + base_check" where
  "check_base_chain_in s stage current =
     map_sum id (annotate stage) (check_links s stage current BaseOk (chain stage))"

fun layer_paths :: "stage_store \<Rightarrow> string list \<Rightarrow> stage_error + (string \<times> string) list" where
  "layer_paths s [] = Inr []"
| "layer_paths s (sid # sids) =
     (case map_of s sid of
        Some d \<Rightarrow>
          if layer d = None then Inl (LayerMissing sid)
          else map_sum id ((#) (sid, LAYER_FILE)) (layer_paths s sids)
      | None \<Rightarrow> Inl (LayerMissing sid))"

definition chain_paths_in :: "stage_store \<Rightarrow> stage_meta \<Rightarrow> stage_error + (string \<times> string) list" where
  "chain_paths_in s stage =
     (if chain stage = [] then Inl EmptyChain
      else if MAX_CHAIN_DEPTH < length (chain stage) then Inl (ChainTooDeep (length (chain stage)))
      else if last (chain stage) \<noteq> stage_id stage then Inl MalformedChain
      else layer_paths s (chain stage))"

section \<open>Committing\<close>

record commit_env =
  scratch :: "bytes option"
  fault :: "commit_io option"
  copy_mode :: u32
  torn_copy :: "bytes"
  now_unix :: nat
  blocks :: "bytes \<Rightarrow> nat"

text \<open>What the store already knows of the content and the label; \<^const>\<open>None\<close>: nothing.\<close>

definition commit_lookup ::
  "commit_env \<Rightarrow> stage_store \<Rightarrow> string \<Rightarrow> string \<Rightarrow> stage_error + stage_meta option" where
  "commit_lookup env s sid lbl =
     try_bind (get_by_id_in s sid) (\<lambda>by_id.
     if fault env = Some ScanLabels then Inl ScanFailed
     else case (by_id, List.find (\<lambda>m. label m = lbl) (list_in s)) of
         (Some existing, Some same) \<Rightarrow>
           if stage_id existing = stage_id same then Inr (Some existing) else Inl (LabelTaken same)
       | (None, Some clash) \<Rightarrow> Inl (LabelTaken clash)
       | (Some existing, None) \<Rightarrow> Inl (SameContent existing)
       | (None, None) \<Rightarrow> Inr None)"

definition commit_parent ::
  "stage_store \<Rightarrow> string option \<Rightarrow> base_id \<Rightarrow> bool \<Rightarrow> stage_error + (string option \<times> string list)" where
  "commit_parent s par bid allow_base_skew =
     (case par of
        None \<Rightarrow> Inr (None, [])
      | Some pid \<Rightarrow>
          try_bind (get_by_id_in s pid) (\<lambda>pm.
          case pm of
            None \<Rightarrow> Inl (ParentNotFound pid)
          | Some pmeta \<Rightarrow>
              try_bind (check_base_chain_in s pmeta bid) (\<lambda>v.
              case v of
                BaseOk \<Rightarrow> Inr (Some (stage_id pmeta), chain pmeta)
              | Unverifiable _ \<Rightarrow> Inr (Some (stage_id pmeta), chain pmeta)
              | WrongFlavor _ \<Rightarrow> Inl (BaseRefused v)
              | RebuiltBase _ \<Rightarrow>
                  if allow_base_skew then Inr (Some (stage_id pmeta), chain pmeta) else Inl (BaseRefused v))))"

text \<open>One call of the operating system.\<close>

definition io :: "commit_env \<Rightarrow> commit_io \<Rightarrow> (stage_store \<Rightarrow> stage_store) \<Rightarrow> (stage_store, stage_error, unit) comp" where
  "io env k f = (if fault env = Some k then fail (IoFailed k) else modify f)"

definition in_dir :: "string \<Rightarrow> (stage_dir \<Rightarrow> stage_dir) \<Rightarrow> stage_store \<Rightarrow> stage_store" where
  "in_dir sid f = AList.map_entry sid f"

definition create_dir :: "string \<Rightarrow> stage_store \<Rightarrow> stage_store" where
  "create_dir sid s = (if map_of s sid = None then s @ [(sid, empty_dir)] else s)"

definition sparse_copy :: "commit_env \<Rightarrow> string \<Rightarrow> bytes \<Rightarrow> (stage_store, stage_error, unit) comp" where
  "sparse_copy env sid bs =
     (if fault env = Some CopyLayer
      then seq (modify (in_dir sid (\<lambda>d. d\<lparr>layer_partial := Some (torn_copy env, copy_mode env)\<rparr>)))
             (\<lambda>_. fail (IoFailed CopyLayer))
      else modify (in_dir sid (\<lambda>d. d\<lparr>layer_partial := Some (bs, copy_mode env)\<rparr>)))"

definition write_meta :: "commit_env \<Rightarrow> string \<Rightarrow> stage_meta \<Rightarrow> (stage_store, stage_error, unit) comp" where
  "write_meta env sid m =
     seq (io env WriteMeta (in_dir sid (\<lambda>d. d\<lparr>meta_partial := True\<rparr>))) (\<lambda>_.
     io env RenameMeta (in_dir sid (\<lambda>d. d\<lparr>meta := Some (Readable m), meta_partial := False\<rparr>)))"

definition freeze :: "(bytes \<times> u32) option \<Rightarrow> (bytes \<times> u32) option" where
  "freeze = map_option (\<lambda>(bs, _). (bs, 0x124))"

definition write_layer :: "commit_env \<Rightarrow> string \<Rightarrow> bytes \<Rightarrow> (stage_store, stage_error, unit) comp" where
  "write_layer env sid bs =
     seq (io env MakeDir (create_dir sid)) (\<lambda>_.
     seq (sparse_copy env sid bs) (\<lambda>_.
     seq (io env FreezeLayer (in_dir sid (\<lambda>d. d\<lparr>layer_partial := freeze (layer_partial d)\<rparr>))) (\<lambda>_.
     seq (io env RenameLayer (in_dir sid (\<lambda>d. d\<lparr>layer := layer_partial d, layer_partial := None\<rparr>))) (\<lambda>_.
     io env StatLayer id))))"

definition commit_new ::
  "commit_env \<Rightarrow> bytes \<Rightarrow> string \<Rightarrow> string \<Rightarrow> string option \<times> string list \<Rightarrow> base_id \<Rightarrow>
   (stage_store, stage_error, stage_meta) comp" where
  "commit_new env bs sid lbl lineage bid s =
     (let ch = snd lineage @ [sid] in
      if MAX_CHAIN_DEPTH < length ch then (Inl (ChainTooDeep (length ch)), s)
      else if fault env = Some ScanNames then (Inl ScanFailed, s)
      else
        let name = unique_name sid (\<lambda>n. n \<in> vanity ` set (list_in s));
            m = \<lparr>stage_id = sid, vanity = name, label = lbl, parent = fst lineage, chain = ch,
                 base = flavor bid, base_sha256 = sha256 bid, created_unix = now_unix env,
                 bytes_apparent = length bs, bytes_allocated = blocks env bs * 512\<rparr> in
        seq (write_layer env sid bs) (\<lambda>_. seq (write_meta env sid m) (\<lambda>_. ret m)) s)"

definition commit_in ::
  "(bytes \<Rightarrow> string) \<Rightarrow> commit_env \<Rightarrow> string \<Rightarrow> string option \<Rightarrow> base_id \<Rightarrow> bool \<Rightarrow> (stage_store, stage_error, stage_meta) comp" where
  "commit_in blake3_hex env lbl par bid allow_base_skew s =
     (if trim lbl = [] then (Inl EmptyLabel, s)
      else case scratch env of
          None \<Rightarrow> (Inl HashFailed, s)
        | Some bs \<Rightarrow>
           (let sid = stage_id_for blake3_hex bs in
            case commit_lookup env s sid lbl of
              Inl e \<Rightarrow> (Inl e, s)
            | Inr (Some existing) \<Rightarrow> (Inr existing, s)
            | Inr None \<Rightarrow>
               (case commit_parent s par bid allow_base_skew of
                  Inl e \<Rightarrow> (Inl e, s)
                | Inr lineage \<Rightarrow> commit_new env bs sid lbl lineage bid s)))"

end
