(* ===== verification/Stage_Store.thy ===== *)
theory Stage_Store
  imports Stage
begin

text \<open>
  The store of stages stays sound: whatever is committed and removed, and at whatever call a
  commit fails or is killed, every listed stage is content-addressed, its chain is the chain of
  its parent and itself, all built over one base, and labels are unambiguous.
\<close>

section \<open>The invariant of the store\<close>

declare map_of_eq_Some_iff [simp del]

definition meta_at :: "stage_store \<Rightarrow> string \<Rightarrow> stage_meta option" where
  "meta_at s q =
     (case map_of s q of Some d \<Rightarrow> (case meta d of Some (Readable m) \<Rightarrow> Some m | _ \<Rightarrow> None) | None \<Rightarrow> None)"

text \<open>A stage among the others: its chain is the chain of its parent and itself.\<close>

definition stage_ok :: "(string \<Rightarrow> stage_meta option) \<Rightarrow> string \<Rightarrow> stage_meta \<Rightarrow> bool" where
  "stage_ok M q m \<longleftrightarrow>
     stage_id m = q \<and> starts_with ''st-'' q \<and> trim (label m) \<noteq> [] \<and> chain m \<noteq> [] \<and> last (chain m) = q \<and>
     length (chain m) \<le> MAX_CHAIN_DEPTH \<and> distinct (chain m) \<and>
     parent m = (if butlast (chain m) = [] then None else Some (last (butlast (chain m)))) \<and>
     (\<forall>c \<in> set (butlast (chain m)). \<exists>a. M c = Some a \<and> base a = base m \<and> prefix (chain a) (chain m))"

definition metas_ok :: "(string \<Rightarrow> stage_meta option) \<Rightarrow> bool" where
  "metas_ok M \<longleftrightarrow>
     (\<forall>q m. M q = Some m \<longrightarrow> stage_ok M q m) \<and>
     (\<forall>q m r n. M q = Some m \<and> M r = Some n \<and> label m = label n \<longrightarrow> q = r)"

text \<open>Every completed layer is read-only and has the content its directory is named after.\<close>

definition layers_ok :: "(bytes \<Rightarrow> string) \<Rightarrow> stage_store \<Rightarrow> bool" where
  "layers_ok H s \<longleftrightarrow>
     (\<forall>q d bs md. map_of s q = Some d \<and> layer d = Some (bs, md) \<longrightarrow> stage_id_for H bs = q \<and> md = 0x124)"

definition store_ok :: "(bytes \<Rightarrow> string) \<Rightarrow> stage_store \<Rightarrow> bool" where
  "store_ok H s \<longleftrightarrow>
     distinct (map fst s) \<and> layers_ok H s \<and> (\<forall>q d. map_of s q = Some d \<longrightarrow> meta d \<noteq> Some Corrupt) \<and>
     metas_ok (meta_at s)"

text \<open>Every stage has its layer.\<close>

definition intact :: "stage_store \<Rightarrow> bool" where
  "intact s \<longleftrightarrow> (\<forall>q m. meta_at s q = Some m \<longrightarrow> (\<exists>d f. map_of s q = Some d \<and> layer d = Some f))"

lemma meta_at_iff: "meta_at s q = Some m \<longleftrightarrow> (\<exists>d. map_of s q = Some d \<and> meta d = Some (Readable m))"
  by (auto simp: meta_at_def split: option.split meta_file.split)

lemma list_in_iff: "distinct (map fst s) \<Longrightarrow> m \<in> set (list_in s) \<longleftrightarrow> (\<exists>q. meta_at s q = Some m)"
proof -
  assume d: "distinct (map fst s)"
  have "m \<in> set (list_in s) \<longleftrightarrow> (\<exists>q d. (q, d) \<in> set s \<and> meta d = Some (Readable m))"
    by (force simp: list_in_def listed_def split: option.splits meta_file.splits)
  also have "\<dots> \<longleftrightarrow> (\<exists>q d. map_of s q = Some d \<and> meta d = Some (Readable m))"
    using map_of_eq_Some_iff [OF d] by simp
  finally show ?thesis by (simp add: meta_at_iff)
qed

lemma get_by_id_ok:
  "store_ok H s \<Longrightarrow> get_by_id_in s q = Inr (meta_at s q)"
  by (auto simp: store_ok_def get_by_id_in_def meta_at_def split: option.splits meta_file.splits)

lemma metas_okD: "metas_ok M \<Longrightarrow> M q = Some m \<Longrightarrow> stage_ok M q m"
  by (simp add: metas_ok_def)

lemma stage_ok_tip: "stage_ok M q m \<Longrightarrow> butlast (chain m) @ [q] = chain m"
  unfolding stage_ok_def by (metis append_butlast_last_id)

lemma in_chain:
  assumes "metas_ok M" "M q = Some m" "c \<in> set (chain m)"
  obtains a where "M c = Some a" "base a = base m" "prefix (chain a) (chain m)"
proof -
  have ok: "stage_ok M q m" by (rule metas_okD [OF assms(1,2)])
  show ?thesis
  proof (cases "c = q")
    case True
    then show ?thesis using assms(2) that [of m] by simp
  next
    case False
    then have "c \<in> set (butlast (chain m))" 
      using assms(3) arg_cong [OF stage_ok_tip [OF ok], of set] by auto
    then show ?thesis using ok that by (auto simp: stage_ok_def)
  qed
qed

text \<open>A new stage on top of a chain.\<close>

lemma stage_ok_mono:
  assumes "stage_ok M q m" "\<And>c a. c \<in> set (butlast (chain m)) \<Longrightarrow> M c = Some a \<Longrightarrow> M' c = Some a"
  shows "stage_ok M' q m"
  using assms unfolding stage_ok_def by (auto 4 4)

lemma metas_ok_add:
  assumes "metas_ok M" "M q = None" "stage_ok (M(q \<mapsto> m)) q m" "\<And>r n. M r = Some n \<Longrightarrow> label n \<noteq> label m"
  shows "metas_ok (M(q \<mapsto> m))"
proof -
  have "stage_ok (M(q \<mapsto> m)) r n" if "M r = Some n" for r n
    by (rule stage_ok_mono [OF metas_okD [OF assms(1) that]]) (use assms(2) in auto)
  moreover have "r = r'" if "M r = Some n" "M r' = Some n'" "label n = label n'" for r r' n n'
    using assms(1) that by (simp add: metas_ok_def)
  ultimately show ?thesis using assms(3) assms(4) by (auto simp: metas_ok_def) metis+
qed

lemma metas_ok_drop:
  assumes "metas_ok M" "\<And>r n. M r = Some n \<Longrightarrow> r \<noteq> q \<Longrightarrow> q \<notin> set (chain n)"
  shows "metas_ok (M(q := None))"
proof -
  have "stage_ok (M(q := None)) r n" if "M r = Some n" "r \<noteq> q" for r n
    by (rule stage_ok_mono [OF metas_okD [OF assms(1) that(1)]]) (use assms(2) [OF that] in \<open>auto dest: in_set_butlastD\<close>)
  then show ?thesis using assms(1) by (auto simp: metas_ok_def split: if_splits)
qed

section \<open>The verdict on a chain\<close>

definition link_check :: "stage_store \<Rightarrow> stage_meta \<Rightarrow> base_id \<Rightarrow> string \<Rightarrow> base_check" where
  "link_check s stage current sid =
     (if sid = stage_id stage then check_base stage current
      else case meta_at s sid of
          Some m \<Rightarrow> check_base m current
        | None \<Rightarrow> Unverifiable (About (stage_id stage)))"

lemma check_links_eq:
  "store_ok H s \<Longrightarrow>
   check_links s stage current worst sids = Inr (foldl worse worst (map (link_check s stage current) sids))"
  by (induction sids arbitrary: worst) (auto simp: get_by_id_ok link_check_def split: option.split)

lemma rank_worse: "rank (worse v w) = max (rank v) (rank w)"
  by (simp add: worse_def)

lemma rank_foldl_worse: "rank (foldl worse w vs) = Max (insert (rank w) (rank ` set vs))"
proof (induction vs arbitrary: w)
  case (Cons v vs)
  have "Max (insert (max (rank w) (rank v)) (rank ` set vs)) = Max (insert (rank w) (insert (rank v) (rank ` set vs)))"
    by (cases "vs = []") (simp_all add: max.assoc)
  then show ?case by (simp add: Cons.IH rank_worse)
qed simp

lemma rank_annotate [simp]: "rank (annotate stage v) = rank v"
  by (simp add: annotate_def split: base_check.split)

lemma check_base_chain_rank:
  assumes "store_ok H s" "check_base_chain_in s stage current = Inr v" "c \<in> set (chain stage)"
  shows "rank (link_check s stage current c) \<le> rank v"
proof -
  have "rank v = Max (insert 0 (rank ` link_check s stage current ` set (chain stage)))"
    using assms(2) by (auto simp: check_base_chain_in_def check_links_eq [OF assms(1)] rank_foldl_worse)
  with assms(3) show ?thesis by simp
qed

lemma check_base_rank:
  "rank (check_base m bid) < 3 \<longleftrightarrow> base m = flavor bid"
  "rank (check_base m bid) < 2 \<longleftrightarrow> base m = flavor bid \<and>
     (non_empty (base_sha256 m) = None \<or> non_empty (sha256 bid) = None \<or>
      non_empty (base_sha256 m) = non_empty (sha256 bid))"
  by (auto simp: check_base_def split: option.splits)

text \<open>What a commit learns of its parent.\<close>

lemma commit_parent_ok:
  assumes "store_ok H s" "commit_parent s par bid allow = Inr (pid, ch)"
  obtains (rooted) "pid = None" "ch = []"
  | (forked) p pm where "meta_at s p = Some pm" "pid = Some p" "ch = chain pm" "base pm = flavor bid"
      "\<And>c a. \<not> allow \<Longrightarrow> c \<in> set ch \<Longrightarrow> meta_at s c = Some a \<Longrightarrow> rank (check_base a bid) < 2"
proof (cases par)
  case None
  then show ?thesis using assms(2) rooted by (simp add: commit_parent_def)
next
  case (Some p)
  obtain pm where pm: "meta_at s p = Some pm"
    using assms(2) Some
    by (cases "meta_at s p") (simp_all add: commit_parent_def get_by_id_ok [OF assms(1)] try_bind_simps)
  obtain v where v: "check_base_chain_in s pm bid = Inr v"
    by (simp add: check_base_chain_in_def check_links_eq [OF assms(1)])
  have r: "pid = Some (stage_id pm)" "ch = chain pm" "rank v < 3" "\<not> allow \<Longrightarrow> rank v < 2"
    using assms(2) Some
    by (cases v; simp add: commit_parent_def get_by_id_ok [OF assms(1)] try_bind_simps pm v split: if_splits)+
  have ok: "stage_ok (meta_at s) p pm" using assms(1) pm by (auto simp: store_ok_def intro: metas_okD)
  have id: "stage_id pm = p" "p \<in> set (chain pm)"
    using ok last_in_set [of "chain pm"] by (auto simp: stage_ok_def)
  have link: "link_check s pm bid c = check_base a bid" if "meta_at s c = Some a" for c a
    using that id(1) pm by (auto simp: link_check_def)
  have le: "rank (check_base a bid) \<le> rank v" if "c \<in> set ch" "meta_at s c = Some a" for c a
    using check_base_chain_rank [OF assms(1) v, of c] link [OF that(2)] that(1) r(2) by simp
  show ?thesis
  proof (rule forked [OF pm])
    show "base pm = flavor bid" using le [of p pm] id r pm check_base_rank(1) [of pm bid] by simp
    show "rank (check_base a bid) < 2" if "\<not> allow" "c \<in> set ch" "meta_at s c = Some a" for c a
      using le [OF that(2,3)] r(4) [OF that(1)] by simp
  qed (use r id in simp_all)
qed

section \<open>A commit in progress\<close>

text \<open>
  Until its metadata is in place, a commit has changed the directory of its content only, and
  that holds no stage yet.
\<close>

definition draft :: "(bytes \<Rightarrow> string) \<Rightarrow> string \<Rightarrow> stage_store \<Rightarrow> stage_store \<Rightarrow> bool" where
  "draft H sid s0 s \<longleftrightarrow>
     distinct (map fst s) \<and> layers_ok H s \<and> (\<forall>q. q \<noteq> sid \<longrightarrow> map_of s q = map_of s0 q) \<and>
     (\<forall>d. map_of s sid = Some d \<longrightarrow> meta d = None)"

definition drafted :: "(bytes \<Rightarrow> string) \<Rightarrow> string \<Rightarrow> stage_store \<Rightarrow> (stage_dir \<Rightarrow> bool) \<Rightarrow> stage_store \<Rightarrow> bool" where
  "drafted H sid s0 P s \<longleftrightarrow> draft H sid s0 s \<and> (\<exists>d. map_of s sid = Some d \<and> P d)"

lemma map_of_in_dir:
  "map_of (in_dir sid f s) q = (if q = sid then map_option f (map_of s sid) else map_of s q)"
  by (simp add: in_dir_def map_of_map_entry split: option.split)

lemma distinct_in_dir: "distinct (map fst s) \<Longrightarrow> distinct (map fst (in_dir sid f s))"
  by (simp add: in_dir_def distinct_map_entry)

lemma layers_in_dir:
  assumes "layers_ok H s" "\<And>d. layer (f d) = layer d"
  shows "layers_ok H (in_dir sid f s)"
  unfolding layers_ok_def
proof (intro allI impI)
  fix q d bs md assume "map_of (in_dir sid f s) q = Some d \<and> layer d = Some (bs, md)"
  then obtain d' where "map_of s q = Some d'" "layer d' = Some (bs, md)"
    using assms(2) by (auto simp: map_of_in_dir split: if_splits)
  then show "stage_id_for H bs = q \<and> md = 0x124" using assms(1) by (auto simp: layers_ok_def)
qed

lemma drafted_in_dir:
  assumes "drafted H sid s0 P s" "\<And>d. P d \<Longrightarrow> meta d = None \<Longrightarrow> meta (f d) = None \<and> Q (f d)"
    and "\<And>d bs md. P d \<Longrightarrow> layer (f d) = Some (bs, md) \<Longrightarrow>
      layer d = Some (bs, md) \<or> stage_id_for H bs = sid \<and> md = 0x124"
  shows "drafted H sid s0 Q (in_dir sid f s)"
proof -
  obtain d where d: "map_of s sid = Some d" "P d" "meta d = None"
    using assms(1) by (auto simp: drafted_def draft_def)
  have "layers_ok H (in_dir sid f s)"
    using assms(1) assms(3) [OF d(2)] d(1)
    by (fastforce simp: layers_ok_def drafted_def draft_def map_of_in_dir split: if_splits)
  then show ?thesis using assms(1) assms(2) [OF d(2,3)] d(1)
    by (auto simp: drafted_def draft_def map_of_in_dir distinct_in_dir)
qed

lemma io_triple:
  assumes "\<And>s. P s \<Longrightarrow> E s" "\<And>s. P s \<Longrightarrow> Q (f s)"
  shows "triple P (io env k f) (\<lambda>_. Q) (\<lambda>_. E)"
  using assms by (simp add: io_def triple_fail triple_modify)

lemma drafted_draft: "drafted H sid s0 P s \<Longrightarrow> draft H sid s0 s"
  by (simp add: drafted_def)

lemma create_dir_drafted: "draft H sid s0 s \<Longrightarrow> drafted H sid s0 (\<lambda>_. True) (create_dir sid s)"
proof (cases "map_of s sid")
  case None
  assume d: "draft H sid s0 s"
  have "sid \<notin> fst ` set s" using None by (simp add: map_of_eq_None_iff)
  then show ?thesis using d None
    by (auto simp: drafted_def draft_def create_dir_def empty_dir_def layers_ok_def map_add_def
        split: option.splits if_splits)
qed (auto simp: drafted_def create_dir_def)

lemma sparse_copy_triple:
  "triple (drafted H sid s0 (\<lambda>_. True)) (sparse_copy env sid bs)
     (\<lambda>_. drafted H sid s0 (\<lambda>d. \<exists>md. layer_partial d = Some (bs, md))) (\<lambda>_. draft H sid s0)"
proof -
  have "drafted H sid s0 (\<lambda>d. \<exists>md. layer_partial d = Some (c, md))
      (in_dir sid (\<lambda>d. d\<lparr>layer_partial := Some (c, copy_mode env)\<rparr>) s)"
    if "drafted H sid s0 (\<lambda>_. True) s" for s c
    by (rule drafted_in_dir [OF that]) auto
  then show ?thesis
    unfolding sparse_copy_def
    by (auto intro!: triple_seq [where R = "\<lambda>_. draft H sid s0"] triple_modify triple_fail dest: drafted_draft)
qed

lemma write_layer_triple:
  assumes "stage_id_for H bs = sid"
  shows "triple (draft H sid s0) (write_layer env sid bs)
    (\<lambda>_. drafted H sid s0 (\<lambda>d. \<exists>f. layer d = Some f)) (\<lambda>_. draft H sid s0)"
proof -
  let ?P = "drafted H sid s0 (\<lambda>_. True)" and ?E = "\<lambda>_. draft H sid s0"
  let ?C = "drafted H sid s0 (\<lambda>d. \<exists>md. layer_partial d = Some (bs, md))"
  let ?F = "drafted H sid s0 (\<lambda>d. layer_partial d = Some (bs, 0x124))"
  let ?L = "drafted H sid s0 (\<lambda>d. \<exists>f. layer d = Some f)"
  have mk: "triple (draft H sid s0) (io env MakeDir (create_dir sid)) (\<lambda>_. ?P) ?E"
    by (rule io_triple) (simp_all add: create_dir_drafted)
  have fr: "triple ?C (io env FreezeLayer (in_dir sid (\<lambda>d. d\<lparr>layer_partial := freeze (layer_partial d)\<rparr>))) (\<lambda>_. ?F) ?E"
    by (rule io_triple, erule drafted_draft, erule drafted_in_dir) (auto simp: freeze_def)
  have rn: "triple ?F (io env RenameLayer (in_dir sid (\<lambda>d. d\<lparr>layer := layer_partial d, layer_partial := None\<rparr>))) (\<lambda>_. ?L) ?E"
    by (rule io_triple, erule drafted_draft, erule drafted_in_dir) (use assms in auto)
  have st: "triple ?L (io env StatLayer id) (\<lambda>_. ?L) ?E"
    by (rule io_triple) (auto dest: drafted_draft)
  show ?thesis
    unfolding write_layer_def
    by (intro triple_seq [OF mk] triple_seq [OF sparse_copy_triple] triple_seq [OF fr] triple_seq [OF rn] st)
qed

definition completed :: "(bytes \<Rightarrow> string) \<Rightarrow> string \<Rightarrow> stage_store \<Rightarrow> stage_meta \<Rightarrow> stage_store \<Rightarrow> bool" where
  "completed H sid s0 m s \<longleftrightarrow>
     distinct (map fst s) \<and> layers_ok H s \<and> (\<forall>q. q \<noteq> sid \<longrightarrow> map_of s q = map_of s0 q) \<and>
     (\<exists>d f. map_of s sid = Some d \<and> meta d = Some (Readable m) \<and> layer d = Some f)"

lemma write_meta_triple:
  "triple (drafted H sid s0 (\<lambda>d. \<exists>f. layer d = Some f)) (write_meta env sid m)
     (\<lambda>_. completed H sid s0 m) (\<lambda>_. draft H sid s0)"
proof -
  let ?L = "drafted H sid s0 (\<lambda>d. \<exists>f. layer d = Some f)"
  have w: "triple ?L (io env WriteMeta (in_dir sid (\<lambda>d. d\<lparr>meta_partial := True\<rparr>))) (\<lambda>_. ?L) (\<lambda>_. draft H sid s0)"
    by (rule io_triple, erule drafted_draft, erule drafted_in_dir) auto
  have "completed H sid s0 m (in_dir sid (\<lambda>d. d\<lparr>meta := Some (Readable m), meta_partial := False\<rparr>) s)" if "?L s" for s
    using that layers_in_dir [of H s] by (auto simp: drafted_def draft_def completed_def map_of_in_dir distinct_in_dir)
  then show ?thesis
    unfolding write_meta_def by (intro triple_seq [OF w] io_triple) (auto dest: drafted_draft)
qed

lemma draft_refl: "store_ok H s \<Longrightarrow> meta_at s sid = None \<Longrightarrow> draft H sid s s"
  by (auto simp: draft_def store_ok_def meta_at_def split: option.splits meta_file.splits)

lemma draft_store_ok:
  assumes "store_ok H s0" "meta_at s0 sid = None" "draft H sid s0 s"
  shows "store_ok H s \<and> meta_at s = meta_at s0 \<and> (intact s0 \<longrightarrow> intact s)"
proof -
  have m: "meta_at s q = meta_at s0 q" for q
    using assms(2,3) by (cases "q = sid") (auto simp: draft_def meta_at_def split: option.split)
  then have eq: "meta_at s = meta_at s0" by blast
  have "meta d \<noteq> Some Corrupt" if "map_of s q = Some d" for q d
    using assms(1,3) that by (cases "q = sid") (auto simp: draft_def store_ok_def)
  then have "store_ok H s" using assms(1,3) by (simp add: store_ok_def eq draft_def)
  moreover have "intact s" if "intact s0"
  proof -
    have "map_of s q = map_of s0 q" if "meta_at s0 q = Some m" for q m
      using assms(2,3) that by (cases "q = sid") (auto simp: draft_def)
    then show ?thesis using \<open>intact s0\<close> unfolding intact_def eq by metis
  qed
  ultimately show ?thesis using eq by blast
qed

lemma finished_store_ok:
  assumes "store_ok H s0" "completed H sid s0 m s" "meta_at s0 sid = None"
    and "stage_ok ((meta_at s0)(sid \<mapsto> m)) sid m" "\<And>r n. meta_at s0 r = Some n \<Longrightarrow> label n \<noteq> label m"
  shows "store_ok H s \<and> meta_at s = (meta_at s0)(sid \<mapsto> m) \<and> (intact s0 \<longrightarrow> intact s)"
proof -
  have "meta_at s q = ((meta_at s0)(sid \<mapsto> m)) q" for q
    using assms(2) by (cases "q = sid") (auto simp: completed_def meta_at_def split: option.split)
  then have eq: "meta_at s = (meta_at s0)(sid \<mapsto> m)" by blast
  have "meta d \<noteq> Some Corrupt" if "map_of s q = Some d" for q d
    using assms(1,2) that by (cases "q = sid") (auto simp: completed_def store_ok_def)
  moreover have "metas_ok (meta_at s)"
    unfolding eq by (rule metas_ok_add) (use assms in \<open>auto simp: store_ok_def\<close>)
  ultimately have "store_ok H s" using assms(2) by (simp add: store_ok_def completed_def)
  moreover have "intact s" if "intact s0"
    unfolding intact_def
  proof (intro allI impI)
    fix q n assume q: "meta_at s q = Some n"
    show "\<exists>d f. map_of s q = Some d \<and> layer d = Some f"
    proof (cases "q = sid")
      case False
      then show ?thesis using q that assms(2) unfolding eq intact_def completed_def by (metis fun_upd_other)
    qed (use assms(2) in \<open>auto simp: completed_def\<close>)
  qed
  ultimately show ?thesis using eq by blast
qed

section \<open>Every outcome of a commit\<close>

lemma commit_new_cases:
  assumes "store_ok H s" "meta_at s sid = None" "stage_id_for H bs = sid" "commit_new env bs sid lbl lineage bid s = (r, s')"
  obtains (failed) e where "r = Inl e" "draft H sid s s'"
  | (written) m where "r = Inr m" "completed H sid s m s'" "stage_id m = sid" "label m = lbl" "parent m = fst lineage"
      "chain m = snd lineage @ [sid]" "base m = flavor bid" "base_sha256 m = sha256 bid"
      "length (chain m) \<le> MAX_CHAIN_DEPTH"
proof -
  let ?ch = "snd lineage @ [sid]"
  let ?m = "\<lparr>stage_id = sid, vanity = unique_name sid (\<lambda>n. n \<in> vanity ` set (list_in s)), label = lbl, parent = fst lineage,
    chain = ?ch, base = flavor bid, base_sha256 = sha256 bid, created_unix = now_unix env,
    bytes_apparent = length bs, bytes_allocated = blocks env bs * 512\<rparr>"
  have d: "draft H sid s s" by (rule draft_refl [OF assms(1,2)])
  have t: "triple (draft H sid s) (seq (write_layer env sid bs) (\<lambda>_. seq (write_meta env sid ?m) (\<lambda>_. ret ?m)))
      (\<lambda>m' s'. completed H sid s ?m s' \<and> m' = ?m) (\<lambda>_. draft H sid s)"
    by (intro triple_seq [OF write_layer_triple [OF assms(3)]] triple_seq [OF write_meta_triple] triple_ret) simp
  show ?thesis
  proof (cases "MAX_CHAIN_DEPTH < length ?ch \<or> fault env = Some ScanNames")
    case True
    then obtain e where "r = Inl e" "s' = s"
      using assms(4) by (auto simp: commit_new_def Let_def split: if_splits)
    then show ?thesis using d failed by blast
  next
    case False
    then have run: "seq (write_layer env sid bs) (\<lambda>_. seq (write_meta env sid ?m) (\<lambda>_. ret ?m)) s = (r, s')"
      using assms(4) by (simp add: commit_new_def Let_def)
    show ?thesis
    proof (cases r)
      case (Inl e)
      then show ?thesis using tripleD_fail [OF t d] run by (intro failed) auto
    next
      case (Inr m)
      with tripleD [OF t d] run have "completed H sid s ?m s'" "m = ?m" by auto
      then show ?thesis using Inr False by (intro written) auto
    qed
  qed
qed

text \<open>The stage a commit writes fits the others.\<close>

lemma new_stage_ok:
  assumes "store_ok H s" "meta_at s sid = None" "commit_parent s par bid allow = Inr lineage"
    and m: "stage_id m = sid" "starts_with ''st-'' sid" "trim (label m) \<noteq> []" "parent m = fst lineage" "chain m = snd lineage @ [sid]"
      "base m = flavor bid" "length (chain m) \<le> MAX_CHAIN_DEPTH"
  shows "stage_ok ((meta_at s)(sid \<mapsto> m)) sid m"
    and "\<not> allow \<Longrightarrow> c \<in> set (butlast (chain m)) \<Longrightarrow> meta_at s c = Some a \<Longrightarrow> rank (check_base a bid) < 2"
proof -
  have M: "metas_ok (meta_at s)" using assms(1) by (simp add: store_ok_def)
  obtain pid ch where l: "lineage = (pid, ch)" by (cases lineage)
  have cases: "stage_ok ((meta_at s)(sid \<mapsto> m)) sid m \<and>
      (\<forall>c a. \<not> allow \<longrightarrow> c \<in> set ch \<longrightarrow> meta_at s c = Some a \<longrightarrow> rank (check_base a bid) < 2)"
    using assms(1) assms(3) [unfolded l]
  proof (cases rule: commit_parent_ok)
    case rooted
    then show ?thesis using m l by (simp add: stage_ok_def)
  next
    case (forked p pm)
    have ok: "stage_ok (meta_at s) p pm" by (rule metas_okD [OF M forked(1)])
    have anc: "\<exists>a. meta_at s c = Some a \<and> base a = base m \<and> prefix (chain a) (chain m)" if c: "c \<in> set ch" for c
    proof -
      obtain a where "meta_at s c = Some a" "base a = base pm" "prefix (chain a) (chain pm)"
        using in_chain [OF M forked(1), of c] c forked(3) by auto
      then show ?thesis using forked(3,4) m l by (auto simp: prefix_def)
    qed
    have "sid \<notin> set ch" using anc assms(2) by fastforce
    moreover have "\<exists>a. ((meta_at s)(sid \<mapsto> m)) c = Some a \<and> base a = base m \<and> prefix (chain a) (chain m)"
      if "c \<in> set ch" for c using anc [OF that] assms(2) by auto
    moreover have "distinct ch" "ch \<noteq> []" "last ch = p" using ok forked(3) by (auto simp: stage_ok_def)
    ultimately show ?thesis using m l forked(2,5) by (auto simp: stage_ok_def)
  qed
  show "stage_ok ((meta_at s)(sid \<mapsto> m)) sid m" using cases by blast
  show "\<not> allow \<Longrightarrow> c \<in> set (butlast (chain m)) \<Longrightarrow> meta_at s c = Some a \<Longrightarrow> rank (check_base a bid) < 2"
    using cases m(5) l by simp
qed

lemma commit_lookup_ok:
  assumes "store_ok H s" "commit_lookup env s sid lbl = Inr r"
  shows "(case r of
      Some m \<Rightarrow> meta_at s sid = Some m \<and> label m = lbl
    | None \<Rightarrow> meta_at s sid = None \<and> (\<forall>q n. meta_at s q = Some n \<longrightarrow> label n \<noteq> lbl))"
proof -
  have d: "distinct (map fst s)" using assms(1) by (simp add: store_ok_def)
  have none: "List.find (\<lambda>m. label m = lbl) (list_in s) = None \<longleftrightarrow> (\<forall>q n. meta_at s q = Some n \<longrightarrow> label n \<noteq> lbl)"
    using list_in_iff [OF d] by (auto simp: find_None_iff)
  have some: "label n = lbl \<and> (\<exists>q. meta_at s q = Some n \<and> stage_id n = q)"
    if "List.find (\<lambda>m. label m = lbl) (list_in s) = Some n" for n
  proof -
    have "label n = lbl" "n \<in> set (list_in s)" using that by (auto simp: find_Some_iff)
    then show ?thesis using list_in_iff [OF d] assms(1) by (auto simp: store_ok_def metas_ok_def stage_ok_def)
  qed
  have id: "stage_id m = sid" if "meta_at s sid = Some m" for m
    using assms(1) that by (auto simp: store_ok_def metas_ok_def stage_ok_def)
  have eq: "commit_lookup env s sid lbl =
      (if fault env = Some ScanLabels then Inl ScanFailed
       else case (meta_at s sid, List.find (\<lambda>m. label m = lbl) (list_in s)) of
           (Some existing, Some same) \<Rightarrow>
             if stage_id existing = stage_id same then Inr (Some existing) else Inl (LabelTaken same)
         | (None, Some clash) \<Rightarrow> Inl (LabelTaken clash)
         | (Some existing, None) \<Rightarrow> Inl (SameContent existing)
         | (None, None) \<Rightarrow> Inr None)"
    by (simp add: commit_lookup_def get_by_id_ok [OF assms(1)] try_bind_simps)
  show ?thesis
  proof (cases "List.find (\<lambda>m. label m = lbl) (list_in s)")
    case None
    then show ?thesis using assms(2) none by (auto simp: eq split: option.splits if_splits)
  next
    case (Some n)
    obtain q where n: "label n = lbl" "meta_at s q = Some n" "stage_id n = q" using some [OF Some] by blast
    obtain m where m: "meta_at s sid = Some m"
      using assms(2) Some by (cases "meta_at s sid") (auto simp: eq split: if_splits)
    then have "r = Some m" "stage_id m = stage_id n" using assms(2) Some by (simp_all add: eq split: if_splits)
    with m show ?thesis using n id by auto
  qed
qed

lemma commit_in_cases:
  assumes "store_ok H s" "commit_in H env lbl par bid allow s = (r, s')"
  obtains (unchanged) e where "r = Inl e" "s' = s"
  | (existing) m q where "r = Inr m" "s' = s" "meta_at s q = Some m" "label m = lbl"
  | (failed) e sid where "r = Inl e" "meta_at s sid = None" "draft H sid s s'"
  | (written) m where "r = Inr m" "completed H (stage_id m) s m s'" "meta_at s (stage_id m) = None" "label m = lbl"
      "stage_ok ((meta_at s)(stage_id m \<mapsto> m)) (stage_id m) m" "\<And>q n. meta_at s q = Some n \<Longrightarrow> label n \<noteq> label m"
      "\<And>c a. \<not> allow \<Longrightarrow> c \<in> set (butlast (chain m)) \<Longrightarrow> meta_at s c = Some a \<Longrightarrow> rank (check_base a bid) < 2"
      "base m = flavor bid" "base_sha256 m = sha256 bid"
proof (cases "trim lbl = [] \<or> scratch env = None")
  case True
  then obtain e where "r = Inl e" "s' = s" using assms(2) by (auto simp: commit_in_def split: if_splits option.splits)
  then show ?thesis by (rule unchanged)
next
  case False
  then obtain bs where bs: "scratch env = Some bs" and lbl: "trim lbl \<noteq> []" by blast
  let ?sid = "stage_id_for H bs"
  show ?thesis
  proof (cases "commit_lookup env s ?sid lbl")
    case (Inl e)
    then have "r = Inl e" "s' = s" using assms(2) bs lbl by (simp_all add: commit_in_def Let_def)
    then show ?thesis by (rule unchanged)
  next
    case (Inr found)
    note look = commit_lookup_ok [OF assms(1) Inr]
    show ?thesis
    proof (cases found)
      case (Some m)
      then have "r = Inr m" "s' = s" using assms(2) bs lbl Inr by (simp_all add: commit_in_def Let_def)
      then show ?thesis using look Some by (intro existing) auto
    next
      case None
      then have fresh: "meta_at s ?sid = None" "\<And>q n. meta_at s q = Some n \<Longrightarrow> label n \<noteq> lbl" using look by auto
      show ?thesis
      proof (cases "commit_parent s par bid allow")
        case (Inl e)
        then have "r = Inl e" "s' = s" using assms(2) bs lbl \<open>commit_lookup env s ?sid lbl = Inr found\<close> None
          by (simp_all add: commit_in_def Let_def)
        then show ?thesis by (rule unchanged)
      next
        case lin: (Inr lineage)
        then have run: "commit_new env bs ?sid lbl lineage bid s = (r, s')"
          using assms(2) bs lbl Inr None by (simp add: commit_in_def Let_def)
        from assms(1) fresh(1) refl run show ?thesis
        proof (cases rule: commit_new_cases)
          case (failed e)
          then show ?thesis using fresh(1) that(3) by blast
        next
          case (written m)
          note ok = new_stage_ok [OF assms(1) fresh(1) lin written(3) _ _ written(5,6,7,9)]
          show ?thesis
            by (rule that(4) [of m]) (use written fresh ok lbl in \<open>auto simp: stage_id_for_def starts_with_def\<close>)
        qed
      qed
    qed
  qed
qed

section \<open>Removing\<close>

text \<open>What a failed \<open>remove_dir_all\<close> can leave of a directory.\<close>

definition remnant :: "stage_dir \<Rightarrow> stage_dir \<Rightarrow> bool" where
  "remnant d' d \<longleftrightarrow>
     (layer d' = None \<or> layer d' = layer d) \<and> (meta d' = None \<or> meta d' = meta d)"

definition removal_ok :: "stage_store \<Rightarrow> string \<Rightarrow> removal \<Rightarrow> bool" where
  "removal_ok s reference rm \<longleftrightarrow>
     (case rm of
        Gone \<Rightarrow> True
      | Stuck d' \<Rightarrow>
          (\<forall>m d. resolve_in s reference = Inr m \<and> map_of s (stage_id m) = Some d \<longrightarrow> remnant d' d))"

lemma resolve_among_mem: "resolve_among ms ref = Inr m \<Longrightarrow> m \<in> set ms"
proof -
  have one: "m \<in> set ms" if "filter P ms = [m]" for P
    using arg_cong [OF that, of set] by auto
  show "resolve_among ms ref = Inr m \<Longrightarrow> m \<in> set ms"
    by (auto simp: resolve_among_def find_Some_iff one split: option.splits list.splits)
qed

lemma resolve_in_ok:
  assumes "store_ok H s" "resolve_in s ref = Inr m"
  shows "meta_at s (stage_id m) = Some m"
proof -
  have "m \<in> set (list_in s)" using assms(2) resolve_among_mem by (auto simp: resolve_in_def split: if_splits)
  then show ?thesis using list_in_iff assms(1) by (auto simp: store_ok_def metas_ok_def stage_ok_def)
qed

lemma unreferenced:
  assumes "store_ok H s" "referencing s target = []" "meta_at s r = Some n" "r \<noteq> stage_id target"
  shows "stage_id target \<notin> set (chain n)"
proof -
  have "n \<in> set (list_in s)" "stage_id n = r"
    using assms(1,3) list_in_iff by (auto simp: store_ok_def metas_ok_def stage_ok_def)
  then show ?thesis using assms(2,4) by (auto simp: referencing_def filter_empty_conv)
qed

lemma map_of_delete: "map_of (AList.delete k s) q = (if q = k then None else map_of s q)"
  by (simp add: delete_conv')

lemma removed_store_ok:
  assumes "store_ok H s" "referencing s m = []"
  shows "store_ok H (AList.delete (stage_id m) s) \<and> (intact s \<longrightarrow> intact (AList.delete (stage_id m) s))"
proof -
  let ?s = "AList.delete (stage_id m) s"
  have eq: "meta_at ?s = (meta_at s)(stage_id m := None)"
    by (auto simp: fun_eq_iff meta_at_def map_of_delete)
  have "metas_ok (meta_at ?s)"
    unfolding eq by (rule metas_ok_drop) (use assms unreferenced [OF assms] in \<open>auto simp: store_ok_def\<close>)
  then have "store_ok H ?s"
    using assms(1) by (auto simp: store_ok_def layers_ok_def map_of_delete distinct_delete split: if_splits)
  moreover have "intact ?s" if "intact s"
    using that unfolding intact_def eq by (auto simp: map_of_delete split: if_splits)
  ultimately show ?thesis by blast
qed

lemma stuck_store_ok:
  assumes "store_ok H s" "referencing s m = []" "\<And>d. map_of s (stage_id m) = Some d \<Longrightarrow> remnant d' d"
  shows "store_ok H (AList.map_entry (stage_id m) (\<lambda>_. d') s)"
proof -
  let ?s = "AList.map_entry (stage_id m) (\<lambda>_. d') s"
  have at: "map_of ?s q = (if q = stage_id m then map_option (\<lambda>_. d') (map_of s q) else map_of s q)" for q
    using map_of_in_dir [of "stage_id m" "\<lambda>_. d'" s q] by (auto simp: in_dir_def)
  have part: "(layer d' = None \<or> layer d' = layer d) \<and> (meta d' = None \<or> meta d' = meta d)"
    if "map_of s (stage_id m) = Some d" for d using assms(3) [OF that] by (simp add: remnant_def)
  have "layers_ok H ?s"
    unfolding layers_ok_def
  proof (intro allI impI)
    fix q d bs md assume "map_of ?s q = Some d \<and> layer d = Some (bs, md)"
    then obtain e where "map_of s q = Some e" "layer e = Some (bs, md)"
      using part by (auto simp: at split: if_splits)
    then show "stage_id_for H bs = q \<and> md = 0x124" using assms(1) by (auto simp: store_ok_def layers_ok_def)
  qed
  moreover have "meta d \<noteq> Some Corrupt" if q: "map_of ?s q = Some d" for q d
  proof -
    obtain e where "map_of s q = Some e" "meta d = None \<or> meta d = meta e"
      using q part by (cases "q = stage_id m"; cases "map_of s q") (auto simp: at)
    then show ?thesis using assms(1) by (auto simp: store_ok_def)
  qed
  moreover have "metas_ok (meta_at ?s)"
  proof (cases "meta d' = None")
    case True
    then have eq: "meta_at ?s = (meta_at s)(stage_id m := None)"
      by (auto simp: fun_eq_iff meta_at_def at split: option.split)
    show ?thesis
      unfolding eq by (rule metas_ok_drop) (use assms(1,2) unreferenced [OF assms(1,2)] in \<open>auto simp: store_ok_def\<close>)
  next
    case False
    then have "meta_at ?s = meta_at s"
      using part by (auto simp: fun_eq_iff meta_at_def at split: option.split)
    then show ?thesis using assms(1) by (simp add: store_ok_def)
  qed
  ultimately show ?thesis using assms(1) by (auto simp: store_ok_def distinct_map_entry)
qed

lemma remove_in_ok:
  assumes "store_ok H s" "removal_ok s reference rm" "remove_in rm reference s = (r, s')"
  shows "store_ok H s' \<and> (intact s \<and> rm = Gone \<longrightarrow> intact s')"
proof (cases "\<exists>m. resolve_in s reference = Inr m \<and> referencing s m = []")
  case True
  then obtain m where m: "resolve_in s reference = Inr m" "referencing s m = []" by blast
  show ?thesis
  proof (cases rm)
    case Gone
    then show ?thesis using assms(3) m removed_store_ok [OF assms(1) m(2)] by (simp add: remove_in_def)
  next
    case (Stuck d')
    then show ?thesis
      using assms(2,3) m stuck_store_ok [OF assms(1) m(2), of d'] by (simp add: remove_in_def removal_ok_def)
  qed
next
  case False
  then have "s' = s" using assms(3) by (auto simp: remove_in_def split: sum.splits if_splits)
  then show ?thesis using assms(1) by simp
qed

section \<open>Every sequence of commits and removals\<close>

text \<open>
  Commits that fail at any call included. \<open>skew\<close>: whether some commit was allowed to stack on
  a rebuilt base; \<open>partial\<close>: whether some removal stopped half-way.
\<close>

inductive stage_reach :: "(bytes \<Rightarrow> string) \<Rightarrow> bool \<Rightarrow> bool \<Rightarrow> stage_store \<Rightarrow> bool" for H skew partial where
  fresh: "stage_reach H skew partial []"
| commit: "stage_reach H skew partial s \<Longrightarrow> (allow \<Longrightarrow> skew) \<Longrightarrow>
    commit_in H env lbl par bid allow s = (r, s') \<Longrightarrow> stage_reach H skew partial s'"
| remove: "stage_reach H skew partial s \<Longrightarrow> (rm \<noteq> Gone \<Longrightarrow> partial) \<Longrightarrow> removal_ok s reference rm \<Longrightarrow>
    remove_in rm reference s = (r, s') \<Longrightarrow> stage_reach H skew partial s'"

lemma commit_in_ok:
  assumes "store_ok H s" "commit_in H env lbl par bid allow s = (r, s')"
  shows "store_ok H s' \<and> (intact s \<longrightarrow> intact s')"
  using assms
proof (cases rule: commit_in_cases)
  case (failed e sid)
  then show ?thesis using draft_store_ok [OF assms(1)] by blast
next
  case (written m)
  then show ?thesis using finished_store_ok [OF assms(1) written(2,3,5)] by blast
qed (use assms(1) in simp_all)

lemma stage_reach_ok: "stage_reach H skew partial s \<Longrightarrow> store_ok H s \<and> (\<not> partial \<longrightarrow> intact s)"
proof (induction rule: stage_reach.induct)
  case fresh
  then show ?case by (simp add: store_ok_def layers_ok_def metas_ok_def meta_at_def intact_def)
next
  case (commit s allow env lbl par bid r s')
  then show ?case using commit_in_ok by blast
next
  case (remove s rm reference r s')
  then show ?case using remove_in_ok by blast
qed

text \<open>
  C18: the stage store stays sound. After any sequence of commits and removals, each failing or
  being killed at any call, and however little of a directory a failed removal took: every
  completed layer is read-only and has the content its directory is named after, no metadata is
  half-written, labels are never shared, and every stage's chain is the chain of its parent and
  itself, at most ten long, without repetition, over one base flavor throughout.
\<close>
theorem stage_store_sound: "stage_reach H skew partial s \<Longrightarrow> store_ok H s"
  by (simp add: stage_reach_ok)

lemma layer_paths_ok:
  "(\<And>c. c \<in> set cs \<Longrightarrow> \<exists>d f. map_of s c = Some d \<and> layer d = Some f) \<Longrightarrow>
   layer_paths s cs = Inr (map (\<lambda>c. (c, LAYER_FILE)) cs)"
proof (induction cs)
  case (Cons c cs)
  obtain d f where "map_of s c = Some d" "layer d = Some f" using Cons.prems [of c] by auto
  moreover have "layer_paths s cs = Inr (map (\<lambda>c. (c, LAYER_FILE)) cs)" 
    by (rule Cons.IH, rule Cons.prems) simp
  ultimately show ?case by simp
qed simp

end
