(* ===== verification/Stage_Refs.thy ===== *)
theory Stage_Refs
  imports Stage_Store
begin

text \<open>
  References and bases: what a label or an id resolves to, what the layers of a chain were
  built over, and that every listed stage can be booted.
\<close>

section \<open>One base for a chain\<close>

definition agree :: "string option \<Rightarrow> string option \<Rightarrow> bool" where
  "agree x y \<longleftrightarrow> non_empty x = None \<or> non_empty y = None \<or> non_empty x = non_empty y"

definition stamps_ok :: "(string \<Rightarrow> stage_meta option) \<Rightarrow> bool" where
  "stamps_ok M \<longleftrightarrow>
     (\<forall>q m c a. M q = Some m \<and> c \<in> set (chain m) \<and> M c = Some a \<longrightarrow> agree (base_sha256 a) (base_sha256 m))"

lemma agree_refl [simp]: "agree x x"
  by (simp add: agree_def)

lemma stamps_ok_sub:
  "stamps_ok M \<Longrightarrow> (\<And>q m. M' q = Some m \<Longrightarrow> M q = Some m) \<Longrightarrow> stamps_ok M'"
  unfolding stamps_ok_def by metis

lemma stamps_ok_add:
  assumes "metas_ok M" "stamps_ok M" "M q = None" "stage_id m = q" "chain m \<noteq> []" "last (chain m) = q"
    and "\<And>c a. c \<in> set (butlast (chain m)) \<Longrightarrow> M c = Some a \<Longrightarrow> agree (base_sha256 a) (base_sha256 m)"
  shows "stamps_ok (M(q \<mapsto> m))"
  unfolding stamps_ok_def
proof (intro allI impI)
  fix r n c a assume *: "(M(q \<mapsto> m)) r = Some n \<and> c \<in> set (chain n) \<and> (M(q \<mapsto> m)) c = Some a"
  have tip: "butlast (chain m) @ [q] = chain m" using assms(5,6) by (metis append_butlast_last_id)
  show "agree (base_sha256 a) (base_sha256 n)"
  proof (cases "r = q")
    case True
    then have n: "n = m" using * by simp
    show ?thesis
    proof (cases "c = q")
      case False
      then have "c \<in> set (butlast (chain m))" using * n arg_cong [OF tip, of set] by auto
      then show ?thesis using assms(7) * False n by auto
    qed (use * n in simp)
  next
    case False
    then have r: "M r = Some n" using * by simp
    obtain a' where "M c = Some a'" using in_chain [OF assms(1) r] * by metis
    then show ?thesis using assms(2,3) r * unfolding stamps_ok_def by (metis fun_upd_other option.distinct(1))
  qed
qed

lemma remove_in_metas:
  assumes "removal_ok s reference rm" "remove_in rm reference s = (r, s')" "meta_at s' q = Some m"
  shows "meta_at s q = Some m"
proof (cases "\<exists>t. resolve_in s reference = Inr t \<and> referencing s t = []")
  case True
  then obtain t where t: "resolve_in s reference = Inr t" "referencing s t = []" by blast
  show ?thesis
  proof (cases rm)
    case Gone
    then have "s' = AList.delete (stage_id t) s" using assms(2) t by (simp add: remove_in_def)
    then show ?thesis using assms(3) by (auto simp: meta_at_def map_of_delete split: if_splits)
  next
    case (Stuck d')
    then have s': "s' = in_dir (stage_id t) (\<lambda>_. d') s" using assms(2) t by (simp add: remove_in_def in_dir_def)
    show ?thesis
    proof (cases "q = stage_id t")
      case q: True
      obtain d where d: "map_of s q = Some d" "meta d' = Some (Readable m)"
        using assms(3) q by (auto simp: meta_at_iff s' map_of_in_dir)
      then have "remnant d' d" using assms(1) Stuck t q by (simp add: removal_ok_def)
      with d show ?thesis by (auto simp: meta_at_iff remnant_def)
    next
      case False
      then show ?thesis using assms(3) by (simp add: meta_at_iff s' map_of_in_dir)
    qed
  qed
next
  case False
  then have "s' = s" using assms(2) by (auto simp: remove_in_def split: sum.splits if_splits)
  then show ?thesis using assms(3) by simp
qed

lemma commit_in_stamps:
  assumes "store_ok H s" "stamps_ok (meta_at s)" "commit_in H env lbl par bid False s = (r, s')"
  shows "stamps_ok (meta_at s')"
  using assms(1,3)
proof (cases rule: commit_in_cases)
  case (failed e sid)
  then show ?thesis using draft_store_ok [OF assms(1)] assms(2) by simp
next
  case (written m)
  have eq: "meta_at s' = (meta_at s)(stage_id m \<mapsto> m)"
    using finished_store_ok [OF assms(1) written(2,3,5)] written(6) by blast
  have "agree (base_sha256 a) (base_sha256 m)" if "c \<in> set (butlast (chain m))" "meta_at s c = Some a" for c a
    using written(7) [OF _ that] written(9) check_base_rank(2) [of a bid] by (auto simp: agree_def)
  then show ?thesis
    unfolding eq using assms(1,2) written(3,5)
    by (intro stamps_ok_add) (auto simp: store_ok_def stage_ok_def)
qed (use assms(2) in simp_all)

lemma stage_reach_stamps: "stage_reach H False partial s \<Longrightarrow> stamps_ok (meta_at s)"
proof (induction rule: stage_reach.induct)
  case fresh
  then show ?case by (simp add: stamps_ok_def meta_at_def)
next
  case (commit s allow env lbl par bid r s')
  then have "allow = False" by blast
  with commit stage_reach_ok [OF commit(1)] show ?case using commit_in_stamps by metis
next
  case (remove s rm reference r s')
  then show ?case using stamps_ok_sub remove_in_metas by metis
qed

text \<open>
  The layers of a chain were made over one root. After any commits and removals, every
  ancestor that a listed stage mounts was committed on the same base flavor, whether or not
  skew was ever allowed; and when it never was, ancestor and stage also agree on the content id
  of the image, wherever both record one. An unstamped link in between changes nothing.
\<close>
theorem chains_share_a_base:
  assumes "stage_reach H skew partial s" and "m \<in> set (list_in s)" and "c \<in> set (chain m)"
  shows "\<exists>a. meta_at s c = Some a \<and> base a = base m \<and> (\<not> skew \<longrightarrow> agree (base_sha256 a) (base_sha256 m))"
proof -
  have ok: "store_ok H s" using stage_reach_ok [OF assms(1)] by simp
  then have d: "distinct (map fst s)" and M: "metas_ok (meta_at s)" by (simp_all add: store_ok_def)
  obtain q where q: "meta_at s q = Some m" using assms(2) list_in_iff [OF d] by blast
  obtain a where a: "meta_at s c = Some a" "base a = base m" using in_chain [OF M q assms(3)] .
  have "agree (base_sha256 a) (base_sha256 m)" if "\<not> skew"
    using stage_reach_stamps [of H partial s] assms(1,3) that q a(1) unfolding stamps_ok_def by auto
  with a show ?thesis by blast
qed

section \<open>What a reference resolves to\<close>

lemma strip_all_prefix: "\<exists>w. s = w @ strip_all ps s \<and> set w \<subseteq> \<Union> (set ` set ps)"
proof (induction ps s rule: strip_all.induct)
  case (1 ps s)
  show ?case
  proof (cases "strip_any ps s")
    case None
    then show ?thesis by (simp add: strip_all.simps [of ps s])
  next
    case (Some r)
    with 1 obtain w where w: "r = w @ strip_all ps r" "set w \<subseteq> \<Union> (set ` set ps)" by blast
    obtain p where p: "p \<in> set ps" "s = p @ r" using strip_any_Some [OF Some] by blast
    have "strip_all ps s = strip_all ps r" using Some by (simp add: strip_all.simps [of ps s])
    then have "s = (p @ w) @ strip_all ps s" using p(2) w(1) by simp
    moreover have "set (p @ w) \<subseteq> \<Union> (set ` set ps)" using p(1) w(2) by auto
    ultimately show ?thesis by blast
  qed
qed

lemma trim_not_blank:
  assumes "c \<in> set s" "c \<notin> \<Union> (set ` set ws_seqs)"
  shows "trim s \<noteq> []"
proof -
  obtain w where w: "s = w @ trim_start s" "set w \<subseteq> \<Union> (set ` set ws_seqs)"
    using strip_all_prefix [of s ws_seqs] by (auto simp: trim_start_def)
  then have "c \<in> set (trim_start s)" using assms by (metis UnE set_append subsetD)
  moreover obtain v where "rev (trim_start s) = v @ rev (trim s)" "set v \<subseteq> \<Union> (set ` set ws_seqs)"
    using strip_all_prefix [of "rev (trim_start s)" "map rev ws_seqs"] by (auto simp: trim_def trim_end_def)
  ultimately have "c \<in> set (rev (trim s))" using assms(2) by (metis UnE set_append set_rev subsetD)
  then show ?thesis by auto
qed

lemma trim_stage_id: "starts_with ''st-'' q \<Longrightarrow> trim q \<noteq> []"
proof (rule trim_not_blank [of "CHR ''s''"])
  show "starts_with ''st-'' q \<Longrightarrow> CHR ''s'' \<in> set q" by (auto simp: starts_with_iff)
  show "CHR ''s'' \<notin> \<Union> (set ` set ws_seqs)" by code_simp
qed

lemma filter_unique: "distinct xs \<Longrightarrow> m \<in> set xs \<Longrightarrow> (\<And>x. x \<in> set xs \<Longrightarrow> P x \<longleftrightarrow> x = m) \<Longrightarrow> filter P xs = [m]"
proof (induction xs)
  case (Cons x xs)
  show ?case
  proof (cases "x = m")
    case True
    then have "\<not> P y" if "y \<in> set xs" for y using Cons.prems that by auto
    then show ?thesis using Cons.prems True by (auto simp: filter_empty_conv)
  next
    case False
    then show ?thesis using Cons by auto
  qed
qed simp

lemma distinct_list_in:
  assumes "store_ok H s"
  shows "distinct (list_in s)"
proof -
  have "distinct (map fst t) \<Longrightarrow> (\<And>q d m. (q, d) \<in> set t \<Longrightarrow> meta d = Some (Readable m) \<Longrightarrow> stage_id m = q) \<Longrightarrow>
      distinct (concat (map (listed \<circ> snd) t)) \<and> stage_id ` set (concat (map (listed \<circ> snd) t)) \<subseteq> set (map fst t)" for t
  proof (induction t)
    case (Cons e t)
    note prems = Cons.prems
    obtain q d where e: "e = (q, d)" by (cases e)
    have t: "distinct (concat (map (listed \<circ> snd) t))" "stage_id ` set (concat (map (listed \<circ> snd) t)) \<subseteq> set (map fst t)"
      using Cons.IH Cons.prems(1) Cons.prems(2) [OF list.set_intros(2)] by (simp_all add: comp_def)
    show ?case
    proof (cases "listed d")
      case Nil
      then show ?thesis using t e by (auto simp: comp_def)
    next
      case (Cons m ms)
      then have m: "listed d = [m]" "meta d = Some (Readable m)"
        by (auto simp: listed_def split: option.splits meta_file.splits)
      then have "stage_id m = q" using prems(2) [of q d m] e by simp
      then show ?thesis using t e m prems(1) by (auto simp: comp_def)
    qed
  qed simp
  moreover have "stage_id m = q" if "(q, d) \<in> set s" "meta d = Some (Readable m)" for q d m
  proof -
    have "meta_at s q = Some m" using assms that by (auto simp: meta_at_iff store_ok_def)
    then show ?thesis using assms by (auto simp: store_ok_def metas_ok_def stage_ok_def)
  qed
  ultimately show ?thesis using assms by (auto simp: list_in_def store_ok_def)
qed

lemma resolve_by_id:
  assumes ok: "store_ok H s" and m: "m \<in> set (list_in s)"
  shows "resolve_in s (stage_id m) = Inr m"
proof -
  have d: "distinct (map fst s)" and M: "metas_ok (meta_at s)" using ok by (simp_all add: store_ok_def)
  have at: "meta_at s (stage_id n) = Some n" if "n \<in> set (list_in s)" for n
    using that list_in_iff [OF d] M by (auto simp: metas_ok_def stage_ok_def)
  have st: "stage_ok (meta_at s) (stage_id m) m" by (rule metas_okD [OF M at [OF m]])
  have "List.find (\<lambda>n. stage_id n = stage_id m) (list_in s) = Some m"
  proof -
    obtain n where n: "List.find (\<lambda>n. stage_id n = stage_id m) (list_in s) = Some n"
      using m by (cases "List.find (\<lambda>n. stage_id n = stage_id m) (list_in s)") (auto simp: find_None_iff)
    then have "stage_id n = stage_id m" "n \<in> set (list_in s)" by (auto simp: find_Some_iff)
    then have "n = m" using at [of n] at [OF m] by (metis option.inject)
    with n show ?thesis by (simp only:)
  qed
  moreover have "trim (stage_id m) \<noteq> []"
  proof (rule trim_stage_id)
    show "starts_with ''st-'' (stage_id m)" using st by (simp only: stage_ok_def)
  qed
  ultimately show ?thesis by (simp add: resolve_in_def resolve_among_def)
qed

text \<open>
  References resolve. In any store that commits and removals lead to, a listed stage is
  what its id resolves to, and what its label resolves to as long as no stage's id or vanity
  name is that label: an exact label wins over every prefix and is never ambiguous.
\<close>
theorem references_resolve:
  assumes "stage_reach H skew partial s" and "m \<in> set (list_in s)"
  shows "resolve_in s (stage_id m) = Inr m \<and>
    ((\<forall>n \<in> set (list_in s). stage_id n \<noteq> label m \<and> vanity n \<noteq> label m) \<longrightarrow> resolve_in s (label m) = Inr m)"
proof -
  have ok: "store_ok H s" using stage_reach_ok [OF assms(1)] by simp
  then have d: "distinct (map fst s)" and M: "metas_ok (meta_at s)" by (simp_all add: store_ok_def)
  have at: "meta_at s (stage_id n) = Some n" if "n \<in> set (list_in s)" for n
    using that list_in_iff [OF d] M by (auto simp: metas_ok_def stage_ok_def)
  have st: "stage_ok (meta_at s) (stage_id m) m" by (rule metas_okD [OF M at [OF assms(2)]])
  have nb: "trim (label m) \<noteq> []" using st by (simp add: stage_ok_def)
  have "resolve_in s (stage_id m) = Inr m" by (rule resolve_by_id [OF ok assms(2)])
  moreover have "resolve_in s (label m) = Inr m"
    if free: "\<forall>n \<in> set (list_in s). stage_id n \<noteq> label m \<and> vanity n \<noteq> label m"
  proof -
    have "List.find (\<lambda>n. stage_id n = label m) (list_in s) = None" using free by (auto simp: find_None_iff)
    moreover have "filter (\<lambda>n. vanity n = label m) (list_in s) = []" using free by (auto simp: filter_empty_conv)
    moreover have "filter (\<lambda>n. label n = label m) (list_in s) = [m]"
    proof (rule filter_unique [OF distinct_list_in [OF ok] assms(2)])
      fix n assume "n \<in> set (list_in s)"
      with at [of n] at [OF assms(2)] M show "label n = label m \<longleftrightarrow> n = m"
        unfolding metas_ok_def by (metis option.inject)
    qed
    ultimately show ?thesis using nb by (simp add: resolve_in_def resolve_among_def)
  qed
  ultimately show ?thesis by blast
qed

text \<open>
  C19: every listed stage can be booted. After any sequence of commits, failing or killed at any
  call, and of completed removals, a listed stage is what its id resolves to, and its drives are
  there, oldest first: each the read-only layer with the content its id names, ending in the
  stage's own.
\<close>
theorem every_stage_boots:
  assumes "stage_reach H skew False s" and "m \<in> set (list_in s)"
  shows "resolve_in s (stage_id m) = Inr m \<and> chain_paths_in s m = Inr (map (\<lambda>c. (c, LAYER_FILE)) (chain m)) \<and>
    (\<forall>c \<in> set (chain m). \<exists>d bs. map_of s c = Some d \<and> layer d = Some (bs, 0x124) \<and> stage_id_for H bs = c) \<and>
    last (chain m) = stage_id m \<and> length (chain m) \<le> 10"
proof -
  have ok: "store_ok H s" and int: "intact s" using stage_reach_ok [OF assms(1)] by simp_all
  have d: "distinct (map fst s)" using ok by (simp add: store_ok_def)
  obtain q where q: "meta_at s q = Some m" using assms(2) list_in_iff [OF d] by blast
  have M: "metas_ok (meta_at s)" using ok by (simp add: store_ok_def)
  have st: "stage_ok (meta_at s) q m" by (rule metas_okD [OF M q])
  have lay: "\<exists>d bs. map_of s c = Some d \<and> layer d = Some (bs, 0x124) \<and> stage_id_for H bs = c" if c: "c \<in> set (chain m)" for c
  proof -
    obtain a where "meta_at s c = Some a" using in_chain [OF M q c] .
    then obtain e bs md where e: "map_of s c = Some e" "layer e = Some (bs, md)"
      using int unfolding intact_def by fastforce
    then have "stage_id_for H bs = c \<and> md = 0x124" using ok by (auto simp: store_ok_def layers_ok_def)
    with e show ?thesis by blast
  qed
  then have "layer_paths s (chain m) = Inr (map (\<lambda>c. (c, LAYER_FILE)) (chain m))"
    by (intro layer_paths_ok) blast
  with st lay resolve_by_id [OF ok assms(2)] show ?thesis by (auto simp: chain_paths_in_def stage_ok_def MAX_CHAIN_DEPTH_def)
qed

section \<open>Sample stores\<close>

text \<open>A digest for the samples: the hexadecimal digits of the first byte, sixteen times over.\<close>

definition sample_hex :: "bytes \<Rightarrow> string" where
  "sample_hex bs = concat (replicate 16 (show_hex (unat (hd bs))))"

definition sample_commit :: "u8 \<Rightarrow> nat \<Rightarrow> commit_io option \<Rightarrow> commit_env" where
  "sample_commit b t f =
     \<lparr>scratch = Some [b], fault = f, copy_mode = 0x1a4, torn_copy = [], now_unix = t, blocks = (\<lambda>_. 0)\<rparr>"

definition sample_base :: base_id where
  "sample_base = \<lparr>flavor = ''base-sqfs'', sha256 = Some ''aa''\<rparr>"

definition first_store :: stage_store where
  "first_store = snd (commit_in sample_hex (sample_commit 1 5 None) ''europan-cosmodrome'' None sample_base False [])"

definition forked_store :: stage_store where
  "forked_store = snd (commit_in sample_hex (sample_commit 2 6 None) ''test'' (Some ''st-1111111111111111'') sample_base False
     first_store)"

definition first_stage :: stage_meta where
  "first_stage =
     \<lparr>stage_id = ''st-1111111111111111'', vanity = ''cryptic-banshee'', label = ''europan-cosmodrome'', parent = None,
      chain = [''st-1111111111111111''], base = ''base-sqfs'', base_sha256 = Some ''aa'', created_unix = 5,
      bytes_apparent = 1, bytes_allocated = 0\<rparr>"

definition second_stage :: stage_meta where
  "second_stage =
     \<lparr>stage_id = ''st-2222222222222222'', vanity = ''europan-cosmodrome'', label = ''test'',
      parent = Some ''st-1111111111111111'', chain = [''st-1111111111111111'', ''st-2222222222222222''],
      base = ''base-sqfs'', base_sha256 = Some ''aa'', created_unix = 6, bytes_apparent = 1, bytes_allocated = 0\<rparr>"

definition sample_dir :: "u8 \<Rightarrow> stage_meta \<Rightarrow> stage_dir" where
  "sample_dir b m =
     \<lparr>layer = Some ([b], 0x124), layer_partial = None, meta = Some (Readable m), meta_partial = False\<rparr>"

lemma first_store_eq: "first_store = [(''st-1111111111111111'', sample_dir 1 first_stage)]"
  by code_simp

lemma forked_store_eq:
  "forked_store = [(''st-1111111111111111'', sample_dir 1 first_stage), (''st-2222222222222222'', sample_dir 2 second_stage)]"
  unfolding forked_store_def first_store_eq by code_simp

lemma sample_listings: "list_in first_store = [first_stage]" "list_in forked_store = [first_stage, second_stage]"
  unfolding first_store_eq forked_store_eq by code_simp+

lemma first_reach: "stage_reach sample_hex False False first_store"
  unfolding first_store_def
  by (rule stage_reach.commit [OF stage_reach.fresh]) (auto intro: prod.collapse [symmetric])

lemma sample_reach: "stage_reach sample_hex False False forked_store"
  unfolding forked_store_def
  by (rule stage_reach.commit [OF first_reach]) (auto intro: prod.collapse [symmetric])

theorem stage_store_sound_witness: "store_ok sample_hex forked_store \<and> list_in forked_store = [first_stage, second_stage]"
  using stage_store_sound [OF sample_reach] sample_listings by blast

theorem every_stage_boots_witness:
  "chain_paths_in forked_store second_stage =
   Inr [(''st-1111111111111111'', LAYER_FILE), (''st-2222222222222222'', LAYER_FILE)]"
proof -
  have "second_stage \<in> set (list_in forked_store)" by (simp add: sample_listings)
  from every_stage_boots [OF sample_reach this] show ?thesis by (simp add: second_stage_def)
qed

theorem chains_share_a_base_witness:
  "\<exists>a. meta_at forked_store ''st-1111111111111111'' = Some a \<and> base a = base second_stage"
proof -
  have "second_stage \<in> set (list_in forked_store)" "''st-1111111111111111'' \<in> set (chain second_stage)"
    by (simp_all add: sample_listings second_stage_def)
  from chains_share_a_base [OF sample_reach this] show ?thesis by blast
qed

theorem references_resolve_witness:
  "resolve_in forked_store ''st-2222222222222222'' = Inr second_stage \<and> resolve_in forked_store ''test'' = Inr second_stage"
proof -
  have "second_stage \<in> set (list_in forked_store)" by (simp add: sample_listings)
  from references_resolve [OF sample_reach this] show ?thesis
    by (simp add: sample_listings first_stage_def second_stage_def)
qed

text \<open>
  A label is checked against the labels that exist, not against the vanity names a later commit
  may be given, and a vanity name is preferred: here the second commit takes over what the
  first one's label refers to.
\<close>

lemma label_taken_over_by_a_name:
  "resolve_in first_store ''europan-cosmodrome'' = Inr first_stage"
  "resolve_in forked_store ''europan-cosmodrome'' = Inr second_stage"
  unfolding resolve_in_def sample_listings by code_simp+

end
