(* ===== verification/Oci_Layout.thy ===== *)
theory Oci_Layout
  imports Prelude "HOL-Library.List_Lexorder" "HOL-Library.Char_ord"
begin

text \<open>
  \<open>oci-unpack/src/digest.rs\<close> and \<open>layout.rs\<close>: content digests, and the reader of an image
  layout, which walks from \<open>index.json\<close> through nested indexes to one manifest. The files, the
  JSON parser and the hash function are the record \<open>layout_env\<close>: a parser answers with the
  fields the code deserialises, each of which may be missing.
\<close>

section \<open>Digests\<close>

record digest =
  algorithm :: string
  encoded :: string

datatype digest_error =
    DigestMalformed string | UnsupportedAlgorithm string | BadEncoding string

definition ALGORITHMS :: "(string \<times> nat) list" where
  "ALGORITHMS = [(''sha256'', 64)]"

definition lower_hex :: "char \<Rightarrow> bool" where
  "lower_hex c \<longleftrightarrow> is_ascii_digit c \<or> code CHR ''a'' \<le> code c \<and> code c \<le> code CHR ''f''"

definition digest_parse :: "string \<Rightarrow> digest_error + digest" where
  "digest_parse s =
     (case split_once CHR '':'' s of
        None \<Rightarrow> Inl (DigestMalformed s)
      | Some (alg, enc) \<Rightarrow>
          if alg = [] \<or> enc = [] then Inl (DigestMalformed s)
          else case List.find (\<lambda>(a, _). a = alg) ALGORITHMS of
              None \<Rightarrow> Inl (UnsupportedAlgorithm alg)
            | Some (_, len) \<Rightarrow>
                if length enc \<noteq> len \<or> \<not> list_all lower_hex enc then Inl (BadEncoding s)
                else Inr \<lparr>algorithm = alg, encoded = enc\<rparr>)"

definition show_digest :: "digest \<Rightarrow> string" where
  "show_digest d = algorithm d @ '':'' @ encoded d"

text \<open>\<^const>\<open>None\<close> is the panic on an algorithm that \<open>parse\<close> does not let through.\<close>

definition digest_compute :: "(bytes \<Rightarrow> string) \<Rightarrow> digest \<Rightarrow> bytes \<Rightarrow> string option" where
  "digest_compute sha d bs = (if algorithm d = ''sha256'' then Some (sha bs) else None)"

text \<open>\<open>Path::join\<close> on text: an absolute second part replaces the first.\<close>

definition path_join :: "string \<Rightarrow> string \<Rightarrow> string" where
  "path_join a b =
     (if starts_with ''/'' b then b else if a = [] \<or> ends_with ''/'' a then a @ b else a @ ''/'' @ b)"

definition digest_blob_path :: "digest \<Rightarrow> string" where
  "digest_blob_path d = path_join (path_join ''blobs'' (algorithm d)) (encoded d)"

section \<open>Media types and platforms\<close>

definition MAX_METADATA_BYTES :: nat where "MAX_METADATA_BYTES = 4 * 1024 * 1024"

definition MAX_INDEX_DEPTH :: nat where "MAX_INDEX_DEPTH = 4"

definition LAYOUT_VERSIONS :: "string list" where "LAYOUT_VERSIONS = [''1.0.0'']"

definition INDEX_TYPES :: "string list" where
  "INDEX_TYPES =
     [''application/vnd.oci.image.index.v1+json'',
      ''application/vnd.docker.distribution.manifest.list.v2+json'']"

definition MANIFEST_TYPES :: "string list" where
  "MANIFEST_TYPES =
     [''application/vnd.oci.image.manifest.v1+json'',
      ''application/vnd.docker.distribution.manifest.v2+json'']"

definition CONFIG_TYPES :: "string list" where
  "CONFIG_TYPES =
     [''application/vnd.oci.image.config.v1+json'', ''application/vnd.docker.container.image.v1+json'']"

datatype compression = NoCompression | Gzip | Zstd

definition compression_of :: "string \<Rightarrow> compression option" where
  "compression_of t =
     (if t \<in> {''application/vnd.oci.image.layer.v1.tar'', ''application/vnd.docker.image.rootfs.diff.tar''}
      then Some NoCompression
      else if t \<in> {''application/vnd.oci.image.layer.v1.tar+gzip'',
                   ''application/vnd.docker.image.rootfs.diff.tar.gzip''} then Some Gzip
      else if t = ''application/vnd.oci.image.layer.v1.tar+zstd'' then Some Zstd
      else None)"

definition is_index :: "string \<Rightarrow> bool" where "is_index t \<longleftrightarrow> t \<in> set INDEX_TYPES"

definition is_manifest :: "string \<Rightarrow> bool" where "is_manifest t \<longleftrightarrow> t \<in> set MANIFEST_TYPES"

record platform =
  os :: string
  architecture :: string
  variant :: "string option"

definition host_platform :: platform where
  "host_platform = \<lparr>os = ''linux'', architecture = ''amd64'', variant = None\<rparr>"

definition satisfies :: "platform \<Rightarrow> platform \<Rightarrow> bool" where
  "satisfies p want \<longleftrightarrow>
     os p = os want \<and> architecture p = architecture want \<and> (variant p = None \<or> variant p = variant want)"

definition show_platform :: "platform \<Rightarrow> string" where
  "show_platform p =
     os p @ ''/'' @ architecture p @ (case variant p of Some v \<Rightarrow> ''/'' @ v | None \<Rightarrow> [])"

section \<open>Documents\<close>

record descriptor =
  media_type :: string
  blob_digest :: digest
  blob_size :: nat
  for_platform :: "platform option"
  annotations :: "(string \<times> string) list"

record image_manifest =
  config :: descriptor
  layers :: "descriptor list"

record image_config =
  ic_env :: "string list"
  ic_working_dir :: "string option"
  ic_entrypoint :: "string list"
  ic_cmd :: "string list"
  ic_user :: "string option"
  ic_diff_ids :: "string list"

text \<open>The documents as they are deserialised. A size is an \<open>i64\<close>, so it may be negative.\<close>

record raw_platform =
  r_os :: "string option"
  r_architecture :: "string option"
  r_variant :: "string option"

record raw_descriptor =
  r_media_type :: "string option"
  r_digest :: "string option"
  r_size :: "int option"
  r_platform :: "raw_platform option"
  r_annotations :: "(string \<times> string) list option"

record raw_manifest =
  r_config :: "raw_descriptor option"
  r_layers :: "raw_descriptor list option"

record raw_config_inner =
  r_env :: "string list option"
  r_working_dir :: "string option"
  r_entrypoint :: "string list option"
  r_cmd :: "string list option"
  r_user :: "string option"

record raw_config =
  r_inner :: "raw_config_inner option"
  r_rootfs :: "string list option option"

datatype layout_error =
    NotALayout string | LayoutIo string | LayoutMalformed string | BadDigest digest_error
  | DigestMismatch string string | LayoutTooLarge string nat nat
  | NoSuchPlatform string "string list" | DigestPanic

text \<open>
  What the file system answers for a path (is it a directory, a regular file, its length, does
  it open, what does reading it in full yield, and what does opening it once more and reading
  it yield), the hash function in lowercase hex, and what the JSON parser makes of some bytes
  (\<^const>\<open>None\<close>: not a document of that shape).
\<close>

record layout_env =
  dir_there :: "string \<Rightarrow> bool"
  file_there :: "string \<Rightarrow> bool"
  stat_len :: "string \<Rightarrow> nat option"
  opens :: "string \<Rightarrow> bool"
  contents :: "string \<Rightarrow> bytes option"
  reopened :: "string \<Rightarrow> bytes option"
  sha256_hex :: "bytes \<Rightarrow> string"
  layout_json :: "bytes \<Rightarrow> string option option"
  index_json :: "bytes \<Rightarrow> raw_descriptor list option option"
  manifest_json :: "bytes \<Rightarrow> raw_manifest option"
  config_json :: "bytes \<Rightarrow> raw_config option"

definition raw_to_platform :: "raw_platform \<Rightarrow> platform option" where
  "raw_to_platform p =
     (case (r_os p, r_architecture p) of
        (Some o', Some a) \<Rightarrow> Some \<lparr>os = o', architecture = a, variant = r_variant p\<rparr>
      | _ \<Rightarrow> None)"

definition descriptor_of :: "raw_descriptor \<Rightarrow> string \<Rightarrow> layout_error + descriptor" where
  "descriptor_of raw what =
     (case r_digest raw of
        None \<Rightarrow> Inl (LayoutMalformed what)
      | Some s \<Rightarrow>
         (case digest_parse s of
            Inl e \<Rightarrow> Inl (BadDigest e)
          | Inr d \<Rightarrow>
             (case r_size raw of
                None \<Rightarrow> Inl (LayoutMalformed what)
              | Some n \<Rightarrow>
                  if n < 0 then Inl (LayoutMalformed what)
                  else case r_media_type raw of
                      None \<Rightarrow> Inl (LayoutMalformed what)
                    | Some t \<Rightarrow>
                        Inr \<lparr>media_type = t, blob_digest = d, blob_size = nat n,
                             for_platform = Option.bind (r_platform raw) raw_to_platform,
                             annotations = (case r_annotations raw of Some a \<Rightarrow> a | None \<Rightarrow> [])\<rparr>)))"

fun descriptors :: "raw_descriptor list \<Rightarrow> string \<Rightarrow> layout_error + descriptor list" where
  "descriptors [] what = Inr []"
| "descriptors (r # rs) what =
     try_bind (descriptor_of r what) (\<lambda>d. map_sum id ((#) d) (descriptors rs what))"

section \<open>Reading blobs\<close>

definition read_capped :: "layout_env \<Rightarrow> string \<Rightarrow> nat \<Rightarrow> string \<Rightarrow> layout_error + bytes" where
  "read_capped env path cap what =
     (if \<not> opens env path then Inl (LayoutIo path)
      else case stat_len env path of
          None \<Rightarrow> Inl (LayoutIo path)
        | Some len \<Rightarrow>
            if cap < len then Inl (LayoutTooLarge what cap len)
            else case contents env path of
                None \<Rightarrow> Inl (LayoutIo path)
              | Some bs \<Rightarrow>
                 (let got = take (cap + 1) bs in
                  if cap < length got then Inl (LayoutTooLarge what cap (length got)) else Inr got))"

definition check_digest :: "layout_env \<Rightarrow> descriptor \<Rightarrow> bytes \<Rightarrow> layout_error + unit" where
  "check_digest env d bs =
     (if blob_size d \<noteq> length bs then Inl (LayoutMalformed (''blob '' @ show_digest (blob_digest d)))
      else case digest_compute (sha256_hex env) (blob_digest d) bs of
          None \<Rightarrow> Inl DigestPanic
        | Some actual \<Rightarrow>
            if actual \<noteq> encoded (blob_digest d) then Inl (DigestMismatch (show_digest (blob_digest d)) actual)
            else Inr ())"

definition blob_path :: "string \<Rightarrow> descriptor \<Rightarrow> string" where
  "blob_path root d = path_join root (digest_blob_path (blob_digest d))"

definition metadata_blob :: "layout_env \<Rightarrow> string \<Rightarrow> descriptor \<Rightarrow> string \<Rightarrow> layout_error + bytes" where
  "metadata_blob env root d what =
     (if MAX_METADATA_BYTES < blob_size d then Inl (LayoutTooLarge what MAX_METADATA_BYTES (blob_size d))
      else try_bind (read_capped env (blob_path root d) MAX_METADATA_BYTES what) (\<lambda>bs.
        try_bind (check_digest env d bs) (\<lambda>_. Inr bs)))"

definition verify :: "layout_env \<Rightarrow> descriptor \<Rightarrow> string \<Rightarrow> layout_error + unit" where
  "verify env d path =
     (case stat_len env path of
        None \<Rightarrow> Inl (LayoutIo path)
      | Some len \<Rightarrow>
          if len \<noteq> blob_size d then Inl (LayoutMalformed (''blob '' @ show_digest (blob_digest d)))
          else if \<not> opens env path then Inl (LayoutIo path)
          else case contents env path of
              None \<Rightarrow> Inl (LayoutIo path)
            | Some bs \<Rightarrow>
                if sha256_hex env bs \<noteq> encoded (blob_digest d)
                then Inl (DigestMismatch (show_digest (blob_digest d)) (sha256_hex env bs))
                else Inr ())"

text \<open>The handle that is returned is a second one, opened after the check.\<close>

definition blob :: "layout_env \<Rightarrow> string \<Rightarrow> descriptor \<Rightarrow> layout_error + bytes" where
  "blob env root d =
     try_bind (verify env d (blob_path root d)) (\<lambda>_.
     ok_or (LayoutIo (blob_path root d)) (reopened env (blob_path root d)))"

section \<open>From the index to a manifest\<close>

definition layout_open :: "layout_env \<Rightarrow> string \<Rightarrow> layout_error + string" where
  "layout_open env root =
     (let marker = path_join root ''oci-layout'' in
      if \<not> dir_there env root then Inl (NotALayout root)
      else if \<not> opens env marker then Inl (NotALayout root)
      else case Option.bind (contents env marker) (layout_json env) of
          None \<Rightarrow> Inl (NotALayout root)
        | Some None \<Rightarrow> Inl (NotALayout root)
        | Some (Some version) \<Rightarrow>
            if version \<notin> set LAYOUT_VERSIONS then Inl (NotALayout root)
            else if \<not> file_there env (path_join root ''index.json'') then Inl (NotALayout root)
            else Inr root)"

definition index :: "layout_env \<Rightarrow> string \<Rightarrow> layout_error + descriptor list" where
  "index env root =
     try_bind (read_capped env (path_join root ''index.json'') MAX_METADATA_BYTES ''index.json'') (\<lambda>bs.
     case index_json env bs of
       None \<Rightarrow> Inl (LayoutMalformed ''index.json'')
     | Some manifests \<Rightarrow>
         descriptors (case manifests of Some ms \<Rightarrow> ms | None \<Rightarrow> []) ''index.json'')"

definition nested_index :: "layout_env \<Rightarrow> string \<Rightarrow> descriptor \<Rightarrow> layout_error + descriptor list" where
  "nested_index env root d =
     try_bind (metadata_blob env root d ''a nested index'') (\<lambda>bs.
     case index_json env bs of
       None \<Rightarrow> Inl (LayoutMalformed (''index '' @ show_digest (blob_digest d)))
     | Some manifests \<Rightarrow>
         descriptors (case manifests of Some ms \<Rightarrow> ms | None \<Rightarrow> []) ''a nested index'')"

definition read_manifest_blob :: "layout_env \<Rightarrow> string \<Rightarrow> descriptor \<Rightarrow> layout_error + image_manifest" where
  "read_manifest_blob env root d =
     try_bind (metadata_blob env root d ''a manifest'') (\<lambda>bs.
     (let bad = LayoutMalformed (''manifest '' @ show_digest (blob_digest d)) in
      case manifest_json env bs of
        None \<Rightarrow> Inl bad
      | Some raw \<Rightarrow>
          try_bind (ok_or bad (r_config raw)) (\<lambda>c.
          try_bind (descriptor_of c ''a manifest's config'') (\<lambda>cfg.
          if media_type cfg \<notin> set CONFIG_TYPES then Inl bad
          else try_bind (descriptors (case r_layers raw of Some ls \<Rightarrow> ls | None \<Rightarrow> []) ''a manifest's layers'') (\<lambda>ls.
            if ls = [] then Inl bad
            else if \<exists>l \<in> set ls. compression_of (media_type l) = None then Inl bad
            else Inr \<lparr>config = cfg, layers = ls\<rparr>)))))"

definition image_config_of :: "raw_config \<Rightarrow> image_config" where
  "image_config_of raw =
     (let inner = (case r_inner raw of
          Some i \<Rightarrow> i
        | None \<Rightarrow> \<lparr>r_env = None, r_working_dir = None, r_entrypoint = None, r_cmd = None, r_user = None\<rparr>);
          some_text = (\<lambda>t. case t of Some [] \<Rightarrow> None | _ \<Rightarrow> t);
          or_empty = (\<lambda>t. case t of Some xs \<Rightarrow> xs | None \<Rightarrow> []) in
      \<lparr>ic_env = or_empty (r_env inner), ic_working_dir = some_text (r_working_dir inner),
       ic_entrypoint = or_empty (r_entrypoint inner), ic_cmd = or_empty (r_cmd inner),
       ic_user = some_text (r_user inner),
       ic_diff_ids = (case Option.bind (r_rootfs raw) id of Some xs \<Rightarrow> xs | None \<Rightarrow> [])\<rparr>)"

definition read_config :: "layout_env \<Rightarrow> string \<Rightarrow> descriptor \<Rightarrow> layout_error + image_config" where
  "read_config env root d =
     try_bind (metadata_blob env root d ''a config'') (\<lambda>bs.
     case config_json env bs of
       None \<Rightarrow> Inl (LayoutMalformed (''config '' @ show_digest (blob_digest d)))
     | Some raw \<Rightarrow> Inr (image_config_of raw))"

text \<open>The entries that state a platform, in order, up to the first that satisfies the request.\<close>

fun pick_platform :: "descriptor list \<Rightarrow> platform \<Rightarrow> string list \<Rightarrow> descriptor option \<times> string list" where
  "pick_platform [] want offered = (None, offered)"
| "pick_platform (d # ds) want offered =
     (case for_platform d of
        None \<Rightarrow> pick_platform ds want offered
      | Some p \<Rightarrow>
          if satisfies p want \<and> (is_manifest (media_type d) \<or> is_index (media_type d))
          then (Some d, offered @ [show_platform p])
          else pick_platform ds want (offered @ [show_platform p]))"

definition pick :: "descriptor list \<Rightarrow> platform \<Rightarrow> string list \<Rightarrow> descriptor option \<times> string list" where
  "pick entries want offered =
     (case pick_platform entries want offered of
        (Some d, offered') \<Rightarrow> (Some d, offered')
      | (None, offered') \<Rightarrow>
         (case filter (\<lambda>d. for_platform d = None \<and> is_manifest (media_type d)) entries of
            [only] \<Rightarrow> (Some only, offered')
          | x # y # zs \<Rightarrow>
              (None, offered' @ [show_nat (length (x # y # zs)) @ '' manifests with no platform recorded''])
          | [] \<Rightarrow>
             (case filter (\<lambda>d. is_index (media_type d)) entries of
                [only] \<Rightarrow> (Some only, offered')
              | _ \<Rightarrow> (None, offered'))))"

fun resolve_from ::
  "layout_env \<Rightarrow> string \<Rightarrow> platform \<Rightarrow> nat \<Rightarrow> descriptor list \<Rightarrow> string list \<Rightarrow> layout_error + image_manifest" where
  "resolve_from env root want 0 entries offered =
     Inl (NoSuchPlatform (show_platform want) (remdups_adj (sort offered)))"
| "resolve_from env root want (Suc k) entries offered =
     (case pick entries want offered of
        (None, offered') \<Rightarrow> Inl (NoSuchPlatform (show_platform want) (remdups_adj (sort offered')))
      | (Some chosen, offered') \<Rightarrow>
          if is_manifest (media_type chosen) then read_manifest_blob env root chosen
          else try_bind (nested_index env root chosen) (\<lambda>entries'.
            resolve_from env root want k entries' offered'))"

definition layout_resolve :: "layout_env \<Rightarrow> string \<Rightarrow> platform \<Rightarrow> layout_error + image_manifest" where
  "layout_resolve env root want =
     try_bind (index env root) (\<lambda>entries. resolve_from env root want MAX_INDEX_DEPTH entries [])"

section \<open>Digests as paths\<close>

lemma lower_hex_chars: "lower_hex c \<Longrightarrow> c \<noteq> CHR ''/'' \<and> c \<noteq> CHR ''.''"
  by (auto simp: lower_hex_def ascii_class_defs code_def)

lemma digest_parse_Inr_iff:
  "digest_parse s = Inr d \<longleftrightarrow>
     s = show_digest d \<and> algorithm d = ''sha256'' \<and> length (encoded d) = 64 \<and> list_all lower_hex (encoded d)"
proof
  assume "digest_parse s = Inr d"
  then show "s = show_digest d \<and> algorithm d = ''sha256'' \<and> length (encoded d) = 64 \<and> list_all lower_hex (encoded d)"
    by (auto simp: digest_parse_def ALGORITHMS_def show_digest_def split_once_Some_iff
      split: option.splits if_splits)
next
  assume d: "s = show_digest d \<and> algorithm d = ''sha256'' \<and> length (encoded d) = 64 \<and> list_all lower_hex (encoded d)"
  then have "split_once CHR '':'' s = Some (''sha256'', encoded d)"
    by (simp add: show_digest_def)
  with d show "digest_parse s = Inr d" by (auto simp: digest_parse_def ALGORITHMS_def)
qed

text \<open>
  A digest that parses is the text it was parsed from, can be computed, and names one
  place: its path below a layout's root is exactly \<open>blobs/sha256/\<close> and 64 lowercase hex
  digits, so no digest leads out of the layout or to another digest's blob.
\<close>
theorem digest_names_one_blob:
  assumes "digest_parse s = Inr d"
  shows "show_digest d = s \<and> digest_parse (show_digest d) = Inr d \<and>
    split_on CHR ''/'' (digest_blob_path d) = [''blobs'', ''sha256'', encoded d] \<and>
    length (encoded d) = 64 \<and> list_all lower_hex (encoded d) \<and>
    digest_compute sha d bs = Some (sha bs)"
proof -
  have d: "s = show_digest d" "algorithm d = ''sha256''" "length (encoded d) = 64" "list_all lower_hex (encoded d)"
    using assms by (simp_all add: digest_parse_Inr_iff)
  have "CHR ''/'' \<notin> set (encoded d)" using d(4) lower_hex_chars by (auto simp: list_all_iff)
  moreover from this have "\<not> starts_with ''/'' (encoded d)" by (auto simp: starts_with_iff)
  ultimately have "split_on CHR ''/'' (digest_blob_path d) = [''blobs'', ''sha256'', encoded d]"
    using d(2) split_on_absent [of "CHR ''/''" "encoded d"]
    by (simp add: digest_blob_path_def path_join_def starts_with_def ends_with_def strip_suffix_def)
  with d show ?thesis by (simp add: digest_parse_Inr_iff digest_compute_def)
qed

section \<open>What a resolved manifest rests on\<close>

text \<open>The blob a descriptor names, as it was read: of the size and with the hash the descriptor has.\<close>

definition vouched :: "layout_env \<Rightarrow> string \<Rightarrow> descriptor \<Rightarrow> bytes \<Rightarrow> bool" where
  "vouched env root d bs \<longleftrightarrow>
     contents env (blob_path root d) = Some bs \<and> length bs = blob_size d \<and>
     sha256_hex env bs = encoded (blob_digest d)"

definition well_named :: "descriptor \<Rightarrow> bool" where
  "well_named d \<longleftrightarrow> digest_parse (show_digest (blob_digest d)) = Inr (blob_digest d)"

definition index_entries :: "layout_env \<Rightarrow> bytes \<Rightarrow> string \<Rightarrow> descriptor list \<Rightarrow> bool" where
  "index_entries env bs what ds \<longleftrightarrow>
     (\<exists>raws. index_json env bs = Some raws \<and> descriptors (case raws of Some rs \<Rightarrow> rs | None \<Rightarrow> []) what = Inr ds)"

text \<open>The descriptors that \<open>index.json\<close> leads to through indexes that are what their digests say.\<close>

inductive offers :: "layout_env \<Rightarrow> string \<Rightarrow> nat \<Rightarrow> descriptor list \<Rightarrow> bool" for env root where
  top: "contents env (path_join root ''index.json'') = Some bs \<Longrightarrow> length bs \<le> MAX_METADATA_BYTES \<Longrightarrow>
    index_entries env bs ''index.json'' ds \<Longrightarrow> offers env root 0 ds"
| nested: "offers env root n ds \<Longrightarrow> d \<in> set ds \<Longrightarrow> is_index (media_type d) \<Longrightarrow> vouched env root d bs \<Longrightarrow>
    length bs \<le> MAX_METADATA_BYTES \<Longrightarrow> index_entries env bs ''a nested index'' ds' \<Longrightarrow> offers env root (Suc n) ds'"

lemma map_sum_Inr_iff [result_iff]: "map_sum f g r = Inr y \<longleftrightarrow> (\<exists>x. r = Inr x \<and> y = g x)"
  by (cases r) auto

lemma descriptor_of_well_named: "descriptor_of raw what = Inr d \<Longrightarrow> well_named d"
  by (auto simp: descriptor_of_def well_named_def digest_parse_Inr_iff split: option.splits sum.splits if_splits)

lemma descriptors_well_named: "descriptors raws what = Inr ds \<Longrightarrow> d \<in> set ds \<Longrightarrow> well_named d"
  by (induction raws arbitrary: ds) (auto simp: result_iff dest: descriptor_of_well_named)

lemma offers_well_named: "offers env root n ds \<Longrightarrow> d \<in> set ds \<Longrightarrow> well_named d"
  by (erule offers.cases) (auto simp: index_entries_def dest: descriptors_well_named)

lemma read_capped_Inr:
  assumes "read_capped env path cap what = Inr bs"
  shows "contents env path = Some bs \<and> length bs \<le> cap"
  using assms by (auto simp: read_capped_def Let_def split: if_splits option.splits)

lemma metadata_blob_Inr:
  assumes "metadata_blob env root d what = Inr bs"
  shows "vouched env root d bs \<and> length bs \<le> MAX_METADATA_BYTES"
  using assms read_capped_Inr [of env "blob_path root d" MAX_METADATA_BYTES what bs]
  by (auto simp: metadata_blob_def check_digest_def vouched_def digest_compute_def result_iff split: if_splits)

text \<open>A parsed digest never meets the panic.\<close>

lemma metadata_blob_no_panic: "well_named d \<Longrightarrow> metadata_blob env root d what \<noteq> Inl DigestPanic"
  by (auto simp: metadata_blob_def check_digest_def digest_compute_def read_capped_def well_named_def
    digest_parse_Inr_iff result_iff Let_def split: if_splits option.splits)

lemma pick_platform_chosen:
  "pick_platform ds want off = (Some d, off') \<Longrightarrow>
   d \<in> set ds \<and> (is_manifest (media_type d) \<or> is_index (media_type d)) \<and>
   (\<exists>p. for_platform d = Some p \<and> satisfies p want)"
  by (induction ds arbitrary: off) (auto split: option.splits if_splits)

lemma filter_singleton: "filter P xs = [x] \<Longrightarrow> x \<in> set xs \<and> P x"
proof -
  assume "filter P xs = [x]"
  then have "x \<in> set (filter P xs)" by simp
  then show ?thesis by simp
qed

lemma pick_chosen:
  assumes "pick ds want off = (Some d, off')"
  shows "d \<in> set ds \<and> (is_manifest (media_type d) \<or> is_index (media_type d)) \<and>
    (is_manifest (media_type d) \<longrightarrow> (case for_platform d of
       Some p \<Rightarrow> satisfies p want
     | None \<Rightarrow> filter (\<lambda>e. for_platform e = None \<and> is_manifest (media_type e)) ds = [d]))"
proof (cases "fst (pick_platform ds want off)")
  case (Some e)
  with assms have "pick_platform ds want off = (Some d, off')" by (auto simp: pick_def split: prod.splits)
  with pick_platform_chosen [OF this] show ?thesis by auto
next
  case None
  then show ?thesis
    using assms filter_singleton [of "\<lambda>d. for_platform d = None \<and> is_manifest (media_type d)" ds d]
      filter_singleton [of "\<lambda>d. is_index (media_type d)" ds d]
    by (auto simp: pick_def is_index_def is_manifest_def INDEX_TYPES_def MANIFEST_TYPES_def
      split: prod.splits list.splits option.splits)
qed

lemma nested_index_Inr:
  assumes "nested_index env root d = Inr ds'"
  shows "\<exists>bs. vouched env root d bs \<and> length bs \<le> MAX_METADATA_BYTES \<and> index_entries env bs ''a nested index'' ds'"
proof -
  obtain bs where bs: "metadata_blob env root d ''a nested index'' = Inr bs"
    using assms by (auto simp: nested_index_def result_iff)
  obtain raws where "index_json env bs = Some raws"
    using assms bs by (auto simp: nested_index_def split: option.splits)
  with assms bs have "index_entries env bs ''a nested index'' ds'"
    by (simp add: nested_index_def index_entries_def)
  with metadata_blob_Inr [OF bs] show ?thesis by blast
qed

lemma read_manifest_blob_Inr:
  assumes "read_manifest_blob env root d = Inr m"
  shows "\<exists>bs raw c. vouched env root d bs \<and> length bs \<le> MAX_METADATA_BYTES \<and>
    manifest_json env bs = Some raw \<and> r_config raw = Some c \<and>
    descriptor_of c ''a manifest's config'' = Inr (config m) \<and>
    descriptors (case r_layers raw of Some ls \<Rightarrow> ls | None \<Rightarrow> []) ''a manifest's layers'' = Inr (layers m) \<and>
    media_type (config m) \<in> set CONFIG_TYPES \<and> layers m \<noteq> [] \<and>
    (\<forall>l \<in> set (layers m). compression_of (media_type l) \<noteq> None)"
proof -
  obtain bs where bs: "metadata_blob env root d ''a manifest'' = Inr bs"
    using assms by (auto simp: read_manifest_blob_def result_iff)
  obtain raw where raw: "manifest_json env bs = Some raw"
    using assms bs by (auto simp: read_manifest_blob_def Let_def split: option.splits)
  obtain c where c: "r_config raw = Some c"
    using assms bs raw by (auto simp: read_manifest_blob_def Let_def result_iff)
  obtain cfg where cfg: "descriptor_of c ''a manifest's config'' = Inr cfg"
    using assms bs raw c by (auto simp: read_manifest_blob_def Let_def result_iff ok_or_def)
  obtain ls where ls: "descriptors (case r_layers raw of Some ls \<Rightarrow> ls | None \<Rightarrow> []) ''a manifest's layers'' = Inr ls"
    "media_type cfg \<in> set CONFIG_TYPES"
    using assms bs raw c cfg by (auto simp: read_manifest_blob_def Let_def result_iff ok_or_def split: if_splits)
  have m: "m = \<lparr>config = cfg, layers = ls\<rparr>" "ls \<noteq> []" "\<forall>l \<in> set ls. compression_of (media_type l) \<noteq> None"
    using assms bs raw c cfg ls by (auto simp: read_manifest_blob_def Let_def ok_or_def split: if_splits)
  from metadata_blob_Inr [OF bs] show ?thesis
    by (intro exI [of _ bs] exI [of _ raw] exI [of _ c]) (use raw c cfg ls m in simp)
qed

text \<open>The manifest a resolution settles on, and why its index offered it for the platform.\<close>

lemma resolve_from_sound:
  assumes "resolve_from env root want k ds off = Inr m" and "offers env root n ds"
  shows "\<exists>d n' ds'. offers env root n' ds' \<and> n' < n + k \<and> d \<in> set ds' \<and> is_manifest (media_type d) \<and>
    (case for_platform d of
       Some p \<Rightarrow> satisfies p want
     | None \<Rightarrow> filter (\<lambda>e. for_platform e = None \<and> is_manifest (media_type e)) ds' = [d]) \<and>
    read_manifest_blob env root d = Inr m"
  using assms
proof (induction k arbitrary: n ds off)
  case (Suc k)
  obtain d off' where p: "pick ds want off = (Some d, off')"
    using Suc.prems(1) by (auto split: prod.splits option.splits)
  note chosen = pick_chosen [OF p]
  show ?case
  proof (cases "is_manifest (media_type d)")
    case True
    with p chosen Suc.prems show ?thesis
      by (intro exI [of _ d] exI [of _ n] exI [of _ ds]) simp
  next
    case False
    then obtain ds' where nest: "nested_index env root d = Inr ds'" and
        rest: "resolve_from env root want k ds' off' = Inr m"
      using Suc.prems(1) p by (auto simp: result_iff)
    obtain bs where "vouched env root d bs \<and> length bs \<le> MAX_METADATA_BYTES \<and> index_entries env bs ''a nested index'' ds'"
      using nested_index_Inr [OF nest] by blast
    with chosen False Suc.prems(2) have "offers env root (Suc n) ds'" by (blast intro: offers.nested)
    from Suc.IH [OF rest this] show ?thesis by fastforce
  qed
qed simp

text \<open>
  C34: a manifest that is resolved rests on digests from \<open>index.json\<close> on: at most three nested
  indexes lead to it, each of the size and with the hash that the index before it gives; its
  own bytes have the size and hash of its entry, are at most 4 MiB and parse to it. Its entry
  either states a platform that satisfies the request or is its index's only manifest without
  one. Its configuration is an image configuration, it has layers, all of a type that can be
  unpacked, and every digest in it is well-formed.
\<close>
theorem resolved_manifest_is_vouched_for:
  assumes "layout_resolve env root want = Inr m"
  shows "\<exists>n ds d bs raw. offers env root n ds \<and> n < 4 \<and> d \<in> set ds \<and> is_manifest (media_type d) \<and>
    (case for_platform d of
       Some p \<Rightarrow> satisfies p want
     | None \<Rightarrow> filter (\<lambda>e. for_platform e = None \<and> is_manifest (media_type e)) ds = [d]) \<and>
    vouched env root d bs \<and> length bs \<le> 4194304 \<and> manifest_json env bs = Some raw \<and>
    descriptors (case r_layers raw of Some ls \<Rightarrow> ls | None \<Rightarrow> []) ''a manifest's layers'' = Inr (layers m) \<and>
    media_type (config m) \<in> set CONFIG_TYPES \<and> layers m \<noteq> [] \<and>
    (\<forall>l \<in> set (config m # layers m). well_named l) \<and>
    (\<forall>l \<in> set (layers m). compression_of (media_type l) \<noteq> None)"
proof -
  obtain ds0 where ds0: "index env root = Inr ds0" "resolve_from env root want MAX_INDEX_DEPTH ds0 [] = Inr m"
    using assms by (auto simp: layout_resolve_def result_iff)
  obtain bs0 where "read_capped env (path_join root ''index.json'') MAX_METADATA_BYTES ''index.json'' = Inr bs0"
      "index_entries env bs0 ''index.json'' ds0"
    using ds0(1) by (auto simp: index_def index_entries_def result_iff split: option.splits)
  then have "offers env root 0 ds0" using read_capped_Inr by (blast intro: offers.top)
  from resolve_from_sound [OF ds0(2) this]
  obtain n ds d where d: "offers env root n ds" "n < MAX_INDEX_DEPTH" "d \<in> set ds" "is_manifest (media_type d)"
      "case for_platform d of
         Some p \<Rightarrow> satisfies p want
       | None \<Rightarrow> filter (\<lambda>e. for_platform e = None \<and> is_manifest (media_type e)) ds = [d]"
      "read_manifest_blob env root d = Inr m"
    by auto
  obtain bs raw c where m: "vouched env root d bs" "length bs \<le> MAX_METADATA_BYTES" "manifest_json env bs = Some raw"
      "descriptor_of c ''a manifest's config'' = Inr (config m)"
      "descriptors (case r_layers raw of Some ls \<Rightarrow> ls | None \<Rightarrow> []) ''a manifest's layers'' = Inr (layers m)"
      "media_type (config m) \<in> set CONFIG_TYPES" "layers m \<noteq> []"
      "\<forall>l \<in> set (layers m). compression_of (media_type l) \<noteq> None"
    using read_manifest_blob_Inr [OF d(6)] by auto
  have "\<forall>l \<in> set (config m # layers m). well_named l"
    using descriptor_of_well_named [OF m(4)] descriptors_well_named [OF m(5)] by simp
  with d m show ?thesis
    by (intro exI [of _ n] exI [of _ ds] exI [of _ d] exI [of _ bs] exI [of _ raw])
      (simp add: MAX_INDEX_DEPTH_def MAX_METADATA_BYTES_def)
qed

text \<open>
  A layer that is handed out has the size and the hash of its descriptor, over the whole
  file, provided the file is not changed while the check runs and before it is opened again.
\<close>
theorem blob_is_vouched_for:
  assumes "blob env root d = Inr bs"
    and "reopened env (blob_path root d) = contents env (blob_path root d)"
    and "stat_len env (blob_path root d) = map_option length (contents env (blob_path root d))"
  shows "vouched env root d bs"
  using assms by (auto simp: blob_def verify_def vouched_def result_iff split: option.splits if_splits)

section \<open>A layout\<close>

text \<open>
  Three documents, one byte each, under a stand-in hash: \<open>index.json\<close> with one entry, an index
  for \<open>linux/arm64\<close>; that index, with one manifest that states no platform; and the manifest.
\<close>

definition sample_hash :: "bytes \<Rightarrow> string" where
  "sample_hash bs = replicate 64 (digit_char (unat (hd bs)))"

definition sample_raw :: "string \<Rightarrow> nat \<Rightarrow> raw_platform option \<Rightarrow> raw_descriptor" where
  "sample_raw t n p =
     \<lparr>r_media_type = Some t, r_digest = Some (''sha256:'' @ sample_hash [word_of_nat n]), r_size = Some 1,
      r_platform = p, r_annotations = None\<rparr>"

definition sample_file :: "string \<Rightarrow> bytes option" where
  "sample_file p =
     (if p = ''l/index.json'' then Some [1]
      else if p = ''l/blobs/sha256/'' @ sample_hash [2] then Some [2]
      else if p = ''l/blobs/sha256/'' @ sample_hash [3] then Some [3]
      else None)"

definition sample_layout :: layout_env where
  "sample_layout =
     \<lparr>dir_there = (\<lambda>_. True), file_there = (\<lambda>_. True), stat_len = map_option length \<circ> sample_file,
      opens = (\<lambda>p. sample_file p \<noteq> None), contents = sample_file, reopened = sample_file,
      sha256_hex = sample_hash, layout_json = (\<lambda>_. Some (Some ''1.0.0'')),
      index_json = (\<lambda>bs.
        if bs = [1] then Some (Some [sample_raw ''application/vnd.oci.image.index.v1+json'' 2
          (Some \<lparr>r_os = Some ''linux'', r_architecture = Some ''arm64'', r_variant = None\<rparr>)])
        else if bs = [2] then Some (Some [sample_raw ''application/vnd.oci.image.manifest.v1+json'' 3 None])
        else None),
      manifest_json = (\<lambda>bs.
        if bs = [3] then Some
          \<lparr>r_config = Some (sample_raw ''application/vnd.oci.image.config.v1+json'' 4 None),
           r_layers = Some [sample_raw ''application/vnd.oci.image.layer.v1.tar'' 5 None]\<rparr>
        else None),
      config_json = (\<lambda>_. None)\<rparr>"

definition sample_descriptor :: "string \<Rightarrow> nat \<Rightarrow> descriptor" where
  "sample_descriptor t n =
     \<lparr>media_type = t, blob_digest = \<lparr>algorithm = ''sha256'', encoded = sample_hash [word_of_nat n]\<rparr>,
      blob_size = 1, for_platform = None, annotations = []\<rparr>"

text \<open>
  The only platform the layout states is \<open>linux/arm64\<close>; a request for \<open>linux/amd64\<close> is not
  refused, because a lone nested index is followed without a look at the platform it is for.
\<close>

lemma foreign_index_followed:
  "layout_resolve sample_layout ''l'' host_platform =
     Inr \<lparr>config = sample_descriptor ''application/vnd.oci.image.config.v1+json'' 4,
          layers = [sample_descriptor ''application/vnd.oci.image.layer.v1.tar'' 5]\<rparr>"
  by code_simp

theorem digest_names_one_blob_witness:
  "show_digest \<lparr>algorithm = ''sha256'', encoded = sample_hash [7]\<rparr> = ''sha256:'' @ sample_hash [7] \<and>
   split_on CHR ''/'' (digest_blob_path \<lparr>algorithm = ''sha256'', encoded = sample_hash [7]\<rparr>) =
     [''blobs'', ''sha256'', sample_hash [7]]"
proof -
  have "digest_parse (''sha256:'' @ sample_hash [7]) = Inr \<lparr>algorithm = ''sha256'', encoded = sample_hash [7]\<rparr>"
    by code_simp
  from digest_names_one_blob [OF this, of sample_hash "[]"] show ?thesis by simp
qed

theorem resolved_manifest_is_vouched_for_witness:
  "\<exists>n ds d bs. offers sample_layout ''l'' n ds \<and> d \<in> set ds \<and> vouched sample_layout ''l'' d bs"
  using resolved_manifest_is_vouched_for [OF foreign_index_followed] by blast

theorem blob_is_vouched_for_witness:
  "vouched sample_layout ''l'' (sample_descriptor ''application/vnd.oci.image.layer.v1.tar'' 3) [3]"
proof (rule blob_is_vouched_for)
  show "blob sample_layout ''l'' (sample_descriptor ''application/vnd.oci.image.layer.v1.tar'' 3) = Inr [3]"
    by code_simp
qed (simp_all add: sample_layout_def)

end
