(* ===== verification/Image_Names.thy ===== *)
theory Image_Names
  imports Oci_Layout "HOL-Library.Char_ord" "HOL-Library.List_Lexorder" "HOL-Library.Product_Lexorder"
begin

text \<open>
  How base images are named and what an imported one brings along: the flavors of
  \<open>image/rootfs.rs\<close>, the references and run defaults of \<open>image/base.rs\<close>, and the names and
  the pseudo-file of \<open>image/import/mod.rs\<close>.
\<close>

section \<open>Flavors\<close>

datatype rootfs_flavor = DevBusybox | DevAgent | BaseSqfs | BaseAlpine

definition ALL_FLAVORS :: "rootfs_flavor list" where
  "ALL_FLAVORS = [DevBusybox, DevAgent, BaseSqfs, BaseAlpine]"

definition has_agent :: "rootfs_flavor \<Rightarrow> bool" where
  "has_agent f \<longleftrightarrow> f \<noteq> DevBusybox"

fun flavor_slug :: "rootfs_flavor \<Rightarrow> string" where
  "flavor_slug DevBusybox = ''dev-busybox''"
| "flavor_slug DevAgent = ''dev-agent''"
| "flavor_slug BaseSqfs = ''base-sqfs''"
| "flavor_slug BaseAlpine = ''base-alpine''"

definition flavor_from_slug :: "string \<Rightarrow> rootfs_flavor option" where
  "flavor_from_slug s =
     (if s = ''dev-busybox'' then Some DevBusybox
      else if s = ''dev-agent'' then Some DevAgent
      else if s = ''base-sqfs'' then Some BaseSqfs
      else if s = ''base-alpine'' then Some BaseAlpine
      else None)"

definition flavor_is_squashfs_base :: "rootfs_flavor \<Rightarrow> bool" where
  "flavor_is_squashfs_base f \<longleftrightarrow> f = BaseSqfs \<or> f = BaseAlpine"

fun image_dest :: "string \<Rightarrow> rootfs_flavor \<Rightarrow> string" where
  "image_dest images BaseSqfs = path_join images ''base.sqfs''"
| "image_dest images BaseAlpine = path_join images ''base-alpine.sqfs''"
| "image_dest images other = path_join images (''rootfs-'' @ flavor_slug other @ ''.ext4'')"

section \<open>Names of imported images\<close>

datatype slug_error = EmptyName | NameTooLong string | BadStart string | BadCharacter string

definition validate_slug :: "string \<Rightarrow> slug_error + unit" where
  "validate_slug slug =
     (if slug = [] then Inl EmptyName
      else if 128 < length slug then Inl (NameTooLong slug)
      else if starts_with ''.'' slug \<or> starts_with ''-'' slug then Inl (BadStart slug)
      else if \<not> list_all (\<lambda>c. is_ascii_alphanumeric c \<or> c \<in> {CHR ''.'', CHR ''_'', CHR ''-''}) slug
           then Inl (BadCharacter slug)
      else Inr ())"

definition imported_image_path :: "string \<Rightarrow> string \<Rightarrow> slug_error + string" where
  "imported_image_path images slug =
     try_bind (validate_slug slug) (\<lambda>_. Inr (path_join (path_join images ''oci'') (slug @ ''.sqfs'')))"

text \<open>\<open>slug_for\<close>: the loop over the characters, then the trimming.\<close>

definition slug_step :: "string \<Rightarrow> char \<Rightarrow> string" where
  "slug_step out c =
     (if is_ascii_alphanumeric c \<or> c = CHR ''.'' \<or> c = CHR ''_'' then out @ [c]
      else if ends_with ''-'' out then out else out @ ''-'')"

definition trim_matches :: "(char \<Rightarrow> bool) \<Rightarrow> string \<Rightarrow> string" where
  "trim_matches P s = trim_end_matches P (dropWhile P s)"

definition slug_for :: "string \<Rightarrow> string" where
  "slug_for source =
     (let trimmed = trim_matches (\<lambda>c. c = CHR ''-'' \<or> c = CHR ''.'') (foldl slug_step [] source) in
      if trimmed = [] then ''image'' else trimmed)"

definition CACHE_NAME_MAX :: nat where "CACHE_NAME_MAX = 48"

definition blob_cache_key :: "(string \<Rightarrow> string) \<Rightarrow> string \<Rightarrow> string" where
  "blob_cache_key sha256_of reference =
     (let readable = trim_end_matches (\<lambda>c. c = CHR ''-'' \<or> c = CHR ''.'') (take CACHE_NAME_MAX (slug_for reference)) in
      readable @ ''-'' @ take 16 (sha256_of reference))"

definition blob_cache_dir :: "(string \<Rightarrow> string) \<Rightarrow> string \<Rightarrow> string \<Rightarrow> string" where
  "blob_cache_dir sha256_of images reference =
     path_join (path_join images ''oci-blobs'') (blob_cache_key sha256_of reference)"

definition IMPORTED_PREFIX :: string where "IMPORTED_PREFIX = ''oci:''"

text \<open>The name an \<open>image rm\<close> argument addresses; \<^const>\<open>None\<close>: a built-in flavor.\<close>

definition imported_name :: "string \<Rightarrow> string option" where
  "imported_name spelling =
     (case strip_prefix IMPORTED_PREFIX spelling of
        Some name \<Rightarrow> Some name
      | None \<Rightarrow> if flavor_from_slug spelling \<noteq> None then None else Some spelling)"

section \<open>References to a base\<close>

datatype base_ref = Builtin rootfs_flavor | Imported string

datatype base_ref_error = BadImportedName slug_error | UnknownFlavor string

definition base_parse :: "string \<Rightarrow> base_ref_error + base_ref" where
  "base_parse s =
     (case strip_prefix IMPORTED_PREFIX s of
        Some name \<Rightarrow>
          (case imported_image_path ''/'' name of
             Inl e \<Rightarrow> Inl (BadImportedName e)
           | Inr _ \<Rightarrow> Inr (Imported name))
      | None \<Rightarrow>
          (case flavor_from_slug s of
             Some f \<Rightarrow> Inr (Builtin f)
           | None \<Rightarrow> Inl (UnknownFlavor s)))"

fun base_slug :: "base_ref \<Rightarrow> string" where
  "base_slug (Builtin f) = flavor_slug f"
| "base_slug (Imported name) = IMPORTED_PREFIX @ name"

fun is_squashfs_base :: "base_ref \<Rightarrow> bool" where
  "is_squashfs_base (Builtin f) = flavor_is_squashfs_base f"
| "is_squashfs_base (Imported _) = True"

section \<open>Run defaults\<close>

record oci_provenance =
  source_ref :: string
  prov_platform :: string
  manifest_digest :: string
  prov_config_digest :: string
  layer_digests :: "string list"
  prov_env :: "string list"
  prov_working_dir :: "string option"
  prov_entrypoint :: "string list"
  prov_cmd :: "string list"
  prov_user :: "string option"
  prov_replaced_init :: bool
  prov_setuid_paths :: "string list"

record run_defaults =
  default_env :: "(string \<times> string) list"
  default_cwd :: "string option"

definition from_provenance :: "oci_provenance \<Rightarrow> run_defaults" where
  "from_provenance p =
     \<lparr>default_env = filter (\<lambda>(k, _). k \<noteq> []) (List.map_filter (split_once (CHR ''='')) (prov_env p)),
      default_cwd = (case prov_working_dir p of
         Some d \<Rightarrow> if d \<noteq> [] \<and> d \<noteq> ''/'' then Some d else None
       | None \<Rightarrow> None)\<rparr>"

definition apply_defaults ::
  "run_defaults \<Rightarrow> (string \<times> string) list \<times> string option \<Rightarrow> (string \<times> string) list \<times> string option" where
  "apply_defaults d run =
     (let (env, cwd) = run;
          cwd' = (if cwd = None then default_cwd d else cwd) in
      if default_env d = [] then (env, cwd')
      else (filter (\<lambda>(k, _). k \<notin> fst ` set env) (default_env d) @ env, cwd'))"

section \<open>The pseudo-file\<close>

definition replace_char :: "char \<Rightarrow> string \<Rightarrow> string \<Rightarrow> string" where
  "replace_char c r s = concat (map (\<lambda>x. if x = c then r else [x]) s)"

fun show_octal :: "nat \<Rightarrow> string" where
  "show_octal n = (if n < 8 then [digit_char n] else show_octal (n div 8) @ [digit_char (n mod 8)])"

declare show_octal.simps [simp del]

definition pseudo_line :: "string \<Rightarrow> u32 \<Rightarrow> string" where
  "pseudo_line path mode =
     (let escaped = replace_char (CHR 0x22) [CHR 0x5C, CHR 0x22] (replace_char (CHR 0x5C) [CHR 0x5C, CHR 0x5C] path) in
      [CHR 0x22] @ escaped @ [CHR 0x22] @ '' m '' @ show_octal (unat mode) @ '' 0 0'' @ [LF])"

definition pseudo_text :: "(string \<times> u32) list \<Rightarrow> string" where
  "pseudo_text modes = concat (map (\<lambda>(p, mode). pseudo_line p mode) modes)"

text \<open>\<open>modes.sort()\<close> and \<open>dedup_by\<close>, which keeps the first of a row of entries of one path.\<close>

fun dedup_paths :: "(string \<times> u32) list \<Rightarrow> (string \<times> u32) list" where
  "dedup_paths (a # b # ms) = (if fst b = fst a then dedup_paths (a # ms) else a # dedup_paths (b # ms))"
| "dedup_paths ms = ms"

definition TMP_MODE :: u32 where "TMP_MODE = 0x3FF"

definition pack_modes :: "(string \<times> u32) list \<Rightarrow> bool \<Rightarrow> (string \<times> u32) list" where
  "pack_modes special created_tmp =
     dedup_paths (sort (if created_tmp then special @ [(''tmp'', TMP_MODE)] else special))"

section \<open>Names and references\<close>

abbreviation slug_char :: "char \<Rightarrow> bool" where
  "slug_char c \<equiv> is_ascii_alphanumeric c \<or> c \<in> {CHR ''.'', CHR ''_'', CHR ''-''}"

lemma validate_slug_ok [result_iff]:
  "validate_slug s = Inr u \<longleftrightarrow>
   s \<noteq> [] \<and> length s \<le> 128 \<and> hd s \<noteq> CHR ''.'' \<and> hd s \<noteq> CHR ''-'' \<and> list_all slug_char s"
  by (cases s) (auto simp: validate_slug_def starts_with_iff)

lemma imported_image_path_ok [result_iff]:
  "imported_image_path images s = Inr p \<longleftrightarrow>
   validate_slug s = Inr () \<and> p = path_join (path_join images ''oci'') (s @ ''.sqfs'')"
  by (auto simp: imported_image_path_def result_iff)

lemma flavor_from_slug_iff: "flavor_from_slug s = Some f \<longleftrightarrow> s = flavor_slug f"
  by (cases f) (auto simp: flavor_from_slug_def)

lemma flavor_from_slug [simp]: "flavor_from_slug (flavor_slug f) = Some f"
  by (simp add: flavor_from_slug_iff)

lemma flavor_slug_inj [simp]: "flavor_slug f = flavor_slug g \<longleftrightarrow> f = g"
  by (cases f; cases g) simp_all

lemma flavor_not_imported: "flavor_slug f \<noteq> IMPORTED_PREFIX @ name"
  by (cases f) (simp_all add: IMPORTED_PREFIX_def)

text \<open>
  The text of a base and the base itself determine each other: what parses prints back as
  it was, every flavor and every name an import can have produced parses, and nothing else
  does. So a stage that records the text of its base finds that base again and no other.
\<close>
theorem base_ref_round_trip:
  "base_parse s = Inr r \<longleftrightarrow>
   s = base_slug r \<and> (case r of Builtin f \<Rightarrow> True | Imported name \<Rightarrow> validate_slug name = Inr ())"
proof (cases "strip_prefix IMPORTED_PREFIX s")
  case None
  then have "s \<noteq> IMPORTED_PREFIX @ name" for name by auto
  with None show ?thesis
    by (cases r) (auto simp: base_parse_def flavor_from_slug_iff split: option.splits)
next
  case (Some name)
  then have "s = IMPORTED_PREFIX @ name" by (simp add: strip_prefix_Some_iff)
  with Some show ?thesis
    by (cases r) (auto simp: base_parse_def result_iff flavor_not_imported [symmetric] split: sum.splits)
qed

lemma ends_with_dash: "ends_with ''-'' s \<longleftrightarrow> s \<noteq> [] \<and> last s = CHR ''-''"
  by (auto simp: ends_with_iff) (metis append_butlast_last_id)

lemma slug_steps_chars: "list_all slug_char out \<Longrightarrow> list_all slug_char (foldl slug_step out s)"
  by (induction s arbitrary: out) (auto simp: slug_step_def)

lemma trim_matches_props:
  assumes "trim_matches P s \<noteq> []"
  shows "\<not> P (hd (trim_matches P s)) \<and> \<not> P (last (trim_matches P s)) \<and> set (trim_matches P s) \<subseteq> set s"
proof -
  let ?a = "dropWhile P s" and ?b = "dropWhile P (rev (dropWhile P s))"
  have b: "?b \<noteq> []" using assms by (simp add: trim_matches_def trim_end_matches_def)
  obtain c where c: "rev ?a = c @ ?b" by (metis takeWhile_dropWhile_id)
  then have a: "?a = rev ?b @ rev c" by (metis rev_append rev_rev_ident)
  have "hd (rev ?b) = hd ?a" using a b by (metis hd_append2 rev_is_Nil_conv)
  moreover have "?a \<noteq> []" using a b by (metis append_is_Nil_conv rev_is_Nil_conv)
  moreover have "last (rev ?b) = hd ?b" by (simp add: last_rev)
  moreover have "set (rev ?b) \<subseteq> set s" by (metis set_dropWhileD set_rev subsetI)
  ultimately show ?thesis using hd_dropWhile [of P s] hd_dropWhile [OF b]
    by (simp add: trim_matches_def trim_end_matches_def)
qed

text \<open>
  The name derived from a reference is a name the import accepts, whatever the reference,
  unless it is too long; it starts and ends with neither a dash nor a dot, so it addresses one
  file of the imports directory.
\<close>
theorem slug_for_is_a_name:
  "validate_slug (slug_for source) =
     (if 128 < length (slug_for source) then Inl (NameTooLong (slug_for source)) else Inr ()) \<and>
   last (slug_for source) \<notin> {CHR ''-'', CHR ''.''} \<and> CHR ''/'' \<notin> set (slug_for source)"
proof -
  let ?P = "\<lambda>c. c = CHR ''-'' \<or> c = CHR ''.''" and ?out = "foldl slug_step [] source"
  have chars: "list_all slug_char ?out" using slug_steps_chars [of "[]"] by simp
  have "slug_for source \<noteq> [] \<and> hd (slug_for source) \<notin> {CHR ''-'', CHR ''.''} \<and>
      last (slug_for source) \<notin> {CHR ''-'', CHR ''.''} \<and> list_all slug_char (slug_for source)"
  proof (cases "trim_matches ?P ?out = []")
    case True
    then show ?thesis by (simp add: slug_for_def is_ascii_alphanumeric_def is_ascii_lower_def code_def)
  next
    case False
    then show ?thesis using trim_matches_props [OF False] chars
      by (auto simp: slug_for_def Let_def list_all_iff dest!: subsetD)
  qed
  moreover have "\<not> slug_char (CHR ''/'')"
    by (simp add: is_ascii_alphanumeric_def is_ascii_lower_def is_ascii_upper_def is_ascii_digit_def code_def)
  ultimately show ?thesis
    by (cases "slug_for source") (auto simp: validate_slug_def starts_with_iff list_all_iff)
qed

text \<open>
  Two references share a cache directory only if the first sixteen digits of their hashes
  agree: the readable part never makes up for it.
\<close>

lemma blob_cache_key_hash:
  assumes "blob_cache_key H a = blob_cache_key H b" "16 \<le> length (H a)" "16 \<le> length (H b)"
  shows "take 16 (H a) = take 16 (H b)"
proof -
  have k: "\<exists>r. blob_cache_key H x = r @ take 16 (H x)" for x
    by (rule exI [of _ "trim_end_matches (\<lambda>c. c = CHR ''-'' \<or> c = CHR ''.'') (take CACHE_NAME_MAX (slug_for x)) @ ''-''"])
      (simp add: blob_cache_key_def Let_def)
  from k [of a] k [of b] show ?thesis using assms
    by (metis append_eq_append_conv length_take min.absorb2)
qed

section \<open>Defaults under a run's own choices\<close>

lemma map_of_rev_append: "map_of (rev (xs @ ys)) k = (case map_of (rev ys) k of Some v \<Rightarrow> Some v | None \<Rightarrow> map_of (rev xs) k)"
  by (simp add: map_add_def)

lemma map_of_filter_keys: "map_of (filter (\<lambda>(k, v). k \<notin> A) xs) k = (if k \<in> A then None else map_of xs k)"
  by (induction xs) auto

text \<open>
  An image only contributes defaults. Reading the list so that a later entry wins, as the
  guest does, every variable the run names has the run's value, every other variable the
  image's, and the working directory is the run's if it gave one; no variable of the image
  has an empty name or an equals sign in it.
\<close>
theorem run_wins_over_image:
  "(let (env', cwd') = apply_defaults (from_provenance p) (env, cwd) in
      map_of (rev env') k =
        (case map_of (rev env) k of Some v \<Rightarrow> Some v | None \<Rightarrow> map_of (rev (default_env (from_provenance p))) k) \<and>
      cwd' = (case cwd of Some d \<Rightarrow> Some d | None \<Rightarrow> default_cwd (from_provenance p)) \<and>
      [] \<notin> fst ` set (default_env (from_provenance p)) \<and>
      default_env (from_provenance p) = filter (\<lambda>(k, v). k \<noteq> [] \<and> CHR ''='' \<notin> set k) (default_env (from_provenance p)))"
proof -
  let ?d = "default_env (from_provenance p)"
  have names: "k \<noteq> [] \<and> CHR ''='' \<notin> set k" if "(k, v) \<in> set ?d" for k v
    using that by (auto simp: from_provenance_def List.map_filter_def)
      (metis option.sel split_once_Some_iff surj_pair)+
  have "map_of (rev (filter (\<lambda>(k, v). k \<notin> fst ` set env) ?d @ env)) k =
      (case map_of (rev env) k of Some v \<Rightarrow> Some v | None \<Rightarrow> map_of (rev ?d) k)"
  proof (cases "map_of (rev env) k")
    case None
    then have "k \<notin> fst ` set env" by (simp add: map_of_eq_None_iff)
    then show ?thesis unfolding map_of_rev_append None by (simp add: rev_filter map_of_filter_keys)
  qed (simp add: map_of_rev_append del: rev_append)
  moreover have "filter (\<lambda>(k, v). k \<noteq> [] \<and> CHR ''='' \<notin> set k) ?d = ?d"
    by (rule filter_True) (use names in auto)
  moreover have "[] \<notin> fst ` set ?d" using names by force
  ultimately show ?thesis by (auto simp: apply_defaults_def Let_def split: option.split)
qed

section \<open>What a pseudo-file says\<close>

text \<open>
  A reader of the format: a line is a name in quotes, with backslash escapes, then fields
  separated by blanks.
\<close>

fun read_quoted :: "string \<Rightarrow> (string \<times> string) option" where
  "read_quoted [] = None"
| "read_quoted (c # cs) =
     (if c = CHR 0x22 then Some ([], cs)
      else if c = CHR 0x5C then
        (case cs of [] \<Rightarrow> None | d # ds \<Rightarrow> map_option (apfst ((#) d)) (read_quoted ds))
      else map_option (apfst ((#) c)) (read_quoted cs))"

definition octal_val :: "string \<Rightarrow> nat" where
  "octal_val s = foldl (\<lambda>n c. n * 8 + digit_val c) 0 s"

definition read_pseudo_line :: "string \<Rightarrow> (string \<times> nat) option" where
  "read_pseudo_line l =
     (case strip_prefix [CHR 0x22] l of
        None \<Rightarrow> None
      | Some cs \<Rightarrow>
         (case read_quoted cs of
            None \<Rightarrow> None
          | Some (name, rest) \<Rightarrow>
             (case split_on (CHR 0x20) rest of
                [e, k, mode, uid, gid] \<Rightarrow>
                  if e = [] \<and> k = ''m'' \<and> uid = ''0'' \<and> gid = ''0'' then Some (name, octal_val mode) else None
              | _ \<Rightarrow> None)))"

lemma replace_char_simps [simp]:
  "replace_char c r [] = []"
  "replace_char c r (x # s) = (if x = c then r else [x]) @ replace_char c r s"
  "replace_char c r (a @ b) = replace_char c r a @ replace_char c r b"
  by (simp_all add: replace_char_def)

lemma read_quoted_escaped:
  "read_quoted (replace_char (CHR 0x22) [CHR 0x5C, CHR 0x22] (replace_char (CHR 0x5C) [CHR 0x5C, CHR 0x5C] path) @ [CHR 0x22] @ rest) =
   Some (path, rest)"
  by (induction path) auto

lemma octal_digit: "n < 8 \<Longrightarrow> digit_val (digit_char n) = n"
  by simp

lemma octal_val_show [simp]: "octal_val (show_octal n) = n"
proof (induction n rule: show_octal.induct)
  case (1 n)
  then show ?case by (subst show_octal.simps) (auto simp: octal_val_def octal_digit)
qed

lemma show_octal_digits: "list_all is_ascii_digit (show_octal n)"
proof (induction n rule: show_octal.induct)
  case (1 n)
  then show ?case by (subst show_octal.simps) auto
qed

lemma show_octal_no_blank: "CHR 0x20 \<notin> set (show_octal n)" "LF \<notin> set (show_octal n)"
  using show_octal_digits [of n] by (auto simp: list_all_iff is_ascii_digit_def code_def LF_char)

lemma replace_char_absent: "c \<notin> set s \<Longrightarrow> c \<notin> set r \<Longrightarrow> c \<notin> set (replace_char x r s)"
  by (induction s) auto

lemma pseudo_line_shape:
  assumes "LF \<notin> set path"
  obtains l where "pseudo_line path mode = l @ [LF]" "LF \<notin> set l" "read_pseudo_line l = Some (path, unat mode)"
proof
  let ?e = "replace_char (CHR 0x22) [CHR 0x5C, CHR 0x22] (replace_char (CHR 0x5C) [CHR 0x5C, CHR 0x5C] path)"
  let ?f = "join_with [CHR 0x20] [[], ''m'', show_octal (unat mode), ''0'', ''0'']"
  let ?l = "[CHR 0x22] @ ?e @ [CHR 0x22] @ ?f"
  show "pseudo_line path mode = ?l @ [LF]" by (simp add: pseudo_line_def)
  have "LF \<notin> set ?e" by (intro replace_char_absent assms) (simp_all add: LF_char)
  then show "LF \<notin> set ?l" using show_octal_no_blank [of "unat mode"] by (simp add: LF_char)
  have "split_on (CHR 0x20) ?f = [[], ''m'', show_octal (unat mode), ''0'', ''0'']"
    by (rule split_join) (use show_octal_no_blank [of "unat mode"] in auto)
  then show "read_pseudo_line ?l = Some (path, unat mode)"
    using read_quoted_escaped [of path ?f] by (simp add: read_pseudo_line_def)
qed

text \<open>
  The pseudo-file says exactly what was recorded: read back line by line it names each
  path with its mode, in order and nothing more, whatever quotes, backslashes, blanks or
  hashes an image puts into a name. Names with a line feed are the one exception, and the
  extractor refuses those.
\<close>
theorem pseudo_file_reads_back:
  assumes "\<forall>(path, mode) \<in> set modes. LF \<notin> set path"
  shows "map read_pseudo_line (butlast (split_on LF (pseudo_text modes))) =
    map (\<lambda>(path, mode). Some (path, unat mode)) modes"
  using assms
proof (induction modes)
  case (Cons a modes)
  obtain path mode where a: "a = (path, mode)" by force
  with Cons.prems obtain l where l: "pseudo_line path mode = l @ [LF]" "LF \<notin> set l"
      "read_pseudo_line l = Some (path, unat mode)"
    using pseudo_line_shape [of path mode] by auto
  have "split_on LF (pseudo_text (a # modes)) = l # split_on LF (pseudo_text modes)"
    using l(2) by (simp add: a l(1) pseudo_text_def split_on_append)
  then show ?case using Cons l(3) by (simp add: a)
qed (simp add: pseudo_text_def)

lemma pseudo_file_reads_back_witness:
  "map read_pseudo_line (butlast (split_on LF (pseudo_text [(''bin/evil c 0666'', 0x9ED), ([CHR 0x22, CHR 0x5C], 0x3FF)]))) =
   [Some (''bin/evil c 0666'', 0x9ED), Some ([CHR 0x22, CHR 0x5C], 0x3FF)]"
  by (subst pseudo_file_reads_back) (simp_all add: LF_char)

section \<open>Modes for the pack\<close>

lemma dedup_paths_fst: "fst ` set (dedup_paths ms) = fst ` set ms"
  by (induction ms rule: dedup_paths.induct) auto

lemma dedup_paths_sub: "set (dedup_paths ms) \<subseteq> set ms"
  by (induction ms rule: dedup_paths.induct) auto

lemma dedup_paths_sorted: "sorted ms \<Longrightarrow> sorted_wrt (\<lambda>a b. fst a < fst b) (dedup_paths ms)"
proof (induction ms rule: dedup_paths.induct)
  case (1 a b ms)
  show ?case
  proof (cases "fst b = fst a")
    case True
    then show ?thesis using 1 by simp
  next
    case False
    have "fst a < fst c" if "c \<in> set (dedup_paths (b # ms))" for c
    proof -
      have "c \<in> set (b # ms)" using dedup_paths_sub that by blast
      then have "b \<le> c" "a \<le> b" using 1(3) by auto
      then show ?thesis using False by (auto simp: less_eq_prod_def)
    qed
    then show ?thesis using False 1 by simp
  qed
qed simp_all

text \<open>One mode for each path recorded, and for \<open>/tmp\<close> if the adaptation made it.\<close>

lemma pack_modes_paths:
  "distinct (map fst (pack_modes special created_tmp)) \<and>
   fst ` set (pack_modes special created_tmp) = fst ` set special \<union> (if created_tmp then {''tmp''} else {}) \<and>
   set (pack_modes special created_tmp) \<subseteq> set special \<union> {(''tmp'', TMP_MODE)}"
proof -
  let ?m = "sort (if created_tmp then special @ [(''tmp'', TMP_MODE)] else special)"
  have "sorted_wrt (<) (map fst (dedup_paths ?m))"
    using dedup_paths_sorted [of ?m] by (simp add: sorted_wrt_map)
  then have "distinct (map fst (dedup_paths ?m))" by (simp add: strict_sorted_iff)
  then show ?thesis using dedup_paths_fst [of ?m] dedup_paths_sub [of ?m]
    by (auto simp: pack_modes_def)
qed

end
