(* ===== verification/Image_Store.thy ===== *)
theory Image_Store
  imports Image_Names Effects "HOL-Library.AList"
begin

text \<open>
  The images directory: base images with the sidecars that vouch for them, as
  \<open>image/rootfs.rs\<close> publishes, checks, lists and removes them and as
  \<open>image/import/mod.rs\<close> packs into it. The packers and the hash are parameters, and so are
  the calls of the operating system that fail; a run that is killed is one that stops at such
  a call.
\<close>

section \<open>Sidecars\<close>

definition PROTO_VERSION :: u32 where "PROTO_VERSION = 3"

record image_meta =
  img_flavor :: string
  img_proto :: "u32 option"
  img_agent :: "string option"
  img_sha256 :: string
  img_built :: nat
  img_oci :: "oci_provenance option"

text \<open>
  What is at a path: a file, a sidecar that parses, or something that is not a file, with the
  length its metadata gives. A sidecar that is a plain file is one that does not parse.
\<close>

datatype dir_entry = RegularFile bytes | Stamp image_meta | NotRegular nat

type_synonym image_store = "(string \<times> dir_entry) list"

datatype image_io =
    ClearStamp | MoveImage | HashImage | CreateStamp | WriteStamp | SyncStamp | MoveStamp
  | RemoveImage | RemoveStamp | RemovePartial | ReadStamp | ReadDir | PackTree | SyncImage | ListTree

datatype image_error =
    ImageIo image_io | StampUnparsed string | NoAgent | BadSlug slug_error | PackFailed
  | ModesMissing nat nat | AlreadyThere string | NotASquashfs string | NotBuilt string
  | ProtoStale u32 | AgentStale string string | SlicePanic

text \<open>
  The machine: the hash, the text of a sidecar, the blocks a file takes, the agent that is
  installed, the clock, which calls fail, and what a failing write leaves.
\<close>

record machine =
  sha256_of :: "bytes \<Rightarrow> string"
  stamp_text :: "image_meta \<Rightarrow> bytes"
  blocks_of :: "bytes \<Rightarrow> nat"
  checked_agent :: "bytes option"
  unix_now :: nat
  broken :: "image_io \<Rightarrow> bool"
  torn :: bytes

section \<open>Calls on files\<close>

datatype file_error = FileMissing | FileFailed

definition remove_file :: "bool \<Rightarrow> string \<Rightarrow> (image_store, file_error, unit) comp" where
  "remove_file fails p s =
     (if fails then (Inl FileFailed, s)
      else case map_of s p of
          None \<Rightarrow> (Inl FileMissing, s)
        | Some (NotRegular _) \<Rightarrow> (Inl FileFailed, s)
        | Some _ \<Rightarrow> (Inr (), AList.delete p s))"

definition rename_file :: "bool \<Rightarrow> string \<Rightarrow> string \<Rightarrow> (image_store, file_error, unit) comp" where
  "rename_file fails old new s =
     (if fails then (Inl FileFailed, s)
      else case (map_of s old, map_of s new) of
          (None, _) \<Rightarrow> (Inl FileMissing, s)
        | (Some (NotRegular _), _) \<Rightarrow> (Inl FileFailed, s)
        | (_, Some (NotRegular _)) \<Rightarrow> (Inl FileFailed, s)
        | (Some f, _) \<Rightarrow> (Inr (), AList.update new f (AList.delete old s)))"

definition create_new :: "bool \<Rightarrow> string \<Rightarrow> (image_store, file_error, unit) comp" where
  "create_new fails p s =
     (if fails then (Inl FileFailed, s)
      else case map_of s p of
          Some (NotRegular _) \<Rightarrow> (Inl FileFailed, s)
        | _ \<Rightarrow> (Inr (), AList.update p (RegularFile []) s))"

definition read_bytes :: "machine \<Rightarrow> image_store \<Rightarrow> string \<Rightarrow> bytes option" where
  "read_bytes env s p =
     (case map_of s p of
        Some (RegularFile bs) \<Rightarrow> Some bs
      | Some (Stamp m) \<Rightarrow> Some (stamp_text env m)
      | _ \<Rightarrow> None)"

definition exists_at :: "image_store \<Rightarrow> string \<Rightarrow> bool" where
  "exists_at s p \<longleftrightarrow> map_of s p \<noteq> None"

definition file_len :: "machine \<Rightarrow> image_store \<Rightarrow> string \<Rightarrow> nat option" where
  "file_len env s p =
     (case map_of s p of
        None \<Rightarrow> None
      | Some (RegularFile bs) \<Rightarrow> Some (length bs)
      | Some (Stamp m) \<Rightarrow> Some (length (stamp_text env m))
      | Some (NotRegular n) \<Rightarrow> Some n)"

definition image_call ::
  "machine \<Rightarrow> image_io \<Rightarrow> (bool \<Rightarrow> (image_store, file_error, 'a) comp) \<Rightarrow> (image_store, image_error, 'a) comp" where
  "image_call env k f = map_fail (\<lambda>_. ImageIo k) (f (broken env k))"

definition sha256_file :: "machine \<Rightarrow> string \<Rightarrow> (image_store, image_error, string) comp" where
  "sha256_file env p s =
     (if broken env HashImage then (Inl (ImageIo HashImage), s)
      else case read_bytes env s p of
          None \<Rightarrow> (Inl (ImageIo HashImage), s)
        | Some bs \<Rightarrow> (Inr (sha256_of env bs), s))"

section \<open>Publishing\<close>

definition image_meta_path :: "string \<Rightarrow> string" where
  "image_meta_path img = img @ ''.meta.json''"

definition image_meta_tmp_path :: "string \<Rightarrow> string" where
  "image_meta_tmp_path img = image_meta_path img @ ''.partial''"

definition publish_image ::
  "machine \<Rightarrow> string \<Rightarrow> string \<Rightarrow> (string \<Rightarrow> (image_store, image_error, unit) comp) \<Rightarrow>
   (image_store, image_error, unit) comp" where
  "publish_image env tmp_path dest stamp =
     seq (attempt (remove_file (broken env ClearStamp) (image_meta_path dest))) (\<lambda>r.
       case r of
         Inl FileFailed \<Rightarrow> fail (ImageIo ClearStamp)
       | _ \<Rightarrow>
           seq (image_call env MoveImage (\<lambda>fails. rename_file fails tmp_path dest)) (\<lambda>_.
           stamp dest))"

text \<open>The text goes to the sibling first, which a failing write leaves torn.\<close>

definition write_stamp_text :: "machine \<Rightarrow> string \<Rightarrow> image_meta \<Rightarrow> (image_store, image_error, unit) comp" where
  "write_stamp_text env p m s =
     (if broken env WriteStamp then (Inl (ImageIo WriteStamp), AList.update p (RegularFile (torn env)) s)
      else (Inr (), AList.update p (Stamp m) s))"

definition write_sidecar :: "machine \<Rightarrow> string \<Rightarrow> image_meta \<Rightarrow> (image_store, image_error, unit) comp" where
  "write_sidecar env img m =
     (let tmp = image_meta_tmp_path img in
      seq (image_call env CreateStamp (\<lambda>fails. create_new fails tmp)) (\<lambda>_.
      seq (write_stamp_text env tmp m) (\<lambda>_.
      if broken env SyncStamp then fail (ImageIo SyncStamp)
      else image_call env MoveStamp (\<lambda>fails. rename_file fails tmp (image_meta_path img)))))"

definition write_image_meta :: "machine \<Rightarrow> string \<Rightarrow> rootfs_flavor \<Rightarrow> (image_store, image_error, unit) comp" where
  "write_image_meta env img f =
     (case (if has_agent f then map_option (\<lambda>a. (Some PROTO_VERSION, Some (sha256_of env a))) (checked_agent env)
            else Some (None, None)) of
        None \<Rightarrow> fail NoAgent
      | Some (proto, agent) \<Rightarrow>
          seq (sha256_file env img) (\<lambda>h.
          write_sidecar env img
            \<lparr>img_flavor = flavor_slug f, img_proto = proto, img_agent = agent, img_sha256 = h,
             img_built = unix_now env, img_oci = None\<rparr>))"

definition publish_imported_image ::
  "machine \<Rightarrow> string \<Rightarrow> string \<Rightarrow> string \<Rightarrow> oci_provenance \<Rightarrow> (image_store, image_error, unit) comp" where
  "publish_imported_image env tmp_path dest slug prov =
     (case checked_agent env of
        None \<Rightarrow> fail NoAgent
      | Some agent \<Rightarrow>
          publish_image env tmp_path dest (\<lambda>img.
            seq (sha256_file env img) (\<lambda>h.
            write_sidecar env img
              \<lparr>img_flavor = IMPORTED_PREFIX @ slug, img_proto = Some PROTO_VERSION,
               img_agent = Some (sha256_of env agent), img_sha256 = h, img_built = unix_now env,
               img_oci = Some prov\<rparr>)))"

record build_outcome =
  built_path :: string
  built_flavor :: string
  built_apparent :: nat
  built_allocated :: nat
  built_sha256 :: string
  built_cached :: bool

definition outcome_for :: "machine \<Rightarrow> string \<Rightarrow> rootfs_flavor \<Rightarrow> bool \<Rightarrow> (image_store, image_error, build_outcome) comp" where
  "outcome_for env target f cached =
     seq (sha256_file env target) (\<lambda>h. gets (\<lambda>s.
       let bs = (case read_bytes env s target of Some bs \<Rightarrow> bs | None \<Rightarrow> []) in
       \<lparr>built_path = target, built_flavor = flavor_slug f, built_apparent = length bs,
        built_allocated = blocks_of env bs * 512, built_sha256 = h, built_cached = cached\<rparr>))"

text \<open>What the population and the packer make of a flavor is an argument, as is the temporary name.\<close>

definition build_rootfs ::
  "machine \<Rightarrow> string \<Rightarrow> rootfs_flavor \<Rightarrow> bool \<Rightarrow> string \<Rightarrow> bytes option \<Rightarrow> (image_store, image_error, build_outcome) comp" where
  "build_rootfs env images f force tmp packed s =
     (let target = image_dest images f in
      if exists_at s target \<and> \<not> force then outcome_for env target f True s
      else case packed of
          None \<Rightarrow> (Inl PackFailed, s)
        | Some bs \<Rightarrow>
            if broken env SyncImage then (Inl (ImageIo SyncImage), s)
            else
              seq (modify (AList.update tmp (RegularFile bs))) (\<lambda>_.
              seq (publish_image env tmp target (\<lambda>img. write_image_meta env img f)) (\<lambda>_.
              outcome_for env target f False)) s)"

section \<open>Reading and checking\<close>

definition read_image_meta :: "machine \<Rightarrow> image_store \<Rightarrow> string \<Rightarrow> image_error + image_meta option" where
  "read_image_meta env s img =
     (if broken env ReadStamp then Inl (ImageIo ReadStamp)
      else case map_of s (image_meta_path img) of
          None \<Rightarrow> Inr None
        | Some (Stamp m) \<Rightarrow> Inr (Some m)
        | Some (RegularFile _) \<Rightarrow> Inl (StampUnparsed (image_meta_path img))
        | Some (NotRegular _) \<Rightarrow> Inl (ImageIo ReadStamp))"

text \<open>\<open>&s[..n]\<close>; \<^const>\<open>None\<close>: the panic when \<open>n\<close> is inside a character.\<close>

definition str_prefix :: "nat \<Rightarrow> string \<Rightarrow> string option" where
  "str_prefix n s =
     (if n = length s \<or> (n < length s \<and> \<not> cont_byte (char_byte (s ! n))) then Some (take n s) else None)"

datatype freshness = Fresh | NoSidecar | SidecarUnreadable

definition host_agent_sha256 :: "machine \<Rightarrow> string option" where
  "host_agent_sha256 env = map_option (sha256_of env) (checked_agent env)"

definition agent_mismatch :: "string \<Rightarrow> string \<Rightarrow> image_error" where
  "agent_mismatch stamped host =
     (case (str_prefix (min (length stamped) 12) stamped, str_prefix (min (length host) 12) host) of
        (Some a, Some b) \<Rightarrow> AgentStale a b
      | _ \<Rightarrow> SlicePanic)"

definition check_image_freshness ::
  "machine \<Rightarrow> image_store \<Rightarrow> string \<Rightarrow> string option \<Rightarrow> image_error + freshness" where
  "check_image_freshness env s img host_agent =
     (case read_image_meta env s img of
        Inl _ \<Rightarrow> Inr SidecarUnreadable
      | Inr None \<Rightarrow> Inr NoSidecar
      | Inr (Some m) \<Rightarrow>
          try_bind
            (case img_proto m of
               Some v \<Rightarrow> if v \<noteq> PROTO_VERSION then Inl (ProtoStale v) else Inr ()
             | None \<Rightarrow> Inr ())
            (\<lambda>_. case (img_agent m, host_agent) of
             (Some stamped, Some host) \<Rightarrow>
               if stamped \<noteq> host then Inl (agent_mismatch stamped host) else Inr Fresh
           | _ \<Rightarrow> Inr Fresh))"

definition content_of :: "image_meta option \<Rightarrow> string" where
  "content_of meta = (case meta of Some m \<Rightarrow> img_sha256 m | None \<Rightarrow> ''unstamped'')"

definition base_content_id :: "machine \<Rightarrow> image_store \<Rightarrow> string \<Rightarrow> rootfs_flavor \<Rightarrow> image_error + string" where
  "base_content_id env s images f =
     try_bind (read_image_meta env s (image_dest images f)) (\<lambda>m. Inr (content_of m))"

definition base_image_path_in :: "machine \<Rightarrow> image_store \<Rightarrow> string \<Rightarrow> rootfs_flavor \<Rightarrow> image_error + string" where
  "base_image_path_in env s images f =
     (if \<not> flavor_is_squashfs_base f then Inl (NotASquashfs (flavor_slug f))
      else
        let img = image_dest images f in
        if \<not> exists_at s img then Inl (NotBuilt img)
        else try_bind (check_image_freshness env s img (host_agent_sha256 env)) (\<lambda>_. Inr img))"

fun image_path_in :: "machine \<Rightarrow> image_store \<Rightarrow> string \<Rightarrow> base_ref \<Rightarrow> image_error + string" where
  "image_path_in env s images (Builtin f) = base_image_path_in env s images f"
| "image_path_in env s images (Imported name) =
     (case imported_image_path images name of
        Inl e \<Rightarrow> Inl (BadSlug e)
      | Inr img \<Rightarrow>
          if \<not> exists_at s img then Inl (NotBuilt img)
          else try_bind (check_image_freshness env s img (host_agent_sha256 env)) (\<lambda>_. Inr img))"

fun content_id :: "machine \<Rightarrow> image_store \<Rightarrow> string \<Rightarrow> base_ref \<Rightarrow> image_error + string" where
  "content_id env s images (Builtin f) = base_content_id env s images f"
| "content_id env s images (Imported name) =
     (case imported_image_path images name of
        Inl e \<Rightarrow> Inl (BadSlug e)
      | Inr img \<Rightarrow> try_bind (read_image_meta env s img) (\<lambda>m. Inr (content_of m)))"

definition read_provenance :: "machine \<Rightarrow> image_store \<Rightarrow> string \<Rightarrow> image_error + oci_provenance option" where
  "read_provenance env s img = try_bind (read_image_meta env s img) (\<lambda>m. Inr (Option.bind m img_oci))"

fun provenance_in :: "machine \<Rightarrow> image_store \<Rightarrow> string \<Rightarrow> base_ref \<Rightarrow> image_error + oci_provenance option" where
  "provenance_in env s images (Builtin f) = Inr None"
| "provenance_in env s images (Imported name) =
     (case imported_image_path images name of
        Inl e \<Rightarrow> Inl (BadSlug e)
      | Inr img \<Rightarrow> read_provenance env s img)"

section \<open>Listing and removing\<close>

text \<open>\<open>Path::file_stem\<close> and \<open>Path::extension\<close> of a file name that is not \<open>..\<close>.\<close>

definition stem_and_extension :: "string \<Rightarrow> string \<times> string option" where
  "stem_and_extension name =
     (case rsplit_once (CHR ''.'') name of
        Some (b, a) \<Rightarrow> if b = [] then (name, None) else (b, Some a)
      | None \<Rightarrow> (name, None))"

definition dir_names :: "image_store \<Rightarrow> string \<Rightarrow> string list" where
  "dir_names s dir =
     filter (\<lambda>n. CHR ''/'' \<notin> set n) (List.map_filter (strip_prefix (dir @ ''/'')) (map fst s))"

definition imported_entry :: "image_store \<Rightarrow> string \<Rightarrow> string \<Rightarrow> (string \<times> string) option" where
  "imported_entry s dir file_name =
     (let p = path_join dir file_name; (stem, ext) = stem_and_extension file_name in
      if ext \<noteq> Some ''sqfs'' then None
      else case map_of s p of
          None \<Rightarrow> None
        | Some (NotRegular _) \<Rightarrow> None
        | Some _ \<Rightarrow> if validate_slug stem \<noteq> Inr () then None else Some (stem, p))"

definition list_imported :: "machine \<Rightarrow> image_store \<Rightarrow> string \<Rightarrow> image_error + (string \<times> string) list" where
  "list_imported env s images =
     (if broken env ReadDir then Inl (ImageIo ReadDir)
      else
        let dir = path_join images ''oci'' in
        Inr (sort (List.map_filter (imported_entry s dir) (dir_names s dir))))"

record listed_image =
  entry_flavor :: string
  entry_kind :: string
  entry_path :: string
  entry_present :: bool
  entry_bytes :: "nat option"
  entry_proto :: "u32 option"
  entry_unstamped :: bool
  entry_stale :: bool
  entry_stale_reason :: "string option"
  entry_built :: "nat option"
  entry_source :: "string option"

definition image_entry ::
  "machine \<Rightarrow> image_store \<Rightarrow> string option \<Rightarrow> string \<Rightarrow> string \<times> string \<Rightarrow> image_error + listed_image" where
  "image_entry env s host_agent knd row =
     (let (flv, path) = row; present = exists_at s path in
      try_bind (if present then read_image_meta env s path else Inr None) (\<lambda>meta.
      let proto = Option.bind meta img_proto;
          proto_stale = (case proto of Some v \<Rightarrow> v \<noteq> PROTO_VERSION | None \<Rightarrow> False);
          agent_stale = (case (Option.bind meta img_agent, host_agent) of
             (Some stamped, Some host) \<Rightarrow> stamped \<noteq> host
           | _ \<Rightarrow> False) in
      Inr \<lparr>entry_flavor = flv, entry_kind = knd, entry_path = path, entry_present = present,
           entry_bytes = (if present then file_len env s path else None), entry_proto = proto,
           entry_unstamped = (present \<and> meta = None), entry_stale = (proto_stale \<or> agent_stale),
           entry_stale_reason =
             (if proto_stale then Some ''proto'' else if agent_stale then Some ''agent'' else None),
           entry_built = map_option img_built meta,
           entry_source = map_option source_ref (Option.bind meta img_oci)\<rparr>))"

fun map_ok :: "('a \<Rightarrow> 'e + 'b) \<Rightarrow> 'a list \<Rightarrow> 'e + 'b list" where
  "map_ok f [] = Inr []"
| "map_ok f (x # xs) = try_bind (f x) (\<lambda>y. try_bind (map_ok f xs) (\<lambda>ys. Inr (y # ys)))"

definition list_images_in :: "machine \<Rightarrow> image_store \<Rightarrow> string \<Rightarrow> string option \<Rightarrow> image_error + listed_image list" where
  "list_images_in env s images host_agent =
     try_bind (map_ok (image_entry env s host_agent ''builtin'')
                 (map (\<lambda>f. (flavor_slug f, image_dest images f)) ALL_FLAVORS)) (\<lambda>built.
     try_bind (list_imported env s images) (\<lambda>names.
     try_bind (map_ok (image_entry env s host_agent ''imported'')
                 (map (\<lambda>(name, path). (IMPORTED_PREFIX @ name, path)) names)) (\<lambda>imported.
     Inr (built @ imported))))"

definition remove_if_present :: "machine \<Rightarrow> image_io \<Rightarrow> string \<Rightarrow> (image_store, image_error, unit) comp" where
  "remove_if_present env k p =
     seq (attempt (remove_file (broken env k) p)) (\<lambda>r.
       case r of Inl FileFailed \<Rightarrow> fail (ImageIo k) | _ \<Rightarrow> ret ())"

definition remove_image_and_meta :: "machine \<Rightarrow> string \<Rightarrow> (image_store, image_error, nat) comp" where
  "remove_image_and_meta env img =
     seq (gets (\<lambda>s. case file_len env s img of Some n \<Rightarrow> n | None \<Rightarrow> 0)) (\<lambda>freed.
     seq (image_call env RemoveImage (\<lambda>fails. remove_file fails img)) (\<lambda>_.
     seq (gets (\<lambda>s. case file_len env s (image_meta_path img) of Some n \<Rightarrow> n | None \<Rightarrow> 0)) (\<lambda>more.
     seq (remove_if_present env RemoveStamp (image_meta_path img)) (\<lambda>_.
     seq (remove_if_present env RemovePartial (image_meta_tmp_path img)) (\<lambda>_.
     ret (freed + more))))))"

section \<open>The paths of images\<close>

text \<open>Every image is named \<open>*.sqfs\<close> or \<open>*.ext4\<close>; no sidecar is.\<close>

definition is_image :: "string \<Rightarrow> bool" where
  "is_image p \<longleftrightarrow> ends_with ''.sqfs'' p \<or> ends_with ''.ext4'' p"

definition base_file :: "string \<Rightarrow> base_ref \<Rightarrow> string" where
  "base_file images r =
     (case r of
        Builtin f \<Rightarrow> image_dest images f
      | Imported name \<Rightarrow> path_join (path_join images ''oci'') (name @ ''.sqfs''))"

lemma is_image_last: "is_image p \<Longrightarrow> p \<noteq> [] \<and> last p \<in> {CHR ''s'', CHR ''4''}"
  by (auto simp: is_image_def ends_with_iff)

lemma meta_path_last: "image_meta_path p \<noteq> [] \<and> last (image_meta_path p) = CHR ''n''"
  by (simp add: image_meta_path_def)

lemma tmp_path_last: "image_meta_tmp_path p \<noteq> [] \<and> last (image_meta_tmp_path p) = CHR ''l''"
  by (simp add: image_meta_tmp_path_def)

lemma meta_path_inj [simp]: "image_meta_path p = image_meta_path q \<longleftrightarrow> p = q"
  by (simp add: image_meta_path_def)

lemma meta_tmp_path [simp]: "image_meta_path p \<noteq> image_meta_tmp_path q" "image_meta_tmp_path q \<noteq> image_meta_path p"
  using meta_path_last [of p] tmp_path_last [of q] by auto

lemma image_paths_apart:
  "is_image p \<Longrightarrow> image_meta_path q \<noteq> p" "is_image p \<Longrightarrow> image_meta_tmp_path q \<noteq> p"
  "is_image p \<Longrightarrow> p \<noteq> image_meta_path q" "is_image p \<Longrightarrow> p \<noteq> image_meta_tmp_path q"
  using is_image_last [of p] meta_path_last [of q] tmp_path_last [of q] by auto

lemma not_image [simp]: "\<not> is_image (image_meta_path p)" "\<not> is_image (image_meta_tmp_path p)"
  using image_paths_apart by blast+

lemma path_join_suffix: "b \<noteq> [] \<Longrightarrow> \<exists>a'. path_join a b = a' @ b"
  by (auto simp: path_join_def)

lemma base_file_is_image: "is_image (base_file images r)"
proof -
  have "\<exists>a' b. path_join a (c @ b') = a' @ b'" for a c b' :: string
    using path_join_suffix [of "c @ b'" a] by (cases "c @ b' = []") auto
  note ends = this
  have q: "is_image (path_join a (c @ ''.sqfs''))" "is_image (path_join a (c @ ''.ext4''))" for a c
    using ends [of a c "''.sqfs''"] ends [of a c "''.ext4''"] by (auto simp: is_image_def ends_with_iff)
  have "is_image (image_dest images f)" for f
    using q(1) [of images "''base''"] q(1) [of images "''base-alpine''"] q(2) [of images "''rootfs-'' @ flavor_slug f"]
    by (cases f) simp_all
  then show ?thesis using q(1) by (simp add: base_file_def split: base_ref.split)
qed

section \<open>Sidecars vouch for their images\<close>

definition stamps_true :: "(bytes \<Rightarrow> string) \<Rightarrow> (string \<Rightarrow> dir_entry option) \<Rightarrow> bool" where
  "stamps_true H M \<longleftrightarrow>
     (\<forall>p m bs. is_image p \<and> M (image_meta_path p) = Some (Stamp m) \<and> M p = Some (RegularFile bs) \<longrightarrow>
        img_sha256 m = H bs)"

text \<open>No sidecar, or one for these very bytes: the state of an image about to be stamped.\<close>

definition stampable :: "(bytes \<Rightarrow> string) \<Rightarrow> string \<Rightarrow> string \<Rightarrow> (string \<Rightarrow> dir_entry option) \<Rightarrow> bool" where
  "stampable H img h M \<longleftrightarrow> is_image img \<and> (\<forall>bs. M img = Some (RegularFile bs) \<longrightarrow> h = H bs)"

lemma map_of_store [simp]:
  "map_of (AList.update k v s) = (map_of s)(k \<mapsto> v)"
  "map_of (AList.delete k s) = (map_of s)(k := None)"
  by (simp_all add: AList.update_conv' AList.delete_conv')

lemma true_forget: "stamps_true H M \<Longrightarrow> stamps_true H (M(p := None))"
  by (auto simp: stamps_true_def)

lemma true_aside: "stamps_true H M \<Longrightarrow> stamps_true H (M(image_meta_tmp_path p \<mapsto> x))"
  by (auto simp: stamps_true_def image_paths_apart split: if_splits)

lemma true_image: "stamps_true H M \<Longrightarrow> is_image p \<Longrightarrow> M (image_meta_path p) = None \<Longrightarrow> stamps_true H (M(p \<mapsto> x))"
  by (auto simp: stamps_true_def image_paths_apart split: if_splits)

lemma true_stamp: "stamps_true H M \<Longrightarrow> stampable H p (img_sha256 m) M \<Longrightarrow> stamps_true H (M(image_meta_path p \<mapsto> Stamp m))"
  by (auto simp: stamps_true_def stampable_def image_paths_apart split: if_splits)

text \<open>The calls, as triples over what is at each path.\<close>

lemma file_error_cases: "e \<noteq> FileFailed \<Longrightarrow> e = FileMissing"
  by (cases e) auto

lemma remove_file_triple:
  "triple P (remove_file fails p)
     (\<lambda>_ s. \<exists>s0. P s0 \<and> map_of s = (map_of s0)(p := None)) (\<lambda>e s. P s \<and> (e = FileMissing \<longrightarrow> map_of s p = None))"
  by (auto simp: triple_def remove_file_def split: option.split dir_entry.split)

lemma rename_file_triple:
  "triple P (rename_file fails old new)
     (\<lambda>_ s. \<exists>s0 f. P s0 \<and> map_of s0 old = Some f \<and> map_of s = (map_of s0)(old := None, new \<mapsto> f)) (\<lambda>_. P)"
  by (auto simp: triple_def rename_file_def split: option.split dir_entry.split)

lemma create_new_triple:
  "triple P (create_new fails p) (\<lambda>_ s. \<exists>s0. P s0 \<and> map_of s = (map_of s0)(p \<mapsto> RegularFile [])) (\<lambda>_. P)"
  by (auto simp: triple_def create_new_def split: option.split dir_entry.split)

lemma image_call_triple: "triple P (f (broken env k)) Q (\<lambda>_. E (ImageIo k)) \<Longrightarrow> triple P (image_call env k f) Q E"
  unfolding image_call_def by (rule triple_map_fail)

lemma sha256_file_triple:
  "triple P (sha256_file env p)
     (\<lambda>h s. P s \<and> (\<exists>bs. read_bytes env s p = Some bs \<and> h = sha256_of env bs)) (\<lambda>_. P)"
  by (auto simp: triple_def sha256_file_def split: option.split)

text \<open>What each operation leaves at every path, from a store whose contents are \<open>M\<close>.\<close>

abbreviation holds :: "(string \<Rightarrow> dir_entry option) \<Rightarrow> image_store \<Rightarrow> bool" where
  "holds M s \<equiv> map_of s = M"

lemma try_remove_triple:
  "triple (holds M) (attempt (remove_file fails p))
     (\<lambda>r s. if r = Inl FileFailed then holds M s else holds (M(p := None)) s) E"
  by (rule triple_attempt, rule triple_conseq [OF remove_file_triple [where P = "holds M"]])
    (auto simp: fun_upd_idem dest: file_error_cases)

lemma write_sidecar_triple:
  fixes img :: string and m
  defines "t \<equiv> image_meta_tmp_path img" and "p \<equiv> image_meta_path img"
  shows "triple (holds M) (write_sidecar env img m)
    (\<lambda>_. holds (M(t := None, p \<mapsto> Stamp m))) (\<lambda>_ s. \<exists>x. holds (M(t := x)) s)"
proof -
  have M: "\<exists>x. holds (M(t := x)) s" if "holds M s" for s using that by (metis fun_upd_triv)
  have create_step: "triple (holds M) (image_call env CreateStamp (\<lambda>fails. create_new fails t))
      (\<lambda>_. holds (M(t \<mapsto> RegularFile []))) (\<lambda>_ s. \<exists>x. holds (M(t := x)) s)"
    by (rule image_call_triple, rule triple_conseq [OF create_new_triple [where P = "holds M"]])
      (use M in auto)
  have text_step: "triple (holds (M(t \<mapsto> RegularFile []))) (write_stamp_text env t m)
      (\<lambda>_. holds (M(t \<mapsto> Stamp m))) (\<lambda>_ s. \<exists>x. holds (M(t := x)) s)"
    by (auto simp: triple_def write_stamp_text_def)
  have move: "triple (holds (M(t \<mapsto> Stamp m))) (image_call env MoveStamp (\<lambda>fails. rename_file fails t p))
      (\<lambda>_. holds (M(t := None, p \<mapsto> Stamp m))) (\<lambda>_ s. \<exists>x. holds (M(t := x)) s)"
    by (rule image_call_triple, rule triple_conseq [OF rename_file_triple [where P = "holds (M(t \<mapsto> Stamp m))"]])
      (auto simp: t_def p_def)
  have last: "triple (holds (M(t \<mapsto> Stamp m)))
      (if broken env SyncStamp then fail (ImageIo SyncStamp)
       else image_call env MoveStamp (\<lambda>fails. rename_file fails t p))
      (\<lambda>_. holds (M(t := None, p \<mapsto> Stamp m))) (\<lambda>_ s. \<exists>x. holds (M(t := x)) s)"
    by (rule triple_if) (auto intro: triple_fail move)
  show ?thesis unfolding write_sidecar_def Let_def t_def [symmetric] p_def [symmetric]
    by (rule triple_seq [OF create_step triple_seq [OF text_step last]])
qed

lemma publish_image_triple:
  fixes target :: string and M :: "string \<Rightarrow> dir_entry option"
  defines "M1 \<equiv> M(image_meta_path target := None)"
  assumes "\<And>f. M1 tmp = Some f \<Longrightarrow> triple (holds (M1(tmp := None, target \<mapsto> f))) (stamp target) Q E"
  shows "triple (holds M) (publish_image env tmp target stamp) Q (\<lambda>e s. holds M s \<or> holds M1 s \<or> E e s)"
proof -
  have move: "triple (holds M1) (image_call env MoveImage (\<lambda>fails. rename_file fails tmp target))
      (\<lambda>_ s. \<exists>f. M1 tmp = Some f \<and> holds (M1(tmp := None, target \<mapsto> f)) s) (\<lambda>e s. holds M s \<or> holds M1 s \<or> E e s)"
    by (rule image_call_triple, rule triple_conseq [OF rename_file_triple [where P = "holds M1"]]) auto
  have stamp: "triple (\<lambda>s. \<exists>f. M1 tmp = Some f \<and> holds (M1(tmp := None, target \<mapsto> f)) s) (stamp target) Q
      (\<lambda>e s. holds M s \<or> holds M1 s \<or> E e s)"
    using assms(2) unfolding triple_def by (fastforce split: prod.splits sum.splits)
  show ?thesis unfolding publish_image_def
  proof (rule triple_seq [OF try_remove_triple])
    fix r :: "file_error + unit"
    show "triple (\<lambda>s. if r = Inl FileFailed then holds M s else holds (M(image_meta_path target := None)) s)
        (case r of Inl FileFailed \<Rightarrow> fail (ImageIo ClearStamp)
         | _ \<Rightarrow> seq (image_call env MoveImage (\<lambda>fails. rename_file fails tmp target)) (\<lambda>_. stamp target)) Q
        (\<lambda>e s. holds M s \<or> holds M1 s \<or> E e s)"
      using triple_seq [OF move stamp] unfolding M1_def
      by (cases r) (auto intro: triple_fail split: file_error.split)
  qed
qed

text \<open>An image with its stamp, and what is left when the work stops before.\<close>

definition stamped :: "(bytes \<Rightarrow> string) \<Rightarrow> (string \<Rightarrow> dir_entry option) \<Rightarrow> string \<Rightarrow> string \<Rightarrow> dir_entry \<Rightarrow> (image_meta \<Rightarrow> bool) \<Rightarrow> (string \<Rightarrow> dir_entry option) \<Rightarrow> bool" where
  "stamped H M tmp target f ok M' \<longleftrightarrow>
     (\<exists>m. ok m \<and> (\<forall>bs. f = RegularFile bs \<longrightarrow> img_sha256 m = H bs) \<and>
        M' = M(tmp := None, target \<mapsto> f, image_meta_tmp_path target := None, image_meta_path target \<mapsto> Stamp m))"

definition unstamped :: "(string \<Rightarrow> dir_entry option) \<Rightarrow> string \<Rightarrow> string \<Rightarrow> (string \<Rightarrow> dir_entry option) \<Rightarrow> bool" where
  "unstamped M tmp target M' \<longleftrightarrow>
     M' = M \<or> M' = M(image_meta_path target := None) \<or>
     (\<exists>f x. M tmp = Some f \<and>
        M' = M(tmp := None, target \<mapsto> f, image_meta_path target := None, image_meta_tmp_path target := x))"

definition hash_and_stamp :: "machine \<Rightarrow> string \<Rightarrow> (string \<Rightarrow> image_meta) \<Rightarrow> (image_store, image_error, unit) comp" where
  "hash_and_stamp env img meta = seq (sha256_file env img) (\<lambda>h. write_sidecar env img (meta h))"

lemma publish_triple:
  assumes "is_image target" "tmp \<noteq> image_meta_path target" "tmp \<noteq> target" "\<And>h. img_sha256 (meta h) = h"
  shows "triple (holds M) (publish_image env tmp target (\<lambda>img. hash_and_stamp env img meta))
    (\<lambda>_ s. \<exists>f. M tmp = Some f \<and> stamped (sha256_of env) M tmp target f (\<lambda>m. \<exists>h. m = meta h) (map_of s))
    (\<lambda>_ s. unstamped M tmp target (map_of s))"
proof -
  let ?p = "image_meta_path target" and ?t = "image_meta_tmp_path target"
  let ?M1 = "M(?p := None)"
  have apart: "?p \<noteq> target" "?t \<noteq> target" "?t \<noteq> ?p" using image_paths_apart [OF assms(1)] by simp_all
  have "triple (holds (?M1(tmp := None, target \<mapsto> f))) (hash_and_stamp env target meta)
      (\<lambda>_ s. \<exists>f. M tmp = Some f \<and> stamped (sha256_of env) M tmp target f (\<lambda>m. \<exists>h. m = meta h) (map_of s))
      (\<lambda>_ s. unstamped M tmp target (map_of s))" if f: "?M1 tmp = Some f" for f
  proof -
    let ?M2 = "?M1(tmp := None, target \<mapsto> f)"
    have M2: "M(tmp := None, target \<mapsto> f, ?p := None) = ?M2" "?M2 = ?M2(?t := ?M2 ?t)" using apart assms(2) by auto
    have un: "unstamped M tmp target (?M2(?t := x))" for x
      using f assms(2) unfolding unstamped_def M2(1) [symmetric] by auto
    have hash: "triple (holds ?M2) (sha256_file env target)
        (\<lambda>h s. holds ?M2 s \<and> (\<forall>bs. f = RegularFile bs \<longrightarrow> h = sha256_of env bs)) (\<lambda>_ s. unstamped M tmp target (map_of s))"
      by (rule triple_conseq [OF sha256_file_triple [where P = "holds ?M2"]])
        (use un [of "?M2 ?t"] M2(2) in \<open>auto simp: read_bytes_def simp del: fun_upd_apply, auto simp: read_bytes_def\<close>)
    have stamp: "triple (\<lambda>s. holds ?M2 s \<and> (\<forall>bs. f = RegularFile bs \<longrightarrow> h = sha256_of env bs)) (write_sidecar env target (meta h))
        (\<lambda>_ s. \<exists>f. M tmp = Some f \<and> stamped (sha256_of env) M tmp target f (\<lambda>m. \<exists>h. m = meta h) (map_of s))
        (\<lambda>_ s. unstamped M tmp target (map_of s))" for h
    proof (rule triple_assume, rule triple_conseq [OF write_sidecar_triple [of ?M2 env target "meta h"]])
      fix s assume h: "\<forall>bs. f = RegularFile bs \<longrightarrow> h = sha256_of env bs" "holds (?M2(?t := None, ?p \<mapsto> Stamp (meta h))) s"
      have "?M2(?t := None, ?p \<mapsto> Stamp (meta h)) = M(tmp := None, target \<mapsto> f, ?t := None, ?p \<mapsto> Stamp (meta h))"
        using apart assms(2) by auto
      then show "\<exists>f. M tmp = Some f \<and> stamped (sha256_of env) M tmp target f (\<lambda>m. \<exists>h. m = meta h) (map_of s)"
        using f h assms(2,4) unfolding stamped_def by (intro exI [of _ f]) auto
    qed (use un in auto)
    show ?thesis unfolding hash_and_stamp_def by (rule triple_seq [OF hash stamp])
  qed
  then have "triple (holds M) (publish_image env tmp target (\<lambda>img. hash_and_stamp env img meta))
    (\<lambda>_ s. \<exists>f. M tmp = Some f \<and> stamped (sha256_of env) M tmp target f (\<lambda>m. \<exists>h. m = meta h) (map_of s))
    (\<lambda>e s. holds M s \<or> holds ?M1 s \<or> unstamped M tmp target (map_of s))"
    by (rule publish_image_triple [where stamp = "\<lambda>img. hash_and_stamp env img meta" and
          E = "\<lambda>_ s. unstamped M tmp target (map_of s)"])
  then show ?thesis by (rule triple_conseq) (auto simp: unstamped_def)
qed

lemma true_stamped:
  assumes "stamps_true H M" "stamped H M tmp target f ok M'" "is_image target"
  shows "stamps_true H M'"
proof -
  let ?p = "image_meta_path target" and ?t = "image_meta_tmp_path target"
  obtain m where m: "\<And>bs. f = RegularFile bs \<Longrightarrow> img_sha256 m = H bs"
      "M' = M(tmp := None, target \<mapsto> f, ?t := None, ?p \<mapsto> Stamp m)"
    using assms(2) by (auto simp: stamped_def)
  have "stamps_true H (M(?p := None, tmp := None, target \<mapsto> f, ?t := None))"
    by (intro true_forget true_image assms(1,3)) simp
  then have "stamps_true H (M(?p := None, tmp := None, target \<mapsto> f, ?t := None, ?p \<mapsto> Stamp m))"
    by (rule true_stamp) (use m(1) assms(3) image_paths_apart [OF assms(3)] in \<open>simp add: stampable_def\<close>)
  moreover have "M(?p := None, tmp := None, target \<mapsto> f, ?t := None, ?p \<mapsto> Stamp m) = M'"
    unfolding m(2) by auto
  ultimately show ?thesis by simp
qed

lemma true_unstamped:
  assumes "stamps_true H M" "unstamped M tmp target M'" "is_image target"
  shows "stamps_true H M'"
proof -
  let ?p = "image_meta_path target" and ?t = "image_meta_tmp_path target"
  have "stamps_true H (M(tmp := None, target \<mapsto> f, ?p := None, ?t := x))" for f x
  proof -
    have "stamps_true H (M(?p := None, tmp := None, target \<mapsto> f))"
      by (intro true_forget true_image assms(1,3)) simp
    moreover have "M(?p := None, tmp := None, target \<mapsto> f) = M(tmp := None, target \<mapsto> f, ?p := None)"
      using image_paths_apart [OF assms(3)] by auto
    ultimately have "stamps_true H (M(tmp := None, target \<mapsto> f, ?p := None))" by simp
    then show ?thesis by (cases x) (auto intro: true_forget true_aside)
  qed
  then show ?thesis using assms(1,2) by (auto simp: unstamped_def intro: true_forget)
qed

lemma stamp_as_hash:
  "(\<forall>img. write_image_meta env img f = fail NoAgent) \<or>
   (\<exists>meta. (\<forall>h. img_sha256 (meta h) = h) \<and> (\<forall>img. write_image_meta env img f = hash_and_stamp env img meta))"
proof (cases "has_agent f \<and> checked_agent env = None")
  case True
  then show ?thesis by (simp add: write_image_meta_def)
next
  case False
  then obtain pa where "(if has_agent f then map_option (\<lambda>a. (Some PROTO_VERSION, Some (sha256_of env a))) (checked_agent env)
      else Some (None, None)) = Some pa" by (cases "has_agent f"; cases "checked_agent env") auto
  moreover obtain p a where "pa = (p, a)" by force
  ultimately have "write_image_meta env img f = hash_and_stamp env img (\<lambda>h. \<lparr>img_flavor = flavor_slug f, img_proto = p,
      img_agent = a, img_sha256 = h, img_built = unix_now env, img_oci = None\<rparr>)" for img
    by (simp add: write_image_meta_def hash_and_stamp_def)
  then show ?thesis by (intro disjI2 exI conjI allI) (auto intro: refl)
qed

lemma publish_keeps_true:
  assumes "stamps_true (sha256_of env) (map_of s)" "is_image target" "tmp \<noteq> image_meta_path target" "tmp \<noteq> target"
    and "publish_image env tmp target stamp s = (r, s')"
    and "stamp target = fail e \<or> (\<exists>meta. (\<forall>h. img_sha256 (meta h) = h) \<and> stamp target = hash_and_stamp env target meta)"
  shows "stamps_true (sha256_of env) (map_of s')"
  using assms(6)
proof (elim disjE exE conjE)
  assume st: "stamp target = fail e"
  let ?p = "image_meta_path target"
  have "triple (holds (map_of s)) (publish_image env tmp target stamp) (\<lambda>_ _. False)
      (\<lambda>e s'. map_of s' = map_of s \<or> map_of s' = (map_of s)(?p := None) \<or> unstamped (map_of s) tmp target (map_of s'))"
    by (rule publish_image_triple) (use assms(2,3) st image_paths_apart [OF assms(2)] in
      \<open>auto simp: unstamped_def fun_upd_twist intro!: triple_fail exI [of _ "((map_of s)(?p := None, tmp := None)) (image_meta_tmp_path target)"]\<close>)
  from tripleD [OF this refl] tripleD_fail [OF this refl] show ?thesis using assms(1,2,5)
    by (cases r) (auto intro: true_forget true_unstamped)
next
  fix meta assume st: "\<forall>h. img_sha256 (meta h) = h" "stamp target = hash_and_stamp env target meta"
  have "publish_image env tmp target stamp = publish_image env tmp target (\<lambda>img. hash_and_stamp env img meta)"
    by (simp only: publish_image_def st(2))
  with publish_triple [OF assms(2-4), of meta "map_of s" env] st(1)
  have t: "triple (holds (map_of s)) (publish_image env tmp target stamp)
      (\<lambda>_ s'. \<exists>f. map_of s tmp = Some f \<and> stamped (sha256_of env) (map_of s) tmp target f (\<lambda>m. \<exists>h. m = meta h) (map_of s'))
      (\<lambda>_ s'. unstamped (map_of s) tmp target (map_of s'))" by simp
  from tripleD [OF t refl] tripleD_fail [OF t refl] show ?thesis using assms(1,2,5)
    by (cases r) (auto intro: true_stamped true_unstamped)
qed

lemma remove_image_triple:
  fixes img :: string
  defines "p \<equiv> image_meta_path img" and "t \<equiv> image_meta_tmp_path img"
  shows "triple (holds M) (remove_image_and_meta env img) (\<lambda>_. holds (M(img := None, p := None, t := None)))
    (\<lambda>_ s. holds M s \<or> holds (M(img := None)) s \<or> holds (M(img := None, p := None)) s)"
proof -
  let ?E = "\<lambda>_ s. holds M s \<or> holds (M(img := None)) s \<or> holds (M(img := None, p := None)) s"
  have len: "triple (holds N) (gets (\<lambda>s. case file_len env s q of Some n \<Rightarrow> n | None \<Rightarrow> 0)) (\<lambda>_. holds N) ?E" for N q
    by (rule triple_gets) simp
  have gone: "triple (holds N) (remove_if_present env k q) (\<lambda>_. holds (N(q := None))) (\<lambda>_. holds N)" for N k q
    unfolding remove_if_present_def
    by (rule triple_seq [OF try_remove_triple])
      (auto intro: triple_fail triple_ret split: sum.split file_error.split)
  have step: "triple (holds M) (image_call env RemoveImage (\<lambda>fails. remove_file fails img)) (\<lambda>_. holds (M(img := None))) ?E"
    by (rule image_call_triple, rule triple_conseq [OF remove_file_triple [where P = "holds M"]]) auto
  have gone1: "triple (holds (M(img := None))) (remove_if_present env RemoveStamp p) (\<lambda>_. holds (M(img := None, p := None))) ?E"
    by (rule triple_conseq [OF gone]) auto
  have gone2: "triple (holds (M(img := None, p := None))) (remove_if_present env RemovePartial t)
      (\<lambda>_. holds (M(img := None, p := None, t := None))) ?E"
    by (rule triple_conseq [OF gone]) auto
  show ?thesis unfolding remove_image_and_meta_def p_def [symmetric] t_def [symmetric]
    by (rule triple_seq [OF len triple_seq [OF step triple_seq [OF len triple_seq [OF gone1 triple_seq [OF gone2 triple_ret]]]]])
qed

text \<open>A temporary image that a packer has just made: a new file with no sidecar beside it.\<close>

definition packed_at :: "image_store \<Rightarrow> string \<Rightarrow> string \<Rightarrow> bool" where
  "packed_at s tmp target \<longleftrightarrow>
     tmp \<noteq> target \<and> tmp \<noteq> image_meta_path target \<and> tmp \<noteq> image_meta_tmp_path target \<and>
     map_of s (image_meta_path tmp) = None"

text \<open>
  What happens to the images directory \<open>images\<close> with hash \<open>H\<close>: builds, imports and removals,
  each of which may stop at any call, and clean-ups of temporary files.
\<close>

inductive image_reach :: "(bytes \<Rightarrow> string) \<Rightarrow> string \<Rightarrow> image_store \<Rightarrow> bool" for H images where
  reach_empty: "image_reach H images []"
| reach_build:
    "image_reach H images s \<Longrightarrow> sha256_of env = H \<Longrightarrow> packed_at s tmp (image_dest images f) \<Longrightarrow>
     build_rootfs env images f force tmp packed s = (r, s') \<Longrightarrow> image_reach H images s'"
| reach_import:
    "image_reach H images s \<Longrightarrow> sha256_of env = H \<Longrightarrow> imported_image_path images slug = Inr target \<Longrightarrow>
     packed_at s tmp target \<Longrightarrow>
     publish_imported_image env tmp target slug prov (AList.update tmp (RegularFile bs) s) = (r', s') \<Longrightarrow>
     image_reach H images s'"
| reach_remove:
    "image_reach H images s \<Longrightarrow> imported_image_path images slug = Inr target \<Longrightarrow>
     remove_image_and_meta env target s = (r'', s') \<Longrightarrow> image_reach H images s'"
| reach_cleanup: "image_reach H images s \<Longrightarrow> image_reach H images (AList.delete tmp s)"

lemma base_file_dest: "base_file images (Builtin f) = image_dest images f"
  by (simp add: base_file_def)

lemma base_file_imported: "imported_image_path images slug = Inr p \<Longrightarrow> base_file images (Imported slug) = p"
  by (simp add: base_file_def result_iff)

lemma true_packed: "stamps_true H M \<Longrightarrow> M (image_meta_path tmp) = None \<Longrightarrow> stamps_true H (M(tmp \<mapsto> RegularFile bs))"
  by (auto simp: stamps_true_def split: if_splits)

lemma outcome_keeps: "snd (outcome_for env target f cached s) = s"
  by (auto simp: outcome_for_def seq_def gets_def sha256_file_def split: option.split)

lemma build_rootfs_cases:
  assumes "build_rootfs env images f force tmp packed s = (r, s')"
  obtains "s' = s"
  | bs r1 where "publish_image env tmp (image_dest images f) (\<lambda>img. write_image_meta env img f)
      (AList.update tmp (RegularFile bs) s) = (r1, s')"
proof -
  let ?target = "image_dest images f"
  let ?publish = "publish_image env tmp ?target (\<lambda>img. write_image_meta env img f)"
  have out: "outcome_for env ?target f c s1 = (r, s') \<Longrightarrow> s' = s1" for c s1
    using outcome_keeps [of env ?target f c s1] by (metis snd_conv)
  have seq_out: "seq ?publish (\<lambda>_. outcome_for env ?target f False) s1 = (r, s') \<Longrightarrow> \<exists>r1. ?publish s1 = (r1, s')" for s1
    using out by (cases "?publish s1") (auto simp: seq_def split: sum.splits)
  show ?thesis
  proof (cases "s' = s")
    case False
    then obtain bs where "seq (modify (AList.update tmp (RegularFile bs))) (\<lambda>_.
        seq ?publish (\<lambda>_. outcome_for env ?target f False)) s = (r, s')"
      using assms out [of True s] by (auto simp: build_rootfs_def Let_def split: if_splits option.splits)
    then have "seq ?publish (\<lambda>_. outcome_for env ?target f False) (AList.update tmp (RegularFile bs) s) = (r, s')"
      by (simp add: seq_def modify_def)
    with that(2) seq_out show ?thesis by blast
  qed (rule that(1))
qed

lemma image_reach_true:
  assumes "image_reach H images s"
  shows "stamps_true H (map_of s)"
  using assms
proof (induction rule: image_reach.induct)
  case reach_empty
  then show ?case by (simp add: stamps_true_def)
next
  case (reach_build s env tmp f force packed r s')
  have img: "is_image (image_dest images f)" using base_file_is_image [of images "Builtin f"] by (simp add: base_file_dest)
  from reach_build(4) show ?case
  proof (cases rule: build_rootfs_cases)
    case (2 bs r1)
    show ?thesis
      by (rule publish_keeps_true [of env "AList.update tmp (RegularFile bs) s", unfolded reach_build(2), OF _ img _ _ 2])
        (use reach_build(3) reach_build.IH stamp_as_hash [of env f] in
          \<open>auto simp: packed_at_def intro: true_packed\<close>)
  qed (use reach_build.IH in simp)
next
  case (reach_import s env slug target tmp prov bs r' s')
  have img: "is_image target" using base_file_is_image [of images "Imported slug"] base_file_imported [OF reach_import(3)] by simp
  have start: "stamps_true H (map_of (AList.update tmp (RegularFile bs) s))"
    using reach_import(4) reach_import.IH by (auto simp: packed_at_def intro: true_packed)
  show ?case
  proof (cases "checked_agent env")
    case None
    then show ?thesis using reach_import(5) start by (simp add: publish_imported_image_def fail_def)
  next
    case (Some agent)
    let ?meta = "\<lambda>h. \<lparr>img_flavor = IMPORTED_PREFIX @ slug, img_proto = Some PROTO_VERSION,
               img_agent = Some (sha256_of env agent), img_sha256 = h, img_built = unix_now env, img_oci = Some prov\<rparr>"
    have "publish_image env tmp target (\<lambda>img. hash_and_stamp env img ?meta) (AList.update tmp (RegularFile bs) s) = (r', s')"
      using reach_import(5) Some by (simp add: publish_imported_image_def hash_and_stamp_def)
    moreover have "\<exists>meta. (\<forall>h. img_sha256 (meta h) = h) \<and> hash_and_stamp env target ?meta = hash_and_stamp env target meta"
      by (intro exI [of _ ?meta]) simp
    ultimately show ?thesis
      using publish_keeps_true [OF _ img, of env "AList.update tmp (RegularFile bs) s" tmp "\<lambda>img. hash_and_stamp env img ?meta" r' s'] start reach_import(2,4)
      by (auto simp: packed_at_def)
  qed
next
  case (reach_remove s slug target env r'' s')
  then show ?case
    using tripleD [OF remove_image_triple refl, of env target s _ s']
      tripleD_fail [OF remove_image_triple refl, of env target s _ s']
    by (cases r'') (metis true_forget)+
next
  case (reach_cleanup s tmp)
  then show ?case by (metis map_of_store(2) true_forget)
qed

text \<open>
  C28: a sidecar never vouches for bytes that are not its own image's: whatever is built,
  imported and removed, and wherever one of these stops, the content id of a base whose image
  is there is the hash of that image or says that it has none.
\<close>
theorem content_ids_are_honest:
  assumes "image_reach H images s" "map_of s (base_file images r) = Some (RegularFile bs)"
    and "content_id env s images r = Inr c"
  shows "c = ''unstamped'' \<or> c = H bs"
proof -
  have t: "stamps_true H (map_of s)" by (rule image_reach_true [OF assms(1)])
  obtain m where m: "read_image_meta env s (base_file images r) = Inr m" "c = content_of m"
    using assms(3) by (cases r)
      (auto simp: base_content_id_def result_iff base_file_dest base_file_imported split: sum.splits)
  then show ?thesis using t assms(2) base_file_is_image [of images r]
    by (auto simp: read_image_meta_def content_of_def stamps_true_def split: if_splits option.splits dir_entry.splits)
qed

end
