(* ===== verification/Image_Checks.thy ===== *)
theory Image_Checks
  imports Image_Store
begin

text \<open>
  What a publish leaves wherever it stops, that \<open>image ls\<close> and the check before a boot agree,
  and the cases in which they fall short.
\<close>

section \<open>Old or new\<close>

lemma fresh_after_stamp:
  assumes "map_of s (image_meta_path p) = Some (Stamp m)" "img_proto m = Some PROTO_VERSION"
    and "img_agent m = host_agent_sha256 env" "\<not> broken env ReadStamp"
  shows "check_image_freshness env s p (host_agent_sha256 env) = Inr Fresh"
  using assms by (simp add: check_image_freshness_def read_image_meta_def split: option.split)

lemma publish_outcome:
  assumes "imported_image_path images slug = Inr target" "map_of s tmp = Some (RegularFile bs)"
    and "packed_at s tmp target" "publish_imported_image env tmp target slug prov s = (r, s')"
    and "\<not> broken env ReadStamp"
  shows "(case r of
      Inr _ \<Rightarrow> map_of s' target = Some (RegularFile bs) \<and>
        content_id env s' images (Imported slug) = Inr (sha256_of env bs) \<and>
        provenance_in env s' images (Imported slug) = Inr (Some prov) \<and>
        image_path_in env s' images (Imported slug) = Inr target
    | Inl e \<Rightarrow>
        (map_of s' target = map_of s target \<and> map_of s' (image_meta_path target) \<in> {map_of s (image_meta_path target), None}) \<or>
        (map_of s' target = Some (RegularFile bs) \<and> content_id env s' images (Imported slug) = Inr ''unstamped'')) \<and>
    (\<forall>p. p \<in> {tmp, target, image_meta_path target, image_meta_tmp_path target} \<or> map_of s' p = map_of s p)"
proof (cases "checked_agent env")
  case None
  then show ?thesis using assms(4) by (auto simp: publish_imported_image_def fail_def)
next
  case (Some agent)
  let ?p = "image_meta_path target" and ?t = "image_meta_tmp_path target"
  let ?meta = "\<lambda>h. \<lparr>img_flavor = IMPORTED_PREFIX @ slug, img_proto = Some PROTO_VERSION,
      img_agent = Some (sha256_of env agent), img_sha256 = h, img_built = unix_now env, img_oci = Some prov\<rparr>"
  have img: "is_image target" using base_file_is_image [of images "Imported slug"] base_file_imported [OF assms(1)] by simp
  note apart = image_paths_apart [OF img]
  have tmp: "tmp \<noteq> target" "tmp \<noteq> ?p" "tmp \<noteq> ?t" using assms(3) by (simp_all add: packed_at_def)
  have t: "triple (holds (map_of s)) (publish_image env tmp target (\<lambda>img. hash_and_stamp env img ?meta))
    (\<lambda>_ s'. \<exists>f. map_of s tmp = Some f \<and> stamped (sha256_of env) (map_of s) tmp target f (\<lambda>m. \<exists>h. m = ?meta h) (map_of s'))
    (\<lambda>_ s'. unstamped (map_of s) tmp target (map_of s'))"
    by (rule publish_triple [OF img tmp(2,1)]) simp
  have run: "publish_image env tmp target (\<lambda>img. hash_and_stamp env img ?meta) s = (r, s')"
    using assms(4) Some by (simp add: publish_imported_image_def hash_and_stamp_def)
  have path: "imported_image_path images slug = Inr target" by (rule assms(1))
  show ?thesis
  proof (cases r)
    case (Inl e)
    with tripleD_fail [OF t refl] run have "unstamped (map_of s) tmp target (map_of s')" by simp
    then show ?thesis using Inl assms(2,5) tmp apart path
      by (auto simp: unstamped_def read_image_meta_def content_of_def split: if_splits)
  next
    case (Inr u)
    with tripleD [OF t refl] run obtain h where h: "h = sha256_of env bs"
        "map_of s' = (map_of s)(tmp := None, target \<mapsto> RegularFile bs, ?t := None, ?p \<mapsto> Stamp (?meta h))"
      using assms(2) by (auto simp: stamped_def)
    then have s': "map_of s' target = Some (RegularFile bs)" "map_of s' ?p = Some (Stamp (?meta h))" using apart by auto
    have "check_image_freshness env s' target (host_agent_sha256 env) = Inr Fresh"
      by (rule fresh_after_stamp [OF s'(2)]) (use Some assms(5) in \<open>simp_all add: host_agent_sha256_def\<close>)
    with s' h Inr assms(5) path show ?thesis
      by (auto simp: read_image_meta_def content_of_def read_provenance_def exists_at_def)
  qed
qed

text \<open>
  C29: an import publishes its image as a whole or not at all, wherever it stops. Afterwards
  there is the new image with a sidecar that vouches for its bytes, so that the base boots at
  once; or, stopped before the rename, the old image, with its own sidecar or none; or,
  stopped after it, the new image with none. No path but the image's own four changes.
\<close>
theorem publish_is_old_or_new:
  assumes "imported_image_path images slug = Inr target" "map_of s tmp = Some (RegularFile bs)"
    and "packed_at s tmp target" "publish_imported_image env tmp target slug prov s = (r, s')"
    and "\<not> broken env ReadStamp"
  shows "(case r of
      Inr _ \<Rightarrow> map_of s' target = Some (RegularFile bs) \<and>
        content_id env s' images (Imported slug) = Inr (sha256_of env bs) \<and>
        provenance_in env s' images (Imported slug) = Inr (Some prov) \<and>
        image_path_in env s' images (Imported slug) = Inr target
    | Inl e \<Rightarrow>
        (map_of s' target = map_of s target \<and> map_of s' (image_meta_path target) \<in> {map_of s (image_meta_path target), None}) \<or>
        (map_of s' target = Some (RegularFile bs) \<and> content_id env s' images (Imported slug) = Inr ''unstamped'')) \<and>
    (\<forall>p. p \<in> {tmp, target, image_meta_path target, image_meta_tmp_path target} \<or> map_of s' p = map_of s p)"
  by (rule publish_outcome [OF assms])

section \<open>Listing and booting\<close>

lemma map_ok_all: "map_ok f xs = Inr ys \<Longrightarrow> x \<in> set xs \<Longrightarrow> \<exists>y \<in> set ys. f x = Inr y"
  by (induction xs arbitrary: ys) (auto simp: result_iff)

lemma map_ok_only: "map_ok f xs = Inr ys \<Longrightarrow> y \<in> set ys \<Longrightarrow> \<exists>x \<in> set xs. f x = Inr y"
proof (induction xs arbitrary: ys)
  case (Cons a xs)
  then obtain z zs where "f a = Inr z" "map_ok f xs = Inr zs" "ys = z # zs" by (auto simp: result_iff)
  with Cons show ?case by (cases "y = z") auto
qed simp

lemma set_map_filter: "set (List.map_filter f xs) = {y. \<exists>x \<in> set xs. f x = Some y}"
  by (induction xs) (auto simp: List.map_filter_simps split: option.splits)

lemma image_entry_row:
  assumes "image_entry env s host knd (flv, path) = Inr e"
  shows "entry_flavor e = flv" "entry_present e \<longleftrightarrow> exists_at s path"
    "exists_at s path \<Longrightarrow> entry_stale e \<longleftrightarrow> (\<exists>err. check_image_freshness env s path host = Inl err)"
proof -
  obtain meta where meta: "(if exists_at s path then read_image_meta env s path else Inr None) = Inr meta"
    using assms by (auto simp: image_entry_def Let_def result_iff)
  show "entry_flavor e = flv" "entry_present e \<longleftrightarrow> exists_at s path"
    using assms by (auto simp: image_entry_def Let_def result_iff)
  assume "exists_at s path"
  with meta assms show "entry_stale e \<longleftrightarrow> (\<exists>err. check_image_freshness env s path host = Inl err)"
    by (cases meta; cases host)
      (auto simp: image_entry_def check_image_freshness_def Let_def split: option.splits)
qed

lemma oci_dir: "path_join (path_join images ''oci'') (n @ ''.sqfs'') = path_join images ''oci'' @ ''/'' @ n @ ''.sqfs''"
  if "validate_slug n = Inr ()"
proof -
  obtain d where d: "d = path_join images ''oci''" by simp
  obtain a where a: "d = a @ ''oci''" using path_join_suffix [of "''oci''" images] d by auto
  have "\<not> starts_with ''/'' (n @ ''.sqfs'')" using that
    by (cases n) (auto simp: result_iff starts_with_iff is_ascii_alphanumeric_def is_ascii_lower_def is_ascii_upper_def
        is_ascii_digit_def code_def)
  moreover have "\<not> ends_with ''/'' d" "d \<noteq> []" by (auto simp: a ends_with_iff)
  ultimately show ?thesis by (simp add: d [symmetric] path_join_def [of d])
qed

lemma slug_no_slash: "validate_slug n = Inr () \<Longrightarrow> CHR ''/'' \<notin> set n"
  by (auto simp: result_iff list_all_iff is_ascii_alphanumeric_def is_ascii_lower_def is_ascii_upper_def
      is_ascii_digit_def code_def)

lemma stem_of_image: "n \<noteq> [] \<Longrightarrow> stem_and_extension (n @ ''.sqfs'') = (n, Some ''sqfs'')"
proof -
  assume n: "n \<noteq> []"
  have "rsplit_once (CHR ''.'') (n @ ''.sqfs'') = Some (n, ''sqfs'')" by (simp add: rsplit_once_Some_iff)
  with n show ?thesis by (simp add: stem_and_extension_def)
qed

lemma list_imported_mem:
  assumes "list_imported env s images = Inr names"
  shows "(n, p) \<in> set names \<longleftrightarrow>
    validate_slug n = Inr () \<and> p = base_file images (Imported n) \<and> exists_at s p \<and> (\<forall>k. map_of s p \<noteq> Some (NotRegular k))"
proof
  let ?dir = "path_join images ''oci''"
  have names: "set names = {x. \<exists>f \<in> set (dir_names s ?dir). imported_entry s ?dir f = Some x}"
    using assms by (auto simp: list_imported_def Let_def set_map_filter split: if_splits)
  show "validate_slug n = Inr () \<and> p = base_file images (Imported n) \<and> exists_at s p \<and> (\<forall>k. map_of s p \<noteq> Some (NotRegular k))"
    if "(n, p) \<in> set names"
  proof -
    from that names obtain f where f: "imported_entry s ?dir f = Some (n, p)" by auto
    then have st: "stem_and_extension f = (n, Some ''sqfs'')" "p = path_join ?dir f" "validate_slug n = Inr ()"
        "exists_at s p" "\<forall>k. map_of s p \<noteq> Some (NotRegular k)"
      by (auto simp: imported_entry_def Let_def exists_at_def split: prod.splits if_splits option.splits dir_entry.splits)
    from st(1) have "f = n @ ''.sqfs''"
      by (auto simp: stem_and_extension_def rsplit_once_Some_iff split: option.splits prod.splits if_splits)
    with st show ?thesis by (simp add: base_file_def)
  qed
  show "(n, p) \<in> set names"
    if n: "validate_slug n = Inr () \<and> p = base_file images (Imported n) \<and> exists_at s p \<and> (\<forall>k. map_of s p \<noteq> Some (NotRegular k))"
  proof -
    have p: "p = path_join ?dir (n @ ''.sqfs'')" "p = (?dir @ ''/'') @ n @ ''.sqfs''" using n oci_dir [of n images] by (simp_all add: base_file_def)
    have "p \<in> fst ` set s" using n by (auto simp: exists_at_def dest: map_of_SomeD intro: rev_image_eqI)
    then have "n @ ''.sqfs'' \<in> set (dir_names s ?dir)"
      using slug_no_slash [of n] n p(2) by (auto simp: dir_names_def set_map_filter strip_prefix_Some_iff)
    moreover have "imported_entry s ?dir (n @ ''.sqfs'') = Some (n, p)"
    proof -
      have "n \<noteq> []" using n by (auto simp: result_iff)
      with n p(1) stem_of_image [of n] show ?thesis
        by (auto simp: imported_entry_def exists_at_def Let_def split: option.split dir_entry.split)
    qed
    ultimately show ?thesis using names by blast
  qed
qed

lemma valid_ref: "base_parse (base_slug r) = Inr r \<longleftrightarrow> (case r of Builtin f \<Rightarrow> True | Imported name \<Rightarrow> validate_slug name = Inr ())"
  by (cases r) (auto simp: base_parse_def result_iff flavor_not_imported strip_prefix_Some_iff split: sum.splits option.splits)

text \<open>
  \<open>image ls\<close> answers what can be booted: when it succeeds, a base that can be the root of
  a stage is listed as present and not stale exactly if a run would accept it. (A directory in
  the place of an image is not considered.)
\<close>
theorem listing_agrees_with_boot:
  assumes "list_images_in env s images (host_agent_sha256 env) = Inr es"
    and "base_parse (base_slug r) = Inr r" "is_squashfs_base r" "\<forall>k. map_of s (base_file images r) \<noteq> Some (NotRegular k)"
  shows "(\<exists>p. image_path_in env s images r = Inr p) \<longleftrightarrow>
    (\<exists>e \<in> set es. entry_flavor e = base_slug r \<and> entry_present e \<and> \<not> entry_stale e)"
proof -
  let ?host = "host_agent_sha256 env" and ?b = "base_file images r"
  obtain built names imported where l:
    "map_ok (image_entry env s ?host ''builtin'') (map (\<lambda>f. (flavor_slug f, image_dest images f)) ALL_FLAVORS) = Inr built"
    "list_imported env s images = Inr names"
    "map_ok (image_entry env s ?host ''imported'') (map (\<lambda>(name, path). (IMPORTED_PREFIX @ name, path)) names) = Inr imported"
    "es = built @ imported"
    using assms(1) by (auto simp: list_images_in_def result_iff)
  have ref: "case r of Builtin f \<Rightarrow> True | Imported name \<Rightarrow> validate_slug name = Inr ()"
    using assms(2) by (simp add: valid_ref)
  have boots: "(\<exists>p. image_path_in env s images r = Inr p) \<longleftrightarrow> exists_at s ?b \<and> (\<exists>v. check_image_freshness env s ?b ?host = Inr v)"
    using ref assms(3)
    by (cases r) (auto simp: base_image_path_in_def Let_def base_file_dest base_file_def imported_image_path_def result_iff split: sum.splits)
  have row: "\<exists>knd. image_entry env s ?host knd (base_slug r, ?b) = Inr e"
    if e: "e \<in> set es" "entry_flavor e = base_slug r" for e
  proof (cases "e \<in> set built")
    case True
    from map_ok_only [OF l(1) True] obtain f where f: "image_entry env s ?host ''builtin'' (flavor_slug f, image_dest images f) = Inr e"
      by auto
    then have "flavor_slug f = base_slug r" using image_entry_row(1) e(2) by metis
    then have "r = Builtin f" by (cases r) (auto simp: flavor_not_imported)
    with f show ?thesis by (auto simp: base_file_dest)
  next
    case False
    then have "e \<in> set imported" using e l(4) by simp
    from map_ok_only [OF l(3) this] obtain n p where n: "(n, p) \<in> set names"
        "image_entry env s ?host ''imported'' (IMPORTED_PREFIX @ n, p) = Inr e" by auto
    then have "IMPORTED_PREFIX @ n = base_slug r" using image_entry_row(1) e(2) by metis
    then have "r = Imported n" by (cases r) (auto simp: flavor_not_imported [symmetric])
    with n show ?thesis using list_imported_mem [OF l(2), of n p] by auto
  qed
  have listed: "\<exists>e \<in> set es. \<exists>knd. image_entry env s ?host knd (base_slug r, ?b) = Inr e" if "exists_at s ?b"
  proof (cases r)
    case (Builtin f)
    then have "(base_slug r, ?b) \<in> set (map (\<lambda>f. (flavor_slug f, image_dest images f)) ALL_FLAVORS)"
      by (cases f) (simp_all add: ALL_FLAVORS_def base_file_dest)
    from map_ok_all [OF l(1) this] show ?thesis using l(4) by auto
  next
    case (Imported n)
    then have "(n, ?b) \<in> set names" using list_imported_mem [OF l(2)] that ref assms(4) by simp
    then have "(base_slug r, ?b) \<in> set (map (\<lambda>(name, path). (IMPORTED_PREFIX @ name, path)) names)"
      using Imported by force
    from map_ok_all [OF l(3) this] show ?thesis using l(4) by auto
  qed
  show ?thesis
  proof
    assume "\<exists>p. image_path_in env s images r = Inr p"
    with boots have b: "exists_at s ?b" "\<exists>v. check_image_freshness env s ?b ?host = Inr v" by auto
    from listed [OF b(1)] obtain e knd where "e \<in> set es" "image_entry env s ?host knd (base_slug r, ?b) = Inr e" by blast
    with image_entry_row [OF this(2)] b show "\<exists>e \<in> set es. entry_flavor e = base_slug r \<and> entry_present e \<and> \<not> entry_stale e"
      by auto
  next
    assume "\<exists>e \<in> set es. entry_flavor e = base_slug r \<and> entry_present e \<and> \<not> entry_stale e"
    then obtain e where e: "e \<in> set es" "entry_flavor e = base_slug r" "entry_present e" "\<not> entry_stale e" by blast
    from row [OF e(1,2)] obtain knd where "image_entry env s ?host knd (base_slug r, ?b) = Inr e" by blast
    from image_entry_row [OF this] e(3,4) show "\<exists>p. image_path_in env s images r = Inr p"
      unfolding boots by (cases "check_image_freshness env s ?b ?host") auto
  qed
qed

section \<open>Runs of the store\<close>

text \<open>
  A machine whose hash is the text itself, with an agent; and an import, a listing and a boot
  on it.
\<close>

definition sample_machine :: machine where
  "sample_machine =
     \<lparr>sha256_of = map byte_char, stamp_text = (\<lambda>_. []), blocks_of = length, checked_agent = Some (bytes_of ''agent''),
      unix_now = 7, broken = (\<lambda>_. False), torn = []\<rparr>"

definition sample_provenance :: oci_provenance where
  "sample_provenance =
     \<lparr>source_ref = ''alpine:3.20'', prov_platform = ''linux/amd64'', manifest_digest = [], prov_config_digest = [],
      layer_digests = [], prov_env = [''PATH=/bin''], prov_working_dir = None, prov_entrypoint = [], prov_cmd = [],
      prov_user = None, prov_replaced_init = False, prov_setuid_paths = []\<rparr>"

definition sample_image :: string where "sample_image = ''/i/oci/alpine.sqfs''"

definition sample_tmp :: string where "sample_tmp = ''/i/oci/.tmp1/image.sqfs''"

definition imported_store :: image_store where
  "imported_store =
     snd (publish_imported_image sample_machine sample_tmp sample_image ''alpine'' sample_provenance
            [(sample_tmp, RegularFile (bytes_of ''root''))])"

lemma sample_slug: "imported_image_path ''/i'' ''alpine'' = Inr sample_image"
  by (simp add: result_iff sample_image_def path_join_def starts_with_iff ends_with_iff is_ascii_alphanumeric_def
      is_ascii_lower_def code_def)

lemma sample_packed: "packed_at [(sample_tmp, RegularFile (bytes_of ''root''))] sample_tmp sample_image"
  by (simp add: packed_at_def sample_tmp_def sample_image_def image_meta_path_def image_meta_tmp_path_def)

lemma imported_store_eq:
  "publish_imported_image sample_machine sample_tmp sample_image ''alpine'' sample_provenance
     [(sample_tmp, RegularFile (bytes_of ''root''))] = (Inr (), imported_store)"
  by code_simp

lemma publish_is_old_or_new_witness:
  "map_of imported_store sample_image = Some (RegularFile (bytes_of ''root'')) \<and>
   image_path_in sample_machine imported_store ''/i'' (Imported ''alpine'') = Inr sample_image"
  using publish_is_old_or_new [OF sample_slug _ sample_packed imported_store_eq, of "bytes_of ''root''"]
  by (simp add: sample_machine_def)

lemma content_ids_are_honest_witness:
  "content_id sample_machine imported_store ''/i'' (Imported ''alpine'') = Inr ''root'' \<and>
   (''root'' = ''unstamped'' \<or> ''root'' = map byte_char (bytes_of ''root''))"
proof -
  have reach: "image_reach (map byte_char) ''/i'' imported_store"
    by (rule reach_import [OF reach_empty _ sample_slug, where env = sample_machine and tmp = sample_tmp and
          bs = "bytes_of ''root''" and prov = sample_provenance and r' = "Inr ()"])
      (use imported_store_eq in \<open>auto simp: sample_machine_def packed_at_def sample_tmp_def sample_image_def
        image_meta_path_def image_meta_tmp_path_def\<close>)
  have img: "base_file ''/i'' (Imported ''alpine'') = sample_image" using sample_slug by (rule base_file_imported)
  have c: "content_id sample_machine imported_store ''/i'' (Imported ''alpine'') = Inr ''root''"
    using publish_is_old_or_new [OF sample_slug _ sample_packed imported_store_eq, of "bytes_of ''root''"]
    by (simp add: sample_machine_def)
  moreover have "map_of imported_store (base_file ''/i'' (Imported ''alpine'')) = Some (RegularFile (bytes_of ''root''))"
    unfolding img by code_simp
  ultimately show ?thesis using content_ids_are_honest [OF reach] by simp
qed

definition sample_listing :: "listed_image list" where
  "sample_listing =
     (case list_images_in sample_machine imported_store ''/i'' (host_agent_sha256 sample_machine) of
        Inr es \<Rightarrow> es | Inl _ \<Rightarrow> [])"

lemma listing_agrees_with_boot_witness:
  "(\<exists>p. image_path_in sample_machine imported_store ''/i'' (Imported ''alpine'') = Inr p) \<longleftrightarrow>
   (\<exists>e \<in> set sample_listing. entry_flavor e = ''oci:alpine'' \<and> entry_present e \<and> \<not> entry_stale e)"
proof -
  have "list_images_in sample_machine imported_store ''/i'' (host_agent_sha256 sample_machine) = Inr sample_listing"
    by code_simp
  moreover have "base_parse (base_slug (Imported ''alpine'')) = Inr (Imported ''alpine'')" by code_simp
  moreover have "map_of imported_store (base_file ''/i'' (Imported ''alpine'')) = Some (RegularFile (bytes_of ''root''))"
    by code_simp
  ultimately show ?thesis using listing_agrees_with_boot [of sample_machine imported_store "''/i''" sample_listing "Imported ''alpine''"]
    by (simp add: IMPORTED_PREFIX_def)
qed

section \<open>Where they fall short\<close>

text \<open>
  A publish is safe to interrupt but not to interleave: of two imports under one name, the
  first has hashed its image when the second renames over it and stops; the first's sidecar
  then vouches for the second's bytes.
\<close>

definition other_import :: machine where
  "other_import = sample_machine\<lparr>broken := (\<lambda>k. k = HashImage)\<rparr>"

definition first_renamed :: "(image_error + unit) \<times> image_store" where
  "first_renamed =
     publish_image sample_machine sample_tmp sample_image (\<lambda>_. ret ())
       [(sample_tmp, RegularFile (bytes_of ''one'')), (''/i/oci/.tmp2/image.sqfs'', RegularFile (bytes_of ''two''))]"

definition second_renamed :: "(image_error + unit) \<times> image_store" where
  "second_renamed =
     publish_imported_image other_import ''/i/oci/.tmp2/image.sqfs'' sample_image ''alpine'' sample_provenance (snd first_renamed)"

definition first_meta :: image_meta where
  "first_meta =
     \<lparr>img_flavor = ''oci:alpine'', img_proto = Some PROTO_VERSION, img_agent = host_agent_sha256 sample_machine,
      img_sha256 = ''one'', img_built = 7, img_oci = Some sample_provenance\<rparr>"

lemma interleaved_publishes_mix:
  "fst first_renamed = Inr () \<and>
   fst (sha256_file sample_machine sample_image (snd first_renamed)) = Inr ''one'' \<and>
   fst second_renamed = Inl (ImageIo HashImage) \<and>
   (case write_sidecar sample_machine sample_image first_meta (snd second_renamed) of
      (r, s) \<Rightarrow> r = Inr () \<and> content_id sample_machine s ''/i'' (Imported ''alpine'') = Inr ''one'' \<and>
        map_of s sample_image = Some (RegularFile (bytes_of ''two'')))"
  by code_simp

text \<open>
  A sidecar's agent hash is cut at byte 12 without a look at its text, so a stamp that is not
  ASCII can end the check in a panic.
\<close>

lemma freshness_check_panics:
  "check_image_freshness sample_machine
     [(image_meta_path sample_image, Stamp (first_meta\<lparr>img_agent := Some (replicate 11 (CHR ''a'') @ [char_of (0xC3 :: nat), char_of (0xA9 :: nat)])\<rparr>))]
     sample_image (Some ''agent'') = Inl SlicePanic"
  by code_simp

text \<open>
  A sidecar that does not parse is no obstacle to a boot, which treats the image as unstamped,
  but it makes \<open>image ls\<close> fail for every image.
\<close>

lemma bad_sidecar_hides_every_image:
  "let s = imported_store @ [(''/i/base.sqfs'', RegularFile []), (''/i/base.sqfs.meta.json'', RegularFile [])] in
   (\<exists>p. image_path_in sample_machine s ''/i'' (Builtin BaseSqfs) = Inr p) \<and>
   list_images_in sample_machine s ''/i'' (host_agent_sha256 sample_machine) = Inl (StampUnparsed ''/i/base.sqfs.meta.json'')"
  by (simp add: Let_def, intro conjI exI [of _ "''/i/base.sqfs''"]; code_simp)

end
