(* ===== verification/Run_Plan.thy ===== *)
theory Run_Plan
  imports Stage_Refs Image_Checks
begin

text \<open>
  What a run boots: the plan for \<open>--stage\<close> of \<open>vm/mod.rs\<close>, which joins the store of stages to
  the images directory, the commit of the scratch disk at the end of a run, the defaults an image contributes, and
  the removal of an imported image that stages may still record.
\<close>

section \<open>The base of a plan\<close>

definition STAGE_BASE :: string where "STAGE_BASE = ''base''"

datatype plan_error =
    PlanImage image_error | PlanStage stage_error | PlanRef base_ref_error | BaseIncompatible base_check | DiskIo

text \<open>The second part: the warning about a sidecar that cannot be read.\<close>

definition base_identity :: "machine \<Rightarrow> image_store \<Rightarrow> string \<Rightarrow> string \<Rightarrow> base_id" where
  "base_identity env imgs base_sqfs flv =
     (case read_image_meta env imgs base_sqfs of
        Inr m \<Rightarrow> \<lparr>flavor = flv, sha256 = map_option img_sha256 m\<rparr>
      | Inl _ \<Rightarrow> \<lparr>flavor = flv, sha256 = None\<rparr>)"

fun enforce_base_compat_with :: "base_check \<Rightarrow> bool \<Rightarrow> plan_error + unit" where
  "enforce_base_compat_with BaseOk allow_skew = Inr ()"
| "enforce_base_compat_with (Unverifiable why) allow_skew = Inr ()"
| "enforce_base_compat_with (WrongFlavor why) allow_skew = Inl (BaseIncompatible (WrongFlavor why))"
| "enforce_base_compat_with (RebuiltBase why) allow_skew =
     (if allow_skew then Inr () else Inl (BaseIncompatible (RebuiltBase why)))"

text \<open>
  The plan: the legacy root, or the base image with its identity, the layers oldest first, the
  parent of a commit and the opt-out from the comparison of bases.
\<close>

datatype boot_plan =
    FlavorPlan string string
  | StagePlan string base_id "(string \<times> string) list" "string option" bool

definition lift_err :: "('e \<Rightarrow> 'x) \<Rightarrow> 'e + 'a \<Rightarrow> 'x + 'a" where
  "lift_err f r = map_sum f id r"

definition resolve_stage_plan_in ::
  "machine \<Rightarrow> stage_store \<Rightarrow> image_store \<Rightarrow> string \<Rightarrow> string \<Rightarrow> base_ref \<Rightarrow> bool \<Rightarrow> plan_error + boot_plan" where
  "resolve_stage_plan_in env stages imgs images stage_ref requested allow_base_skew =
     (if stage_ref = STAGE_BASE then
        try_bind (lift_err PlanImage (image_path_in env imgs images requested)) (\<lambda>base_sqfs.
        Inr (StagePlan base_sqfs (base_identity env imgs base_sqfs (base_slug requested)) [] None allow_base_skew))
      else
        try_bind (lift_err PlanStage (resolve_in stages stage_ref)) (\<lambda>m.
        try_bind (lift_err PlanRef (base_parse (base m))) (\<lambda>recorded_base.
        try_bind (lift_err PlanImage (image_path_in env imgs images recorded_base)) (\<lambda>base_sqfs.
        let bid = base_identity env imgs base_sqfs (base_slug recorded_base) in
        try_bind (lift_err PlanStage (check_base_chain_in stages m bid)) (\<lambda>verdict.
        try_bind (enforce_base_compat_with verdict allow_base_skew) (\<lambda>_.
        try_bind (lift_err PlanStage (chain_paths_in stages m)) (\<lambda>layer_paths.
        Inr (StagePlan base_sqfs bid layer_paths (Some (stage_id m)) allow_base_skew))))))))"

definition chain_depth :: "boot_plan \<Rightarrow> nat" where
  "chain_depth plan = (case plan of StagePlan _ _ lays _ _ \<Rightarrow> length lays | FlavorPlan _ _ \<Rightarrow> 0)"

datatype flavor_kind = BuiltKind | ImportedKind | StageKind

definition flavor_kind_of :: "boot_plan \<Rightarrow> flavor_kind" where
  "flavor_kind_of plan =
     (case plan of
        StagePlan _ bid lays _ _ \<Rightarrow>
          if lays \<noteq> [] then StageKind
          else if starts_with ''oci:'' (flavor bid) then ImportedKind
          else BuiltKind
      | FlavorPlan _ slug \<Rightarrow> if starts_with ''oci:'' slug then ImportedKind else BuiltKind)"

section \<open>Disks and commits\<close>

datatype disk_config =
    FlavorDisk string
  | StageDisk string base_id "(string \<times> string) list" string "string option" bool

text \<open>The copy of the root and the making of the scratch disk may fail.\<close>

definition prepare_disk :: "bool \<Rightarrow> boot_plan \<Rightarrow> string \<Rightarrow> plan_error + disk_config" where
  "prepare_disk fails plan vm_dir =
     (if fails then Inl DiskIo
      else case plan of
          FlavorPlan rootfs _ \<Rightarrow> Inr (FlavorDisk (path_join vm_dir ''rootfs.ext4''))
        | StagePlan base_sqfs bid lays par allow \<Rightarrow>
            Inr (StageDisk base_sqfs bid lays (path_join vm_dir ''scratch.ext4'') par allow))"

definition throwaway :: "disk_config \<Rightarrow> string" where
  "throwaway disk = (case disk of FlavorDisk copy \<Rightarrow> copy | StageDisk _ _ _ scr _ _ \<Rightarrow> scr)"

record exec_result =
  timed_out :: bool
  exit_code :: "int option"

text \<open>\<open>files\<close>: what is in a file of the host; the commit reads the run's scratch disk.\<close>

definition maybe_commit_stage_in ::
  "(bytes \<Rightarrow> string) \<Rightarrow> (string \<Rightarrow> bytes option) \<Rightarrow> commit_env \<Rightarrow> disk_config \<Rightarrow> string option \<Rightarrow> 'x + exec_result \<Rightarrow>
   (stage_store, stage_error, stage_meta option) comp" where
  "maybe_commit_stage_in H files env disk commit_as driven =
     (case disk of
        FlavorDisk _ \<Rightarrow> ret None
      | StageDisk _ bid _ scratch_disk par allow \<Rightarrow>
         (case commit_as of
            None \<Rightarrow> ret None
          | Some lbl \<Rightarrow>
             (case driven of
                Inl _ \<Rightarrow> ret None
              | Inr result \<Rightarrow>
                  if timed_out result then ret None
                  else if exit_code result \<noteq> Some 0 then ret None
                  else seq (commit_in H (env\<lparr>scratch := files scratch_disk\<rparr>) lbl par bid allow) (\<lambda>m. ret (Some m)))))"

section \<open>Removing an imported image\<close>

datatype remove_error =
    RemoveBuiltin string | RemoveSlug slug_error | NotImported string | StillBase "(string \<times> string) list"
  | RemovalIo image_error

record remove_outcome =
  removed :: string
  removed_path :: string
  bytes_freed :: nat
  forced :: bool
  broken_stages :: "(string \<times> string) list"
  cached_source :: "string option"

definition holders_of :: "stage_store \<Rightarrow> string \<Rightarrow> (string \<times> string) list" where
  "holders_of stages bs = map (\<lambda>m. (stage_id m, label m)) (filter (\<lambda>m. base m = bs) (list_in stages))"

definition remove_imported_in ::
  "machine \<Rightarrow> stage_store \<Rightarrow> string \<Rightarrow> string \<Rightarrow> bool \<Rightarrow> (image_store, remove_error, remove_outcome) comp" where
  "remove_imported_in env stages images spelling force imgs =
     (case imported_name spelling of
        None \<Rightarrow> (Inl (RemoveBuiltin spelling), imgs)
      | Some name \<Rightarrow>
         (case imported_image_path images name of
            Inl e \<Rightarrow> (Inl (RemoveSlug e), imgs)
          | Inr path \<Rightarrow>
              if \<not> exists_at imgs path then (Inl (NotImported name), imgs)
              else
                let holders = holders_of stages (IMPORTED_PREFIX @ name) in
                if holders \<noteq> [] \<and> \<not> force then (Inl (StillBase holders), imgs)
                else case read_provenance env imgs path of
                    Inl e \<Rightarrow> (Inl (RemovalIo e), imgs)
                  | Inr prov \<Rightarrow>
                      seq (map_fail RemovalIo (remove_image_and_meta env path)) (\<lambda>freed.
                      ret \<lparr>removed = IMPORTED_PREFIX @ name, removed_path = path, bytes_freed = freed,
                           forced = (force \<and> holders \<noteq> []), broken_stages = (if force then holders else []),
                           cached_source = map_option source_ref prov\<rparr>) imgs))"

section \<open>A fork boots over its own base\<close>

lemma lift_err_Inr [result_iff]: "lift_err f r = Inr x \<longleftrightarrow> r = Inr x"
  by (cases r) (simp_all add: lift_err_def)

lemma base_ref_slug: "base_parse s = Inr b \<Longrightarrow> base_slug b = s"
  by (cases b) (auto simp: base_parse_def flavor_from_slug_iff strip_prefix_Some_iff split: option.splits sum.splits)

lemma image_path_base:
  assumes "image_path_in env imgs images r = Inr p"
  shows "p = base_file images r" "exists_at imgs p"
  using assms by (cases r;
    auto simp: base_image_path_in_def Let_def base_file_dest base_file_imported result_iff split: if_splits sum.splits)+

lemma layer_paths_Inr: "layer_paths s cs = Inr l \<Longrightarrow> l = map (\<lambda>c. (c, LAYER_FILE)) cs"
proof (induction cs arbitrary: l)
  case (Cons c cs)
  then show ?case by (cases "layer_paths s cs") (auto split: option.splits if_splits)
qed simp

lemma compat_rank: "enforce_base_compat_with v allow = Inr u \<longleftrightarrow> rank v < 2 \<or> (allow \<and> rank v < 3)"
  by (cases v) auto

lemma resolve_fork:
  assumes "resolve_stage_plan_in env stages imgs images ref req allow = Inr plan" "ref \<noteq> STAGE_BASE"
  obtains m r where "resolve_in stages ref = Inr m" "base_parse (base m) = Inr r"
    "exists_at imgs (base_file images r)"
    "plan = StagePlan (base_file images r) (base_identity env imgs (base_file images r) (base m))
       (map (\<lambda>c. (c, LAYER_FILE)) (chain m)) (Some (stage_id m)) allow"
    "\<exists>v. check_base_chain_in stages m (base_identity env imgs (base_file images r) (base m)) = Inr v \<and>
       (rank v < 2 \<or> (allow \<and> rank v < 3))"
    "length (chain m) \<le> 10"
proof -
  obtain m r p v l where *: "resolve_in stages ref = Inr m" "base_parse (base m) = Inr r" "image_path_in env imgs images r = Inr p"
      "check_base_chain_in stages m (base_identity env imgs p (base_slug r)) = Inr v"
      "enforce_base_compat_with v allow = Inr ()" "chain_paths_in stages m = Inr l"
      "plan = StagePlan p (base_identity env imgs p (base_slug r)) l (Some (stage_id m)) allow"
    using assms by (auto simp: resolve_stage_plan_in_def result_iff Let_def)
  have "base_slug r = base m" using *(2) by (rule base_ref_slug)
  moreover have "l = map (\<lambda>c. (c, LAYER_FILE)) (chain m)" "length (chain m) \<le> 10"
    using *(6) by (auto simp: chain_paths_in_def MAX_CHAIN_DEPTH_def dest: layer_paths_Inr split: if_splits)
  ultimately show ?thesis using * image_path_base [OF *(3)] that [of m r] by (auto simp: compat_rank)
qed

lemma base_identity_honest:
  assumes "image_reach H images imgs" "map_of imgs (base_file images r) = Some (RegularFile bs)"
    and "sha256 (base_identity env imgs (base_file images r) flv) = Some h"
  shows "h = H bs"
  using image_reach_true [OF assms(1)] assms(2,3) base_file_is_image [of images r]
  by (auto simp: base_identity_def stamps_true_def read_image_meta_def split: sum.splits if_splits option.splits dir_entry.splits)

text \<open>
  C24: a fork boots the image its stage was made over, and says so when it cannot tell. After any
  history of the store of stages and of the images directory, a plan for a stage mounts exactly that
  stage's chain, oldest first and at most ten layers, over the image of the base it records,
  whatever base was asked for; every stage of the chain records that base; and the content id in
  the plan, if there is one, is the hash of the image that is mounted. Without the opt-out that id
  agrees with the one of each stage of the chain, wherever both have one. An image or a stage
  that has none is not compared; the verdict is then a warning.
\<close>
theorem fork_boots_over_its_base:
  assumes "stage_reach Hs skew partial stages" "image_reach Hi images imgs"
    and "resolve_stage_plan_in env stages imgs images ref req skew_ok = Inr (StagePlan base_sqfs bid lays par allow)"
    and "ref \<noteq> STAGE_BASE"
  shows "\<exists>m r. resolve_in stages ref = Inr m \<and> base_parse (base m) = Inr r \<and>
    base_sqfs = base_file images r \<and> flavor bid = base m \<and> par = Some (stage_id m) \<and> allow = skew_ok \<and>
    lays = map (\<lambda>c. (c, LAYER_FILE)) (chain m) \<and> length lays \<le> 10 \<and>
    (\<forall>c \<in> set (chain m). \<exists>a. meta_at stages c = Some a \<and> base a = base m \<and>
       (\<not> skew_ok \<longrightarrow> agree (base_sha256 a) (sha256 bid))) \<and>
    (\<forall>h bs. sha256 bid = Some h \<and> map_of imgs base_sqfs = Some (RegularFile bs) \<longrightarrow> h = Hi bs)"
proof -
  have ok: "store_ok Hs stages" using stage_reach_ok [OF assms(1)] by simp
  from resolve_fork [OF assms(3,4)] obtain m r where f: "resolve_in stages ref = Inr m" "base_parse (base m) = Inr r"
      "StagePlan base_sqfs bid lays par allow =
        StagePlan (base_file images r) (base_identity env imgs (base_file images r) (base m))
          (map (\<lambda>c. (c, LAYER_FILE)) (chain m)) (Some (stage_id m)) skew_ok"
      "\<exists>v. check_base_chain_in stages m (base_identity env imgs (base_file images r) (base m)) = Inr v \<and>
        (rank v < 2 \<or> (skew_ok \<and> rank v < 3))" "length (chain m) \<le> 10" by blast
  then obtain v where *: "resolve_in stages ref = Inr m" "base_parse (base m) = Inr r"
      "base_sqfs = base_file images r" "bid = base_identity env imgs (base_file images r) (base m)"
      "lays = map (\<lambda>c. (c, LAYER_FILE)) (chain m)" "par = Some (stage_id m)" "allow = skew_ok"
      "check_base_chain_in stages m bid = Inr v" "skew_ok \<or> rank v < 2" "length (chain m) \<le> 10" by auto
  have M: "metas_ok (meta_at stages)" "meta_at stages (stage_id m) = Some m"
    using ok resolve_in_ok [OF ok *(1)] by (auto simp: store_ok_def)
  have link: "\<exists>a. meta_at stages c = Some a \<and> base a = base m \<and> (\<not> skew_ok \<longrightarrow> agree (base_sha256 a) (sha256 bid))" if c: "c \<in> set (chain m)" for c
  proof -
    obtain a where a: "meta_at stages c = Some a" "base a = base m" using in_chain [OF M c] .
    have "link_check stages m bid c = check_base a bid" using a(1) M(2) by (auto simp: link_check_def)
    then have "skew_ok \<or> rank (check_base a bid) < 2" using check_base_chain_rank [OF ok *(8) c] *(9) by (cases skew_ok) simp_all
    with a check_base_rank(2) [of a bid] show ?thesis by (auto simp: agree_def)
  qed
  have "flavor bid = base m" by (simp add: *(4) base_identity_def split: sum.split)
  moreover have "\<forall>h bs. sha256 bid = Some h \<and> map_of imgs base_sqfs = Some (RegularFile bs) \<longrightarrow> h = Hi bs"
    using base_identity_honest [OF assms(2)] unfolding *(3,4) by blast
  ultimately show ?thesis using * link by (intro exI [of _ m] exI [of _ r]) auto
qed

section \<open>What a run commits\<close>

lemma commit_new_Inr:
  assumes "commit_new env bs sid lbl lineage bid s = (Inr m, s')"
  shows "stage_id m = sid \<and> label m = lbl \<and> parent m = fst lineage \<and> chain m = snd lineage @ [sid] \<and> base m = flavor bid \<and>
    base_sha256 m = sha256 bid \<and> (\<exists>d. map_of s' sid = Some d \<and> layer d = Some (bs, 0x124))"
proof -
  have "map_of (create_dir sid s) sid \<noteq> None" by (simp add: create_dir_def map_add_def split: option.split)
  then obtain d where "map_of (create_dir sid s) sid = Some d" by blast
  then show ?thesis
    using assms
    by (auto simp: commit_new_def Let_def write_layer_def sparse_copy_def write_meta_def io_def modify_def fail_def seq_def ret_def
        map_of_in_dir freeze_def split: if_splits)
qed

text \<open>A commit that succeeds found the stage, or wrote it with the content it was given.\<close>

lemma commit_in_Inr:
  assumes "store_ok H s" "commit_in H env lbl par bid allow s = (Inr m, s')"
  obtains (existing) bs where "scratch env = Some bs" "stage_id m = stage_id_for H bs" "label m = lbl"
      "meta_at s (stage_id m) = Some m" "s' = s"
  | (fresh) bs lineage d where "scratch env = Some bs" "stage_id m = stage_id_for H bs" "label m = lbl"
      "meta_at s (stage_id m) = None" "meta_at s' = (meta_at s)(stage_id m \<mapsto> m)" "store_ok H s'"
      "map_of s' (stage_id m) = Some d" "layer d = Some (bs, 0x124)"
      "commit_parent s par bid allow = Inr lineage" "parent m = fst lineage" "chain m = snd lineage @ [stage_id m]"
      "base m = flavor bid" "base_sha256 m = sha256 bid"
proof -
  obtain bs where bs: "scratch env = Some bs" using assms(2) by (auto simp: commit_in_def split: if_splits option.splits)
  let ?sid = "stage_id_for H bs"
  have M: "metas_ok (meta_at s)" using assms(1) by (simp add: store_ok_def)
  obtain known where known: "commit_lookup env s ?sid lbl = Inr known"
    using assms(2) bs by (cases "commit_lookup env s ?sid lbl") (auto simp: commit_in_def Let_def split: if_splits)
  note look = commit_lookup_ok [OF assms(1) known]
  show ?thesis
  proof (cases known)
    case (Some n)
    then have "n = m" "s' = s" using assms(2) known bs by (auto simp: commit_in_def Let_def split: if_splits)
    moreover have at: "meta_at s ?sid = Some n" "label n = lbl" using look Some by auto
    moreover have "stage_id n = ?sid" using metas_okD [OF M at(1)] by (simp add: stage_ok_def)
    ultimately show ?thesis using bs by (intro existing) auto
  next
    case None
    then obtain lineage where l: "commit_parent s par bid allow = Inr lineage"
        "commit_new env bs ?sid lbl lineage bid s = (Inr m, s')"
      using assms(2) known bs by (auto simp: commit_in_def Let_def split: if_splits sum.splits)
    have none: "meta_at s ?sid = None" using look None by auto
    note new = commit_new_Inr [OF l(2)]
    from assms have "store_ok H s' \<and> meta_at s' = (meta_at s)(stage_id m \<mapsto> m)"
    proof (cases rule: commit_in_cases)
      case (existing n q)
      then have "meta_at s (stage_id m) = Some m" using metas_okD [OF M] by (auto simp: stage_ok_def)
      with none new show ?thesis by simp
    next
      case (written n)
      then show ?thesis using finished_store_ok [OF assms(1) written(2,3,5,6)] by simp
    qed simp_all
    moreover obtain d where "map_of s' ?sid = Some d" "layer d = Some (bs, 0x124)" using new by blast
    ultimately show ?thesis by (intro fresh [of bs d lineage]) (use bs new l(1) none in simp_all)
  qed
qed

text \<open>
  C30: a run saves what it made where it was made. A commit after a run that forked a stage
  happens only if the command exited with 0 within its time. The stage it gives has the label that
  was asked for and is named after the content of the run's scratch disk. Either that stage was in
  the store, which is left alone; or the store gains this one stage, whose layer is that content,
  read-only, whose parent is the forked stage and whose chain is the forked stage's and itself, on
  the same base and under the content id the plan booted. Any other end of the run leaves the
  store alone.
\<close>
theorem run_commits_on_its_fork:
  assumes "stage_reach Hs skew partial stages"
    and "resolve_stage_plan_in env stages imgs images ref req allow = Inr plan" "ref \<noteq> STAGE_BASE"
    and "prepare_disk False plan vm_dir = Inr disk"
    and "maybe_commit_stage_in Hs files cenv disk commit_as driven stages = (r, stages')"
  shows "case r of
      Inr (Some c) \<Rightarrow> (\<exists>m res base_sqfs bid lays bs. resolve_in stages ref = Inr m \<and>
        plan = StagePlan base_sqfs bid lays (Some (stage_id m)) allow \<and>
        driven = Inr res \<and> exit_code res = Some 0 \<and> \<not> timed_out res \<and>
        files (path_join vm_dir ''scratch.ext4'') = Some bs \<and> stage_id c = stage_id_for Hs bs \<and> commit_as = Some (label c) \<and>
        (c \<in> set (list_in stages) \<and> stages' = stages \<or>
         c \<notin> set (list_in stages) \<and> set (list_in stages') = insert c (set (list_in stages)) \<and>
         (\<exists>d. map_of stages' (stage_id c) = Some d \<and> layer d = Some (bs, 0x124)) \<and>
         parent c = Some (stage_id m) \<and> chain c = chain m @ [stage_id c] \<and> base c = base m \<and> base_sha256 c = sha256 bid))
    | Inr None \<Rightarrow> stages' = stages
    | Inl e \<Rightarrow> commit_as \<noteq> None"
proof -
  have ok: "store_ok Hs stages" using stage_reach_ok [OF assms(1)] by simp
  from resolve_fork [OF assms(2,3)] obtain m r' where m: "resolve_in stages ref = Inr m"
      "plan = StagePlan (base_file images r') (base_identity env imgs (base_file images r') (base m))
         (map (\<lambda>c. (c, LAYER_FILE)) (chain m)) (Some (stage_id m)) allow" by blast
  let ?bid = "base_identity env imgs (base_file images r') (base m)"
  have "meta_at stages (stage_id m) = Some m" by (rule resolve_in_ok [OF ok m(1)])
  then have parent: "lineage = (Some (stage_id m), chain m)"
    if "commit_parent stages (Some (stage_id m)) ?bid allow = Inr lineage" for lineage
  proof -
    obtain v where "check_base_chain_in stages m ?bid = Inr v"
      by (simp add: check_base_chain_in_def check_links_eq [OF ok])
    with that \<open>meta_at stages (stage_id m) = Some m\<close> show ?thesis
      by (cases v) (auto simp: commit_parent_def get_by_id_ok [OF ok] split: if_splits)
  qed
  have flv: "flavor ?bid = base m" by (simp add: base_identity_def split: sum.split)
  have disk: "disk = StageDisk (base_file images r') ?bid (map (\<lambda>c. (c, LAYER_FILE)) (chain m))
      (path_join vm_dir ''scratch.ext4'') (Some (stage_id m)) allow"
    using assms(4) by (simp add: prepare_disk_def m(2))
  show ?thesis
  proof (cases "\<exists>lbl res. commit_as = Some lbl \<and> driven = Inr res \<and> \<not> timed_out res \<and> exit_code res = Some 0")
    case False
    then have "r = Inr None \<and> stages' = stages"
      using assms(5) by (auto simp: maybe_commit_stage_in_def disk ret_def split: option.splits sum.splits if_splits)
    then show ?thesis by simp
  next
    case True
    then obtain lbl res where g: "commit_as = Some lbl" "driven = Inr res" "\<not> timed_out res" "exit_code res = Some 0" by blast
    let ?env = "cenv\<lparr>scratch := files (path_join vm_dir ''scratch.ext4'')\<rparr>"
    from g have run: "seq (commit_in Hs ?env lbl (Some (stage_id m)) ?bid allow) (\<lambda>c. ret (Some c)) stages = (r, stages')"
      using assms(5) by (simp add: maybe_commit_stage_in_def disk)
    show ?thesis
    proof (cases r)
      case (Inr c)
      with run obtain c' where c: "r = Inr (Some c')" "commit_in Hs ?env lbl (Some (stage_id m)) ?bid allow stages = (Inr c', stages')"
        by (auto simp: seq_def ret_def split: prod.splits sum.splits)
      have listed: "x \<in> set (list_in s) \<longleftrightarrow> (\<exists>q. meta_at s q = Some x)" if "store_ok Hs s" for x s
        using that by (intro list_in_iff) (simp add: store_ok_def)
      from ok c(2) show ?thesis
      proof (cases rule: commit_in_Inr)
        case (existing bs)
        then have "c' \<in> set (list_in stages)" using listed [OF ok] by blast
        then show ?thesis using existing c(1) g m by simp
      next
        case (fresh bs lineage d)
        have "c' \<notin> set (list_in stages)"
        proof
          assume "c' \<in> set (list_in stages)"
          then obtain q where "meta_at stages q = Some c'" using listed [OF ok] by blast
          moreover from this have "stage_id c' = q" using ok by (auto simp: store_ok_def dest: metas_okD simp: stage_ok_def)
          ultimately show False using fresh(4) by simp
        qed
        moreover have "set (list_in stages') = insert c' (set (list_in stages))"
        proof (rule set_eqI)
          fix x
          have "(\<exists>q. meta_at stages' q = Some x) \<longleftrightarrow> x = c' \<or> (\<exists>q. meta_at stages q = Some x)"
            unfolding fresh(5) using fresh(4) by (metis fun_upd_apply option.distinct(1) option.inject)
          then show "x \<in> set (list_in stages') \<longleftrightarrow> x \<in> insert c' (set (list_in stages))"
            using listed [OF ok] listed [OF fresh(6)] by simp
        qed
        moreover have "lineage = (Some (stage_id m), chain m)" by (rule parent) (rule fresh(9))
        ultimately show ?thesis using fresh c(1) g m flv by simp
      qed
    qed (use g in simp)
  qed
qed

section \<open>Removing without breaking\<close>

lemma path_join_rel: "\<not> starts_with ''/'' b \<Longrightarrow> path_join a b = (if a = [] \<or> ends_with ''/'' a then a else a @ ''/'') @ b"
  by (simp add: path_join_def)

lemma image_dest_name:
  obtains b where "CHR ''/'' \<notin> set b" "\<And>images. image_dest images f = (if images = [] \<or> ends_with ''/'' images then images else images @ ''/'') @ b"
proof
  let ?b = "case f of BaseSqfs \<Rightarrow> ''base.sqfs'' | BaseAlpine \<Rightarrow> ''base-alpine.sqfs'' | _ \<Rightarrow> ''rootfs-'' @ flavor_slug f @ ''.ext4''"
  show "CHR ''/'' \<notin> set ?b" by (cases f) simp_all
  show "image_dest images f = (if images = [] \<or> ends_with ''/'' images then images else images @ ''/'') @ ?b" for images
    by (cases f) (simp_all add: path_join_rel starts_with_iff)
qed

lemma imported_path_shape:
  "validate_slug n = Inr () \<Longrightarrow>
   base_file images (Imported n) = (if images = [] \<or> ends_with ''/'' images then images else images @ ''/'') @ ''oci/'' @ n @ ''.sqfs''"
  using oci_dir [of n images] by (simp add: base_file_def path_join_rel starts_with_iff)

text \<open>An imported image is no other base's file.\<close>

lemma base_files_apart:
  assumes "base_parse (base_slug (Imported n)) = Inr (Imported n)" "base_parse (base_slug b) = Inr b"
    and "base_file images b = base_file images (Imported n)"
  shows "b = Imported n"
proof (cases b)
  case (Builtin f)
  obtain c where c: "CHR ''/'' \<notin> set c" "image_dest images f = (if images = [] \<or> ends_with ''/'' images then images else images @ ''/'') @ c"
    using image_dest_name [of f] by metis
  have "c = ''oci/'' @ n @ ''.sqfs''" using assms(1,3) c(2) Builtin
    by (simp add: imported_path_shape valid_ref base_file_dest del: base_slug.simps)
  then show ?thesis using c(1) by auto
next
  case (Imported k)
  then show ?thesis using assms by (simp add: imported_path_shape valid_ref del: base_slug.simps)
qed

lemma image_path_cong:
  assumes "map_of imgs' (base_file images b) = map_of imgs (base_file images b)"
    and "map_of imgs' (image_meta_path (base_file images b)) = map_of imgs (image_meta_path (base_file images b))"
  shows "image_path_in env imgs' images b = image_path_in env imgs images b \<and>
    content_id env imgs' images b = content_id env imgs images b"
proof -
  have r: "read_image_meta env imgs' (base_file images b) = read_image_meta env imgs (base_file images b)"
    using assms(2) by (simp add: read_image_meta_def)
  have e: "exists_at imgs' (base_file images b) = exists_at imgs (base_file images b)" using assms(1) by (simp add: exists_at_def)
  have f: "check_image_freshness env imgs' (base_file images b) h = check_image_freshness env imgs (base_file images b) h" for h
    by (simp add: check_image_freshness_def r)
  show ?thesis
  proof (cases b)
    case (Builtin x)
    with e f r show ?thesis by (simp add: base_image_path_in_def base_content_id_def base_file_dest Let_def)
  next
    case (Imported n)
    with e f r show ?thesis
      by (cases "imported_image_path images n") (simp_all add: base_file_imported)
  qed
qed

text \<open>
  Removing an imported image without force breaks no stage, wherever the removal stops: the
  base of every listed stage is found, accepted or refused afterwards exactly as it was, with
  the same content id.
\<close>
theorem removal_spares_stages:
  assumes "remove_imported_in env stages images spelling False imgs = (r, imgs')"
    and "m \<in> set (list_in stages)" "base_parse (base m) = Inr b"
  shows "image_path_in env' imgs' images b = image_path_in env' imgs images b \<and>
    content_id env' imgs' images b = content_id env' imgs images b"
proof (cases "imgs' = imgs")
  case False
  obtain n path r1 where n: "imported_image_path images n = Inr path" "holders_of stages (IMPORTED_PREFIX @ n) = []"
      "remove_image_and_meta env path imgs = (r1, imgs')"
    using assms(1) False
    by (auto simp: remove_imported_in_def Let_def seq_def map_fail_def ret_def
        split: option.splits sum.splits if_splits prod.splits)
  have slug: "base_slug b = base m" using assms(3) by (simp add: base_ref_slug)
  have v: "base_parse (base_slug b) = Inr b" "base_parse (base_slug (Imported n)) = Inr (Imported n)"
    using assms(3) n(1) slug by (simp_all add: valid_ref [of "Imported n"] result_iff del: base_slug.simps)
  have "b \<noteq> Imported n" using n(2) assms(2) slug by (auto simp: holders_of_def filter_empty_conv)
  then have apart: "base_file images b \<noteq> path"
    using base_files_apart [OF v(2,1), of images] base_file_imported [OF n(1)] by auto
  let ?b = "base_file images b"
  have img: "is_image path" "is_image ?b"
    using base_file_is_image [of images "Imported n"] base_file_imported [OF n(1)] base_file_is_image [of images b] by simp_all
  note away = image_paths_apart [OF img(1)] image_paths_apart [OF img(2)]
  have "map_of imgs' ?b = map_of imgs ?b \<and> map_of imgs' (image_meta_path ?b) = map_of imgs (image_meta_path ?b)"
    using tripleD [OF remove_image_triple refl, of env path imgs _ imgs']
      tripleD_fail [OF remove_image_triple refl, of env path imgs _ imgs'] n(3) apart away
    by (cases r1) auto
  then show ?thesis by (intro image_path_cong) auto
qed simp

section \<open>A fork of a sample store\<close>

definition built_store :: image_store where
  "built_store = snd (build_rootfs sample_machine ''/i'' BaseSqfs False ''/i/.tmp9'' (Some (bytes_of ''aa'')) [])"

definition sample_plan :: boot_plan where
  "sample_plan =
     StagePlan ''/i/base.sqfs'' sample_base
       [(''st-1111111111111111'', LAYER_FILE), (''st-2222222222222222'', LAYER_FILE)]
       (Some ''st-2222222222222222'') False"

lemma built_reach: "image_reach (map byte_char) ''/i'' built_store"
proof (rule reach_build [OF reach_empty])
  show "build_rootfs sample_machine ''/i'' BaseSqfs False ''/i/.tmp9'' (Some (bytes_of ''aa'')) [] =
      (fst (build_rootfs sample_machine ''/i'' BaseSqfs False ''/i/.tmp9'' (Some (bytes_of ''aa'')) []), built_store)"
    by (simp add: built_store_def)
qed (simp_all add: sample_machine_def packed_at_def path_join_def starts_with_iff ends_with_iff image_meta_path_def
    image_meta_tmp_path_def)

lemma sample_resolves: "resolve_in forked_store ''test'' = Inr second_stage"
  unfolding resolve_in_def sample_listings by code_simp

lemma sample_plan_eq:
  "resolve_stage_plan_in sample_machine forked_store built_store ''/i'' ''test'' (Builtin BaseAlpine) False = Inr sample_plan"
  unfolding resolve_stage_plan_in_def sample_resolves forked_store_eq by code_simp

lemma sample_fork: "''test'' \<noteq> STAGE_BASE"
  by (simp add: STAGE_BASE_def)

theorem fork_boots_over_its_base_witness:
  "resolve_in forked_store ''test'' = Inr second_stage \<and> agree (base_sha256 second_stage) (Some ''aa'')"
  using fork_boots_over_its_base [OF sample_reach built_reach sample_plan_eq [unfolded sample_plan_def] sample_fork]
  by (auto simp: sample_resolves sample_base_def second_stage_def)

definition sample_disk :: disk_config where
  "sample_disk =
     StageDisk ''/i/base.sqfs'' sample_base
       [(''st-1111111111111111'', LAYER_FILE), (''st-2222222222222222'', LAYER_FILE)]
       ''/v/scratch.ext4'' (Some ''st-2222222222222222'') False"

definition third_run :: "(stage_error + stage_meta option) \<times> stage_store" where
  "third_run =
     maybe_commit_stage_in sample_hex [''/v/scratch.ext4'' \<mapsto> [3]] (sample_commit 3 7 None) sample_disk (Some ''third'')
       (Inr \<lparr>timed_out = False, exit_code = Some 0\<rparr> :: unit + exec_result) forked_store"

definition third_stage :: stage_meta where
  "third_stage = (case fst third_run of Inr (Some c) \<Rightarrow> c | _ \<Rightarrow> second_stage)"

lemma third_run_ok: "fst third_run = Inr (Some third_stage)" "stage_id third_stage = ''st-3333333333333333''"
  unfolding third_stage_def third_run_def forked_store_eq by code_simp+

theorem run_commits_on_its_fork_witness:
  "\<exists>c. fst third_run = Inr (Some c) \<and>
     chain c = [''st-1111111111111111'', ''st-2222222222222222'', ''st-3333333333333333''] \<and> base c = ''base-sqfs''"
proof -
  have disk: "prepare_disk False sample_plan ''/v'' = Inr sample_disk" by code_simp
  obtain c where c: "fst third_run = Inr (Some c)" "stage_id c = ''st-3333333333333333''"
    using third_run_ok by blast
  then have run: "maybe_commit_stage_in sample_hex [''/v/scratch.ext4'' \<mapsto> [3]] (sample_commit 3 7 None) sample_disk (Some ''third'')
      (Inr \<lparr>timed_out = False, exit_code = Some 0\<rparr> :: unit + exec_result) forked_store = (Inr (Some c), snd third_run)"
    by (simp add: third_run_def [symmetric] prod_eq_iff)
  have "c \<notin> set (list_in forked_store)" using c(2) by (auto simp: sample_listings first_stage_def second_stage_def)
  with run_commits_on_its_fork [OF sample_reach sample_plan_eq sample_fork disk run] c show ?thesis
    by (auto simp: sample_resolves second_stage_def)
qed

theorem removal_spares_stages_witness:
  "image_path_in sample_machine (snd (remove_imported_in sample_machine forked_store ''/i'' ''alpine'' False (imported_store @ built_store)))
     ''/i'' (Builtin BaseSqfs) = Inr ''/i/base.sqfs'' \<and>
   map_of (snd (remove_imported_in sample_machine forked_store ''/i'' ''alpine'' False (imported_store @ built_store))) sample_image = None"
proof -
  let ?run = "remove_imported_in sample_machine forked_store ''/i'' ''alpine'' False (imported_store @ built_store)"
  have m: "second_stage \<in> set (list_in forked_store)" "base_parse (base second_stage) = Inr (Builtin BaseSqfs)"
    by (simp_all add: sample_listings) code_simp
  have "image_path_in sample_machine (imported_store @ built_store) ''/i'' (Builtin BaseSqfs) = Inr ''/i/base.sqfs''"
    by code_simp
  moreover have "map_of (snd ?run) sample_image = None"
    unfolding remove_imported_in_def holders_of_def sample_listings by code_simp
  ultimately show ?thesis
    using removal_spares_stages [OF prod.collapse [symmetric] m, where env = sample_machine and env' = sample_machine and
        images = "''/i''" and spelling = "''alpine''" and imgs = "imported_store @ built_store"]
    by simp
qed

end
