(* ===== verification/Oci_Adapt.thy ===== *)
theory Oci_Adapt
  imports Oci_Image
begin

text \<open>
  \<open>core/src/image/import/mod.rs\<close>, the adaptation: an unpacked tree is given what the guest
  agent needs to be the first process. The code works on it with ordinary paths, so the kernel
  resolves every link in them against the host's root; the resolution is part of the model.
\<close>

section \<open>The kernel's path resolution\<close>

definition MAXSYMLINKS :: nat where "MAXSYMLINKS = 40"

text \<open>
  From a directory along a list of components, through links. The last component may be
  missing, since a call may create it.
\<close>

function namei :: "nat \<Rightarrow> host_fs \<Rightarrow> path \<Rightarrow> string list \<Rightarrow> errno + path" where
  "namei hops h cur [] = Inr cur"
| "namei hops h cur (c # rest) =
     (case node_at h cur of
        None \<Rightarrow> Inl ENOENT
      | Some (NDir m) \<Rightarrow>
          if and m O100 = 0 then Inl EACCES
          else if c = [] \<or> c = ''.'' then namei hops h cur rest
          else if c = ''..'' then namei hops h (butlast cur) rest
          else (case node_at h (cur @ [c]) of
              None \<Rightarrow> if rest = [] then Inr (cur @ [c]) else Inl ENOENT
            | Some (NLink t) \<Rightarrow>
                if hops = 0 then Inl ELOOP
                else (let target = map byte_char t in
                  namei (hops - 1) h (if starts_with ''/'' target then [] else cur) (split_on CHR ''/'' target @ rest))
            | Some _ \<Rightarrow> namei hops h (cur @ [c]) rest)
      | Some _ \<Rightarrow> Inl ENOTDIR)"
  by pat_completeness auto
termination
  by (relation "measures [\<lambda>(hops, _, _, _). hops, \<lambda>(_, _, _, comps). length comps]") auto

declare namei.simps [simp del]

definition O200 :: u32 where "O200 = 0x80"

text \<open>
  \<open>std::fs::copy\<close> to a path: it opens the path for writing, creating and truncating, sets the
  mode of a regular file, and writes. A node of another kind swallows the bytes.
\<close>

definition open_truncated :: "path \<Rightarrow> u32 \<Rightarrow> nat option fs_call" where
  "open_truncated p mode = sys_call (\<lambda>h.
     case namei MAXSYMLINKS h [] p of
       Inl e \<Rightarrow> (Inl e, h)
     | Inr q \<Rightarrow>
        (case node_at h q of
           None \<Rightarrow>
             if \<not> grants h (butlast q) O300 then (Inl EACCES, h)
             else (Inr (Some (next_ino h)),
               put_node q (NFile (next_ino h))
                 (put_inode (next_ino h) (and mode (not (umask h)), []) (h\<lparr>next_ino := Suc (next_ino h)\<rparr>)))
         | Some (NFile i) \<Rightarrow>
            (case inode_at h i of
               None \<Rightarrow> (Inl ENOENT, h)
             | Some (m, _) \<Rightarrow>
                 if and m O200 = 0 then (Inl EACCES, h) else (Inr (Some i), put_inode i (m, []) h))
         | Some (NDir _) \<Rightarrow> (Inl EISDIR, h)
         | Some (NLink _) \<Rightarrow> (Inl ELOOP, h)
         | Some NSpecial \<Rightarrow> (Inr None, h)))"

definition copy_file :: "bytes \<times> u32 \<Rightarrow> path \<Rightarrow> unit fs_call" where
  "copy_file src p =
     seq (open_truncated p (snd src)) (\<lambda>opened.
       case opened of
         None \<Rightarrow> ret ()
       | Some i \<Rightarrow> seq (set_permissions i (snd src)) (\<lambda>_. write_all i (fst src)))"

definition set_path_mode :: "path \<Rightarrow> u32 \<Rightarrow> unit fs_call" where
  "set_path_mode p mode = sys_call (\<lambda>h.
     case namei MAXSYMLINKS h [] p of
       Inl e \<Rightarrow> (Inl e, h)
     | Inr q \<Rightarrow> (case node_at h q of None \<Rightarrow> (Inl ENOENT, h) | Some _ \<Rightarrow> (Inr (), set_mode q mode h)))"

text \<open>
  \<open>std::fs::remove_dir_all\<close>, which opens each directory without following. The bound is the
  number of nodes: no directory is nested deeper, and at the bound an empty one goes.
\<close>

fun remove_dir_all :: "nat \<Rightarrow> path \<Rightarrow> string \<Rightarrow> unit fs_call" where
  "remove_dir_all 0 d n = unlink d n True"
| "remove_dir_all (Suc k) d n =
     seq (open_dir d n) (\<lambda>sub.
     seq (entries sub) (\<lambda>names.
     seq (each (\<lambda>m. seq (lstat sub m) (\<lambda>nd.
       if is_dir nd then remove_dir_all k sub m else unlink sub m False)) names) (\<lambda>_.
     unlink d n True)))"

section \<open>The adaptation\<close>

definition IMPORT_DIR_MODE :: u32 where "IMPORT_DIR_MODE = O755"

definition AGENT_DIR :: string where "AGENT_DIR = ''.isopod''"

definition AGENT_PATH :: string where "AGENT_PATH = ''.isopod/init''"

definition OVERLAY_DIRS :: "string list" where "OVERLAY_DIRS = [''overlay'', ''mnt'', ''layers'']"

definition PSEUDO_DIRS :: "string list" where
  "PSEUDO_DIRS = [''proc'', ''sys'', ''dev'', ''etc'', ''var'']"

record adapt_report =
  dirs_created :: "string list"
  replaced_init :: bool
  created_tmp :: bool
  special_count :: nat

datatype adapt_error = NoShell | NotADirectory string | AdaptIo string errno

definition split_path :: "string \<Rightarrow> string list" where
  "split_path p = split_on CHR ''/'' p"

definition MAX_HOPS :: nat where "MAX_HOPS = 40"

text \<open>\<open>stat\<close>: the node at a host path, if it can be read.\<close>

function resolve_loop ::
  "(path \<Rightarrow> node option) \<Rightarrow> path \<Rightarrow> nat \<Rightarrow> path \<Rightarrow> string list \<Rightarrow> path option" where
  "resolve_loop stat tree hops resolved [] =
     (case stat (tree @ resolved) of None \<Rightarrow> None | Some _ \<Rightarrow> Some (tree @ resolved))"
| "resolve_loop stat tree hops resolved (c # pending) =
     (if c = [] \<or> c = ''.'' then resolve_loop stat tree hops resolved pending
      else if c = ''..'' then resolve_loop stat tree hops (butlast resolved) pending
      else case stat (tree @ resolved @ [c]) of
          None \<Rightarrow> None
        | Some (NLink t) \<Rightarrow>
            if hops = 0 then None
            else (case from_utf8 t of
                None \<Rightarrow> None
              | Some target \<Rightarrow>
                  resolve_loop stat tree (hops - 1) (if starts_with ''/'' target then [] else resolved)
                    (split_path target @ pending))
        | Some _ \<Rightarrow> resolve_loop stat tree hops (resolved @ [c]) pending)"
  by pat_completeness auto
termination
  by (relation "measures [\<lambda>(_, _, hops, _, _). hops, \<lambda>(_, _, _, _, pending). length pending]") auto

declare resolve_loop.simps [simp del]

definition resolve_in_tree :: "(path \<Rightarrow> node option) \<Rightarrow> path \<Rightarrow> string \<Rightarrow> path option" where
  "resolve_in_tree stat tree rel = resolve_loop stat tree MAX_HOPS [] (split_path rel)"

text \<open>The parent of the directory is the tree itself, so \<open>create_dir_all\<close> is one \<open>mkdir\<close>.\<close>

definition adapt_dir :: "path \<Rightarrow> string \<Rightarrow> (host_fs, adapt_error, bool) comp" where
  "adapt_dir tree rel =
     seq (attempt (symlink_metadata (tree @ [rel]))) (\<lambda>r.
       case r of
         Inr nd \<Rightarrow> if is_dir nd \<or> is_symlink nd then ret False else fail (NotADirectory rel)
       | Inl e \<Rightarrow>
           if e = ENOENT then
             seq (map_fail (AdaptIo rel) (mkdir tree rel O777)) (\<lambda>_.
             seq (map_fail (AdaptIo rel) (set_path_mode (tree @ [rel]) IMPORT_DIR_MODE)) (\<lambda>_.
             ret True))
           else fail (AdaptIo rel e))"

fun adapt_dirs :: "path \<Rightarrow> string list \<Rightarrow> (host_fs, adapt_error, string list) comp" where
  "adapt_dirs tree [] = ret []"
| "adapt_dirs tree (dir # dirs) =
     seq (adapt_dir tree dir) (\<lambda>made.
     seq (adapt_dirs tree dirs) (\<lambda>created.
     ret (if made then (''/'' @ dir) # created else created)))"

definition remove_any :: "path \<Rightarrow> string \<Rightarrow> unit fs_call" where
  "remove_any d n =
     seq (symlink_metadata (d @ [n])) (\<lambda>nd.
       if is_dir nd then seq (gets (length \<circ> nodes)) (\<lambda>k. remove_dir_all k d n) else unlink d n False)"

definition install_agent :: "path \<Rightarrow> bytes \<times> u32 \<Rightarrow> (host_fs, adapt_error, unit) comp" where
  "install_agent tree agent =
     (let dest = tree @ split_path AGENT_PATH in
      seq (map_fail (AdaptIo AGENT_PATH) (copy_file agent dest)) (\<lambda>_.
      map_fail (AdaptIo AGENT_PATH) (set_path_mode dest O755)))"

definition point_init :: "path \<Rightarrow> (host_fs, adapt_error, bool) comp" where
  "point_init tree =
     seq (attempt (symlink_metadata (tree @ [''init'']))) (\<lambda>r.
     seq (case r of
            Inl _ \<Rightarrow> ret False
          | Inr _ \<Rightarrow> seq (map_fail (AdaptIo ''init'') (remove_any tree ''init'')) (\<lambda>_. ret True)) (\<lambda>replaced.
     seq (map_fail (AdaptIo ''init'') (symlink (bytes_of AGENT_PATH) tree ''init'')) (\<lambda>_.
     ret replaced)))"

definition adapt :: "(path \<Rightarrow> bool) \<Rightarrow> path \<Rightarrow> bytes \<times> u32 \<Rightarrow> (host_fs, adapt_error, adapt_report) comp" where
  "adapt unreadable tree agent =
     seq (gets (\<lambda>h. resolve_in_tree (\<lambda>p. if unreadable p then None else node_at h p) tree ''bin/sh'')) (\<lambda>sh.
     if sh = None then fail NoShell
     else
       seq (adapt_dirs tree (PSEUDO_DIRS @ OVERLAY_DIRS)) (\<lambda>created.
       seq (adapt_dir tree ''tmp'') (\<lambda>tmp.
       seq (adapt_dir tree AGENT_DIR) (\<lambda>_.
       seq (install_agent tree agent) (\<lambda>_.
       seq (point_init tree) (\<lambda>replaced.
       ret \<lparr>dirs_created = (if tmp then created @ [''/tmp''] else created), replaced_init = replaced,
            created_tmp = tmp, special_count = 0\<rparr>))))))"

section \<open>Resolution without links\<close>

definition real_dirs :: "host_fs \<Rightarrow> path \<Rightarrow> bool" where
  "real_dirs h p \<longleftrightarrow>
     list_all (\<lambda>q. case node_at h q of Some (NDir m) \<Rightarrow> and m O100 \<noteq> 0 | _ \<Rightarrow> False) (prefixes p)"

text \<open>Nothing is there, or a file or directory.\<close>

definition ordinary :: "host_fs \<Rightarrow> path \<Rightarrow> bool" where
  "ordinary h p \<longleftrightarrow> (case node_at h p of Some (NLink _) \<Rightarrow> False | Some NSpecial \<Rightarrow> False | _ \<Rightarrow> True)"

lemma real_dirs_iff:
  "real_dirs h p \<longleftrightarrow> (\<forall>q. prefix q p \<longrightarrow> (\<exists>m. node_at h q = Some (NDir m) \<and> and m O100 \<noteq> 0))"
proof -
  have "(case x of Some (NDir m) \<Rightarrow> and m O100 \<noteq> 0 | _ \<Rightarrow> False) \<longleftrightarrow> (\<exists>m. x = Some (NDir m) \<and> and m O100 \<noteq> 0)"
    for x by (auto split: option.split node.split)
  then show ?thesis by (simp add: real_dirs_def list_all_iff set_prefixes_eq)
qed

lemma ordinary_iff: "ordinary h p \<longleftrightarrow> (\<forall>t. node_at h p \<noteq> Some (NLink t)) \<and> node_at h p \<noteq> Some NSpecial"
  by (auto simp: ordinary_def split: option.split node.split)

lemma real_dirs_at: "real_dirs h p \<Longrightarrow> prefix q p \<Longrightarrow> \<exists>m. node_at h q = Some (NDir m) \<and> and m O100 \<noteq> 0"
  by (simp add: real_dirs_iff)

lemma cname_ok_plain: "cname_ok n \<Longrightarrow> n \<noteq> [] \<and> n \<noteq> ''.'' \<and> n \<noteq> ''..''"
  by (simp add: cname_ok_def)

lemma namei_real:
  "real_dirs h (cur @ p) \<Longrightarrow> list_all cname_ok p \<Longrightarrow> namei k h cur (p @ rest) = namei k h (cur @ p) rest"
proof (induction p arbitrary: cur)
  case (Cons c p)
  obtain m where m: "node_at h cur = Some (NDir m)" "and m O100 \<noteq> 0"
    using real_dirs_at [OF Cons.prems(1), of cur] by auto
  obtain m' where m': "node_at h (cur @ [c]) = Some (NDir m')"
    using real_dirs_at [OF Cons.prems(1), of "cur @ [c]"] by (auto simp: prefix_def)
  show ?case
    using Cons.IH [of "cur @ [c]"] Cons.prems m m' cname_ok_plain [of c] by (simp add: namei.simps)
qed simp

lemma namei_child:
  assumes "real_dirs h d" "list_all cname_ok d" "cname_ok n" "ordinary h (d @ [n])"
  shows "namei k h [] (d @ n # rest) = (if rest = [] then Inr (d @ [n]) else
    case node_at h (d @ [n]) of None \<Rightarrow> Inl ENOENT | Some _ \<Rightarrow> namei k h (d @ [n]) rest)"
proof -
  obtain m where m: "node_at h d = Some (NDir m)" "and m O100 \<noteq> 0"
    using real_dirs_at [OF assms(1), of d] by auto
  have "namei k h [] (d @ n # rest) = namei k h d (n # rest)"
    using namei_real [of h "[]" d k "n # rest"] assms(1,2) by simp
  then show ?thesis
    using m assms(3,4) cname_ok_plain [of n] namei.simps(1)
    by (auto simp: namei.simps(2) ordinary_iff split: option.split node.split)
qed

lemma namei_grandchild:
  assumes "real_dirs h d" "list_all cname_ok d" "cname_ok a" "cname_ok n"
    "ordinary h (d @ [a])" "ordinary h (d @ [a, n])"
  shows "namei k h [] (d @ [a, n]) = Inr (d @ [a, n]) \<and> dir_at h (d @ [a]) \<or> (\<exists>e. namei k h [] (d @ [a, n]) = Inl e)"
proof (cases "node_at h (d @ [a])")
  case None
  then show ?thesis using namei_child [OF assms(1-3,5), of k "[n]"] by simp
next
  case (Some nd)
  then have "namei k h [] (d @ [a, n]) = namei k h (d @ [a]) [n]"
    using namei_child [OF assms(1-3,5), of k "[n]"] by simp
  with Some assms(4,6) cname_ok_plain [of n] show ?thesis
    by (cases nd) (auto simp: namei.simps ordinary_iff dir_at_def split: option.split node.split)
qed

section \<open>What the adaptation changes\<close>

text \<open>Outside \<open>root\<close> nothing has changed since \<open>h0\<close>, and no file below it is one from before.\<close>

definition spared :: "host_fs \<Rightarrow> path \<Rightarrow> host_fs \<Rightarrow> bool" where
  "spared h0 root h \<longleftrightarrow>
     next_ino h0 \<le> next_ino h \<and>
     (\<forall>p. \<not> prefix root p \<longrightarrow> node_at h p = node_at h0 p) \<and>
     (\<forall>i < next_ino h0. inode_at h i = inode_at h0 i) \<and>
     (\<forall>p i. prefix root p \<and> node_at h p = Some (NFile i) \<longrightarrow> next_ino h0 \<le> i)"

definition present :: "host_fs \<Rightarrow> path \<Rightarrow> bool" where
  "present h p \<longleftrightarrow> (\<exists>nd. node_at h p = Some nd \<and> (is_dir nd \<or> is_symlink nd))"

definition ready :: "host_fs \<Rightarrow> path \<Rightarrow> string set \<Rightarrow> host_fs \<Rightarrow> bool" where
  "ready h0 tree S h \<longleftrightarrow>
     spared h0 tree h \<and> real_dirs h tree \<and> ordinary h (tree @ [AGENT_DIR]) \<and>
     ordinary h (tree @ [AGENT_DIR, ''init'']) \<and> (\<forall>x \<in> S. present h (tree @ [x]))"

lemma agent_names [simp]:
  "split_path AGENT_PATH = [AGENT_DIR, ''init'']" "cname_ok AGENT_DIR" "cname_ok ''init''"
  by code_simp+

lemma spared_faults [simp]: "spared h0 root (h\<lparr>faults := r\<rparr>) = spared h0 root h"
  by (simp add: spared_def)

lemma spared_put: "spared h0 root h \<Longrightarrow> prefix root p \<Longrightarrow> (\<And>i. nd = NFile i \<Longrightarrow> next_ino h0 \<le> i) \<Longrightarrow> spared h0 root (put_node p nd h)"
  by (auto simp: spared_def)

lemma spared_del: "spared h0 root h \<Longrightarrow> prefix root p \<Longrightarrow> spared h0 root (del_node p h)"
  by (auto simp: spared_def)

lemma spared_inode: "spared h0 root h \<Longrightarrow> next_ino h0 \<le> i \<Longrightarrow> spared h0 root (put_inode i v h)"
  by (auto simp: spared_def)

lemma spared_file: "spared h0 root h \<Longrightarrow> prefix root p \<Longrightarrow> node_at h p = Some (NFile i) \<Longrightarrow> next_ino h0 \<le> i"
  by (auto simp: spared_def)

lemma ready_faults [simp]: "ready h0 tree S (h\<lparr>faults := r\<rparr>) = ready h0 tree S h"
  by (simp add: ready_def real_dirs_iff ordinary_iff present_def)

lemma ready_inode: "ready h0 tree S h \<Longrightarrow> next_ino h0 \<le> i \<Longrightarrow> ready h0 tree S (put_inode i v h)"
  using spared_inode [of h0 tree h i v] by (simp add: ready_def real_dirs_iff ordinary_iff present_def)

lemma ready_put_dir:
  assumes "ready h0 tree S h"
  shows "ready h0 tree (insert x S) (put_node (tree @ [x]) (NDir m) h)"
proof -
  have "\<not> prefix (tree @ [x]) tree" by (auto simp: prefix_def)
  then have "real_dirs (put_node (tree @ [x]) (NDir m) h) tree"
    using assms by (auto simp: ready_def real_dirs_iff)
  moreover have "spared h0 tree (put_node (tree @ [x]) (NDir m) h)"
    using assms by (intro spared_put) (auto simp: ready_def)
  ultimately show ?thesis using assms by (auto simp: ready_def ordinary_iff present_def)
qed

lemma ready_set_mode:
  assumes "ready h0 tree S h" "prefix tree q" "q \<noteq> tree"
  shows "ready h0 tree S (set_mode q mode h)"
proof (cases "node_at h q")
  case (Some nd)
  show ?thesis
  proof (cases nd)
    case (NDir m)
    have "\<not> prefix q tree" using assms(2,3) by (meson prefix_order.antisym)
    then have "real_dirs (put_node q (NDir mode) h) tree" using assms(1) by (auto simp: ready_def real_dirs_iff)
    moreover have "spared h0 tree (put_node q (NDir mode) h)"
      using assms(1,2) by (intro spared_put) (auto simp: ready_def)
    ultimately show ?thesis using assms(1) Some NDir by (auto simp: set_mode_def ready_def ordinary_iff present_def)
  next
    case (NFile i)
    then have "next_ino h0 \<le> i" using spared_file [of h0 tree h q i] assms Some by (simp add: ready_def)
    then show ?thesis using ready_inode [OF assms(1)] Some NFile assms(1) by (auto simp: set_mode_def split: option.split)
  qed (use Some assms(1) in \<open>simp_all add: set_mode_def\<close>)
qed (use assms(1) in \<open>simp add: set_mode_def\<close>)

lemma sys_call_ok:
  assumes "\<And>h r. K h \<Longrightarrow> K (h\<lparr>faults := r\<rparr>)"
    and "\<And>h. K h \<Longrightarrow> case f h of (Inr a, h') \<Rightarrow> Q a h' | (Inl e, h') \<Rightarrow> E e h'"
    and "\<And>h e. K h \<Longrightarrow> E e h"
  shows "triple K (sys_call f) Q E"
  unfolding triple_def
proof (intro allI impI)
  fix h assume K: "K h"
  show "case sys_call f h of (Inl e, h') \<Rightarrow> E e h' | (Inr a, h') \<Rightarrow> Q a h'"
    using assms(2) [OF K] assms(2) [OF assms(1) [OF K]] assms(3) [OF assms(1) [OF K]]
    by (auto simp: sys_call_def split: list.split option.split prod.splits sum.splits)
qed

lemma named_ok: "triple K (sys_call f) Q E \<Longrightarrow> (\<And>h e. K h \<Longrightarrow> E e h) \<Longrightarrow> triple K (named n f) Q E"
  by (auto simp: named_def intro: triple_fail)

lemma path_mode_ready:
  assumes "list_all cname_ok tree" "cname_ok n"
  shows "triple (\<lambda>h. ready h0 tree S h \<and> ordinary h (tree @ [n])) (set_path_mode (tree @ [n]) mode)
    (\<lambda>_. ready h0 tree S) (\<lambda>_. ready h0 tree S)"
  unfolding set_path_mode_def
proof (intro sys_call_ok)
  fix h assume h: "ready h0 tree S h \<and> ordinary h (tree @ [n])"
  then have "namei MAXSYMLINKS h [] (tree @ [n]) = Inr (tree @ [n])"
    using namei_child [of h tree n MAXSYMLINKS "[]"] assms by (simp add: ready_def)
  then show "case (case namei MAXSYMLINKS h [] (tree @ [n]) of
       Inl e \<Rightarrow> (Inl e, h)
     | Inr q \<Rightarrow> (case node_at h q of None \<Rightarrow> (Inl ENOENT, h) | Some _ \<Rightarrow> (Inr (), set_mode q mode h))) of
     (Inr a, h') \<Rightarrow> ready h0 tree S h' | (Inl e, h') \<Rightarrow> ready h0 tree S h'"
    using h ready_set_mode [of h0 tree S h "tree @ [n]" mode] by (auto split: option.split)
qed (auto simp: ordinary_iff)

lemma adapt_dir_ready:
  assumes "list_all cname_ok tree" "cname_ok rel"
  shows "triple (ready h0 tree S) (adapt_dir tree rel) (\<lambda>_. ready h0 tree (insert rel S)) (\<lambda>_. ready h0 tree S)"
  unfolding adapt_dir_def
proof (rule triple_seq)
  let ?R = "\<lambda>r h. ready h0 tree S h \<and>
    (\<forall>nd. r = Inr nd \<longrightarrow> is_dir nd \<or> is_symlink nd \<longrightarrow> present h (tree @ [rel]))"
  show "triple (ready h0 tree S) (attempt (symlink_metadata (tree @ [rel]))) ?R (\<lambda>_. ready h0 tree S)"
    unfolding symlink_metadata_def
    by (intro triple_attempt sys_call_ok) (auto simp: present_def split: option.split)
  fix r :: "errno + node"
  have made: "triple (ready h0 tree S) (map_fail (AdaptIo rel) (mkdir tree rel O777))
      (\<lambda>_ h. ready h0 tree (insert rel S) h \<and> ordinary h (tree @ [rel])) (\<lambda>_. ready h0 tree S)"
    unfolding mkdir_def
    by (intro triple_map_fail named_ok sys_call_ok) (auto simp: ready_put_dir ordinary_iff)
  have moded: "triple (\<lambda>h. ready h0 tree (insert rel S) h \<and> ordinary h (tree @ [rel]))
      (map_fail (AdaptIo rel) (set_path_mode (tree @ [rel]) IMPORT_DIR_MODE))
      (\<lambda>_. ready h0 tree (insert rel S)) (\<lambda>_. ready h0 tree S)"
    by (rule triple_map_fail, rule triple_conseq [OF path_mode_ready [OF assms, where S = "insert rel S"]])
      (auto simp: ready_def)
  show "triple (?R r) (case r of
         Inr nd \<Rightarrow> if is_dir nd \<or> is_symlink nd then ret False else fail (NotADirectory rel)
       | Inl e \<Rightarrow>
           if e = ENOENT then
             seq (map_fail (AdaptIo rel) (mkdir tree rel O777)) (\<lambda>_.
             seq (map_fail (AdaptIo rel) (set_path_mode (tree @ [rel]) IMPORT_DIR_MODE)) (\<lambda>_.
             ret True))
           else fail (AdaptIo rel e)) (\<lambda>_. ready h0 tree (insert rel S)) (\<lambda>_. ready h0 tree S)"
  proof (cases r)
    case (Inr nd)
    then show ?thesis by (auto intro!: triple_ret triple_fail simp: ready_def)
  next
    case (Inl e)
    have "triple (?R r) (seq (map_fail (AdaptIo rel) (mkdir tree rel O777)) (\<lambda>_.
        seq (map_fail (AdaptIo rel) (set_path_mode (tree @ [rel]) IMPORT_DIR_MODE)) (\<lambda>_. ret True)))
        (\<lambda>_. ready h0 tree (insert rel S)) (\<lambda>_. ready h0 tree S)"
      by (rule triple_pre [OF triple_seq [OF made triple_seq [OF moded triple_ret]]]) simp_all
    with Inl show ?thesis by (auto intro!: triple_fail)
  qed
qed

lemma adapt_dirs_ready:
  assumes "list_all cname_ok tree"
  shows "list_all cname_ok dirs \<Longrightarrow>
    triple (ready h0 tree S) (adapt_dirs tree dirs) (\<lambda>_. ready h0 tree (set dirs \<union> S)) (\<lambda>_. ready h0 tree S)"
proof (induction dirs arbitrary: S)
  case (Cons d ds)
  have weak: "ready h0 tree S h" if "ready h0 tree (insert d S) h" for h using that by (simp add: ready_def)
  have "triple (ready h0 tree (insert d S)) (adapt_dirs tree ds)
      (\<lambda>_. ready h0 tree (set (d # ds) \<union> S)) (\<lambda>_. ready h0 tree S)"
    by (rule triple_conseq [OF Cons.IH [of "insert d S"]]) (use Cons.prems weak in simp_all)
  moreover have "triple (ready h0 tree S) (adapt_dir tree d) (\<lambda>_. ready h0 tree (insert d S)) (\<lambda>_. ready h0 tree S)"
    using adapt_dir_ready [OF assms] Cons.prems by simp
  ultimately show ?case
    unfolding adapt_dirs.simps by (blast intro: triple_seq triple_ret)
qed (simp add: triple_ret)

definition installed :: "path \<Rightarrow> nat \<Rightarrow> u32 \<Rightarrow> bytes \<Rightarrow> host_fs \<Rightarrow> bool" where
  "installed tree i m c h \<longleftrightarrow>
     node_at h (tree @ [AGENT_DIR, ''init'']) = Some (NFile i) \<and> inode_at h i = Some (m, c)"

lemma ready_put_agent:
  assumes "ready h0 tree S h" "next_ino h0 \<le> i"
  shows "ready h0 tree S (put_node (tree @ [AGENT_DIR, ''init'']) (NFile i) h)"
proof -
  have "\<not> prefix (tree @ [AGENT_DIR, ''init'']) tree" by (auto simp: prefix_def)
  then have "real_dirs (put_node (tree @ [AGENT_DIR, ''init'']) (NFile i) h) tree"
    using assms by (auto simp: ready_def real_dirs_iff)
  moreover have "spared h0 tree (put_node (tree @ [AGENT_DIR, ''init'']) (NFile i) h)"
    using assms by (intro spared_put) (auto simp: ready_def)
  ultimately show ?thesis using assms by (auto simp: ready_def ordinary_iff present_def)
qed

lemma ready_next_ino: "ready h0 tree S h \<Longrightarrow> ready h0 tree S (h\<lparr>next_ino := Suc (next_ino h)\<rparr>)"
  by (simp add: ready_def spared_def real_dirs_iff ordinary_iff present_def)

lemma installed_owned: "ready h0 tree S h \<Longrightarrow> installed tree i m c h \<Longrightarrow> next_ino h0 \<le> i"
  using spared_file [of h0 tree h "tree @ [AGENT_DIR, ''init'']" i] by (simp add: ready_def installed_def)

lemma agent_namei:
  assumes "ready h0 tree S h" "list_all cname_ok tree"
  shows "namei k h [] (tree @ [AGENT_DIR, ''init'']) = Inr (tree @ [AGENT_DIR, ''init'']) \<or>
    (\<exists>e. namei k h [] (tree @ [AGENT_DIR, ''init'']) = Inl e)"
  using namei_grandchild [of h tree AGENT_DIR "''init''" k] assms by (auto simp: ready_def)

lemma open_truncated_ready:
  assumes "list_all cname_ok tree"
  shows "triple (ready h0 tree S) (open_truncated (tree @ [AGENT_DIR, ''init'']) mode)
    (\<lambda>opened h. ready h0 tree S h \<and> (\<exists>i m. opened = Some i \<and> installed tree i m [] h)) (\<lambda>_. ready h0 tree S)"
  unfolding open_truncated_def
proof (intro sys_call_ok)
  let ?q = "tree @ [AGENT_DIR, ''init'']"
  let ?file = "\<lambda>h. put_inode (next_ino h) (and mode (not (umask h)), []) (h\<lparr>next_ino := Suc (next_ino h)\<rparr>)"
  fix h assume h: "ready h0 tree S h"
  have base: "next_ino h0 \<le> next_ino h" using h by (simp add: ready_def spared_def)
  have new: "ready h0 tree S (put_node ?q (NFile (next_ino h)) (?file h))"
    using ready_put_agent [OF ready_inode [OF ready_next_ino [OF h] base] base] by simp
  have old: "ready h0 tree S (put_inode i v h)" if "node_at h ?q = Some (NFile i)" for i v
    using ready_inode [OF h] spared_file [of h0 tree h ?q i] h that by (simp add: ready_def)
  have ord: "node_at h ?q \<noteq> Some (NLink t)" "node_at h ?q \<noteq> Some NSpecial" for t
    using h by (simp_all add: ready_def ordinary_iff)
  let ?nd = "node_at h ?q"
  have "case (case ?nd of
           None \<Rightarrow>
             if \<not> grants h (butlast ?q) O300 then (Inl EACCES, h)
             else (Inr (Some (next_ino h)), put_node ?q (NFile (next_ino h)) (?file h))
         | Some (NFile i) \<Rightarrow>
            (case inode_at h i of
               None \<Rightarrow> (Inl ENOENT, h)
             | Some (m, _) \<Rightarrow>
                 if and m O200 = 0 then (Inl EACCES, h) else (Inr (Some i), put_inode i (m, []) h))
         | Some (NDir _) \<Rightarrow> (Inl EISDIR, h)
         | Some (NLink _) \<Rightarrow> (Inl ELOOP, h)
         | Some NSpecial \<Rightarrow> (Inr None, h)) of
      (Inr opened, h') \<Rightarrow> ready h0 tree S h' \<and> (\<exists>i m. opened = Some i \<and> installed tree i m [] h')
    | (Inl e, h') \<Rightarrow> ready h0 tree S h'"
  proof (cases ?nd)
    case None
    then show ?thesis using h new by (simp add: installed_def)
  next
    case (Some nd)
    then show ?thesis
      using h old ord by (cases nd) (auto simp: installed_def split: option.split)
  qed
  with agent_namei [OF h assms, of MAXSYMLINKS] h
  show "case (case namei MAXSYMLINKS h [] ?q of
       Inl e \<Rightarrow> (Inl e, h)
     | Inr q \<Rightarrow>
        (case node_at h q of
           None \<Rightarrow>
             if \<not> grants h (butlast q) O300 then (Inl EACCES, h)
             else (Inr (Some (next_ino h)), put_node q (NFile (next_ino h)) (?file h))
         | Some (NFile i) \<Rightarrow>
            (case inode_at h i of
               None \<Rightarrow> (Inl ENOENT, h)
             | Some (m, _) \<Rightarrow>
                 if and m O200 = 0 then (Inl EACCES, h) else (Inr (Some i), put_inode i (m, []) h))
         | Some (NDir _) \<Rightarrow> (Inl EISDIR, h)
         | Some (NLink _) \<Rightarrow> (Inl ELOOP, h)
         | Some NSpecial \<Rightarrow> (Inr None, h))) of
      (Inr opened, h') \<Rightarrow> ready h0 tree S h' \<and> (\<exists>i m. opened = Some i \<and> installed tree i m [] h')
    | (Inl e, h') \<Rightarrow> ready h0 tree S h'"
    by (elim disjE exE) simp_all
qed simp_all

lemma triple_ex: "(\<And>x. triple (\<lambda>h. P h \<and> R x h) m Q E) \<Longrightarrow> triple (\<lambda>h. P h \<and> (\<exists>x. R x h)) m Q E"
  unfolding triple_def by metis

lemma installed_call:
  assumes "\<And>h. ready h0 tree S h \<Longrightarrow> installed tree i m c h \<Longrightarrow> f h = (Inr (), put_inode i (m', c') h)"
  shows "triple (\<lambda>h. ready h0 tree S h \<and> installed tree i m c h) (sys_call f)
    (\<lambda>_ h. ready h0 tree S h \<and> installed tree i m' c' h) (\<lambda>_. ready h0 tree S)"
  by (intro sys_call_ok)
    (use assms installed_owned in \<open>auto simp: installed_def intro!: ready_inode\<close>)

lemma copy_agent_ready:
  assumes "list_all cname_ok tree"
  shows "triple (ready h0 tree S) (copy_file agent (tree @ [AGENT_DIR, ''init'']))
    (\<lambda>_ h. ready h0 tree S h \<and> (\<exists>i. installed tree i (snd agent) (fst agent) h)) (\<lambda>_. ready h0 tree S)"
  unfolding copy_file_def
proof (rule triple_seq [OF open_truncated_ready [OF assms]])
  fix opened :: "nat option"
  let ?O = "\<lambda>h. ready h0 tree S h \<and> (\<exists>i m. opened = Some i \<and> installed tree i m [] h)"
  show "triple ?O (case opened of None \<Rightarrow> ret ()
      | Some i \<Rightarrow> seq (set_permissions i (snd agent)) (\<lambda>_. write_all i (fst agent)))
      (\<lambda>_ h. ready h0 tree S h \<and> (\<exists>i. installed tree i (snd agent) (fst agent) h)) (\<lambda>_. ready h0 tree S)"
  proof (cases opened)
    case (Some i)
    have perm: "triple (\<lambda>h. ready h0 tree S h \<and> installed tree i m [] h) (set_permissions i (snd agent))
        (\<lambda>_ h. ready h0 tree S h \<and> installed tree i (snd agent) [] h) (\<lambda>_. ready h0 tree S)" for m
      unfolding set_permissions_def by (rule installed_call) (simp add: installed_def)
    have "triple ?O (set_permissions i (snd agent))
        (\<lambda>_ h. ready h0 tree S h \<and> installed tree i (snd agent) [] h) (\<lambda>_. ready h0 tree S)"
      using triple_ex [OF perm] Some by simp
    moreover have "triple (\<lambda>h. ready h0 tree S h \<and> installed tree i (snd agent) [] h) (write_all i (fst agent))
        (\<lambda>_ h. ready h0 tree S h \<and> (\<exists>i. installed tree i (snd agent) (fst agent) h)) (\<lambda>_. ready h0 tree S)"
      unfolding write_all_def
      by (rule triple_post [OF installed_call]) (auto simp: installed_def)
    ultimately show ?thesis using Some by (auto intro: triple_seq)
  qed (simp add: triple_ret)
qed

lemma install_agent_ready:
  assumes "list_all cname_ok tree"
  shows "triple (ready h0 tree S) (install_agent tree agent)
    (\<lambda>_ h. ready h0 tree S h \<and> (\<exists>i. installed tree i O755 (fst agent) h)) (\<lambda>_. ready h0 tree S)"
proof -
  let ?q = "tree @ [AGENT_DIR, ''init'']"
  have "triple (\<lambda>h. ready h0 tree S h \<and> (\<exists>i. installed tree i (snd agent) (fst agent) h)) (set_path_mode ?q O755)
    (\<lambda>_ h. ready h0 tree S h \<and> (\<exists>i. installed tree i O755 (fst agent) h)) (\<lambda>_. ready h0 tree S)"
    unfolding set_path_mode_def
  proof (intro sys_call_ok)
    fix h assume h: "ready h0 tree S h \<and> (\<exists>i. installed tree i (snd agent) (fst agent) h)"
    then obtain i where i: "node_at h ?q = Some (NFile i)" "inode_at h i = Some (snd agent, fst agent)"
      by (auto simp: installed_def)
    have "ready h0 tree S (set_mode ?q O755 h)" using ready_set_mode [of h0 tree S h ?q O755] h by auto
    with i h agent_namei [of h0 tree S h MAXSYMLINKS] assms
    show "case (case namei MAXSYMLINKS h [] ?q of Inl e \<Rightarrow> (Inl e, h)
       | Inr q \<Rightarrow> (case node_at h q of None \<Rightarrow> (Inl ENOENT, h) | Some _ \<Rightarrow> (Inr (), set_mode q O755 h))) of
       (Inr a, h') \<Rightarrow> ready h0 tree S h' \<and> (\<exists>i. installed tree i O755 (fst agent) h')
     | (Inl e, h') \<Rightarrow> ready h0 tree S h'"
      by (auto simp: installed_def set_mode_def)
  qed (auto simp: installed_def)
  then show ?thesis
    unfolding install_agent_def Let_def agent_names
    by (auto intro!: triple_seq triple_map_fail copy_agent_ready assms)
qed

section \<open>The image's own init\<close>

lemma remove_dir_all_keeps:
  assumes "\<And>h r. K h \<Longrightarrow> K (h\<lparr>faults := r\<rparr>)"
  shows "(\<And>h p. K h \<Longrightarrow> prefix (d @ [n]) p \<Longrightarrow> K (del_node p h)) \<Longrightarrow> keeps K (remove_dir_all k d n)"
    and "(\<And>h p. K h \<Longrightarrow> prefix (d @ [n]) p \<Longrightarrow> K (del_node p h)) \<Longrightarrow> keeps K (unlink d n b)"
proof -
  have reads: "keeps K (lstat d n)" "keeps K (entries d)" for d n
    unfolding keeps_def lstat_def entries_def
    by (intro named_ok sys_call_ok; use assms in \<open>auto split: option.split\<close>)+
  have opened: "triple K (open_dir d n) (\<lambda>sub h. K h \<and> sub = d @ [n]) (\<lambda>_. K)" for d n
    unfolding open_dir_def
    by (intro named_ok sys_call_ok) (use assms in \<open>auto split: option.split node.split\<close>)
  have unlinked: "keeps K (unlink d n b)" if "\<And>h. K h \<Longrightarrow> K (del_node (d @ [n]) h)" for d n b
    unfolding keeps_def unlink_def
    by (intro named_ok sys_call_ok) (use assms that in \<open>auto split: option.split\<close>)
  show "keeps K (unlink d n b)" if "\<And>h p. K h \<Longrightarrow> prefix (d @ [n]) p \<Longrightarrow> K (del_node p h)"
    using unlinked that by simp
  show "keeps K (remove_dir_all k d n)" if "\<And>h p. K h \<Longrightarrow> prefix (d @ [n]) p \<Longrightarrow> K (del_node p h)"
    using that
  proof (induction k arbitrary: d n)
    case 0
    then show ?case using unlinked by simp
  next
    case (Suc k)
    have below: "K (del_node p h)" if "K h" "prefix ((d @ [n]) @ [m]) p" for m p h
      using Suc.prems [OF that(1), of p] append_prefixD [OF that(2)] by simp
    have "keeps K (seq (entries sub) (\<lambda>names.
        seq (each (\<lambda>m. seq (lstat sub m) (\<lambda>nd.
          if is_dir nd then remove_dir_all k sub m else unlink sub m False)) names) (\<lambda>_. unlink d n True)))"
      if "sub = d @ [n]" for sub
      using reads Suc.IH [of sub] unlinked Suc.prems below that
      by (auto intro!: keeps_seq keeps_each)
    then show ?case
      unfolding keeps_def remove_dir_all.simps
      by (intro triple_seq [OF opened]) (auto intro!: triple_assume)
  qed
qed

definition settled :: "host_fs \<Rightarrow> path \<Rightarrow> string set \<Rightarrow> nat \<Rightarrow> bytes \<Rightarrow> host_fs \<Rightarrow> bool" where
  "settled h0 tree S i c h \<longleftrightarrow>
     spared h0 tree h \<and> installed tree i O755 c h \<and> (\<forall>x \<in> S. present h (tree @ [x]))"

lemma settled_faults: "settled h0 tree S i c (h\<lparr>faults := r\<rparr>) = settled h0 tree S i c h"
  by (simp add: settled_def installed_def present_def)

lemma settled_del:
  assumes "settled h0 tree S i c h" "prefix (tree @ [''init'']) p" "''init'' \<notin> S"
  shows "settled h0 tree S i c (del_node p h)"
proof -
  have "prefix tree p" using assms(2) append_prefixD by blast
  moreover have "p \<noteq> tree @ [AGENT_DIR, ''init'']" using assms(2) by (auto simp: prefix_def AGENT_DIR_def)
  moreover have "p \<noteq> tree @ [x]" if "x \<in> S" for x using assms(2,3) that by (auto simp: prefix_def)
  ultimately show ?thesis
    using assms(1) spared_del [of h0 tree h p] by (auto simp: settled_def installed_def present_def)
qed

lemma settled_link:
  assumes "settled h0 tree S i c h"
  shows "settled h0 tree S i c (put_node (tree @ [''init'']) (NLink t) h)"
  using assms spared_put [of h0 tree h "tree @ [''init'']" "NLink t"]
  by (auto simp: settled_def installed_def present_def)

lemma point_init_settled:
  assumes "''init'' \<notin> S"
  shows "triple (settled h0 tree S i c) (point_init tree)
    (\<lambda>_ h. settled h0 tree S i c h \<and> node_at h (tree @ [''init'']) = Some (NLink (bytes_of AGENT_PATH)))
    (\<lambda>_. settled h0 tree S i c)"
proof -
  let ?K = "settled h0 tree S i c"
  have faults: "?K (h\<lparr>faults := r\<rparr>)" if "?K h" for h r using that by (simp add: settled_faults)
  have meta: "keeps ?K (symlink_metadata p)" for p
    unfolding keeps_def symlink_metadata_def
    by (intro sys_call_ok) (auto simp: settled_faults split: option.split)
  have rm: "keeps ?K (remove_dir_all k tree ''init'')" "keeps ?K (unlink tree ''init'' b)" for k b
    using remove_dir_all_keeps [of ?K tree "''init''"] faults settled_del [OF _ _ assms] by blast+
  have any: "keeps ?K (gets f)" for f :: "host_fs \<Rightarrow> nat" by (simp add: keeps_def triple_gets)
  have gone: "keeps ?K (remove_any tree ''init'')"
    unfolding remove_any_def
    by (intro keeps_seq meta) (auto intro!: keeps_seq rm any)
  have link: "triple ?K (symlink (bytes_of AGENT_PATH) tree ''init'')
      (\<lambda>_ h. ?K h \<and> node_at h (tree @ [''init'']) = Some (NLink (bytes_of AGENT_PATH))) (\<lambda>_. ?K)"
    unfolding symlink_def
    by (intro triple_if triple_fail sys_call_ok) (auto simp: settled_faults settled_link)
  have linked: "triple ?K (map_fail (AdaptIo ''init'') (symlink (bytes_of AGENT_PATH) tree ''init''))
      (\<lambda>_ h. ?K h \<and> node_at h (tree @ [''init'']) = Some (NLink (bytes_of AGENT_PATH))) (\<lambda>_. ?K)"
    by (rule triple_map_fail, rule link)
  have replaced: "triple ?K (case r of
            Inl _ \<Rightarrow> ret False
          | Inr _ \<Rightarrow> seq (map_fail (AdaptIo ''init'') (remove_any tree ''init'')) (\<lambda>_. ret True)) (\<lambda>_. ?K) (\<lambda>_. ?K)"
    for r :: "errno + node"
    using gone unfolding keeps_def
    by (intro triple_case_sum triple_ret triple_seq [where R = "\<lambda>_. ?K"] triple_map_fail) simp_all
  show ?thesis
    unfolding point_init_def
    by (rule triple_seq [OF triple_attempt [OF meta [unfolded keeps_def]]],
        rule triple_seq [OF replaced], rule triple_seq [OF linked]) (simp add: triple_ret)
qed

section \<open>The adapted image\<close>

abbreviation needed_dirs :: "string set" where
  "needed_dirs \<equiv> {''proc'', ''sys'', ''dev'', ''etc'', ''var'', ''overlay'', ''mnt'', ''layers'', ''tmp'', ''.isopod''}"

lemma adapt_triple:
  assumes "list_all cname_ok tree"
  shows "triple (ready h0 tree {}) (adapt unreadable tree agent)
    (\<lambda>_ h. \<exists>i. settled h0 tree needed_dirs i (fst agent) h \<and>
       node_at h (tree @ [''init'']) = Some (NLink (bytes_of AGENT_PATH)))
    (\<lambda>_. spared h0 tree)"
proof -
  let ?S = "set (PSEUDO_DIRS @ OVERLAY_DIRS)"
  have S: "insert AGENT_DIR (insert ''tmp'' ?S) = needed_dirs" "''init'' \<notin> needed_dirs"
    by (auto simp: PSEUDO_DIRS_def OVERLAY_DIRS_def AGENT_DIR_def)
  have names: "list_all cname_ok (PSEUDO_DIRS @ OVERLAY_DIRS)" "cname_ok ''tmp''" by code_simp+
  have weak: "spared h0 tree h" if "ready h0 tree T h" for h T using that by (simp add: ready_def)
  have dirs: "triple (ready h0 tree {}) (adapt_dirs tree (PSEUDO_DIRS @ OVERLAY_DIRS)) (\<lambda>_. ready h0 tree ?S) (\<lambda>_. spared h0 tree)"
    by (rule triple_conseq [OF adapt_dirs_ready [OF assms names(1), where S = "{}"]]) (use weak in auto)
  have tmp: "triple (ready h0 tree ?S) (adapt_dir tree ''tmp'') (\<lambda>_. ready h0 tree (insert ''tmp'' ?S)) (\<lambda>_. spared h0 tree)"
    by (rule triple_conseq [OF adapt_dir_ready [OF assms names(2)]]) (use weak in simp_all)
  have own: "triple (ready h0 tree (insert ''tmp'' ?S)) (adapt_dir tree AGENT_DIR) (\<lambda>_. ready h0 tree needed_dirs) (\<lambda>_. spared h0 tree)"
    unfolding S(1) [symmetric]
    by (rule triple_conseq [OF adapt_dir_ready [OF assms agent_names(2)]]) (use weak in simp_all)
  have install: "triple (ready h0 tree needed_dirs) (install_agent tree agent)
      (\<lambda>_ h. \<exists>i. settled h0 tree needed_dirs i (fst agent) h) (\<lambda>_. spared h0 tree)"
    by (rule triple_conseq [OF install_agent_ready [OF assms, where S = needed_dirs]])
      (auto simp: ready_def settled_def)
  have init: "triple (\<lambda>h. \<exists>i. settled h0 tree needed_dirs i (fst agent) h) (point_init tree)
      (\<lambda>_ h. \<exists>i. settled h0 tree needed_dirs i (fst agent) h \<and>
         node_at h (tree @ [''init'']) = Some (NLink (bytes_of AGENT_PATH))) (\<lambda>_. spared h0 tree)"
  proof -
    have "triple (\<lambda>h. True \<and> (\<exists>i. settled h0 tree needed_dirs i (fst agent) h)) (point_init tree)
      (\<lambda>_ h. \<exists>i. settled h0 tree needed_dirs i (fst agent) h \<and>
         node_at h (tree @ [''init'']) = Some (NLink (bytes_of AGENT_PATH))) (\<lambda>_. spared h0 tree)"
      by (rule triple_ex, rule triple_conseq [OF point_init_settled [OF S(2)]]) (auto simp: settled_def)
    then show ?thesis by simp
  qed
  have run: "triple (ready h0 tree {}) (seq (adapt_dirs tree (PSEUDO_DIRS @ OVERLAY_DIRS)) (\<lambda>created.
       seq (adapt_dir tree ''tmp'') (\<lambda>tmp.
       seq (adapt_dir tree AGENT_DIR) (\<lambda>_.
       seq (install_agent tree agent) (\<lambda>_.
       seq (point_init tree) (\<lambda>replaced.
       ret \<lparr>dirs_created = (if tmp then created @ [''/tmp''] else created), replaced_init = replaced,
            created_tmp = tmp, special_count = 0\<rparr>))))))
      (\<lambda>_ h. \<exists>i. settled h0 tree needed_dirs i (fst agent) h \<and>
         node_at h (tree @ [''init'']) = Some (NLink (bytes_of AGENT_PATH))) (\<lambda>_. spared h0 tree)"
    by (rule triple_seq [OF dirs], rule triple_seq [OF tmp], rule triple_seq [OF own],
        rule triple_seq [OF install], rule triple_seq [OF init]) (simp add: triple_ret)
  show ?thesis
    unfolding adapt_def
    by (rule triple_seq [where R = "\<lambda>_. ready h0 tree {}"])
      (use run weak in \<open>auto intro!: triple_gets triple_fail\<close>)
qed

section \<open>What is where after an adaptation\<close>

text \<open>The nodes of \<open>h0\<close>, with a directory of mode 0755 at each name of \<open>S\<close> in the tree where there was nothing.\<close>

definition with_dirs :: "host_fs \<Rightarrow> path \<Rightarrow> string set \<Rightarrow> path \<Rightarrow> node option" where
  "with_dirs h0 tree S p =
     (if (\<exists>x \<in> S. p = tree @ [x]) \<and> node_at h0 p = None then Some (NDir IMPORT_DIR_MODE) else node_at h0 p)"

definition made :: "host_fs \<Rightarrow> path \<Rightarrow> string set \<Rightarrow> host_fs \<Rightarrow> bool" where
  "made h0 tree S h \<longleftrightarrow> node_at h = with_dirs h0 tree S"

lemma with_dirs_none: "with_dirs h0 tree {} = node_at h0"
  by (simp add: with_dirs_def fun_eq_iff)

lemma with_dirs_new: "x \<notin> S \<Longrightarrow> with_dirs h0 tree S (tree @ [x]) = node_at h0 (tree @ [x])"
  by (simp add: with_dirs_def)

lemma with_dirs_other: "\<forall>x \<in> S. p \<noteq> tree @ [x] \<Longrightarrow> with_dirs h0 tree S p = node_at h0 p"
  by (auto simp: with_dirs_def)

lemma with_dirs_kept: "node_at h0 (tree @ [x]) \<noteq> None \<Longrightarrow> with_dirs h0 tree (insert x S) = with_dirs h0 tree S"
  by (auto simp: with_dirs_def fun_eq_iff)

lemma with_dirs_insert:
  "node_at h0 (tree @ [x]) = None \<Longrightarrow>
   with_dirs h0 tree (insert x S) = (with_dirs h0 tree S)(tree @ [x] := Some (NDir IMPORT_DIR_MODE))"
  by (auto simp: with_dirs_def fun_eq_iff)

lemma adapt_dir_made:
  assumes "list_all cname_ok tree" "cname_ok rel" "rel \<notin> S"
  shows "triple (\<lambda>h. ready h1 tree R h \<and> made h0 tree S h) (adapt_dir tree rel)
    (\<lambda>b h. made h0 tree (insert rel S) h \<and> b = (node_at h0 (tree @ [rel]) = None)) (\<lambda>_ _. True)"
  unfolding adapt_dir_def
proof (rule triple_seq)
  let ?p = "tree @ [rel]" and ?K = "\<lambda>h. ready h1 tree R h \<and> made h0 tree S h"
  let ?R = "\<lambda>r h. ?K h \<and> (\<forall>nd. r = Inr nd \<longrightarrow> node_at h0 ?p \<noteq> None)"
  let ?M = "\<lambda>h. real_dirs h tree \<and> node_at h0 ?p = None \<and> (\<exists>m. node_at h = (with_dirs h0 tree S)(?p := Some (NDir m)))"
  have K: "?K (h\<lparr>faults := r\<rparr>)" if "?K h" for h r using that by (simp add: made_def)
  show "triple ?K (attempt (symlink_metadata ?p)) ?R (\<lambda>_ _. True)"
    unfolding symlink_metadata_def
    by (intro triple_attempt sys_call_ok K) (use with_dirs_new [OF assms(3)] in \<open>auto simp: made_def split: option.split\<close>)
  fix r :: "errno + node"
  have "\<not> prefix ?p tree" by (auto simp: prefix_def)
  then have rd: "real_dirs (put_node ?p nd h) tree" if "real_dirs h tree" for nd h
    using that by (auto simp: real_dirs_iff)
  have mk: "triple ?K (map_fail (AdaptIo rel) (mkdir tree rel O777)) (\<lambda>_. ?M) (\<lambda>_ _. True)"
    unfolding mkdir_def
    by (intro triple_map_fail named_ok sys_call_ok K)
      (use with_dirs_new [OF assms(3)] rd in \<open>auto simp: made_def ready_def fun_eq_iff\<close>)
  have md: "triple ?M (map_fail (AdaptIo rel) (set_path_mode ?p IMPORT_DIR_MODE))
      (\<lambda>_ h. made h0 tree (insert rel S) h \<and> node_at h0 ?p = None) (\<lambda>_ _. True)"
    unfolding set_path_mode_def
  proof (intro triple_map_fail sys_call_ok)
    fix h assume h: "?M h"
    then have "ordinary h ?p" by (auto simp: ordinary_iff)
    then have "namei MAXSYMLINKS h [] ?p = Inr ?p"
      using namei_child [of h tree rel MAXSYMLINKS "[]"] assms(1,2) h by simp
    moreover have "made h0 tree (insert rel S) (set_mode ?p IMPORT_DIR_MODE h)"
      using h by (auto simp: made_def set_mode_def with_dirs_insert fun_eq_iff)
    ultimately show "case (case namei MAXSYMLINKS h [] ?p of
         Inl e \<Rightarrow> (Inl e, h)
       | Inr q \<Rightarrow> (case node_at h q of None \<Rightarrow> (Inl ENOENT, h) | Some _ \<Rightarrow> (Inr (), set_mode q IMPORT_DIR_MODE h))) of
       (Inr a, h') \<Rightarrow> made h0 tree (insert rel S) h' \<and> node_at h0 ?p = None | (Inl e, h') \<Rightarrow> True"
      using h by auto
  qed (auto simp: real_dirs_iff)
  show "triple (?R r) (case r of
         Inr nd \<Rightarrow> if is_dir nd \<or> is_symlink nd then ret False else fail (NotADirectory rel)
       | Inl e \<Rightarrow>
           if e = ENOENT then
             seq (map_fail (AdaptIo rel) (mkdir tree rel O777)) (\<lambda>_.
             seq (map_fail (AdaptIo rel) (set_path_mode ?p IMPORT_DIR_MODE)) (\<lambda>_.
             ret True))
           else fail (AdaptIo rel e))
      (\<lambda>b h. made h0 tree (insert rel S) h \<and> b = (node_at h0 ?p = None)) (\<lambda>_ _. True)"
  proof (cases r)
    case (Inr nd)
    then show ?thesis by (auto intro!: triple_ret triple_fail simp: made_def with_dirs_kept)
  next
    case (Inl e)
    have "triple (?R r) (seq (map_fail (AdaptIo rel) (mkdir tree rel O777)) (\<lambda>_.
        seq (map_fail (AdaptIo rel) (set_path_mode ?p IMPORT_DIR_MODE)) (\<lambda>_. ret True)))
        (\<lambda>b h. made h0 tree (insert rel S) h \<and> b = (node_at h0 ?p = None)) (\<lambda>_ _. True)"
      by (rule triple_pre [OF triple_seq [OF mk triple_seq [OF md triple_ret]]]) simp_all
    with Inl show ?thesis by (auto intro!: triple_fail)
  qed
qed

lemma adapt_dir_both:
  assumes "list_all cname_ok tree" "cname_ok rel" "rel \<notin> S"
  shows "triple (\<lambda>h. ready h1 tree S h \<and> made h0 tree S h) (adapt_dir tree rel)
    (\<lambda>b h. (ready h1 tree (insert rel S) h \<and> made h0 tree (insert rel S) h) \<and> b = (node_at h0 (tree @ [rel]) = None))
    (\<lambda>_. spared h1 tree)"
  by (rule triple_conseq [OF triple_conj [OF triple_pre [OF adapt_dir_ready [OF assms(1,2), of h1 S]] adapt_dir_made [OF assms, of h1 S h0]]])
    (auto simp: ready_def)

abbreviation missing :: "host_fs \<Rightarrow> path \<Rightarrow> string list \<Rightarrow> string list" where
  "missing h tree xs \<equiv> map ((@) ''/'') (filter (\<lambda>x. node_at h (tree @ [x]) = None) xs)"

lemma adapt_dirs_both:
  assumes "list_all cname_ok tree"
  shows "list_all cname_ok dirs \<Longrightarrow> distinct dirs \<Longrightarrow> set dirs \<inter> S = {} \<Longrightarrow>
    triple (\<lambda>h. ready h1 tree S h \<and> made h0 tree S h) (adapt_dirs tree dirs)
      (\<lambda>created h. (ready h1 tree (set dirs \<union> S) h \<and> made h0 tree (set dirs \<union> S) h) \<and> created = missing h0 tree dirs)
      (\<lambda>_. spared h1 tree)"
proof (induction dirs arbitrary: S)
  case (Cons d ds)
  let ?J = "\<lambda>S h. ready h1 tree S h \<and> made h0 tree S h"
  have ok: "cname_ok d" "d \<notin> S" using Cons.prems by auto
  have tail: "triple (?J (insert d S)) (adapt_dirs tree ds)
      (\<lambda>created h. ?J (set ds \<union> insert d S) h \<and> created = missing h0 tree ds) (\<lambda>_. spared h1 tree)"
    by (rule Cons.IH) (use Cons.prems in auto)
  have rest: "triple (\<lambda>h. ?J (insert d S) h \<and> b = (node_at h0 (tree @ [d]) = None))
      (seq (adapt_dirs tree ds) (\<lambda>created. ret (if b then (''/'' @ d) # created else created)))
      (\<lambda>created h. ?J (set (d # ds) \<union> S) h \<and> created = missing h0 tree (d # ds)) (\<lambda>_. spared h1 tree)" for b
    by (rule triple_assume, rule triple_seq [OF tail], rule triple_ret) simp
  show ?case
    unfolding adapt_dirs.simps by (rule triple_seq [OF adapt_dir_both [OF assms ok] rest])
qed (simp add: triple_ret)

text \<open>Installing the agent touches no other path.\<close>

definition made_but :: "host_fs \<Rightarrow> path \<Rightarrow> string set \<Rightarrow> host_fs \<Rightarrow> bool" where
  "made_but h0 tree S h \<longleftrightarrow> (\<forall>p. p \<noteq> tree @ [AGENT_DIR, ''init''] \<longrightarrow> node_at h p = with_dirs h0 tree S p)"

lemma made_but_simps [simp]:
  "made_but h0 tree S (h\<lparr>faults := r\<rparr>) = made_but h0 tree S h"
  "made_but h0 tree S (put_inode i v h) = made_but h0 tree S h"
  "made_but h0 tree S (h\<lparr>next_ino := k\<rparr>) = made_but h0 tree S h"
  "made_but h0 tree S (put_node (tree @ [AGENT_DIR, ''init'']) nd h) = made_but h0 tree S h"
  by (auto simp: made_but_def)

lemma made_but_set_mode: "made_but h0 tree S h \<Longrightarrow> made_but h0 tree S (set_mode (tree @ [AGENT_DIR, ''init'']) m h)"
  by (auto simp: set_mode_def split: option.split node.split)

lemma agent_call_made:
  assumes "list_all cname_ok tree"
    and "\<And>h. ready h1 tree T h \<Longrightarrow> made_but h0 tree S h \<Longrightarrow> made_but h0 tree S (snd (f h))"
  shows "triple (\<lambda>h. ready h1 tree T h \<and> made_but h0 tree S h) (sys_call f) (\<lambda>_. made_but h0 tree S) (\<lambda>_. made_but h0 tree S)"
  by (intro sys_call_ok) (use assms(2) in \<open>auto split: prod.splits sum.splits dest: sndI\<close>)

lemma install_agent_made:
  assumes "list_all cname_ok tree"
  shows "triple (\<lambda>h. ready h1 tree T h \<and> made_but h0 tree S h) (install_agent tree agent)
    (\<lambda>_. made_but h0 tree S) (\<lambda>_. made_but h0 tree S)"
proof -
  let ?q = "tree @ [AGENT_DIR, ''init'']" and ?J = "\<lambda>h. ready h1 tree T h \<and> made_but h0 tree S h"
  have at: "namei MAXSYMLINKS h [] ?q = Inr q \<Longrightarrow> q = ?q" if "ready h1 tree T h" for h q
    using agent_namei [OF that assms, of MAXSYMLINKS] by auto
  have inode: "keeps (made_but h0 tree S) (sys_call f)" if "\<And>h. made_but h0 tree S h \<Longrightarrow> made_but h0 tree S (snd (f h))" for f :: "unit fs_call"
    unfolding keeps_def by (intro sys_call_ok) (use that in \<open>auto split: prod.splits sum.splits dest: sndI\<close>)
  have perm: "keeps (made_but h0 tree S) (set_permissions i m)" "keeps (made_but h0 tree S) (write_all i bs)" for i m bs
    unfolding set_permissions_def write_all_def by (intro inode; auto split: option.split)+
  have opened: "triple ?J (open_truncated ?q m) (\<lambda>_. made_but h0 tree S) (\<lambda>_. made_but h0 tree S)" for m
    unfolding open_truncated_def
    by (rule agent_call_made [OF assms]) (auto dest!: at split: sum.split option.split node.split)
  have written: "keeps (made_but h0 tree S) (case opened of None \<Rightarrow> ret ()
      | Some i \<Rightarrow> seq (set_permissions i (snd agent)) (\<lambda>_. write_all i (fst agent)))" for opened
    using perm by (auto simp: keeps_def triple_ret intro: keeps_seq [unfolded keeps_def] split: option.split)
  have copied: "triple ?J (copy_file agent ?q) (\<lambda>_. made_but h0 tree S) (\<lambda>_. made_but h0 tree S)"
    unfolding copy_file_def by (rule triple_seq [OF opened written [unfolded keeps_def]])
  have both: "triple ?J (copy_file agent ?q) (\<lambda>_. ?J) (\<lambda>_. made_but h0 tree S)"
    by (rule triple_conseq [OF triple_conj [OF triple_pre [OF copy_agent_ready [OF assms, of h1 T]] copied]]) auto
  have moded: "triple ?J (set_path_mode ?q O755) (\<lambda>_. made_but h0 tree S) (\<lambda>_. made_but h0 tree S)"
    unfolding set_path_mode_def
    by (rule agent_call_made [OF assms]) (auto dest!: at intro: made_but_set_mode split: sum.split option.split)
  show ?thesis
    unfolding install_agent_def Let_def agent_names
    by (rule triple_seq [where R = "\<lambda>_. ?J"]; rule triple_map_fail; rule both moded)
qed

text \<open>Pointing \<open>/init\<close> at the agent changes what is at or below \<open>/init\<close>, and says whether there was something.\<close>

definition made_around :: "host_fs \<Rightarrow> path \<Rightarrow> string set \<Rightarrow> host_fs \<Rightarrow> bool" where
  "made_around h0 tree S h \<longleftrightarrow>
     (\<forall>p. p \<noteq> tree @ [AGENT_DIR, ''init''] \<and> \<not> prefix (tree @ [''init'']) p \<longrightarrow> node_at h p = with_dirs h0 tree S p)"

lemma made_around_simps [simp]:
  "made_around h0 tree S (h\<lparr>faults := r\<rparr>) = made_around h0 tree S h"
  "made_around h0 tree S (put_node (tree @ [''init'']) nd h) = made_around h0 tree S h"
  by (auto simp: made_around_def)

lemma point_init_made:
  assumes "''init'' \<notin> S"
  shows "triple (made_but h0 tree S) (point_init tree)
    (\<lambda>b h. made_around h0 tree S h \<and> b = (node_at h0 (tree @ [''init'']) \<noteq> None)) (\<lambda>_ _. True)"
proof -
  let ?p = "tree @ [''init'']" and ?A = "made_around h0 tree S"
  let ?R = "\<lambda>r h. ?A h \<and> (case r of Inr nd \<Rightarrow> node_at h0 ?p \<noteq> None | Inl e \<Rightarrow> node_at h ?p = node_at h0 ?p)"
  let ?C = "\<lambda>b h. ?A h \<and> (if b then node_at h0 ?p \<noteq> None else node_at h ?p = node_at h0 ?p)"
  have start: "?A h \<and> node_at h ?p = node_at h0 ?p" if "made_but h0 tree S h" for h
    using that with_dirs_new [OF assms, of h0 tree] by (auto simp: made_but_def made_around_def AGENT_DIR_def)
  have del: "?A (del_node p h)" if "?A h" "prefix ?p p" for p h using that by (auto simp: made_around_def)
  have rm: "keeps ?A (remove_dir_all k tree ''init'')" "keeps ?A (unlink tree ''init'' b)" for k b
    using remove_dir_all_keeps [of ?A tree "''init''"] del by auto
  have meta: "keeps ?A (symlink_metadata p)" for p
    unfolding keeps_def symlink_metadata_def by (intro sys_call_ok) (auto split: option.split)
  have any: "keeps ?A (gets f)" for f :: "host_fs \<Rightarrow> nat" by (simp add: keeps_def triple_gets)
  have gone: "keeps ?A (remove_any tree ''init'')"
    unfolding remove_any_def by (intro keeps_seq meta) (auto intro!: keeps_seq rm any)
  have seen: "triple (made_but h0 tree S) (attempt (symlink_metadata ?p)) ?R (\<lambda>_ _. True)"
    unfolding symlink_metadata_def
    by (intro triple_attempt sys_call_ok) (use start in \<open>auto split: option.split\<close>)
  have cleared: "triple (?R r) (case r of
            Inl _ \<Rightarrow> ret False
          | Inr _ \<Rightarrow> seq (map_fail (AdaptIo ''init'') (remove_any tree ''init'')) (\<lambda>_. ret True)) ?C (\<lambda>_ _. True)"
    for r :: "errno + node"
  proof (cases r)
    case (Inr nd)
    have "triple (\<lambda>h. ?A h \<and> node_at h0 ?p \<noteq> None)
        (seq (map_fail (AdaptIo ''init'') (remove_any tree ''init'')) (\<lambda>_. ret True)) ?C (\<lambda>_ _. True)"
    proof (rule triple_assume)
      assume "node_at h0 ?p \<noteq> None"
      then show "triple ?A (seq (map_fail (AdaptIo ''init'') (remove_any tree ''init'')) (\<lambda>_. ret True)) ?C (\<lambda>_ _. True)"
        by (intro triple_seq [where R = "\<lambda>_. ?A"] triple_map_fail triple_conseq [OF gone [unfolded keeps_def]] triple_ret) simp_all
    qed
    then show ?thesis by (simp add: Inr)
  qed (simp add: triple_ret)
  have link: "triple (?C b) (map_fail (AdaptIo ''init'') (symlink (bytes_of AGENT_PATH) tree ''init''))
      (\<lambda>_ h. ?A h \<and> b = (node_at h0 ?p \<noteq> None)) (\<lambda>_ _. True)" for b
    unfolding symlink_def
    by (intro triple_map_fail triple_if triple_fail sys_call_ok) (auto split: if_splits)
  show ?thesis
    unfolding point_init_def
    by (rule triple_seq [OF seen], rule triple_seq [OF cleared], rule triple_seq [OF link], rule triple_ret) simp
qed

lemma adapt_made:
  assumes "list_all cname_ok tree"
  shows "triple (\<lambda>h. ready h1 tree {} h \<and> made h0 tree {} h) (adapt unreadable tree agent)
    (\<lambda>rp h. made_around h0 tree needed_dirs h \<and>
       rp = \<lparr>dirs_created = missing h0 tree (PSEUDO_DIRS @ OVERLAY_DIRS @ [''tmp'']),
             replaced_init = (node_at h0 (tree @ [''init'']) \<noteq> None),
             created_tmp = (node_at h0 (tree @ [''tmp'']) = None), special_count = 0\<rparr>)
    (\<lambda>_ _. True)"
proof -
  let ?S = "set (PSEUDO_DIRS @ OVERLAY_DIRS)" and ?J = "\<lambda>S h. ready h1 tree S h \<and> made h0 tree S h"
  let ?Q = "\<lambda>rp h. made_around h0 tree needed_dirs h \<and>
       rp = \<lparr>dirs_created = missing h0 tree (PSEUDO_DIRS @ OVERLAY_DIRS @ [''tmp'']),
             replaced_init = (node_at h0 (tree @ [''init'']) \<noteq> None),
             created_tmp = (node_at h0 (tree @ [''tmp'']) = None), special_count = 0\<rparr>"
  have S: "insert AGENT_DIR (insert ''tmp'' ?S) = needed_dirs" "''init'' \<notin> needed_dirs" "?S \<union> {} = ?S"
    "''tmp'' \<notin> ?S" "AGENT_DIR \<notin> insert ''tmp'' ?S" "distinct (PSEUDO_DIRS @ OVERLAY_DIRS)"
    by (auto simp: PSEUDO_DIRS_def OVERLAY_DIRS_def AGENT_DIR_def)
  have names: "list_all cname_ok (PSEUDO_DIRS @ OVERLAY_DIRS)" "cname_ok ''tmp''" by code_simp+
  have dirs: "triple (?J {}) (adapt_dirs tree (PSEUDO_DIRS @ OVERLAY_DIRS))
      (\<lambda>c h. ?J ?S h \<and> c = missing h0 tree (PSEUDO_DIRS @ OVERLAY_DIRS)) (\<lambda>_ _. True)"
    by (rule triple_conseq [OF adapt_dirs_both [OF assms names(1) S(6), where S = "{}", of h1 h0]]) simp_all
  have tmp: "triple (?J ?S) (adapt_dir tree ''tmp'')
      (\<lambda>b h. ?J (insert ''tmp'' ?S) h \<and> b = (node_at h0 (tree @ [''tmp'']) = None)) (\<lambda>_ _. True)"
    by (rule triple_conseq [OF adapt_dir_both [OF assms names(2) S(4), of h1 h0]]) simp_all
  have own: "triple (?J (insert ''tmp'' ?S)) (adapt_dir tree AGENT_DIR) (\<lambda>_. ?J needed_dirs) (\<lambda>_ _. True)"
    unfolding S(1) [symmetric] by (rule triple_conseq [OF adapt_dir_both [OF assms agent_names(2) S(5), of h1 h0]]) simp_all
  have install: "triple (?J needed_dirs) (install_agent tree agent) (\<lambda>_. made_but h0 tree needed_dirs) (\<lambda>_ _. True)"
    by (rule triple_conseq [OF install_agent_made [OF assms, of h1 needed_dirs]]) (auto simp: made_def made_but_def)
  note init = point_init_made [OF S(2), of h0 tree]
  have run: "triple (?J {}) (seq (adapt_dirs tree (PSEUDO_DIRS @ OVERLAY_DIRS)) (\<lambda>created.
       seq (adapt_dir tree ''tmp'') (\<lambda>tmp.
       seq (adapt_dir tree AGENT_DIR) (\<lambda>_.
       seq (install_agent tree agent) (\<lambda>_.
       seq (point_init tree) (\<lambda>replaced.
       ret \<lparr>dirs_created = (if tmp then created @ [''/tmp''] else created), replaced_init = replaced,
            created_tmp = tmp, special_count = 0\<rparr>)))))) ?Q (\<lambda>_ _. True)"
    by (rule triple_seq [OF dirs], rule triple_assume, rule triple_seq [OF tmp], rule triple_assume, rule triple_seq [OF own],
        rule triple_seq [OF install], rule triple_seq [OF init], rule triple_ret) simp
  show ?thesis
    unfolding adapt_def
    by (rule triple_seq [where R = "\<lambda>_. ?J {}"]) (use run in \<open>auto intro!: triple_gets triple_fail\<close>)
qed

text \<open>The state an import leaves, with the inode count from before it, is spared by itself.\<close>

lemma imported_spared:
  assumes "tree_fs h" "tame h" "unpack_image dst lim pid layers h = (Inr rp, h1)"
  shows "spared (h1\<lparr>next_ino := next_ino h\<rparr>) dst h1"
    and "\<not> prefix (staging_of dst pid) p \<Longrightarrow> \<not> prefix dst p \<Longrightarrow> node_at h1 p = node_at h p"
    and "i < next_ino h \<Longrightarrow> inode_at h1 i = inode_at h i"
proof -
  obtain h0 x where promoted: "image_inv h (staging_of dst pid) lim h0" "dst \<noteq> []"
      "rename (staging_of dst pid) dst h0 = (Inr x, h1)"
    by (rule unpack_image_cases [OF assms(3,1,2)]) auto
  note t = promoted_tree [OF promoted(3,1) assms(1) promoted(2)]
  have k: "host_kept h (staging_of dst pid) h0" using promoted(1) by (simp add: image_inv_def)
  have "next_ino h \<le> i" if "prefix dst p" "node_at h1 p = Some (NFile i)" for p i
  proof -
    from that(1) obtain zs where "p = dst @ zs" by (auto simp: prefix_def)
    with that(2) t(1) have "node_at h0 (staging_of dst pid @ zs) = Some (NFile i)" by simp
    with k show ?thesis unfolding host_kept_def by (meson prefixI)
  qed
  with k show "spared (h1\<lparr>next_ino := next_ino h\<rparr>) dst h1" by (auto simp: spared_def host_kept_def t(5))
  show "\<not> prefix (staging_of dst pid) p \<Longrightarrow> \<not> prefix dst p \<Longrightarrow> node_at h1 p = node_at h p" by (rule t(3))
  show "i < next_ino h \<Longrightarrow> inode_at h1 i = inode_at h i" using k by (simp add: t(4) host_kept_def)
qed

text \<open>
  C36: unpacking an image and adapting it leaves the rest of the host alone: whether the unpack is
  refused, or the adaptation fails, or both succeed, no node outside the staging directory and the
  destination changes, the destination itself does not change unless the unpack succeeded, and no
  file from before is written or re-moded. Three conditions: no call answers spuriously that a
  name is a directory or that unlinking it is not permitted (\<open>tame\<close>); the destination's own path
  is one of searchable directories; and an image that was unpacked has neither a link nor a device
  at \<open>/.isopod\<close> and at \<open>/.isopod/init\<close>. The last is not checked by the code; see
  \<open>import_overwrites_host_file\<close>.
\<close>
theorem adaptation_spares_host:
  assumes "tree_fs h" "tame h" "unpack_image dst lim pid layers h = (r, h1)" "list_all cname_ok dst"
    and "\<not> isl r \<longrightarrow> real_dirs h1 dst \<and> ordinary h1 (dst @ [''.isopod'']) \<and> ordinary h1 (dst @ [''.isopod'', ''init''])"
    and "h2 = (case r of Inl _ \<Rightarrow> h1 | Inr _ \<Rightarrow> snd (adapt unreadable dst agent h1))"
  shows "(\<forall>p. \<not> prefix (staging_of dst pid) p \<and> (prefix dst p \<longrightarrow> isl r) \<longrightarrow> node_at h2 p = node_at h p) \<and>
    (\<forall>i < next_ino h. inode_at h2 i = inode_at h i)"
proof (cases r)
  case (Inl e)
  with refused_unpack_spares [OF assms(1,2)] assms(3,6) show ?thesis by simp
next
  case (Inr rp)
  note imp = imported_spared [OF assms(1,2) assms(3) [unfolded Inr]]
  let ?h0 = "h1\<lparr>next_ino := next_ino h\<rparr>"
  obtain r2 where a: "adapt unreadable dst agent h1 = (r2, h2)" using assms(6) Inr by (metis prod.collapse sum.simps(6))
  have "ready ?h0 dst {} h1" using imp(1) assms(5) Inr by (simp add: ready_def AGENT_DIR_def)
  with adapt_triple [OF assms(4), of ?h0 unreadable agent] a have "spared ?h0 dst h2"
    by (cases r2) (auto simp: settled_def dest: tripleD tripleD_fail)
  with imp(2,3) Inr show ?thesis by (simp add: spared_def)
qed


section \<open>The shell check\<close>

text \<open>The image as the guest will see it, mounted as the root.\<close>

definition image_view :: "path \<Rightarrow> host_fs \<Rightarrow> host_fs" where
  "image_view tree h =
     h\<lparr>nodes := map (\<lambda>(p, nd). (drop (length tree) p, nd)) (filter (\<lambda>(p, _). take (length tree) p = tree) (nodes h))\<rparr>"

lemma node_at_view [simp]: "node_at (image_view tree h) r = node_at h (tree @ r)"
proof -
  have "map_of (map (\<lambda>(p, nd). (drop (length tree) p, nd)) (filter (\<lambda>(p, _). take (length tree) p = tree) ns)) r =
      map_of ns (tree @ r)" for ns :: "(path \<times> node) list"
  proof (induction ns)
    case (Cons a ns)
    obtain p nd where a: "a = (p, nd)" by force
    show ?case
    proof (cases "p = tree @ r")
      case False
      then have "\<not> (take (length tree) p = tree \<and> r = drop (length tree) p)" by (metis append_take_drop_id)
      with False a Cons show ?thesis by auto
    qed (use a in simp)
  qed simp
  then show ?thesis by (simp add: node_at_def image_view_def)
qed

lemma resolve_loop_namei:
  assumes closed: "\<And>p n. node_at h (tree @ p @ [n]) \<noteq> None \<Longrightarrow> node_at h (tree @ p) \<noteq> None"
    and root: "node_at h tree \<noteq> None"
    and utf: "\<And>p t. node_at h (tree @ p) = Some (NLink t) \<Longrightarrow> utf8_valid t"
  shows "node_at h (tree @ cur) \<noteq> None \<Longrightarrow>
    (case namei k (image_view tree h) cur comps of
       Inr q \<Rightarrow> resolve_loop (node_at h) tree k cur comps = (if node_at h (tree @ q) = None then None else Some (tree @ q))
     | Inl e \<Rightarrow> resolve_loop (node_at h) tree k cur comps = None \<or> e \<in> {ENOTDIR, EACCES})"
proof (induction k "image_view tree h" cur comps rule: namei.induct)
  case (1 hops cur)
  then show ?case by (auto simp: namei.simps resolve_loop.simps split: option.split)
next
  case (2 hops cur c rest)
  note prems = "2.prems"
  obtain nd where nd: "node_at h (tree @ cur) = Some nd" using prems by auto
  show ?case
  proof (cases nd)
    case (NDir m)
    show ?thesis
    proof (cases "and m O100 = 0")
      case True
      with nd NDir show ?thesis by (simp add: namei.simps)
    next
      case False
      note dir = nd [unfolded NDir] False
      have up: "node_at h (tree @ butlast cur) \<noteq> None"
        using prems closed [of "butlast cur" "last cur"] by (cases "cur = []") simp_all
      show ?thesis
      proof (cases "c = [] \<or> c = ''.'' \<or> c = ''..''")
        case True
        then show ?thesis
          using dir prems up "2.hyps"(1,2) by (elim disjE) (simp_all add: namei.simps resolve_loop.simps split: sum.splits)
      next
        case name: False
        show ?thesis
        proof (cases "node_at h (tree @ cur @ [c])")
          case None
          with dir name show ?thesis by (simp add: namei.simps resolve_loop.simps)
        next
          case (Some child)
          show ?thesis
          proof (cases child)
            case (NLink t)
            have t: "from_utf8 t = Some (map byte_char t)"
              using utf [of "cur @ [c]" t] Some NLink by (simp add: from_utf8_Some_iff)
            show ?thesis
            proof (cases "hops = 0")
              case True
              with dir name Some NLink show ?thesis by (simp add: namei.simps resolve_loop.simps)
            next
              case False
              note now = dir name Some NLink t prems root False
              show ?thesis
              proof (cases "starts_with ''/'' (map byte_char t)")
                case True
                with now "2.hyps"(5) [of "NDir m" m "NLink t" t "map byte_char t"] show ?thesis
                  by (simp add: namei.simps resolve_loop.simps split_path_def split: sum.splits)
              next
                case False
                with now "2.hyps"(5) [of "NDir m" m "NLink t" t "map byte_char t"] show ?thesis
                  by (simp add: namei.simps resolve_loop.simps split_path_def split: sum.splits)
              qed
            qed
          next
            case (NDir m')
            with dir name Some "2.hyps"(3) [of "NDir m" m child m'] show ?thesis
              by (simp add: namei.simps resolve_loop.simps split: sum.splits)
          next
            case (NFile i)
            with dir name Some "2.hyps"(4) [of "NDir m" m child i] show ?thesis
              by (simp add: namei.simps resolve_loop.simps split: sum.splits)
          next
            case NSpecial
            with dir name Some "2.hyps"(6) [of "NDir m" m child] show ?thesis
              by (simp add: namei.simps resolve_loop.simps split: sum.splits)
          qed
        qed
      qed
    qed
  qed (use nd in \<open>simp_all add: namei.simps\<close>)
qed

lemma resolve_loop_inside:
  "resolve_loop stat tree hops resolved comps = Some p \<Longrightarrow> prefix tree p \<and> stat p \<noteq> None"
proof (induction stat tree hops resolved comps rule: resolve_loop.induct)
  case (1 stat tree hops resolved)
  then show ?case by (auto simp: resolve_loop.simps(1) split: option.splits)
next
  case (2 stat tree hops resolved c pending)
  show ?case
    by (rule mp [OF _ "2.prems"], subst resolve_loop.simps(2))
      (use "2.IH" in \<open>auto simp: Let_def split: option.splits node.splits if_splits\<close>)
qed

text \<open>
  C37: the check for a shell looks up a name as the guest's kernel will once the image is the
  root, provided the targets of the image's links are UTF-8: it finds exactly what the kernel
  finds, with the same bound on links, and fails where it fails, except that it does not care
  about directory permissions and lets a component that is not a directory be left again with
  \<open>..\<close>. What it finds, then too, is a node of the tree: no name or link leads it out.
\<close>
theorem shell_check_agrees_with_guest:
  assumes "\<And>p n. node_at h (tree @ p @ [n]) \<noteq> None \<Longrightarrow> node_at h (tree @ p) \<noteq> None"
    and "node_at h tree \<noteq> None"
    and "\<And>p t. node_at h (tree @ p) = Some (NLink t) \<Longrightarrow> utf8_valid t"
  shows "(case namei MAXSYMLINKS (image_view tree h) [] (split_path rel) of
      Inr q \<Rightarrow> resolve_in_tree (node_at h) tree rel = (if node_at h (tree @ q) = None then None else Some (tree @ q))
    | Inl e \<Rightarrow> resolve_in_tree (node_at h) tree rel = None \<or> e \<in> {ENOTDIR, EACCES}) \<and>
    (\<forall>p. resolve_in_tree (node_at h) tree rel = Some p \<longrightarrow> prefix tree p \<and> node_at h p \<noteq> None)"
proof -
  have eq: "resolve_in_tree (node_at h) tree rel = resolve_loop (node_at h) tree MAXSYMLINKS [] (split_path rel)"
    by (simp add: resolve_in_tree_def MAX_HOPS_def MAXSYMLINKS_def)
  have inside: "\<forall>p. resolve_loop (node_at h) tree MAXSYMLINKS [] (split_path rel) = Some p \<longrightarrow> prefix tree p \<and> node_at h p \<noteq> None"
    using resolve_loop_inside by blast
  show ?thesis unfolding eq
  proof (rule conjI [OF resolve_loop_namei inside])
    show "\<And>p n. node_at h (tree @ p @ [n]) \<noteq> None \<Longrightarrow> node_at h (tree @ p) \<noteq> None"
      "\<And>p t. node_at h (tree @ p) = Some (NLink t) \<Longrightarrow> utf8_valid t" by (fact assms)+
  qed (use assms(2) in simp_all)
qed

section \<open>An image that overwrites a file of the host\<close>

text \<open>
  The tree holds nothing outside it when it is unpacked; the adaptation then opens
  \<open>.isopod/init\<close> by its path. A layer may ship that name as a link: the agent's bytes replace
  the content of whatever file of the operator's it points to, which becomes executable.
\<close>

definition hostile_layer :: "(string + (string + tar_entry) list) option" where
  "hostile_layer = Some (Inr
     [sample_entry ''bin/sh'' Regular O755 None [[35]],
      sample_entry ''.isopod/init'' Symlink O777 (Some (bytes_of ''/home/secret'')) []])"

lemma import_overwrites_host_file:
  "case unpack_image [''home'', ''img''] limits_default 7 [hostile_layer] sample_host of
     (Inl _, _) \<Rightarrow> False
   | (Inr _, h1) \<Rightarrow>
       node_at h1 [''home'', ''secret''] = Some (NFile 0) \<and> inode_at h1 0 = Some (0x180, [1, 2, 3]) \<and>
       (case adapt (\<lambda>_. False) [''home'', ''img''] ([7, 7], O755) h1 of
          (Inl _, _) \<Rightarrow> False
        | (Inr _, h2) \<Rightarrow> node_at h2 [''home'', ''secret''] = Some (NFile 0) \<and> inode_at h2 0 = Some (O755, [7, 7]))"
  by code_simp

section \<open>Images that are adapted\<close>

definition shell_layer :: "(string + (string + tar_entry) list) option" where
  "shell_layer = Some (Inr
     [sample_entry ''bin/sh'' Regular O755 None [[35]], sample_entry ''init/x'' Regular O755 None [],
      sample_entry ''dev'' Symlink O777 (Some (bytes_of ''/'')) []])"

lemma sample_adapt:
  "case unpack_image [''home'', ''img''] limits_default 7 [shell_layer] sample_host of
     (Inl _, _) \<Rightarrow> False
   | (Inr _, h1) \<Rightarrow>
       real_dirs h1 [''home'', ''img''] \<and> ordinary h1 [''home'', ''img'', ''.isopod''] \<and>
       ordinary h1 [''home'', ''img'', ''.isopod'', ''init''] \<and>
       (case adapt (\<lambda>_. False) [''home'', ''img''] ([7, 7], O755) h1 of
          (Inl _, _) \<Rightarrow> False | (Inr rp, _) \<Rightarrow> replaced_init rp \<and> created_tmp rp)"
  by code_simp

lemma sample_adapt_run:
  obtains rp h1 rp' h2 where
    "unpack_image [''home'', ''img''] limits_default 7 [shell_layer] sample_host = (Inr rp, h1)"
    "real_dirs h1 [''home'', ''img'']" "ordinary h1 ([''home'', ''img''] @ [''.isopod''])"
    "ordinary h1 ([''home'', ''img''] @ [''.isopod'', ''init''])"
    "adapt (\<lambda>_. False) [''home'', ''img''] ([7, 7], O755) h1 = (Inr rp', h2)"
  using sample_adapt by (auto split: prod.splits sum.splits)

lemma sample_names: "list_all cname_ok [''home'', ''img'']" by code_simp

theorem adaptation_spares_host_witness:
  "\<exists>rp h1 r h2. unpack_image [''home'', ''img''] limits_default 7 [shell_layer] sample_host = (Inr rp, h1) \<and>
     adapt (\<lambda>_. False) [''home'', ''img''] ([7, 7], O755) h1 = (r, h2) \<and> \<not> isl r \<and> inode_at h2 0 = Some (0x180, [1, 2, 3])"
proof (rule sample_adapt_run)
  fix rp h1 rp' h2
  assume a: "unpack_image [''home'', ''img''] limits_default 7 [shell_layer] sample_host = (Inr rp, h1)"
    "real_dirs h1 [''home'', ''img'']" "ordinary h1 ([''home'', ''img''] @ [''.isopod''])"
    "ordinary h1 ([''home'', ''img''] @ [''.isopod'', ''init''])"
    "adapt (\<lambda>_. False) [''home'', ''img''] ([7, 7], O755) h1 = (Inr rp', h2)"
  have "inode_at sample_host 0 = Some (0x180, [1, 2, 3])" "next_ino sample_host = 1"
    by (simp_all add: inode_at_def sample_host_def)
  moreover have "h2 = (case Inr rp of Inl (_ :: import_error) \<Rightarrow> h1 | Inr _ \<Rightarrow> snd (adapt (\<lambda>_. False) [''home'', ''img''] ([7, 7], O755) h1))"
    using a(5) by simp
  note adaptation_spares_host [OF sample_host_tree a(1) sample_names _ this]
  ultimately show ?thesis using a by fastforce
qed


text \<open>A shell that is an absolute link: it is there in the image, and not on the host.\<close>

definition shell_host :: host_fs where
  "shell_host =
     \<lparr>nodes = [([], NDir O755), ([''t''], NDir O755), ([''t'', ''bin''], NDir O755),
         ([''t'', ''bin'', ''sh''], NLink (bytes_of ''/b'')), ([''t'', ''b''], NFile 0)],
      inodes = [(0, (O755, []))], next_ino = 1, umask = 0x12, faults = []\<rparr>"

theorem shell_check_agrees_with_guest_witness:
  "resolve_in_tree (node_at shell_host) [''t''] ''bin/sh'' = Some [''t'', ''b''] \<and> node_at shell_host [''b''] = None"
proof -
  have at: "node_at shell_host p =
      (if p = [] \<or> p = [''t''] \<or> p = [''t'', ''bin''] then Some (NDir O755)
       else if p = [''t'', ''bin'', ''sh''] then Some (NLink (bytes_of ''/b''))
       else if p = [''t'', ''b''] then Some (NFile 0) else None)" for p
    by (simp add: node_at_def shell_host_def)
  have closed: "node_at shell_host ([''t''] @ p) \<noteq> None" if "node_at shell_host ([''t''] @ p @ [n]) \<noteq> None" for p n
    using that by (cases p rule: rev_cases) (auto simp: at split: if_splits)
  have utf: "utf8_valid t" if "node_at shell_host ([''t''] @ p) = Some (NLink t)" for p t
  proof -
    have "utf8_valid (bytes_of ''/b'')" by code_simp
    moreover have "t = bytes_of ''/b''" using that by (simp add: at split: if_splits)
    ultimately show ?thesis by simp
  qed
  have "namei MAXSYMLINKS (image_view [''t''] shell_host) [] (split_path ''bin/sh'') = Inr [''b'']" by code_simp
  moreover have "(case namei MAXSYMLINKS (image_view [''t''] shell_host) [] (split_path ''bin/sh'') of
      Inr q \<Rightarrow> resolve_in_tree (node_at shell_host) [''t''] ''bin/sh'' =
        (if node_at shell_host ([''t''] @ q) = None then None else Some ([''t''] @ q))
    | Inl e \<Rightarrow> resolve_in_tree (node_at shell_host) [''t''] ''bin/sh'' = None \<or> e \<in> {ENOTDIR, EACCES}) \<and>
    (\<forall>p. resolve_in_tree (node_at shell_host) [''t''] ''bin/sh'' = Some p \<longrightarrow> prefix [''t''] p \<and> node_at shell_host p \<noteq> None)"
  proof (rule shell_check_agrees_with_guest)
    show "\<And>p n. node_at shell_host ([''t''] @ p @ [n]) \<noteq> None \<Longrightarrow> node_at shell_host ([''t''] @ p) \<noteq> None"
      by (rule closed)
    show "\<And>p t. node_at shell_host ([''t''] @ p) = Some (NLink t) \<Longrightarrow> utf8_valid t" by (rule utf)
  qed (simp add: at)
  ultimately show ?thesis by (simp add: at)
qed

end
