(* ===== verification/Image_Import.thy ===== *)
theory Image_Import
  imports Run_Plan Oci_Adapt
begin

text \<open>
  The whole import of \<open>image/import/mod.rs\<close>: a layout is found or made, resolved and unpacked,
  the tree adapted, packed, checked and published. The registry, the decompressors with the tar
  reader, and squashfs-tools are the record \<open>importer\<close>.
\<close>

section \<open>The parts an import uses\<close>

datatype import_source = Registry string | OciLayoutDir string | DockerSave string

fun describe :: "import_source \<Rightarrow> string" where
  "describe (Registry r) = r"
| "describe (OciLayoutDir p) = p"
| "describe (DockerSave p) = p"

type_synonym layer_stream = "string + (string + tar_entry) list"

record importer =
  pull :: "string \<Rightarrow> string \<Rightarrow> string option"
  layout_at :: "host_fs \<Rightarrow> layout_env"
  tar_entries :: "compression \<Rightarrow> bytes \<Rightarrow> layer_stream"
  tarball :: "string \<Rightarrow> layer_stream option"
  mksquashfs :: "host_fs \<Rightarrow> path \<Rightarrow> string \<Rightarrow> bytes option"
  unsquashfs_ll :: "bytes \<Rightarrow> string option"
  imp_sha256_of :: "string \<Rightarrow> string"
  imp_pid :: nat
  imp_work :: path
  imp_agent :: "bytes \<times> u32"
  imp_unreadable :: "path \<Rightarrow> bool"

datatype whole_error =
    ImportImage image_error | PullFailed string | TarballFailed import_error | NoTarball string
  | LayoutFailed layout_error | LegacyArchive string | UnpackFailed import_error | AdaptFailed adapt_error

datatype import_note =
    UserIgnored string | CommandIgnored | InitReplaced | DevicesSkipped nat | XattrsDropped nat

record import_outcome =
  out_path :: string
  out_slug :: string
  out_bytes :: nat
  out_sha256 :: string
  out_adapt :: adapt_report
  out_provenance :: oci_provenance
  out_notes :: "import_note list"

section \<open>Packing\<close>

text \<open>The first word of a line of the listing, up to white space.\<close>

fun until_ws :: "string \<Rightarrow> string" where
  "until_ws [] = []"
| "until_ws (c # cs) = (if strip_any ws_seqs (c # cs) \<noteq> None then [] else c # until_ws cs)"

definition special_line :: "string \<Rightarrow> bool" where
  "special_line line =
     (let mode = until_ws (trim_start line) in
      length mode = 10 \<and> list_ex (\<lambda>c. c \<in> {CHR ''s'', CHR ''S'', CHR ''t'', CHR ''T''}) (drop 1 mode))"

definition count_special_modes :: "string \<Rightarrow> nat" where
  "count_special_modes listing = length (filter special_line (split_on LF listing))"

definition pack_notes :: "oci_provenance \<Rightarrow> adapt_report \<Rightarrow> import_note list" where
  "pack_notes prov adapted =
     (case prov_user prov of Some u \<Rightarrow> [UserIgnored u] | None \<Rightarrow> []) @
     (if prov_entrypoint prov \<noteq> [] \<or> prov_cmd prov \<noteq> [] then [CommandIgnored] else []) @
     (if replaced_init adapted then [InitReplaced] else [])"

definition pack_steps ::
  "machine \<Rightarrow> importer \<Rightarrow> host_fs \<Rightarrow> path \<Rightarrow> string \<Rightarrow> string \<Rightarrow> string \<Rightarrow> (string \<times> u32) list \<Rightarrow> oci_provenance \<Rightarrow>
   adapt_report \<Rightarrow> (image_store, image_error, import_outcome) comp" where
  "pack_steps env imp h tree target tmp slug modes prov adapted =
     (case mksquashfs imp h tree (pseudo_text modes) of
        None \<Rightarrow> fail PackFailed
      | Some bs \<Rightarrow>
          seq (modify (AList.update tmp (RegularFile bs))) (\<lambda>_.
          case unsquashfs_ll imp bs of
            None \<Rightarrow> fail (ImageIo ListTree)
          | Some listing \<Rightarrow>
              if count_special_modes listing \<noteq> length modes
              then fail (ModesMissing (count_special_modes listing) (length modes))
              else if broken env SyncImage then fail (ImageIo SyncImage)
              else
                seq (publish_imported_image env tmp target slug prov) (\<lambda>_.
                seq (gets (\<lambda>s. case file_len env s target of Some n \<Rightarrow> n | None \<Rightarrow> 0)) (\<lambda>n.
                seq (sha256_file env target) (\<lambda>sha.
                ret \<lparr>out_path = target, out_slug = slug, out_bytes = n, out_sha256 = sha,
                     out_adapt = adapted\<lparr>special_count := length modes\<rparr>, out_provenance = prov,
                     out_notes = pack_notes prov adapted\<rparr>)))))"

text \<open>The working directory goes when the pack returns, with whatever is still in it.\<close>

definition pack_and_stamp ::
  "machine \<Rightarrow> importer \<Rightarrow> host_fs \<Rightarrow> path \<Rightarrow> string \<Rightarrow> string \<Rightarrow> string \<Rightarrow> (string \<times> u32) list \<Rightarrow> oci_provenance \<Rightarrow>
   adapt_report \<Rightarrow> (image_store, image_error, import_outcome) comp" where
  "pack_and_stamp env imp h tree images work slug special prov adapted s =
     (case imported_image_path images slug of
        Inl e \<Rightarrow> (Inl (BadSlug e), s)
      | Inr target \<Rightarrow>
          let tmp = path_join work ''image.sqfs'';
              modes = pack_modes special (created_tmp adapted) in
          case pack_steps env imp h tree target tmp slug modes prov adapted s of
            (r, s') \<Rightarrow> (r, AList.delete tmp s'))"

section \<open>From a source to a layout\<close>

definition path_text :: "path \<Rightarrow> string" where
  "path_text p = concat (map ((@) ''/'') p)"

text \<open>The layout's directory, the manifest digest if the source told it, and the host.\<close>

definition materialise_layout ::
  "importer \<Rightarrow> string \<Rightarrow> import_source \<Rightarrow> host_fs \<Rightarrow> (whole_error + string \<times> string option) \<times> host_fs" where
  "materialise_layout imp images source h =
     (case source of
        Registry reference \<Rightarrow>
          let cache = blob_cache_dir (imp_sha256_of imp) images reference in
          (case pull imp reference cache of
             None \<Rightarrow> (Inl (PullFailed reference), h)
           | Some d \<Rightarrow> (Inr (cache, Some d), h))
      | OciLayoutDir dir \<Rightarrow> (Inr (dir, None), h)
      | DockerSave tar \<Rightarrow>
          (case tarball imp tar of
             None \<Rightarrow> (Inl (NoTarball tar), h)
           | Some ents \<Rightarrow>
              (case unpack_image (imp_work imp @ [''layout'']) limits_default (imp_pid imp) [Some ents] h of
                 (Inl e, h') \<Rightarrow> (Inl (TarballFailed e), h')
               | (Inr _, h') \<Rightarrow> (Inr (path_text (imp_work imp @ [''layout'']), None), h'))))"

definition open_layout :: "layout_env \<Rightarrow> string \<Rightarrow> import_source \<Rightarrow> whole_error + string" where
  "open_layout env dir source =
     (case layout_open env dir of
        Inr root \<Rightarrow> Inr root
      | Inl e \<Rightarrow>
          if file_there env (path_join dir ''manifest.json'') \<and> \<not> file_there env (path_join dir ''oci-layout'')
          then Inl (LegacyArchive (describe source))
          else Inl (LayoutFailed e))"

text \<open>What the loop over the layers hands to the unpacker; \<^const>\<open>None\<close> ends it.\<close>

definition layer_stream_of :: "importer \<Rightarrow> layout_env \<Rightarrow> string \<Rightarrow> descriptor \<Rightarrow> layer_stream option" where
  "layer_stream_of imp env root d =
     (case blob env root d of
        Inl _ \<Rightarrow> None
      | Inr bs \<Rightarrow>
         (case compression_of (media_type d) of
            None \<Rightarrow> None
          | Some Zstd \<Rightarrow> None
          | Some c \<Rightarrow> Some (tar_entries imp c bs)))"

section \<open>The import\<close>

definition provenance_of ::
  "import_source \<Rightarrow> string option \<Rightarrow> image_manifest \<Rightarrow> image_config \<Rightarrow> adapt_report \<Rightarrow> report \<Rightarrow> oci_provenance" where
  "provenance_of source pulled m cfg adapted rp =
     \<lparr>source_ref = describe source, prov_platform = show_platform host_platform,
      manifest_digest = (case pulled of Some d \<Rightarrow> d | None \<Rightarrow> show_digest (blob_digest (config m))),
      prov_config_digest = show_digest (blob_digest (config m)),
      layer_digests = map (\<lambda>l. show_digest (blob_digest l)) (layers m),
      prov_env = ic_env cfg, prov_working_dir = ic_working_dir cfg, prov_entrypoint = ic_entrypoint cfg,
      prov_cmd = ic_cmd cfg, prov_user = ic_user cfg, prov_replaced_init = replaced_init adapted,
      prov_setuid_paths = map fst (setuid_paths rp)\<rparr>"

definition skip_notes :: "report \<Rightarrow> import_note list" where
  "skip_notes rp =
     (if devices_skipped rp \<noteq> [] then [DevicesSkipped (length (devices_skipped rp))] else []) @
     (if 0 < xattrs_dropped rp then [XattrsDropped (xattrs_dropped rp)] else [])"

definition read_layout ::
  "importer \<Rightarrow> import_source \<Rightarrow> string \<Rightarrow> host_fs \<Rightarrow> whole_error + string \<times> image_manifest \<times> image_config" where
  "read_layout imp source dir h =
     try_bind (open_layout (layout_at imp h) dir source) (\<lambda>root.
     try_bind (lift_err LayoutFailed (layout_resolve (layout_at imp h) root host_platform)) (\<lambda>m.
     try_bind (lift_err LayoutFailed (read_config (layout_at imp h) root (config m))) (\<lambda>cfg.
     Inr (root, m, cfg))))"

definition unpack_and_adapt ::
  "importer \<Rightarrow> string \<Rightarrow> image_manifest \<Rightarrow> host_fs \<Rightarrow> (whole_error + report \<times> adapt_report) \<times> host_fs" where
  "unpack_and_adapt imp root m h =
     (let tree = imp_work imp @ [''rootfs''] in
      case unpack_image tree limits_default (imp_pid imp) (map (layer_stream_of imp (layout_at imp h) root) (layers m)) h of
        (Inl e, h') \<Rightarrow> (Inl (UnpackFailed e), h')
      | (Inr rp, h') \<Rightarrow>
         (case adapt (imp_unreadable imp) tree (imp_agent imp) h' of
            (Inl e, h'') \<Rightarrow> (Inl (AdaptFailed e), h'')
          | (Inr adapted, h'') \<Rightarrow> (Inr (rp, adapted), h'')))"

definition import_image ::
  "machine \<Rightarrow> importer \<Rightarrow> string \<Rightarrow> string \<Rightarrow> import_source \<Rightarrow> string option \<Rightarrow> bool \<Rightarrow> host_fs \<times> image_store \<Rightarrow>
   (whole_error + import_outcome) \<times> host_fs \<times> image_store" where
  "import_image env imp images work source slug_given force = (\<lambda>(h, s).
     let slug = (case slug_given of Some n \<Rightarrow> n | None \<Rightarrow> slug_for (describe source)) in
     case imported_image_path images slug of
       Inl e \<Rightarrow> (Inl (ImportImage (BadSlug e)), h, s)
     | Inr target \<Rightarrow>
         if exists_at s target \<and> \<not> force then (Inl (ImportImage (AlreadyThere target)), h, s)
         else if checked_agent env = None then (Inl (ImportImage NoAgent), h, s)
         else case materialise_layout imp images source h of
             (Inl e, h1) \<Rightarrow> (Inl e, h1, s)
           | (Inr (dir, pulled), h1) \<Rightarrow>
              (case read_layout imp source dir h1 of
                 Inl e \<Rightarrow> (Inl e, h1, s)
               | Inr (root, m, cfg) \<Rightarrow>
                  (case unpack_and_adapt imp root m h1 of
                     (Inl e, h2) \<Rightarrow> (Inl e, h2, s)
                   | (Inr (rp, adapted), h2) \<Rightarrow>
                       let prov = provenance_of source pulled m cfg adapted rp in
                       (case pack_and_stamp env imp h2 (imp_work imp @ [''rootfs'']) images work slug (setuid_paths rp)
                               prov adapted s of
                          (Inl e, s') \<Rightarrow> (Inl (ImportImage e), h2, s')
                        | (Inr out, s') \<Rightarrow> (Inr (out\<lparr>out_notes := out_notes out @ skip_notes rp\<rparr>), h2, s')))))"

section \<open>A successful import\<close>

lemma apply_layers_available: "apply_layers ls w = (Inr u, w') \<Longrightarrow> None \<notin> set ls"
  by (induction ls arbitrary: w) (auto simp: seq_def fail_def split: option.splits prod.splits sum.splits)

lemma unpack_image_available: "unpack_image dst lim pid ls h = (Inr rp, h') \<Longrightarrow> None \<notin> set ls"
  by (auto simp: unpack_image_def seq_def split: prod.splits sum.splits dest: apply_layers_available)

lemma read_layout_Inr:
  assumes "read_layout imp source dir h = Inr (root, m, cfg)"
  shows "layout_resolve (layout_at imp h) root host_platform = Inr m"
    "read_config (layout_at imp h) root (config m) = Inr cfg"
  using assms by (auto simp: read_layout_def lift_err_def result_iff)

lemma layer_stream_of_Some:
  "layer_stream_of imp env root d = Some ls \<Longrightarrow>
   (\<exists>bs. blob env root d = Inr bs) \<and> compression_of (media_type d) \<in> {Some NoCompression, Some Gzip}"
  by (auto simp: layer_stream_of_def split: sum.splits option.splits compression.splits)

lemma sha256_file_Inr:
  "sha256_file env p s = (Inr h, s') \<Longrightarrow> s' = s \<and> (\<exists>bs. read_bytes env s p = Some bs \<and> h = sha256_of env bs)"
  by (auto simp: sha256_file_def split: if_splits option.splits)

text \<open>What a pack that succeeds has done.\<close>

lemma pack_steps_Inr:
  assumes "pack_steps env imp h tree target tmp slug modes prov adapted s = (Inr out, s')"
  obtains bs listing where "mksquashfs imp h tree (pseudo_text modes) = Some bs" "unsquashfs_ll imp bs = Some listing"
    "count_special_modes listing = length modes"
    "publish_imported_image env tmp target slug prov (AList.update tmp (RegularFile bs) s) = (Inr (), s')"
    "out_path out = target" "out_slug out = slug" "out_provenance out = prov"
    "\<exists>b. read_bytes env s' target = Some b \<and> out_sha256 out = sha256_of env b"
    "out_bytes out = (case file_len env s' target of Some n \<Rightarrow> n | None \<Rightarrow> 0)"
proof -
  obtain bs where bs: "mksquashfs imp h tree (pseudo_text modes) = Some bs"
    using assms by (auto simp: pack_steps_def fail_def split: option.splits)
  obtain listing where l: "unsquashfs_ll imp bs = Some listing" "count_special_modes listing = length modes"
    using assms bs by (auto simp: pack_steps_def fail_def seq_def modify_def split: option.splits if_splits)
  let ?publish = "publish_imported_image env tmp target slug prov (AList.update tmp (RegularFile bs) s)"
  obtain s1 where p: "?publish = (Inr (), s1)"
    using assms bs l by (cases ?publish)
      (auto simp: pack_steps_def fail_def seq_def modify_def split: if_splits sum.splits)
  obtain sha s2 where sha: "sha256_file env target s1 = (Inr sha, s2)"
    using assms bs l p by (cases "sha256_file env target s1")
      (auto simp: pack_steps_def fail_def seq_def modify_def gets_def split: if_splits sum.splits)
  from sha256_file_Inr [OF sha] obtain b where b: "s2 = s1" "read_bytes env s1 target = Some b" "sha = sha256_of env b"
    by blast
  show ?thesis
    by (rule that [OF bs l]) (use assms bs l p sha b in
      \<open>auto simp: pack_steps_def fail_def seq_def modify_def gets_def ret_def split: if_splits\<close>)
qed

lemma pack_and_stamp_Inr:
  assumes "pack_and_stamp env imp h tree images work slug special prov adapted s = (Inr out, s')"
  obtains target s1 where "imported_image_path images slug = Inr target" "s' = AList.delete (path_join work ''image.sqfs'') s1"
    "pack_steps env imp h tree target (path_join work ''image.sqfs'') slug (pack_modes special (created_tmp adapted)) prov adapted s
       = (Inr out, s1)"
  using assms by (auto simp: pack_and_stamp_def Let_def split: sum.splits prod.splits)

text \<open>The steps a successful import has taken.\<close>

lemma import_image_Inr:
  assumes "import_image env imp images work source slug_given force (h, s) = (Inr out, h', s')"
  obtains slug target dir pulled h1 root m cfg h2 rp adapted out1 where
    "slug = (case slug_given of Some n \<Rightarrow> n | None \<Rightarrow> slug_for (describe source))"
    "imported_image_path images slug = Inr target" "exists_at s target \<Longrightarrow> force"
    "materialise_layout imp images source h = (Inr (dir, pulled), h1)"
    "read_layout imp source dir h1 = Inr (root, m, cfg)"
    "unpack_image (imp_work imp @ [''rootfs'']) limits_default (imp_pid imp)
       (map (layer_stream_of imp (layout_at imp h1) root) (layers m)) h1 = (Inr rp, h2)"
    "adapt (imp_unreadable imp) (imp_work imp @ [''rootfs'']) (imp_agent imp) h2 = (Inr adapted, h')"
    "pack_and_stamp env imp h' (imp_work imp @ [''rootfs'']) images work slug (setuid_paths rp)
       (provenance_of source pulled m cfg adapted rp) adapted s = (Inr out1, s')"
    "out = out1\<lparr>out_notes := out_notes out1 @ skip_notes rp\<rparr>"
proof -
  let ?slug = "case slug_given of Some n \<Rightarrow> n | None \<Rightarrow> slug_for (describe source)"
  obtain target where t: "imported_image_path images ?slug = Inr target" "exists_at s target \<Longrightarrow> force" "checked_agent env \<noteq> None"
    using assms by (auto simp: import_image_def Let_def split: sum.splits if_splits)
  obtain dir pulled h1 where l: "materialise_layout imp images source h = (Inr (dir, pulled), h1)"
    using assms t by (auto simp: import_image_def Let_def split: sum.splits if_splits prod.splits)
  obtain root m cfg where r: "read_layout imp source dir h1 = Inr (root, m, cfg)"
    using assms t l by (auto simp: import_image_def Let_def split: sum.splits if_splits)
  obtain rp adapted h2 where u: "unpack_and_adapt imp root m h1 = (Inr (rp, adapted), h2)"
    using assms t l r by (auto simp: import_image_def Let_def split: sum.splits if_splits prod.splits)
  have h2: "h2 = h'"
    using assms t l r u by (auto simp: import_image_def Let_def split: sum.splits if_splits prod.splits)
  obtain out1 where p: "pack_and_stamp env imp h' (imp_work imp @ [''rootfs'']) images work ?slug (setuid_paths rp)
       (provenance_of source pulled m cfg adapted rp) adapted s = (Inr out1, s')"
      "out = out1\<lparr>out_notes := out_notes out1 @ skip_notes rp\<rparr>"
    using assms t l r u h2 by (auto simp: import_image_def Let_def split: sum.splits if_splits prod.splits)
  obtain h3 where a: "unpack_image (imp_work imp @ [''rootfs'']) limits_default (imp_pid imp)
       (map (layer_stream_of imp (layout_at imp h1) root) (layers m)) h1 = (Inr rp, h3)"
    "adapt (imp_unreadable imp) (imp_work imp @ [''rootfs'']) (imp_agent imp) h3 = (Inr adapted, h')"
    using u h2 by (auto simp: unpack_and_adapt_def Let_def split: sum.splits prod.splits)
  show ?thesis by (rule that [OF refl t(1,2) l r a p])
qed

text \<open>
  C23: an image that is imported is what was checked. The manifest was resolved for the host,
  from digests (\<open>resolved_manifest_is_vouched_for\<close>), and every layer was handed out by the
  layout, plain or gzip; those layers were unpacked, and the tree was adapted. The file under
  the image's name is what the packer made of that tree with exactly the modes that were kept
  off the disk, counted back in the listing of the image; its sidecar has the hash of its bytes,
  and the digests and configuration it records are those of that manifest. Without \<open>--force\<close>
  there was no image of the name before.
\<close>
theorem imported_image_is_accounted_for:
  assumes "import_image env imp images work source slug_given force (h, s) = (Inr out, h', s')"
    and "packed_at s (path_join work ''image.sqfs'') (out_path out)" and "\<not> broken env ReadStamp"
  shows "\<exists>h1 root m cfg rp h2 adapted bs listing.
    layout_resolve (layout_at imp h1) root host_platform = Inr m \<and>
    read_config (layout_at imp h1) root (config m) = Inr cfg \<and>
    (\<forall>l \<in> set (layers m). (\<exists>b. blob (layout_at imp h1) root l = Inr b) \<and>
       compression_of (media_type l) \<in> {Some NoCompression, Some Gzip}) \<and>
    unpack_image (imp_work imp @ [''rootfs'']) limits_default (imp_pid imp)
      (map (layer_stream_of imp (layout_at imp h1) root) (layers m)) h1 = (Inr rp, h2) \<and>
    adapt (imp_unreadable imp) (imp_work imp @ [''rootfs'']) (imp_agent imp) h2 = (Inr adapted, h') \<and>
    mksquashfs imp h' (imp_work imp @ [''rootfs''])
      (pseudo_text (pack_modes (setuid_paths rp) (created_tmp adapted))) = Some bs \<and>
    unsquashfs_ll imp bs = Some listing \<and>
    count_special_modes listing = length (pack_modes (setuid_paths rp) (created_tmp adapted)) \<and>
    map_of s' (out_path out) = Some (RegularFile bs) \<and> out_sha256 out = sha256_of env bs \<and> out_bytes out = length bs \<and>
    content_id env s' images (Imported (out_slug out)) = Inr (sha256_of env bs) \<and>
    image_path_in env s' images (Imported (out_slug out)) = Inr (out_path out) \<and>
    provenance_in env s' images (Imported (out_slug out)) = Inr (Some (out_provenance out)) \<and>
    prov_config_digest (out_provenance out) = show_digest (blob_digest (config m)) \<and>
    layer_digests (out_provenance out) = map (\<lambda>l. show_digest (blob_digest l)) (layers m) \<and>
    prov_env (out_provenance out) = ic_env cfg \<and> prov_working_dir (out_provenance out) = ic_working_dir cfg \<and>
    (map_of s (out_path out) \<noteq> None \<longrightarrow> force)"
  using assms(1)
proof (cases rule: import_image_Inr)
  case (1 slug target dir pulled h1 root m cfg h2 rp adapted out1)
  let ?tmp = "path_join work ''image.sqfs''"
  obtain target' s1 where p: "imported_image_path images slug = Inr target'" "s' = AList.delete ?tmp s1"
      "pack_steps env imp h' (imp_work imp @ [''rootfs'']) target' ?tmp slug (pack_modes (setuid_paths rp) (created_tmp adapted))
         (provenance_of source pulled m cfg adapted rp) adapted s = (Inr out1, s1)"
    using pack_and_stamp_Inr [OF 1(8)] by blast
  have target: "target' = target" using 1(2) p(1) by simp
  from pack_steps_Inr [OF p(3) [unfolded target]] obtain bs listing where
    q: "mksquashfs imp h' (imp_work imp @ [''rootfs'']) (pseudo_text (pack_modes (setuid_paths rp) (created_tmp adapted))) = Some bs"
      "unsquashfs_ll imp bs = Some listing"
      "count_special_modes listing = length (pack_modes (setuid_paths rp) (created_tmp adapted))"
      "publish_imported_image env ?tmp target slug (provenance_of source pulled m cfg adapted rp)
         (AList.update ?tmp (RegularFile bs) s) = (Inr (), s1)"
      "out_path out1 = target" "out_slug out1 = slug" "out_provenance out1 = provenance_of source pulled m cfg adapted rp"
      "\<exists>b. read_bytes env s1 target = Some b \<and> out_sha256 out1 = sha256_of env b"
      "out_bytes out1 = (case file_len env s1 target of Some n \<Rightarrow> n | None \<Rightarrow> 0)"
    by blast
  have packed: "packed_at (AList.update ?tmp (RegularFile bs) s) ?tmp target"
    using assms(2) q(5) 1(9) image_paths_apart [of ?tmp] by (simp add: packed_at_def image_meta_path_def)
  have out: "map_of s1 target = Some (RegularFile bs) \<and> content_id env s1 images (Imported slug) = Inr (sha256_of env bs) \<and>
      provenance_in env s1 images (Imported slug) = Inr (Some (provenance_of source pulled m cfg adapted rp)) \<and>
      image_path_in env s1 images (Imported slug) = Inr target"
    using publish_outcome [OF 1(2) _ packed q(4) assms(3), of bs] by simp
  have apart: "?tmp \<noteq> target" "?tmp \<noteq> image_meta_path target"
    using packed by (simp_all add: packed_at_def)
  have s': "map_of s' target = map_of s1 target" "map_of s' (image_meta_path target) = map_of s1 (image_meta_path target)"
    using apart by (simp_all add: p(2))
  have base: "base_file images (Imported slug) = target" by (rule base_file_imported [OF 1(2)])
  note same = image_path_cong [where b = "Imported slug" and images = images, unfolded base, OF s', of env]
  have prov: "provenance_in env s' images (Imported slug) = provenance_in env s1 images (Imported slug)"
    using s'(2) 1(2) by (simp add: read_provenance_def read_image_meta_def)
  have some: "layer_stream_of imp (layout_at imp h1) root l \<noteq> None" if "l \<in> set (layers m)" for l
    using unpack_image_available [OF 1(6)] that by (metis image_eqI set_map)
  have lays: "\<forall>l \<in> set (layers m). (\<exists>b. blob (layout_at imp h1) root l = Inr b) \<and>
       compression_of (media_type l) \<in> {Some NoCompression, Some Gzip}"
    using some layer_stream_of_Some by blast
  have sha: "out_sha256 out1 = sha256_of env bs" "out_bytes out1 = length bs"
    using q(8,9) out by (auto simp: read_bytes_def file_len_def)
  have fin: "out_path out = target" "out_slug out = slug" "out_sha256 out = sha256_of env bs" "out_bytes out = length bs"
      "out_provenance out = provenance_of source pulled m cfg adapted rp"
    using 1(9) q(5-7) sha by simp_all
  have prv: "prov_config_digest (out_provenance out) = show_digest (blob_digest (config m))"
      "layer_digests (out_provenance out) = map (\<lambda>l. show_digest (blob_digest l)) (layers m)"
      "prov_env (out_provenance out) = ic_env cfg" "prov_working_dir (out_provenance out) = ic_working_dir cfg"
    by (simp_all add: fin(5) provenance_of_def)
  have force: "map_of s target \<noteq> None \<longrightarrow> force" using 1(3) by (auto simp: exists_at_def)
  note r = read_layout_Inr [OF 1(5)]
  show ?thesis
    by (intro exI [of _ h1] exI [of _ root] exI [of _ m] exI [of _ cfg] exI [of _ rp] exI [of _ h2] exI [of _ adapted]
        exI [of _ bs] exI [of _ listing] conjI r lays 1(6,7) q(1-3) prv)
      (use out same prov fin s' force p(1) target in simp_all)
qed

text \<open>
  Only a pull knows the digest of the manifest: for a layout on disk and for an archive the
  provenance records the digest of the configuration as the manifest's, where the field is
  documented as the manifest's own.
\<close>

lemma manifest_digest_of_layout:
  assumes "materialise_layout imp images source h = (Inr (dir, pulled), h1)" and "\<forall>r. source \<noteq> Registry r"
  shows "manifest_digest (provenance_of source pulled m cfg adapted rp) = show_digest (blob_digest (config m))"
  using assms by (cases source) (auto simp: materialise_layout_def provenance_of_def split: option.splits prod.splits sum.splits)

section \<open>An import\<close>

text \<open>A layout with all its blobs, a packer of one byte, and the shell layer on the sample host.\<close>

definition whole_file :: "string \<Rightarrow> bytes option" where
  "whole_file p =
     (if p = ''l/oci-layout'' then Some [0]
      else if p = ''l/blobs/sha256/'' @ sample_hash [4] then Some [4]
      else if p = ''l/blobs/sha256/'' @ sample_hash [5] then Some [5]
      else sample_file p)"

definition whole_layout :: layout_env where
  "whole_layout = sample_layout
     \<lparr>stat_len := map_option length \<circ> whole_file, opens := (\<lambda>p. whole_file p \<noteq> None), contents := whole_file,
      reopened := whole_file, config_json := (\<lambda>_. Some \<lparr>r_inner = None, r_rootfs = None\<rparr>)\<rparr>"

definition sample_importer :: importer where
  "sample_importer =
     \<lparr>pull = (\<lambda>_ _. None), layout_at = (\<lambda>_. whole_layout),
      tar_entries = (\<lambda>_ _. case shell_layer of Some ls \<Rightarrow> ls | None \<Rightarrow> Inl ''''), tarball = (\<lambda>_. None),
      mksquashfs = (\<lambda>_ _ txt. if txt = [] then None else Some [9]),
      unsquashfs_ll = (\<lambda>_. Some ''drwxrwxrwt root/root 0 squashfs-root/tmp''),
      imp_sha256_of = id, imp_pid = 7, imp_work = [''home''],
      imp_agent = ([7, 7], O755), imp_unreadable = (\<lambda>_. False)\<rparr>"

definition sample_import :: "(whole_error + import_outcome) \<times> host_fs \<times> image_store" where
  "sample_import =
     import_image sample_machine sample_importer ''/i'' ''/w'' (OciLayoutDir ''l'') (Some ''alpine'') False (sample_host, [])"

lemma sample_import_runs:
  "case sample_import of
     (Inr out, _, s) \<Rightarrow> out_path out = sample_image \<and> out_slug out = ''alpine'' | _ \<Rightarrow> False"
  by code_simp

theorem imported_image_is_accounted_for_witness:
  "\<exists>out h' s'. sample_import = (Inr out, h', s') \<and>
     map_of s' sample_image = Some (RegularFile [9]) \<and>
     content_id sample_machine s' ''/i'' (Imported ''alpine'') = Inr (map byte_char [9])"
proof -
  obtain out h' s' where r: "sample_import = (Inr out, h', s')" "out_path out = sample_image" "out_slug out = ''alpine''"
    using sample_import_runs by (auto split: prod.splits sum.splits)
  have "packed_at [] (path_join ''/w'' ''image.sqfs'') (out_path out)"
    unfolding r(2) by code_simp
  moreover have "\<not> broken sample_machine ReadStamp" by (simp add: sample_machine_def)
  ultimately obtain hs tree lines bs where bs: "mksquashfs sample_importer hs tree lines = Some bs" "map_of s' (out_path out) = Some (RegularFile bs)"
      "content_id sample_machine s' ''/i'' (Imported (out_slug out)) = Inr (sha256_of sample_machine bs)"
    using imported_image_is_accounted_for [OF r(1) [unfolded sample_import_def]] by blast
  from bs(1) have "bs = [9]" by (simp add: sample_importer_def split: if_splits)
  moreover have "sha256_of sample_machine = map byte_char" by (simp add: sample_machine_def)
  ultimately show ?thesis using r bs(2,3) by metis
qed

end
