(* ===== verification/Slots.thy ===== *)
theory Slots
  imports Broker_Policy
begin

text \<open>
  \<open>core/src/net.rs\<close>: the pool of network slots. A slot's names and addresses follow from its
  index; a run claims one by locking the slot's file, which the kernel unlocks when the run's
  descriptor closes. The state is what is at each lockfile's path and which claims are held.
\<close>

section \<open>Slot parameters\<close>

definition DEFAULT_SLOT_COUNT :: nat where "DEFAULT_SLOT_COUNT = 12"
definition DEFAULT_FILTERED_SLOTS :: nat where "DEFAULT_FILTERED_SLOTS = 4"
definition MAX_SLOT_COUNT :: nat where "MAX_SLOT_COUNT = 250"
definition IFNAMSIZ :: nat where "IFNAMSIZ = 16"

definition BROKER_TCP_PORTS :: "u16 list" where
  "BROKER_TCP_PORTS = [BROKER_SOCKS_PORT, BROKER_HTTP_PORT, BROKER_INJECT_PORT, BROKER_DNS_PORT]"

definition LEGACY_BROKER_TCP_PORTS :: "u16 list" where
  "LEGACY_BROKER_TCP_PORTS = [BROKER_SOCKS_PORT, BROKER_HTTP_PORT, BROKER_DNS_PORT]"

datatype slot_error =
    TapNameTooLong string | NoOctet nat | BadRange nat nat | NoneUsable nat | AllInUse nat nat
  | NoManifest | NoFilteredSlots nat | NoCredentialPort "u16 list" nat nat | ForwardingOn string

definition tap_name :: "nat \<Rightarrow> slot_error + string" where
  "tap_name i =
     (let name = ''isopod-tap'' @ show_nat i in
      if IFNAMSIZ \<le> length name then Inl (TapNameTooLong name) else Inr name)"

definition octet :: "nat \<Rightarrow> slot_error + u8" where
  "octet i = (if i < 256 then Inr (word_of_nat i) else Inl (NoOctet i))"

definition host_ip :: "nat \<Rightarrow> string" where
  "host_ip i = ''10.107.'' @ show_nat i @ ''.1''"

definition guest_ip :: "nat \<Rightarrow> string" where
  "guest_ip i = ''10.107.'' @ show_nat i @ ''.2''"

definition host_cidr :: "nat \<Rightarrow> string" where
  "host_cidr i = ''10.107.'' @ show_nat i @ ''.1/30''"

definition guest_cidr :: "nat \<Rightarrow> string" where
  "guest_cidr i = ''10.107.'' @ show_nat i @ ''.2/30''"

text \<open>\<open>{i:02x}\<close>\<close>

definition hex2 :: "nat \<Rightarrow> string" where
  "hex2 n = replicate (2 - length (show_hex n)) (CHR ''0'') @ show_hex n"

definition guest_mac :: "nat \<Rightarrow> string" where
  "guest_mac i = ''06:00:0a:6b:'' @ hex2 i @ '':02''"

section \<open>The manifest\<close>

record manifest =
  version :: nat
  slot_count :: nat
  default_iface :: string
  created_unix :: nat
  allow_lan_egress :: bool
  m_filtered_from :: "nat option"
  m_broker_tcp_ports :: "u16 list option"
  m_gateway_dns_port :: "u16 option"

definition manifest_new :: "nat \<Rightarrow> string \<Rightarrow> nat \<Rightarrow> bool \<Rightarrow> nat \<Rightarrow> manifest" where
  "manifest_new count iface created lan from =
     (let filtered = from < count in
      \<lparr>version = 1, slot_count = count, default_iface = iface, created_unix = created,
       allow_lan_egress = lan,
       m_filtered_from = (if filtered then Some from else None),
       m_broker_tcp_ports = (if filtered then Some BROKER_TCP_PORTS else None),
       m_gateway_dns_port = (if 0 < from then Some BROKER_DNS_PORT else None)\<rparr>)"

definition broker_tcp_ports :: "manifest \<Rightarrow> u16 list" where
  "broker_tcp_ports m =
     (case m_broker_tcp_ports m of Some ps \<Rightarrow> ps | None \<Rightarrow> LEGACY_BROKER_TCP_PORTS)"

definition supports_credential_endpoint :: "manifest \<Rightarrow> bool" where
  "supports_credential_endpoint m \<longleftrightarrow> BROKER_INJECT_PORT \<in> set (broker_tcp_ports m)"

definition filtered_from :: "manifest \<Rightarrow> nat" where
  "filtered_from m =
     (case m_filtered_from m of
        Some f \<Rightarrow> if f \<le> slot_count m then f else slot_count m
      | None \<Rightarrow> slot_count m)"

definition filtered_count :: "manifest \<Rightarrow> nat" where
  "filtered_count m = slot_count m - filtered_from m"

definition is_filtered :: "manifest \<Rightarrow> nat \<Rightarrow> bool" where
  "is_filtered m i \<longleftrightarrow> filtered_from m \<le> i \<and> i < slot_count m"

definition require_credential_endpoint :: "manifest option \<Rightarrow> slot_error + unit" where
  "require_credential_endpoint man =
     (case man of
        None \<Rightarrow> Inl NoManifest
      | Some m \<Rightarrow>
          if supports_credential_endpoint m then Inr ()
          else if filtered_count m = 0 then Inr ()
          else let total = min (slot_count m) MAX_SLOT_COUNT; filtered = min (filtered_count m) total in
            Inl (NoCredentialPort (broker_tcp_ports m) total filtered))"

section \<open>The kernel's forwarding guard\<close>

definition tap_forwarding_proc :: "string \<Rightarrow> string" where
  "tap_forwarding_proc tap = ''/proc/sys/net/ipv4/conf/'' @ tap @ ''/forwarding''"

definition require_forwarding_off :: "string \<Rightarrow> string option \<Rightarrow> slot_error + unit" where
  "require_forwarding_off tap raw =
     (if map_option trim raw = Some ''0'' then Inr () else Inl (ForwardingOn tap))"

text \<open>\<open>proc\<close>: what reading a path answers.\<close>

definition require_filtered_kernel_guard :: "(string \<Rightarrow> string option) \<Rightarrow> nat \<Rightarrow> slot_error + unit" where
  "require_filtered_kernel_guard proc i =
     try_bind (tap_name i) (\<lambda>tap. require_forwarding_off tap (proc (tap_forwarding_proc tap)))"

fun guard_all :: "(string \<Rightarrow> string option) \<Rightarrow> nat list \<Rightarrow> slot_error + unit" where
  "guard_all proc [] = Inr ()"
| "guard_all proc (i # is) = try_bind (require_filtered_kernel_guard proc i) (\<lambda>_. guard_all proc is)"

definition require_filtered_pool_guard :: "(string \<Rightarrow> string option) \<Rightarrow> manifest option \<Rightarrow> slot_error + unit" where
  "require_filtered_pool_guard proc man =
     (case man of
        None \<Rightarrow> Inl NoManifest
      | Some m \<Rightarrow> guard_all proc [filtered_from m ..< min (slot_count m) MAX_SLOT_COUNT])"

fun all_taps_present :: "(string \<Rightarrow> bool) \<Rightarrow> nat list \<Rightarrow> slot_error + bool" where
  "all_taps_present present [] = Inr True"
| "all_taps_present present (i # is) =
     try_bind (tap_name i) (\<lambda>name. if \<not> present name then Inr False else all_taps_present present is)"

section \<open>Claims\<close>

text \<open>
  What is at a lockfile's path. Opened for writing with \<open>O_NOFOLLOW\<close> and \<open>O_NONBLOCK\<close>: a pipe
  opens only when it has a reader, and then is not a regular file.
\<close>

datatype lock_path = Missing | LockFile | Pipe bool | SymLink | DirectoryHere | OtherNode

datatype lock_error = OpenFailed | NotRegular | FlockFailed

record slot =
  slot_index :: nat
  slot_filtered :: bool

record pool =
  lock_at :: "nat \<Rightarrow> lock_path"
  held :: "slot list"

text \<open>Failures of the kernel at a slot: of the open, and of the lock for another reason than being held.\<close>

record lock_env =
  open_fails :: "nat \<Rightarrow> bool"
  flock_fails :: "nat \<Rightarrow> bool"

definition claim_lock :: "lock_env \<Rightarrow> nat \<Rightarrow> pool \<Rightarrow> (lock_error + bool) \<times> pool" where
  "claim_lock env i p =
     (if open_fails env i \<or> lock_at p i \<in> {Pipe False, SymLink, DirectoryHere} then (Inl OpenFailed, p)
      else let p' = (if lock_at p i = Missing then p\<lparr>lock_at := (lock_at p)(i := LockFile)\<rparr> else p) in
        if lock_at p' i \<noteq> LockFile then (Inl NotRegular, p')
        else if i \<in> slot_index ` set (held p') then (Inr False, p')
        else if flock_fails env i then (Inl FlockFailed, p')
        else (Inr True, p'))"

definition try_claim_slot :: "lock_env \<Rightarrow> nat \<Rightarrow> bool \<Rightarrow> pool \<Rightarrow> (lock_error + slot option) \<times> pool" where
  "try_claim_slot env i filtered p =
     (case claim_lock env i p of
        (Inl e, p') \<Rightarrow> (Inl e, p')
      | (Inr False, p') \<Rightarrow> (Inr None, p')
      | (Inr True, p') \<Rightarrow>
          (let s = \<lparr>slot_index = i, slot_filtered = filtered\<rparr> in (Inr (Some s), p'\<lparr>held := s # held p'\<rparr>)))"

text \<open>The scan; \<open>unusable\<close> counts the slots whose lockfile could not be opened or locked.\<close>

fun scan :: "lock_env \<Rightarrow> bool \<Rightarrow> nat \<Rightarrow> nat \<Rightarrow> nat list \<Rightarrow> pool \<Rightarrow> (slot_error + slot) \<times> pool" where
  "scan env filtered n unusable [] p =
     (if unusable \<noteq> 0 \<and> unusable = n then (Inl (NoneUsable n), p) else (Inl (AllInUse n unusable), p))"
| "scan env filtered n unusable (i # is) p =
     (case try_bind (tap_name i) (\<lambda>_. octet i) of
        Inl e \<Rightarrow> (Inl e, p)
      | Inr _ \<Rightarrow>
         (case try_claim_slot env i filtered p of
            (Inr (Some s), p') \<Rightarrow> (Inr s, p')
          | (Inr None, p') \<Rightarrow> scan env filtered n unusable is p'
          | (Inl e, p') \<Rightarrow> scan env filtered n (unusable + 1) is p'))"

definition claim_range_in :: "lock_env \<Rightarrow> nat \<Rightarrow> nat \<Rightarrow> bool \<Rightarrow> pool \<Rightarrow> (slot_error + slot) \<times> pool" where
  "claim_range_in env lo hi filtered p =
     (if hi = 0 \<or> MAX_SLOT_COUNT < hi \<or> hi < lo then (Inl (BadRange lo hi), p)
      else scan env filtered (hi - lo) 0 [lo..<hi] p)"

definition claim :: "lock_env \<Rightarrow> manifest option \<Rightarrow> pool \<Rightarrow> (slot_error + slot) \<times> pool" where
  "claim env man p =
     (case man of
        None \<Rightarrow> (Inl NoManifest, p)
      | Some m \<Rightarrow> claim_range_in env 0 (filtered_from m) False p)"

definition claim_filtered :: "lock_env \<Rightarrow> manifest option \<Rightarrow> pool \<Rightarrow> (slot_error + slot) \<times> pool" where
  "claim_filtered env man p =
     (case man of
        None \<Rightarrow> (Inl NoManifest, p)
      | Some m \<Rightarrow>
          if filtered_count m = 0 then (Inl (NoFilteredSlots (slot_count m + DEFAULT_FILTERED_SLOTS)), p)
          else claim_range_in env (filtered_from m) (slot_count m) True p)"

text \<open>Dropping a slot, or the death of its process: the kernel closes the descriptor.\<close>

definition release :: "slot \<Rightarrow> pool \<Rightarrow> pool" where
  "release s p = p\<lparr>held := remove1 s (held p)\<rparr>"

section \<open>What a scan finds\<close>

definition usable :: "lock_env \<Rightarrow> pool \<Rightarrow> nat \<Rightarrow> bool" where
  "usable env p i \<longleftrightarrow>
     \<not> open_fails env i \<and> lock_at p i \<in> {Missing, LockFile} \<and> (i \<in> slot_index ` set (held p) \<or> \<not> flock_fails env i)"

definition available :: "lock_env \<Rightarrow> pool \<Rightarrow> nat \<Rightarrow> bool" where
  "available env p i \<longleftrightarrow> usable env p i \<and> i \<notin> slot_index ` set (held p)"

text \<open>The lockfiles a scan leaves behind.\<close>

definition touched :: "pool \<Rightarrow> pool \<Rightarrow> bool" where
  "touched p p' \<longleftrightarrow>
     held p' = held p \<and> (\<forall>i. lock_at p' i = lock_at p i \<or> lock_at p i = Missing \<and> lock_at p' i = LockFile)"

lemma touched_refl [simp]: "touched p p"
  by (simp add: touched_def)

lemma touched_trans: "touched p p' \<Longrightarrow> touched p' p'' \<Longrightarrow> touched p p''"
  unfolding touched_def by (metis lock_path.distinct(1))

lemma touched_usable: "touched p p' \<Longrightarrow> usable env p' i = usable env p i"
  unfolding touched_def usable_def by (metis insertE insertI1 insert_commute singletonD)

lemma touched_available: "touched p p' \<Longrightarrow> available env p' i = available env p i"
  using touched_usable [of p p' env i] by (auto simp: available_def touched_def)

lemma claim_lock_eq:
  obtains p' where "touched p p'"
    "claim_lock env i p =
       (if available env p i then Inr True else if usable env p i then Inr False
        else fst (claim_lock env i p), p')"
    "available env p i \<Longrightarrow> lock_at p' i = LockFile"
    "\<not> usable env p i \<Longrightarrow> isl (fst (claim_lock env i p))"
proof (rule that [of "snd (claim_lock env i p)"])
  show "touched p (snd (claim_lock env i p))"
    by (cases "lock_at p i") (auto simp: claim_lock_def touched_def Let_def)
  show "claim_lock env i p =
       (if available env p i then Inr True else if usable env p i then Inr False
        else fst (claim_lock env i p), snd (claim_lock env i p))"
    by (cases "lock_at p i") (auto simp: claim_lock_def usable_def available_def Let_def)
  show "available env p i \<Longrightarrow> lock_at (snd (claim_lock env i p)) i = LockFile"
    by (cases "lock_at p i") (auto simp: claim_lock_def usable_def available_def Let_def)
  show "\<not> usable env p i \<Longrightarrow> isl (fst (claim_lock env i p))"
    by (cases "lock_at p i") (auto simp: claim_lock_def usable_def Let_def)
qed

lemma try_claim_slot_eq:
  obtains p' r where "touched p p'"
    "try_claim_slot env i filtered p =
       (if available env p i
        then (Inr (Some \<lparr>slot_index = i, slot_filtered = filtered\<rparr>), p'\<lparr>held := \<lparr>slot_index = i, slot_filtered = filtered\<rparr> # held p\<rparr>)
        else if usable env p i then (Inr None, p') else (Inl r, p'))"
    "available env p i \<Longrightarrow> lock_at p' i = LockFile"
proof (rule claim_lock_eq [of p env i])
  fix p' assume p': "touched p p'"
    "claim_lock env i p =
       (if available env p i then Inr True else if usable env p i then Inr False
        else fst (claim_lock env i p), p')"
    "available env p i \<Longrightarrow> lock_at p' i = LockFile" "\<not> usable env p i \<Longrightarrow> isl (fst (claim_lock env i p))"
  obtain e where "\<not> usable env p i \<Longrightarrow> fst (claim_lock env i p) = Inl e" using p'(4) by (metis isl_def)
  with p' show thesis
    by (intro that [of p' e]) (auto simp: try_claim_slot_def touched_def available_def Let_def split: if_splits)
qed

lemma slot_parameters_ok: "i < MAX_SLOT_COUNT \<Longrightarrow> \<not> isl (try_bind (tap_name i) (\<lambda>_. octet i))"
proof -
  assume i: "i < MAX_SLOT_COUNT"
  have "length (show_nat i) \<le> 3"
    using i show_nat.simps [of i] show_nat.simps [of "i div 10"] show_nat.simps [of "i div 10 div 10"]
    by (auto simp: MAX_SLOT_COUNT_def)
  then show ?thesis using i by (simp add: tap_name_def octet_def IFNAMSIZ_def MAX_SLOT_COUNT_def Let_def try_bind_simps)
qed

abbreviation new_slot :: "bool \<Rightarrow> nat \<Rightarrow> slot" where
  "new_slot filtered i \<equiv> \<lparr>slot_index = i, slot_filtered = filtered\<rparr>"

lemma scan_eq:
  assumes "list_all (\<lambda>i. i < MAX_SLOT_COUNT) is"
  shows "\<exists>p'. touched p p' \<and> scan env filtered n unusable is p =
    (case List.find (available env p) is of
       Some i \<Rightarrow> (Inr (new_slot filtered i), p'\<lparr>held := new_slot filtered i # held p\<rparr>)
     | None \<Rightarrow>
         (let u = unusable + length (filter (\<lambda>i. \<not> usable env p i) is) in
          (Inl (if u \<noteq> 0 \<and> u = n then NoneUsable n else AllInUse n u), p'))) \<and>
    (\<forall>i. List.find (available env p) is = Some i \<longrightarrow> lock_at p' i = LockFile)"
  using assms
proof (induction "is" arbitrary: unusable p)
  case Nil
  show ?case by (intro exI [of _ p]) (simp add: Let_def)
next
  case (Cons i "is")
  have ok: "\<not> isl (try_bind (tap_name i) (\<lambda>_. octet i))" using Cons.prems by (intro slot_parameters_ok) simp
  then obtain x where x: "try_bind (tap_name i) (\<lambda>_. octet i) = Inr x" by (cases "try_bind (tap_name i) (\<lambda>_. octet i)") auto
  obtain p1 r where p1: "touched p p1" and tc: "try_claim_slot env i filtered p =
       (if available env p i then (Inr (Some (new_slot filtered i)), p1\<lparr>held := new_slot filtered i # held p\<rparr>)
        else if usable env p i then (Inr None, p1) else (Inl r, p1))"
    and lock: "available env p i \<Longrightarrow> lock_at p1 i = LockFile"
    using try_claim_slot_eq [of p env i filtered] by blast
  show ?case
  proof (cases "available env p i")
    case True
    then show ?thesis using p1 tc lock x by (intro exI [of _ p1]) simp
  next
    case False
    let ?u = "if usable env p i then unusable else unusable + 1"
    have "scan env filtered n unusable (i # is) p = scan env filtered n ?u is p1"
      using False tc x by simp
    moreover obtain p2 where p2: "touched p1 p2 \<and> scan env filtered n ?u is p1 =
        (case List.find (available env p1) is of
           Some i \<Rightarrow> (Inr (new_slot filtered i), p2\<lparr>held := new_slot filtered i # held p1\<rparr>)
         | None \<Rightarrow>
             (let u = ?u + length (filter (\<lambda>i. \<not> usable env p1 i) is) in
              (Inl (if u \<noteq> 0 \<and> u = n then NoneUsable n else AllInUse n u), p2))) \<and>
        (\<forall>i. List.find (available env p1) is = Some i \<longrightarrow> lock_at p2 i = LockFile)"
      using Cons.IH [of p1 ?u] Cons.prems by auto
    moreover have same: "available env p1 = available env p" "usable env p1 = usable env p"
      using touched_available [OF p1] touched_usable [OF p1] by blast+
    moreover have "held p1 = held p" using p1 by (simp add: touched_def)
    moreover have "touched p p2" using p1 p2 touched_trans by blast
    moreover have "unusable + length (filter (\<lambda>i. \<not> usable env p i) (i # is)) =
        ?u + length (filter (\<lambda>i. \<not> usable env p i) is)" by simp
    ultimately show ?thesis using False
      by (intro exI [of _ p2]) (simp only: List.find.simps if_False simp_thms, blast)
  qed
qed

text \<open>
  A claim takes the lowest slot of its range that can be had. It fails only if there is
  none, and then says which of two things is wrong: every slot of the range is unusable, or
  some are only in use, with the number that are not usable at all. What is in the place of
  one lockfile never costs another slot.
\<close>
theorem claim_takes_lowest_free:
  assumes "lo \<le> hi" "0 < hi" "hi \<le> MAX_SLOT_COUNT"
  shows "fst (claim_range_in env lo hi filtered p) =
    (case List.find (available env p) [lo..<hi] of
       Some i \<Rightarrow> Inr (new_slot filtered i)
     | None \<Rightarrow>
         (let u = length (filter (\<lambda>i. \<not> usable env p i) [lo..<hi]) in
          Inl (if u \<noteq> 0 \<and> u = hi - lo then NoneUsable (hi - lo) else AllInUse (hi - lo) u)))"
proof -
  have "list_all (\<lambda>i. i < MAX_SLOT_COUNT) [lo..<hi]" using assms(3) by (simp add: list_all_iff)
  from scan_eq [OF this, of p env filtered "hi - lo" 0] assms show ?thesis
    by (auto simp: claim_range_in_def Let_def split: option.splits)
qed

section \<open>Exclusive claims\<close>

text \<open>
  Any interleaving of claims, whatever manifest each of them reads, of releases and deaths,
  and of anything being put in place of a lockfile that is not held.
\<close>

inductive pool_step :: "(manifest \<Rightarrow> bool) \<Rightarrow> pool \<Rightarrow> pool \<Rightarrow> bool" for known where
  public: "(\<And>m. man = Some m \<Longrightarrow> known m) \<Longrightarrow> claim env man p = (r, p') \<Longrightarrow> pool_step known p p'"
| filtered: "(\<And>m. man = Some m \<Longrightarrow> known m) \<Longrightarrow> claim_filtered env man p = (r, p') \<Longrightarrow> pool_step known p p'"
| release: "s \<in> set (held p) \<Longrightarrow> pool_step known p (release s p)"
| plant: "i \<notin> slot_index ` set (held p) \<Longrightarrow> pool_step known p (p\<lparr>lock_at := (lock_at p)(i := k)\<rparr>)"

definition pool_inv :: "(manifest \<Rightarrow> bool) \<Rightarrow> pool \<Rightarrow> bool" where
  "pool_inv known p \<longleftrightarrow>
     distinct (map slot_index (held p)) \<and>
     (\<forall>s \<in> set (held p). slot_index s < MAX_SLOT_COUNT \<and> lock_at p (slot_index s) = LockFile \<and>
        (\<exists>m. known m \<and> (if slot_filtered s then is_filtered m (slot_index s) else slot_index s < filtered_from m)))"

lemma pool_inv_touched: "pool_inv known p \<Longrightarrow> touched p p' \<Longrightarrow> pool_inv known p'"
  unfolding pool_inv_def touched_def by (metis lock_path.distinct(1))

lemma claim_range_inv:
  assumes "pool_inv known p" "claim_range_in env lo hi filtered p = (r, p')" "known m"
    and "\<And>i. lo \<le> i \<Longrightarrow> i < hi \<Longrightarrow> (if filtered then is_filtered m i else i < filtered_from m)"
  shows "pool_inv known p'"
proof (cases "hi = 0 \<or> MAX_SLOT_COUNT < hi \<or> hi < lo")
  case True
  then have "p' = p" using assms(2) by (auto simp: claim_range_in_def)
  then show ?thesis using assms(1) by simp
next
  case False
  then have "list_all (\<lambda>i. i < MAX_SLOT_COUNT) [lo..<hi]" by (simp add: list_all_iff)
  from scan_eq [OF this, of p env filtered "hi - lo" 0] False assms(2)
  obtain p1 where p1: "touched p p1" and r: "(r, p') =
    (case List.find (available env p) [lo..<hi] of
       Some i \<Rightarrow> (Inr (new_slot filtered i), p1\<lparr>held := new_slot filtered i # held p\<rparr>)
     | None \<Rightarrow> (let u = 0 + length (filter (\<lambda>i. \<not> usable env p i) [lo..<hi]) in
          (Inl (if u \<noteq> 0 \<and> u = hi - lo then NoneUsable (hi - lo) else AllInUse (hi - lo) u), p1)))"
    and lock: "\<forall>i. List.find (available env p) [lo..<hi] = Some i \<longrightarrow> lock_at p1 i = LockFile"
    by (auto simp: claim_range_in_def)
  note inv1 = pool_inv_touched [OF assms(1) p1]
  show ?thesis
  proof (cases "List.find (available env p) [lo..<hi]")
    case None
    then show ?thesis using r inv1 by (simp add: Let_def)
  next
    case (Some i)
    then obtain j where "j < hi - lo" "available env p ([lo..<hi] ! j)" "i = [lo..<hi] ! j"
      by (auto simp: find_Some_iff)
    then have i: "lo \<le> i" "i < hi" "available env p i" by auto
    then have "i \<notin> slot_index ` set (held p1)" using p1 by (simp add: available_def touched_def)
    then show ?thesis
      using r Some inv1 lock i(1,2) False assms(3) assms(4) [OF i(1,2)] p1
      by (auto simp: pool_inv_def touched_def)
  qed
qed

lemma pool_inv_step: "pool_inv known p \<Longrightarrow> pool_step known p p' \<Longrightarrow> pool_inv known p'"
proof (erule pool_step.cases)
  fix man env q r q'
  assume "pool_inv known p" "p = q" "p' = q'" "\<And>m. man = Some m \<Longrightarrow> known m" "claim env man q = (r, q')"
  then show ?thesis
    using claim_range_inv [of known p env 0 _ False r p']
    by (cases man) (auto simp: claim_def)
next
  fix man env q r q'
  assume *: "pool_inv known p" "p = q" "p' = q'" "\<And>m. man = Some m \<Longrightarrow> known m" "claim_filtered env man q = (r, q')"
  show ?thesis
  proof (cases man)
    case (Some m)
    show ?thesis
    proof (cases "filtered_count m = 0")
      case False
      then have "claim_range_in env (filtered_from m) (slot_count m) True p = (r, p')"
        using * Some by (simp add: claim_filtered_def)
      then show ?thesis by (rule claim_range_inv [OF *(1) _ *(4) [OF Some]]) (simp add: is_filtered_def)
    qed (use * Some in \<open>simp add: claim_filtered_def\<close>)
  qed (use * in \<open>simp add: claim_filtered_def\<close>)
next
  fix s q assume *: "pool_inv known p" "p = q" "p' = release s q" "s \<in> set (held q)"
  have "set (remove1 s (held p)) \<subseteq> set (held p)" by (rule set_remove1_subset)
  moreover have "distinct (map slot_index (remove1 s (held p)))"
    using *(1) by (simp add: pool_inv_def distinct_map distinct_remove1 inj_on_diff)
  moreover have "held p' = remove1 s (held p)" "lock_at p' = lock_at p" using * by (simp_all add: release_def)
  ultimately show ?thesis using *(1) unfolding pool_inv_def by (metis subsetD)
next
  fix i q k assume "pool_inv known p" "p = q" "p' = q\<lparr>lock_at := (lock_at q)(i := k)\<rparr>" "i \<notin> slot_index ` set (held q)"
  then show ?thesis by (fastforce simp: pool_inv_def)
qed

interpretation slots: transition_system "\<lambda>p. held p = []" "pool_step known" "pool_inv known" for known
proof
  show "pool_inv known p" if "held p = []" for p
    using that by (simp add: pool_inv_def)
qed (rule pool_inv_step)


section \<open>Addresses\<close>

definition slot_host :: "nat \<Rightarrow> ipv4" where "slot_host i = Ipv4 10 107 (word_of_nat i) 1"

definition slot_guest :: "nat \<Rightarrow> ipv4" where "slot_guest i = Ipv4 10 107 (word_of_nat i) 2"

lemma show_nat_digits_const: "show_nat 10 = ''10''" "show_nat 107 = ''107''" "show_nat 1 = ''1''" "show_nat 2 = ''2''"
  by code_simp+

lemma slot_ip_text:
  assumes "i < 256"
  shows "host_ip i = show_ipv4 (slot_host i)" "guest_ip i = show_ipv4 (slot_guest i)"
proof -
  have "unat (word_of_nat i :: u8) = i" using assms by (simp add: unat_of_nat)
  then show "host_ip i = show_ipv4 (slot_host i)" "guest_ip i = show_ipv4 (slot_guest i)"
    by (simp_all add: host_ip_def guest_ip_def slot_host_def slot_guest_def show_ipv4_def show_nat_digits_const del: One_nat_def)
qed

lemma parse_slot_ip:
  assumes "i < 256"
  shows "parse_ip (host_ip i) = Some (V4 (slot_host i))" "parse_ip (guest_ip i) = Some (V4 (slot_guest i))"
  using parse_show_ipv4 [of "slot_host i"] parse_show_ipv4 [of "slot_guest i"]
  by (simp_all add: slot_ip_text [OF assms])

lemma hex2_inj: "i < 256 \<Longrightarrow> j < 256 \<Longrightarrow> hex2 i = hex2 j \<Longrightarrow> i = j"
proof -
  have h: "hex2 n = [hex_digit (n div 16), hex_digit (n mod 16)]" if "n < 256" for n
  proof (cases "n < 16")
    case True
    moreover have "hex_digit 0 = CHR ''0''" by code_simp
    ultimately show ?thesis by (simp add: hex2_def show_hex.simps [of n])
  next
    case False
    then show ?thesis using that by (simp add: hex2_def show_hex.simps [of n] show_hex.simps [of "n div 16"])
  qed
  have d: "x = y" if "hex_digit x = hex_digit y" "x < 16" "y < 16" for x y
    using that by (metis hex_val_hex_digit option.inject)
  assume ij: "i < 256" "j < 256" "hex2 i = hex2 j"
  then have "hex_digit (i div 16) = hex_digit (j div 16)" "hex_digit (i mod 16) = hex_digit (j mod 16)"
    using h [of i] h [of j] by simp_all
  then have "i div 16 = j div 16" "i mod 16 = j mod 16" using ij(1,2) by (simp_all add: d less_mult_imp_div_less)
  then show "i = j" by (metis div_mult_mod_eq)
qed

text \<open>
  A slot's addresses are its own and cannot be dialled. For every slot index, the printed
  gateway and guest addresses parse back to 10.107.i.1 and 10.107.i.2, the broker derives the
  one from the other as it does for the peer it admits, and neither passes the dial floor under
  any setting; two slots never share a gateway, a guest address, a hardware address or a tap.
\<close>
theorem slot_addresses:
  assumes "i < MAX_SLOT_COUNT"
  shows "(\<exists>gw. parse_ip (host_ip i) = Some (V4 gw) \<and> parse_ip (guest_ip i) = Some (V4 (guest_for_gateway gw)) \<and>
      \<not> is_dialable (V4 gw) lan \<and> \<not> is_dialable (V4 (guest_for_gateway gw)) lan) \<and>
    (\<forall>j < MAX_SLOT_COUNT. j \<noteq> i \<longrightarrow>
      host_ip i \<noteq> host_ip j \<and> guest_ip i \<noteq> guest_ip j \<and> guest_mac i \<noteq> guest_mac j \<and> tap_name i \<noteq> tap_name j)"
proof (intro conjI allI impI)
  have i: "i < 256" using assms by (simp add: MAX_SLOT_COUNT_def)
  have "guest_for_gateway (slot_host i) = slot_guest i" by (simp add: slot_host_def slot_guest_def)
  moreover have "\<not> is_dialable (V4 (slot_host i)) lan" "\<not> is_dialable (V4 (slot_guest i)) lan"
    by (simp_all add: is_dialable4_def slot_host_def slot_guest_def)
  ultimately show "\<exists>gw. parse_ip (host_ip i) = Some (V4 gw) \<and> parse_ip (guest_ip i) = Some (V4 (guest_for_gateway gw)) \<and>
      \<not> is_dialable (V4 gw) lan \<and> \<not> is_dialable (V4 (guest_for_gateway gw)) lan"
    using parse_slot_ip [OF i] by auto
  fix j assume j: "j < MAX_SLOT_COUNT" "j \<noteq> i"
  then show "host_ip i \<noteq> host_ip j" "guest_ip i \<noteq> guest_ip j" "tap_name i \<noteq> tap_name j"
    by (auto simp: host_ip_def guest_ip_def tap_name_def Let_def)
  show "guest_mac i \<noteq> guest_mac j"
    using hex2_inj [OF i, of j] j by (auto simp: guest_mac_def MAX_SLOT_COUNT_def)
qed

theorem slot_addresses_witness:
  "guest_ip 3 \<noteq> guest_ip 4 \<and> (\<exists>gw. parse_ip (host_ip 3) = Some (V4 gw) \<and> \<not> is_dialable (V4 gw) True)"
proof -
  have "(3::nat) < MAX_SLOT_COUNT" "(4::nat) < MAX_SLOT_COUNT" by (simp_all add: MAX_SLOT_COUNT_def)
  with slot_addresses [of 3 True] show ?thesis by auto
qed

section \<open>Samples\<close>

definition sample_lock_env :: lock_env where
  "sample_lock_env = \<lparr>open_fails = (\<lambda>_. False), flock_fails = (\<lambda>_. False)\<rparr>"

text \<open>A directory where the first lockfile belongs.\<close>

definition sample_pool :: pool where
  "sample_pool = \<lparr>lock_at = (\<lambda>i. if i = 0 then DirectoryHere else Missing), held = []\<rparr>"

definition sample_manifest :: manifest where
  "sample_manifest = manifest_new 4 ''eth0'' 0 False 2"

theorem claim_takes_lowest_free_witness:
  "fst (claim_range_in sample_lock_env 0 2 False sample_pool) = Inr (new_slot False 1)"
proof -
  have "List.find (available sample_lock_env sample_pool) [0..<2] = Some 1" by code_simp
  moreover have "(2::nat) \<le> MAX_SLOT_COUNT" by (simp add: MAX_SLOT_COUNT_def)
  ultimately show ?thesis
    using claim_takes_lowest_free [of 0 2 sample_lock_env False sample_pool] by simp
qed


end
