(* ===== verification/Boot_Args.thy ===== *)
theory Boot_Args
  imports Image_Import Slots
begin

text \<open>
  The kernel command line between host and guest. The host's side is \<open>vm/mod.rs\<close>: what it
  writes for a run and the calls that configure the machine. The guest's side is \<open>cmdline.rs\<close>
  and the parsers of \<open>net.rs\<close> and \<open>overlay.rs\<close> in the guest agent, which read it back.
\<close>

section \<open>The host's side\<close>

definition BOOT_ARGS :: string where
  "BOOT_ARGS = ''console=ttyS0 reboot=k panic=1 pci=off root=/dev/vda '' @
     ''init=/init quiet i8042.noaux i8042.nomux i8042.nopnp i8042.dumbkbd 8250.nr_uarts=1''"

definition DEFAULT_DNS :: string where "DEFAULT_DNS = ''1.1.1.1,8.8.8.8''"

definition build_boot_args :: "disk_config \<Rightarrow> slot option \<Rightarrow> broker_endpoints option \<Rightarrow> string" where
  "build_boot_args disk net bro =
     BOOT_ARGS @
     (case disk of
        StageDisk _ _ lays _ _ _ \<Rightarrow> '' isopod.layers='' @ show_nat (length lays)
      | FlavorDisk _ \<Rightarrow> []) @
     (case net of
        None \<Rightarrow> []
      | Some sl \<Rightarrow>
          '' isopod.net='' @ guest_cidr (slot_index sl) @ '' isopod.gw='' @ host_ip (slot_index sl) @
          '' isopod.dns='' @ (case bro of Some b \<Rightarrow> ep_dns b | None \<Rightarrow> DEFAULT_DNS) @
          (case bro of
             None \<Rightarrow> []
           | Some b \<Rightarrow>
               '' isopod.proxy=socks='' @ ep_socks b @ '',http='' @ ep_http b @
               (case ep_inject b of Some t \<Rightarrow> '',inject='' @ t | None \<Rightarrow> [])))"

text \<open>The calls to Firecracker's API, in order; \<open>stages\<close> is the directory of the layers.\<close>

datatype api_call =
    PutMachineConfig u32 u32
  | PutBootSource string string
  | PutDrive string string bool bool
  | PutNic string string string

definition layer_text :: "string \<Rightarrow> string \<times> string \<Rightarrow> string" where
  "layer_text stages l = path_join (path_join stages (fst l)) (snd l)"

fun layer_drives :: "string \<Rightarrow> nat \<Rightarrow> (string \<times> string) list \<Rightarrow> api_call list" where
  "layer_drives stages i [] = []"
| "layer_drives stages i (l # ls) =
     PutDrive (''layer'' @ show_nat i) (layer_text stages l) False True # layer_drives stages (Suc i) ls"

fun disk_drives :: "string \<Rightarrow> disk_config \<Rightarrow> api_call list" where
  "disk_drives stages (FlavorDisk copy) = [PutDrive ''rootfs'' copy True True]"
| "disk_drives stages (StageDisk base_sqfs bid lays scr par allow) =
     PutDrive ''base'' base_sqfs True True # layer_drives stages 0 lays @ [PutDrive ''scratch'' scr False False]"

definition run_boot_calls ::
  "string \<Rightarrow> string \<Rightarrow> disk_config \<Rightarrow> u32 \<times> u32 \<Rightarrow> slot option \<Rightarrow> broker_endpoints option \<Rightarrow> api_call list" where
  "run_boot_calls stages kern disk resources net bro =
     [PutMachineConfig (fst resources) (snd resources), PutBootSource kern (build_boot_args disk net bro)] @
     disk_drives stages disk @
     (case net of
        None \<Rightarrow> []
      | Some sl \<Rightarrow> [PutNic ''eth0'' (''isopod-tap'' @ show_nat (slot_index sl)) (guest_mac (slot_index sl))])"

text \<open>Each call is awaited; the first that Firecracker refuses ends the configuration.\<close>

fun issue :: "(api_call \<Rightarrow> bool) \<Rightarrow> api_call list \<Rightarrow> api_call list \<Rightarrow> (api_call + unit) \<times> api_call list" where
  "issue accepts [] vm = (Inr (), vm)"
| "issue accepts (c # cs) vm = (if accepts c then issue accepts cs (vm @ [c]) else (Inl c, vm))"

definition configure_run_boot ::
  "(api_call \<Rightarrow> bool) \<Rightarrow> string \<Rightarrow> string \<Rightarrow> disk_config \<Rightarrow> u32 \<times> u32 \<Rightarrow> slot option \<Rightarrow> broker_endpoints option \<Rightarrow>
   (api_call + unit) \<times> api_call list" where
  "configure_run_boot accepts stages kern disk resources net bro =
     issue accepts (run_boot_calls stages kern disk resources net bro) []"

section \<open>The guest's side: tokens\<close>

function ws_words :: "string \<Rightarrow> string \<Rightarrow> string list" where
  "ws_words w [] = (if w = [] then [] else [w])"
| "ws_words w (c # cs) =
     (case strip_any ws_seqs (c # cs) of
        Some r \<Rightarrow> (if w = [] then [] else [w]) @ ws_words [] r
      | None \<Rightarrow> ws_words (w @ [c]) cs)"
  by pat_completeness auto
termination
  by (relation "measure (length \<circ> snd)") (auto dest: strip_any_shorter)

definition split_whitespace :: "string \<Rightarrow> string list" where
  "split_whitespace s = ws_words [] s"

fun find_value :: "string \<Rightarrow> string list \<Rightarrow> string option" where
  "find_value key [] = None"
| "find_value key (tok # toks) =
     (case split_once CHR ''='' tok of
        Some (k, v) \<Rightarrow> if k = key then Some v else find_value key toks
      | None \<Rightarrow> find_value key toks)"

definition cmdline_value :: "string \<Rightarrow> string \<Rightarrow> string option" where
  "cmdline_value cmdline key = find_value key (split_whitespace cmdline)"

section \<open>The guest's side: overlay and network\<close>

datatype upper_mode = UpperDrive | UpperRam

definition parse_upper :: "string \<Rightarrow> upper_mode" where
  "parse_upper cmdline = (if cmdline_value cmdline ''isopod.upper'' = Some ''ram'' then UpperRam else UpperDrive)"

definition parse_layers :: "string \<Rightarrow> nat option" where
  "parse_layers cmdline =
     map_option (\<lambda>v. case parse_uint (2 ^ 64 - 1) v of Some n \<Rightarrow> n | None \<Rightarrow> 0) (cmdline_value cmdline ''isopod.layers'')"

datatype net_error =
    NotCidr string | BadPrefix string | PrefixOutOfRange nat | TooFewOctets string | BadOctet string string
  | TooManyOctets string

record net_config =
  nc_ip :: ipv4
  nc_prefix :: nat
  nc_gw :: "ipv4 option"
  nc_dns :: "string list"

definition parse_octet :: "string \<Rightarrow> string \<Rightarrow> net_error + u8" where
  "parse_octet s part = ok_or (BadOctet s part) (map_option word_of_nat (parse_uint 255 part))"

text \<open>The four octets one at a time: a bad one is reported before a missing one after it.\<close>

definition next_octet :: "string \<Rightarrow> string list \<Rightarrow> net_error + u8 \<times> string list" where
  "next_octet s parts =
     (case parts of
        [] \<Rightarrow> Inl (TooFewOctets s)
      | p # ps \<Rightarrow> map_sum id (\<lambda>o'. (o', ps)) (parse_octet s p))"

definition parse_ipv4_text :: "string \<Rightarrow> net_error + ipv4" where
  "parse_ipv4_text s =
     try_bind (next_octet s (split_on CHR ''.'' s)) (\<lambda>(a, p1).
     try_bind (next_octet s p1) (\<lambda>(b, p2).
     try_bind (next_octet s p2) (\<lambda>(c, p3).
     try_bind (next_octet s p3) (\<lambda>(d, p4).
     if p4 \<noteq> [] then Inl (TooManyOctets s) else Inr (Ipv4 a b c d)))))"

definition build_config :: "string \<Rightarrow> string option \<Rightarrow> string list \<Rightarrow> net_error + net_config" where
  "build_config cidr gw dns =
     (case split_once CHR ''/'' cidr of
        None \<Rightarrow> Inl (NotCidr cidr)
      | Some (ip_s, prefix_s) \<Rightarrow>
         try_bind (parse_ipv4_text ip_s) (\<lambda>ip.
         try_bind (ok_or (BadPrefix cidr) (parse_uint 255 prefix_s)) (\<lambda>prefix.
         if 32 < prefix then Inl (PrefixOutOfRange prefix)
         else try_bind (case gw of Some g \<Rightarrow> map_sum id Some (parse_ipv4_text g) | None \<Rightarrow> Inr None) (\<lambda>gw'.
           Inr \<lparr>nc_ip = ip, nc_prefix = prefix, nc_gw = gw',
                nc_dns = filter (\<lambda>s. \<not> isl (parse_ipv4_text s)) (filter (\<lambda>s. s \<noteq> []) dns)\<rparr>))))"

datatype boot_net_error = MissingNet | BadNet net_error

definition parse_config :: "string \<Rightarrow> boot_net_error + net_config" where
  "parse_config cmdline =
     (case cmdline_value cmdline ''isopod.net'' of
        None \<Rightarrow> Inl MissingNet
      | Some net \<Rightarrow>
          let dns = (case cmdline_value cmdline ''isopod.dns'' of Some d \<Rightarrow> d | None \<Rightarrow> []) in
          lift_err BadNet (build_config net (cmdline_value cmdline ''isopod.gw'')
            (filter (\<lambda>s. s \<noteq> []) (split_on CHR '','' dns))))"

fun proxy_part :: "string option \<times> string option \<times> string option \<Rightarrow> string \<Rightarrow> string option \<times> string option \<times> string option" where
  "proxy_part (socks, http, inject) part =
     (case split_once CHR ''='' part of
        None \<Rightarrow> (socks, http, inject)
      | Some (k, v) \<Rightarrow>
          if v = [] then (socks, http, inject)
          else if k = ''socks'' then (Some v, http, inject)
          else if k = ''http'' then (socks, Some v, inject)
          else if k = ''inject'' then (socks, http, Some v)
          else (socks, http, inject))"

definition parse_proxy_token :: "string \<Rightarrow> (string \<times> string \<times> string option) option" where
  "parse_proxy_token raw =
     (case foldl proxy_part (None, None, None) (split_on CHR '','' raw) of
        (Some socks, Some http, inject) \<Rightarrow> Some (socks, http, inject)
      | _ \<Rightarrow> None)"

section \<open>Reading tokens back\<close>

definition graphic :: "char \<Rightarrow> bool" where
  "graphic c \<longleftrightarrow> 33 \<le> code c \<and> code c \<le> 126"

lemma ws_seqs_heads: "list_all (\<lambda>p. p \<noteq> [] \<and> (code (hd p) \<le> 32 \<or> 126 < code (hd p))) ws_seqs"
  by code_simp

lemma graphic_no_ws: "graphic c \<Longrightarrow> strip_any ws_seqs (c # cs) = None"
proof (rule ccontr)
  assume c: "graphic c" "strip_any ws_seqs (c # cs) \<noteq> None"
  then obtain p r where p: "p \<in> set ws_seqs" "p \<noteq> []" "c # cs = p @ r" using strip_any_Some by blast
  then have "hd p = c" using p(2,3) by (metis append_is_Nil_conv hd_append2 list.sel(1))
  with p(1) ws_seqs_heads c(1) show False by (auto simp: list_all_iff graphic_def)
qed

lemma blank_ws: "strip_any ws_seqs (CHR '' '' # s) = Some s"
  by (simp add: ws_seqs_def char_of_def bit_0)

lemma ws_words_token: "list_all graphic t \<Longrightarrow> ws_words w (t @ s) = ws_words (w @ t) s"
  by (induction t arbitrary: w) (simp_all add: graphic_no_ws)

lemma ws_words_tokens:
  "w \<noteq> [] \<Longrightarrow> \<forall>t \<in> set ts. t \<noteq> [] \<and> list_all graphic t \<Longrightarrow> ws_words w (concat (map ((#) CHR '' '') ts)) = w # ts"
proof (induction ts arbitrary: w)
  case (Cons t ts)
  have "ws_words w (concat (map ((#) CHR '' '') (t # ts))) = w # ws_words [] (t @ concat (map ((#) CHR '' '') ts))"
    using Cons.prems(1) by (simp add: blank_ws)
  also have "\<dots> = w # ws_words t (concat (map ((#) CHR '' '') ts))"
    using Cons.prems(2) by (simp add: ws_words_token)
  finally show ?case using Cons by simp
qed simp

lemma find_value_append:
  "find_value key (xs @ ys) = (case find_value key xs of Some v \<Rightarrow> Some v | None \<Rightarrow> find_value key ys)"
  by (induction xs) (auto split: option.split)

text \<open>The tokens that every run has.\<close>

definition fixed_tokens :: "string list" where
  "fixed_tokens = split_on CHR '' '' BOOT_ARGS"

definition guest_keys :: "string list" where
  "guest_keys = [''isopod.layers'', ''isopod.upper'', ''isopod.net'', ''isopod.gw'', ''isopod.dns'', ''isopod.proxy'']"

lemma fixed_tokens_shape:
  "BOOT_ARGS = hd fixed_tokens @ concat (map ((#) CHR '' '') (tl fixed_tokens))"
  "list_all (\<lambda>t. t \<noteq> [] \<and> list_all graphic t) fixed_tokens"
  "list_all (\<lambda>k. find_value k fixed_tokens = None) guest_keys"
  "fixed_tokens \<noteq> []"
  by code_simp+

lemma cmdline_value_tokens:
  assumes "\<forall>t \<in> set ts. t \<noteq> [] \<and> list_all graphic t" "key \<in> set guest_keys"
  shows "cmdline_value (BOOT_ARGS @ concat (map ((#) CHR '' '') ts)) key = find_value key ts"
proof -
  obtain t0 T where ft: "fixed_tokens = t0 # T" using fixed_tokens_shape(4) by (cases fixed_tokens) auto
  have f: "list_all graphic (hd fixed_tokens)" "hd fixed_tokens \<noteq> []" "\<forall>t \<in> set (tl fixed_tokens @ ts). t \<noteq> [] \<and> list_all graphic t"
    using fixed_tokens_shape(2) assms(1) by (auto simp: ft list_all_iff)
  have "split_whitespace (BOOT_ARGS @ concat (map ((#) CHR '' '') ts)) =
      ws_words [] (hd fixed_tokens @ concat (map ((#) CHR '' '') (tl fixed_tokens @ ts)))"
    unfolding split_whitespace_def by (subst fixed_tokens_shape(1)) simp
  also have "\<dots> = ws_words (hd fixed_tokens) (concat (map ((#) CHR '' '') (tl fixed_tokens @ ts)))"
    by (subst ws_words_token [OF f(1)]) simp
  also have "\<dots> = hd fixed_tokens # tl fixed_tokens @ ts" by (rule ws_words_tokens [OF f(2,3)])
  also have "\<dots> = fixed_tokens @ ts" using fixed_tokens_shape(4) by simp
  finally show ?thesis
    using fixed_tokens_shape(3) assms(2) by (simp add: cmdline_value_def find_value_append list_all_iff)
qed

section \<open>Texts of addresses\<close>

lemma show_nat_graphic: "list_all graphic (show_nat n)" "CHR '','' \<notin> set (show_nat n)"
  using show_nat_digits [of n] by (auto simp: list_all_iff graphic_def is_ascii_digit_def code_def)

lemma graphic_dots: "list_all graphic ''.''" "list_all graphic ''/30''" "list_all graphic '':''"
  by code_simp+

lemma list_all_join: "list_all P sep \<Longrightarrow> \<forall>p \<in> set ps. list_all P p \<Longrightarrow> list_all P (join_with sep ps)"
  by (induction sep ps rule: join_with.induct) auto

lemma show_ipv4_graphic: "list_all (\<lambda>c. graphic c \<and> c \<noteq> CHR '','') (show_ipv4 x)"
proof -
  have "list_all (\<lambda>c. graphic c \<and> c \<noteq> CHR '','') (show_nat n)" for n
    using show_nat_graphic [of n] by (auto simp: list_all_iff)
  then show ?thesis unfolding show_ipv4_def by (intro list_all_join) (auto simp: graphic_def code_def)
qed

lemma show_socket_graphic: "list_all (\<lambda>c. graphic c \<and> c \<noteq> CHR '','') (show_socket ip port)"
  using show_ipv4_graphic [of ip] show_nat_graphic [of "unat port"]
  by (auto simp: show_socket_def list_all_iff graphic_def code_def)

lemma parse_octet_show [simp]: "parse_octet s (show_nat (unat (b :: u8))) = Inr b"
proof -
  have "unat b \<le> 255" using unat_u8_less [of b] by linarith
  then show ?thesis by (simp add: parse_octet_def parse_show_nat ok_or_def)
qed

lemma parse_show_ipv4_text [simp]: "parse_ipv4_text (show_ipv4 x) = Inr x"
proof -
  obtain a b c d where x: "x = Ipv4 a b c d" by (cases x) auto
  have "split_on CHR ''.'' (show_ipv4 x) = map (\<lambda>b. show_nat (unat b)) [a, b, c, d]"
    unfolding show_ipv4_def x by (subst split_join) (auto simp: show_nat_no_dot)
  then show ?thesis by (simp add: parse_ipv4_text_def next_octet_def x)
qed

lemma show_ipv4_no_slash: "CHR ''/'' \<notin> set (show_ipv4 x)"
proof -
  have "CHR ''/'' \<notin> set (show_nat n)" for n
    using show_nat_digits [of n] by (auto simp: list_all_iff is_ascii_digit_def code_def)
  then show ?thesis using list_all_join [of "\<lambda>c. c \<noteq> CHR ''/''" "''.''" "map (\<lambda>b. show_nat (unat b)) (octets4 x)"]
    by (auto simp: show_ipv4_def list_all_iff)
qed

section \<open>What the host writes is what the guest reads\<close>

definition boot_tokens :: "disk_config \<Rightarrow> slot option \<Rightarrow> broker_endpoints option \<Rightarrow> string list" where
  "boot_tokens disk net bro =
     (case disk of StageDisk _ _ lays _ _ _ \<Rightarrow> [''isopod.layers='' @ show_nat (length lays)] | FlavorDisk _ \<Rightarrow> []) @
     (case net of
        None \<Rightarrow> []
      | Some sl \<Rightarrow>
          [''isopod.net='' @ guest_cidr (slot_index sl), ''isopod.gw='' @ host_ip (slot_index sl),
           ''isopod.dns='' @ (case bro of Some b \<Rightarrow> ep_dns b | None \<Rightarrow> DEFAULT_DNS)] @
          (case bro of
             None \<Rightarrow> []
           | Some b \<Rightarrow> [''isopod.proxy=socks='' @ ep_socks b @ '',http='' @ ep_http b @
               (case ep_inject b of Some t \<Rightarrow> '',inject='' @ t | None \<Rightarrow> [])]))"

lemma build_boot_args_tokens:
  "build_boot_args disk net bro = BOOT_ARGS @ concat (map ((#) CHR '' '') (boot_tokens disk net bro))"
  by (simp add: build_boot_args_def boot_tokens_def split: disk_config.split option.split)

text \<open>The layers a disk has; the network a guest reads, as \<open>configure_if_requested\<close> does.\<close>

definition disk_layers :: "disk_config \<Rightarrow> nat option" where
  "disk_layers disk = (case disk of StageDisk _ _ lays _ _ _ \<Rightarrow> Some (length lays) | FlavorDisk _ \<Rightarrow> None)"

definition boot_read ::
  "string \<Rightarrow> nat option \<times> upper_mode \<times> ((boot_net_error + net_config) \<times> (string \<times> string \<times> string option) option) option" where
  "boot_read cmdline =
     (parse_layers cmdline, parse_upper cmdline,
      if cmdline_value cmdline ''isopod.net'' = None then None
      else Some (parse_config cmdline, Option.bind (cmdline_value cmdline ''isopod.proxy'') parse_proxy_token))"

definition plain_endpoint :: "string \<Rightarrow> bool" where
  "plain_endpoint t \<longleftrightarrow> t \<noteq> [] \<and> list_all (\<lambda>c. graphic c \<and> c \<noteq> CHR '','') t"

definition plain_endpoints :: "broker_endpoints \<Rightarrow> bool" where
  "plain_endpoints b \<longleftrightarrow>
     plain_endpoint (ep_socks b) \<and> plain_endpoint (ep_http b) \<and> (\<forall>t. ep_inject b = Some t \<longrightarrow> plain_endpoint t) \<and>
     (\<exists>gw. ep_dns b = show_ipv4 gw)"

lemma broker_endpoints_plain:
  assumes "broker_start parse_url bind_tcp bind_udp spec = Inr br"
  shows "plain_endpoints (br_endpoints br)"
proof -
  have "plain_endpoint (show_socket ip port)" for ip port
    using show_socket_graphic [of ip port] by (auto simp: plain_endpoint_def show_socket_def)
  then show ?thesis using assms
    by (auto simp: broker_start_def Let_def result_iff plain_endpoints_def split: if_splits)
qed

lemma endpoint_chars:
  assumes "plain_endpoint t"
  shows "t \<noteq> []" "list_all graphic t" "CHR '','' \<notin> set t"
  using assms by (auto simp: plain_endpoint_def list_all_iff)

lemma proxy_token_reads_back:
  assumes "plain_endpoints b"
  shows "parse_proxy_token (''socks='' @ ep_socks b @ '',http='' @ ep_http b @
      (case ep_inject b of Some t \<Rightarrow> '',inject='' @ t | None \<Rightarrow> [])) = Some (ep_socks b, ep_http b, ep_inject b)"
proof -
  have s: "ep_socks b \<noteq> []" "CHR '','' \<notin> set (''socks='' @ ep_socks b)"
    and h: "ep_http b \<noteq> []" "CHR '','' \<notin> set (''http='' @ ep_http b)"
    using assms endpoint_chars by (auto simp: plain_endpoints_def)
  have once: "split_once CHR ''='' (''socks='' @ x) = Some (''socks'', x)" "split_once CHR ''='' (''http='' @ x) = Some (''http'', x)"
      "split_once CHR ''='' (''inject='' @ x) = Some (''inject'', x)" for x :: string
    by simp_all
  show ?thesis
  proof (cases "ep_inject b")
    case None
    have "split_on CHR '','' ((''socks='' @ ep_socks b) @ CHR '','' # (''http='' @ ep_http b)) = [''socks='' @ ep_socks b, ''http='' @ ep_http b]"
      by (subst split_on_append [OF s(2)]) (simp only: split_on_absent [OF h(2)])
    then show ?thesis using None s(1) h(1) once by (simp add: parse_proxy_token_def)
  next
    case (Some t)
    then have t: "t \<noteq> []" "CHR '','' \<notin> set (''inject='' @ t)"
      using assms endpoint_chars by (auto simp: plain_endpoints_def)
    have "split_on CHR '','' ((''socks='' @ ep_socks b) @ CHR '','' # ((''http='' @ ep_http b) @ CHR '','' # (''inject='' @ t))) =
        [''socks='' @ ep_socks b, ''http='' @ ep_http b, ''inject='' @ t]"
      by (subst split_on_append [OF s(2)], subst split_on_append [OF h(2)]) (simp only: split_on_absent [OF t(2)])
    then show ?thesis using Some s(1) h(1) t(1) once by (simp add: parse_proxy_token_def)
  qed
qed

lemma boot_tokens_plain:
  assumes "\<forall>sl. net = Some sl \<longrightarrow> slot_index sl < 256" "\<forall>b. bro = Some b \<longrightarrow> plain_endpoints b"
  shows "\<forall>t \<in> set (boot_tokens disk net bro). t \<noteq> [] \<and> list_all graphic t"
proof -
  have ip: "list_all graphic (guest_cidr i)" "list_all graphic (host_ip i)" for i
    using show_nat_graphic by (simp_all add: guest_cidr_def host_ip_def graphic_def code_def)
  have dfl: "list_all graphic DEFAULT_DNS" by code_simp
  have dns: "list_all graphic (ep_dns b)" if pl: "plain_endpoints b" for b
  proof -
    obtain gw where "ep_dns b = show_ipv4 gw" using pl by (auto simp: plain_endpoints_def)
    moreover have "list_all graphic (show_ipv4 gw)"
      by (rule list.pred_mono_strong [OF show_ipv4_graphic]) simp
    ultimately show ?thesis by simp
  qed
  have ep: "list_all graphic (ep_socks b)" "list_all graphic (ep_http b)" "\<And>t. ep_inject b = Some t \<Longrightarrow> list_all graphic t"
    if "plain_endpoints b" for b
    using that endpoint_chars by (auto simp: plain_endpoints_def)
  note chars = graphic_def code_def
  have d: "\<forall>t \<in> set (case disk of StageDisk _ _ lays _ _ _ \<Rightarrow> [''isopod.layers='' @ show_nat (length lays)] | FlavorDisk _ \<Rightarrow> []).
      t \<noteq> [] \<and> list_all graphic t"
    using show_nat_graphic by (cases disk) (simp_all add: chars)
  show ?thesis
  proof (cases net)
    case None
    with d show ?thesis by (simp add: boot_tokens_def)
  next
    case (Some sl)
    have n: "list_all graphic (''isopod.net='' @ guest_cidr (slot_index sl))" "list_all graphic (''isopod.gw='' @ host_ip (slot_index sl))"
      using ip by (simp_all add: chars)
    show ?thesis
    proof (cases bro)
      case None
      with d n dfl Some show ?thesis by (simp add: boot_tokens_def chars)
    next
      case b: (Some b)
      then have "plain_endpoints b" using assms(2) by simp
      note e = ep [OF this] and f = dns [OF this]
      have "list_all graphic (case ep_inject b of Some t \<Rightarrow> '',inject='' @ t | None \<Rightarrow> [])"
        using e(3) by (simp add: chars split: option.split)
      with d n f e(1,2) Some b show ?thesis by (simp add: boot_tokens_def chars)
    qed
  qed
qed

lemma default_dns_reads:
  "filter (\<lambda>s. \<not> isl (parse_ipv4_text s)) (filter (\<lambda>s. s \<noteq> []) (filter (\<lambda>s. s \<noteq> []) (split_on CHR '','' DEFAULT_DNS)))
     = [''1.1.1.1'', ''8.8.8.8'']"
  by code_simp

lemma build_config_slot:
  assumes "i < 256"
  shows "build_config (guest_cidr i) (Some (host_ip i)) dns =
    Inr \<lparr>nc_ip = slot_guest i, nc_prefix = 30, nc_gw = Some (slot_host i),
         nc_dns = filter (\<lambda>s. \<not> isl (parse_ipv4_text s)) (filter (\<lambda>s. s \<noteq> []) dns)\<rparr>"
proof -
  have "guest_cidr i = show_ipv4 (slot_guest i) @ CHR ''/'' # ''30''"
    using slot_ip_text(2) [OF assms] by (simp add: guest_cidr_def guest_ip_def)
  then have "split_once CHR ''/'' (guest_cidr i) = Some (show_ipv4 (slot_guest i), ''30'')"
    using show_ipv4_no_slash by (simp add: split_once_Some_iff)
  moreover have "parse_uint 255 ''30'' = Some 30" by code_simp
  ultimately show ?thesis
    by (simp add: build_config_def slot_ip_text(1) [OF assms] ok_or_def)
qed

lemma find_value_key: "split_once CHR ''='' tok = Some (k, v) \<Longrightarrow> find_value key (tok # toks) = (if k = key then Some v else find_value key toks)"
  by simp

lemma boot_value:
  assumes "\<forall>sl. net = Some sl \<longrightarrow> slot_index sl < 256" "\<forall>b. bro = Some b \<longrightarrow> plain_endpoints b" "key \<in> set guest_keys"
  shows "cmdline_value (build_boot_args disk net bro) key = find_value key (boot_tokens disk net bro)"
  unfolding build_boot_args_tokens by (rule cmdline_value_tokens [OF boot_tokens_plain [OF assms(1,2)] assms(3)])

lemma boot_layers_read_back:
  assumes "\<forall>sl. net = Some sl \<longrightarrow> slot_index sl < 256" "\<forall>b. bro = Some b \<longrightarrow> plain_endpoints b"
    and "\<forall>n. disk_layers disk = Some n \<longrightarrow> n < 2 ^ 64"
  shows "parse_layers (build_boot_args disk net bro) = disk_layers disk" "parse_upper (build_boot_args disk net bro) = UpperDrive"
proof -
  let ?a = "build_boot_args disk net bro" and ?t = "boot_tokens disk net bro"
  have vals: "cmdline_value ?a ''isopod.layers'' = find_value ''isopod.layers'' ?t"
      "cmdline_value ?a ''isopod.upper'' = find_value ''isopod.upper'' ?t"
    by (rule boot_value [OF assms(1,2)]; simp add: guest_keys_def)+
  show "parse_upper ?a = UpperDrive"
    by (simp add: parse_upper_def vals boot_tokens_def split: disk_config.split option.split)
  show "parse_layers ?a = disk_layers disk"
    using assms(3) parse_show_nat
    by (auto simp: parse_layers_def vals boot_tokens_def disk_layers_def split: disk_config.split option.split)
qed

lemma boot_read_args:
  assumes net: "\<forall>sl. net = Some sl \<longrightarrow> slot_index sl < 256" and bro: "\<forall>b. bro = Some b \<longrightarrow> plain_endpoints b"
    and layers: "\<forall>n. disk_layers disk = Some n \<longrightarrow> n < 2 ^ 64"
  shows "boot_read (build_boot_args disk net bro) =
    (disk_layers disk, UpperDrive,
     map_option (\<lambda>sl.
       (Inr \<lparr>nc_ip = slot_guest (slot_index sl), nc_prefix = 30, nc_gw = Some (slot_host (slot_index sl)),
             nc_dns = (case bro of Some b \<Rightarrow> [ep_dns b] | None \<Rightarrow> [''1.1.1.1'', ''8.8.8.8''])\<rparr>,
        map_option (\<lambda>b. (ep_socks b, ep_http b, ep_inject b)) bro)) net)"
proof -
  let ?a = "build_boot_args disk net bro" and ?t = "boot_tokens disk net bro"
  have vals: "cmdline_value ?a ''isopod.net'' = find_value ''isopod.net'' ?t" "cmdline_value ?a ''isopod.gw'' = find_value ''isopod.gw'' ?t"
      "cmdline_value ?a ''isopod.dns'' = find_value ''isopod.dns'' ?t" "cmdline_value ?a ''isopod.proxy'' = find_value ''isopod.proxy'' ?t"
    by (rule boot_value [OF net bro]; simp add: guest_keys_def)+
  note lays = boot_layers_read_back(1) [OF net bro layers] and upper = boot_layers_read_back(2) [OF net bro layers]
  have dns: "filter (\<lambda>s. s \<noteq> [] \<and> \<not> isl (parse_ipv4_text s)) (split_on CHR '','' (ep_dns b)) = [ep_dns b]"
    if "plain_endpoints b" for b
  proof -
    obtain gw where gw: "ep_dns b = show_ipv4 gw" using \<open>plain_endpoints b\<close> by (auto simp: plain_endpoints_def)
    have "CHR '','' \<notin> set (show_ipv4 gw)" using show_ipv4_graphic [of gw] by (auto simp: list_all_iff)
    moreover have "show_ipv4 gw \<noteq> []" by (cases gw) (simp add: show_ipv4_def)
    ultimately show "filter (\<lambda>s. s \<noteq> [] \<and> \<not> isl (parse_ipv4_text s)) (split_on CHR '','' (ep_dns b)) = [ep_dns b]"
      by (simp_all add: gw split_on_absent)
  qed
  show ?thesis
  proof (cases net)
    case None
    then have "find_value ''isopod.net'' ?t = None" by (cases disk) (simp_all add: boot_tokens_def)
    with None vals(1) upper lays show ?thesis by (simp add: boot_read_def)
  next
    case (Some sl)
    let ?i = "slot_index sl"
    have i: "?i < 256" using net Some by simp
    have v: "cmdline_value ?a ''isopod.net'' = Some (guest_cidr ?i)" "cmdline_value ?a ''isopod.gw'' = Some (host_ip ?i)"
        "cmdline_value ?a ''isopod.dns'' = Some (case bro of Some b \<Rightarrow> ep_dns b | None \<Rightarrow> DEFAULT_DNS)"
        "cmdline_value ?a ''isopod.proxy'' = map_option (\<lambda>b. ''socks='' @ ep_socks b @ '',http='' @ ep_http b @
          (case ep_inject b of Some t \<Rightarrow> '',inject='' @ t | None \<Rightarrow> [])) bro"
      unfolding vals using Some by (auto simp: boot_tokens_def split: disk_config.split option.split)
    show ?thesis
    proof (cases bro)
      case None
      with Some upper lays v default_dns_reads build_config_slot [OF i] show ?thesis
        by (simp add: boot_read_def parse_config_def lift_err_def)
    next
      case b: (Some b)
      then have pl: "plain_endpoints b" using bro by simp
      with Some b upper lays v dns [OF pl] proxy_token_reads_back [OF pl] build_config_slot [OF i] show ?thesis
        by (simp add: boot_read_def parse_config_def lift_err_def)
    qed
  qed
qed

text \<open>
  C27: what the host writes on the kernel command line is what the guest reads from it: the
  number of layers, the slot's address with its prefix and gateway, the broker as the only
  resolver of a run that has one, and the endpoints of the broker, the credential endpoint only
  if the run has credentials. Without a slot the guest configures no network; without a broker
  it sees no proxy.
\<close>
theorem boot_args_read_back:
  assumes "\<forall>sl. net = Some sl \<longrightarrow> slot_index sl < MAX_SLOT_COUNT"
    and "\<forall>b. bro = Some b \<longrightarrow> (\<exists>parse_url bind_tcp bind_udp spec br.
      broker_start parse_url bind_tcp bind_udp spec = Inr br \<and> b = br_endpoints br)"
    and "\<forall>n. disk_layers disk = Some n \<longrightarrow> n < 2 ^ 64"
  shows "boot_read (build_boot_args disk net bro) =
    (disk_layers disk, UpperDrive,
     map_option (\<lambda>sl.
       (Inr \<lparr>nc_ip = slot_guest (slot_index sl), nc_prefix = 30, nc_gw = Some (slot_host (slot_index sl)),
             nc_dns = (case bro of Some b \<Rightarrow> [ep_dns b] | None \<Rightarrow> [''1.1.1.1'', ''8.8.8.8''])\<rparr>,
        map_option (\<lambda>b. (ep_socks b, ep_http b, ep_inject b)) bro)) net)"
  by (rule boot_read_args) (use assms broker_endpoints_plain in \<open>auto simp: MAX_SLOT_COUNT_def\<close>)

theorem boot_args_read_back_witness:
  "boot_read (build_boot_args (StageDisk ''/i/base.sqfs'' sample_base [(''a'', LAYER_FILE), (''b'', LAYER_FILE)] ''/v/scratch.ext4'' None False)
      (Some \<lparr>slot_index = 3, slot_filtered = False\<rparr>) None) =
   (Some 2, UpperDrive,
    Some (Inr \<lparr>nc_ip = Ipv4 10 107 3 2, nc_prefix = 30, nc_gw = Some (Ipv4 10 107 3 1), nc_dns = [''1.1.1.1'', ''8.8.8.8'']\<rparr>, None))"
  by (subst boot_args_read_back) (simp_all add: MAX_SLOT_COUNT_def disk_layers_def slot_guest_def slot_host_def)

end
