(* ===== verification/Guest_Root.thy ===== *)
theory Guest_Root
  imports Boot_Args
begin

text \<open>
  The guest's root: \<open>overlay.rs\<close> of the guest agent. The state is the mount table, newest first,
  the root that \<open>pivot_root\<close> made current, and the failure that is reported in every \<open>Pong\<close>. The
  directory \<open>/dev\<close> and which calls fail are arguments.
\<close>

section \<open>State and calls\<close>

record mount =
  m_source :: string
  m_at :: string
  m_fstype :: string
  m_readonly :: bool
  m_data :: "string option"

datatype overlay_call =
    MakePrivate | ReadDev | MountUpper | MakeDirAt string | MountLayersDir | MountLayerAt string | MountMerged bool
  | ChdirStaging | PivotRoot | DetachOld | ChdirRoot

datatype overlay_error = NoScratchDevice | OverlayCall overlay_call

text \<open>The new root keeps the mount table that its paths were looked up in.\<close>

record guest_root =
  mounts :: "mount list"
  new_root :: "(mount \<times> mount list) option"
  assembly_error :: "overlay_error option"

definition guest_call :: "(overlay_call \<Rightarrow> bool) \<Rightarrow> overlay_call \<Rightarrow> (guest_root, overlay_error, unit) comp" where
  "guest_call fails c s = (if fails c then Inl (OverlayCall c) else Inr (), s)"

definition mount_with_data :: "(overlay_call \<Rightarrow> bool) \<Rightarrow> overlay_call \<Rightarrow> mount \<Rightarrow> (guest_root, overlay_error, unit) comp" where
  "mount_with_data fails c m = seq (guest_call fails c) (\<lambda>_. modify (\<lambda>s. s\<lparr>mounts := m # mounts s\<rparr>))"

section \<open>Block devices\<close>

definition is_extra_virtio_disk :: "string \<Rightarrow> bool" where
  "is_extra_virtio_disk name =
     (case strip_prefix ''vd'' name of
        Some rest \<Rightarrow> name \<noteq> ''vda'' \<and> rest \<noteq> [] \<and> list_all is_ascii_lower rest
      | None \<Rightarrow> False)"

text \<open>\<open>dev\<close>: the names that reading \<open>/dev\<close> yields.\<close>

definition enumerate_extra_block_devices :: "string list \<Rightarrow> string list" where
  "enumerate_extra_block_devices dev = map ((@) ''/dev/'') (sort (filter is_extra_virtio_disk dev))"

definition split_scratch_and_layers :: "string list \<Rightarrow> nat \<Rightarrow> overlay_error + string \<times> string list" where
  "split_scratch_and_layers extras n =
     (if extras = [] then Inl NoScratchDevice
      else Inr (last extras, take (min n (length extras - 1)) extras))"

section \<open>Assembly\<close>

definition STAGING :: string where "STAGING = ''/mnt''"
definition LAYERS_DIR :: string where "LAYERS_DIR = ''/layers''"
definition SCRATCH_MNT :: string where "SCRATCH_MNT = ''/overlay''"
definition UPPER_DIR :: string where "UPPER_DIR = ''/overlay/upper''"
definition WORK_DIR :: string where "WORK_DIR = ''/overlay/work''"

definition layer_mountpoint :: "nat \<Rightarrow> string" where
  "layer_mountpoint i = ''/layers/'' @ show_nat i"

definition lowerdir_chain :: "nat \<Rightarrow> string" where
  "lowerdir_chain n = join_with '':'' (map (\<lambda>i. ''/layers/'' @ show_nat i @ ''/upper'') (rev [1..<Suc n]) @ [''/''])"

fun mount_layers :: "(overlay_call \<Rightarrow> bool) \<Rightarrow> nat \<Rightarrow> string list \<Rightarrow> (guest_root, overlay_error, unit) comp" where
  "mount_layers fails i [] = ret ()"
| "mount_layers fails i (dev # devs) =
     (let mnt = layer_mountpoint i in
      seq (guest_call fails (MakeDirAt mnt)) (\<lambda>_.
      seq (mount_with_data fails (MountLayerAt dev)
             \<lparr>m_source = dev, m_at = mnt, m_fstype = ''ext4'', m_readonly = True, m_data = None\<rparr>) (\<lambda>_.
      mount_layers fails (Suc i) devs)))"

definition overlay_mount :: "string \<Rightarrow> mount" where
  "overlay_mount data =
     \<lparr>m_source = ''overlay'', m_at = STAGING, m_fstype = ''overlay'', m_readonly = False, m_data = Some data\<rparr>"

text \<open>A kernel without \<open>redirect_dir\<close> gets the mount without it.\<close>

definition mount_merged_overlay :: "(overlay_call \<Rightarrow> bool) \<Rightarrow> nat \<Rightarrow> (guest_root, overlay_error, unit) comp" where
  "mount_merged_overlay fails n =
     (let base = ''lowerdir='' @ lowerdir_chain n @ '',upperdir='' @ UPPER_DIR @ '',workdir='' @ WORK_DIR in
      seq (attempt (mount_with_data fails (MountMerged True) (overlay_mount (base @ '',redirect_dir=on'')))) (\<lambda>r.
      case r of
        Inr _ \<Rightarrow> ret ()
      | Inl _ \<Rightarrow> mount_with_data fails (MountMerged False) (overlay_mount base)))"

definition mount_upper :: "(overlay_call \<Rightarrow> bool) \<Rightarrow> nat \<Rightarrow> upper_mode \<Rightarrow> string list \<Rightarrow> (guest_root, overlay_error, string list) comp" where
  "mount_upper fails n upper extras =
     (case upper of
        UpperDrive \<Rightarrow>
         (case split_scratch_and_layers extras n of
            Inl e \<Rightarrow> fail e
          | Inr (scr, lays) \<Rightarrow>
              seq (mount_with_data fails MountUpper
                     \<lparr>m_source = scr, m_at = SCRATCH_MNT, m_fstype = ''ext4'', m_readonly = False, m_data = None\<rparr>)
                (\<lambda>_. ret lays))
      | UpperRam \<Rightarrow>
          seq (mount_with_data fails MountUpper
                 \<lparr>m_source = ''tmpfs'', m_at = SCRATCH_MNT, m_fstype = ''tmpfs'', m_readonly = False, m_data = None\<rparr>)
            (\<lambda>_. ret (take n extras)))"

text \<open>\<open>pivot_root(".", ".")\<close>: what is mounted at the staging directory becomes the root.\<close>

definition pivot :: "(overlay_call \<Rightarrow> bool) \<Rightarrow> (guest_root, overlay_error, unit) comp" where
  "pivot fails =
     seq (guest_call fails ChdirStaging) (\<lambda>_.
     seq (guest_call fails PivotRoot) (\<lambda>_.
     seq (modify (\<lambda>s. s\<lparr>new_root := map_option (\<lambda>m. (m, mounts s)) (find (\<lambda>m. m_at m = STAGING) (mounts s))\<rparr>)) (\<lambda>_.
     seq (guest_call fails DetachOld) (\<lambda>_.
     guest_call fails ChdirRoot))))"

definition assemble :: "(overlay_call \<Rightarrow> bool) \<Rightarrow> string list \<Rightarrow> nat \<Rightarrow> upper_mode \<Rightarrow> (guest_root, overlay_error, unit) comp" where
  "assemble fails dev n upper =
     seq (attempt (guest_call fails MakePrivate)) (\<lambda>_.
     seq (guest_call fails ReadDev) (\<lambda>_.
     seq (mount_upper fails n upper (enumerate_extra_block_devices dev)) (\<lambda>lays.
     seq (guest_call fails (MakeDirAt UPPER_DIR)) (\<lambda>_.
     seq (guest_call fails (MakeDirAt WORK_DIR)) (\<lambda>_.
     seq (if lays = [] then ret ()
          else mount_with_data fails MountLayersDir
                 \<lparr>m_source = ''tmpfs'', m_at = LAYERS_DIR, m_fstype = ''tmpfs'', m_readonly = False, m_data = None\<rparr>) (\<lambda>_.
     seq (mount_layers fails 1 lays) (\<lambda>_.
     seq (mount_merged_overlay fails (length lays)) (\<lambda>_.
     pivot fails))))))))"

text \<open>A command line that cannot be read is only logged.\<close>

definition assemble_if_requested ::
  "(overlay_call \<Rightarrow> bool) \<Rightarrow> string list \<Rightarrow> string option \<Rightarrow> guest_root \<Rightarrow> guest_root" where
  "assemble_if_requested fails dev cmdline s =
     (case cmdline of
        None \<Rightarrow> s
      | Some cl \<Rightarrow>
          let run = (\<lambda>n. case assemble fails dev n (parse_upper cl) s of
              (Inr _, s') \<Rightarrow> s'
            | (Inl e, s') \<Rightarrow> s'\<lparr>assembly_error := Some e\<rparr>) in
          (case (parse_layers cl, parse_upper cl) of
             (Some n, _) \<Rightarrow> run n
           | (None, UpperRam) \<Rightarrow> run 0
           | (None, UpperDrive) \<Rightarrow> s))"

section \<open>What an overlay shows\<close>

text \<open>
  The kernel's side, as a reference: a path is looked up on the newest mount that covers it, or
  on the boot device, and the options of an overlay name its lower directories, topmost first.
\<close>

definition covers :: "mount \<Rightarrow> string \<Rightarrow> bool" where
  "covers m p \<longleftrightarrow> p = m_at m \<or> starts_with (m_at m @ ''/'') p"

definition located :: "mount list \<Rightarrow> string \<Rightarrow> string \<times> string" where
  "located ms p =
     (case find (\<lambda>m. covers m p) ms of
        Some m \<Rightarrow> (m_source m, drop (length (m_at m)) p)
      | None \<Rightarrow> (''/dev/vda'', p))"

definition overlay_view :: "mount \<times> mount list \<Rightarrow> ((string \<times> string) \<times> (string \<times> string) list) option" where
  "overlay_view r =
     (let opts = (case m_data (fst r) of Some d \<Rightarrow> split_on CHR '','' d | None \<Rightarrow> []) in
      case (find_value ''upperdir'' opts, find_value ''lowerdir'' opts) of
        (Some u, Some l) \<Rightarrow> Some (located (snd r) u, map (located (snd r)) (split_on CHR '':'' l))
      | _ \<Rightarrow> None)"

text \<open>Drives become \<open>/dev/vda\<close>, \<open>/dev/vdb\<close>, ... in the order they are put.\<close>

definition vd_name :: "nat \<Rightarrow> string" where
  "vd_name k = ''vd'' @ [char_of (97 + k)]"

fun drive_paths :: "api_call list \<Rightarrow> (string \<times> bool) list" where
  "drive_paths [] = []"
| "drive_paths (PutDrive i p r ro # cs) = (p, ro) # drive_paths cs"
| "drive_paths (c # cs) = drive_paths cs"

text \<open>The host's file behind a place in the guest, whether it is attached read-only, and where in it.\<close>

definition host_drive :: "(string \<times> bool) list \<Rightarrow> string \<times> string \<Rightarrow> (string \<times> bool \<times> string) option" where
  "host_drive drives loc =
     map_option (\<lambda>k. (fst (drives ! k), snd (drives ! k), snd loc))
       (find (\<lambda>k. ''/dev/'' @ vd_name k = fst loc) [0..<length drives])"

section \<open>A successful assembly\<close>

lemma seq_InrD: "seq m f s = (Inr b, s') \<Longrightarrow> \<exists>a s1. m s = (Inr a, s1) \<and> f a s1 = (Inr b, s')"
  by (auto simp: seq_def split: prod.splits sum.splits)

lemma guest_call_Inr: "guest_call fails c s = (Inr u, s') \<longleftrightarrow> \<not> fails c \<and> s' = s"
  by (auto simp: guest_call_def)

lemma mount_Inr: "mount_with_data fails c m s = (Inr u, s') \<longleftrightarrow> \<not> fails c \<and> s' = s\<lparr>mounts := m # mounts s\<rparr>"
  by (auto simp: mount_with_data_def seq_def guest_call_def modify_def)

lemma mount_Inl: "mount_with_data fails c m s = (Inl e, s') \<longleftrightarrow> fails c \<and> s' = s \<and> e = OverlayCall c"
  by (auto simp: mount_with_data_def seq_def guest_call_def modify_def)

definition layer_mount :: "nat \<Rightarrow> string \<Rightarrow> mount" where
  "layer_mount i dev =
     \<lparr>m_source = dev, m_at = layer_mountpoint i, m_fstype = ''ext4'', m_readonly = True, m_data = None\<rparr>"

lemma mount_layers_Inr:
  "mount_layers fails i devs s = (Inr u, s') \<Longrightarrow>
   s' = s\<lparr>mounts := rev (map (\<lambda>k. layer_mount (i + k) (devs ! k)) [0..<length devs]) @ mounts s\<rparr>"
proof (induction devs arbitrary: i s)
  case (Cons dev devs)
  obtain s1 where s1: "s1 = s\<lparr>mounts := layer_mount i dev # mounts s\<rparr>" "mount_layers fails (Suc i) devs s1 = (Inr u, s')"
    using Cons.prems by (auto simp: Let_def guest_call_Inr mount_Inr layer_mount_def dest!: seq_InrD)
  have "map (\<lambda>k. layer_mount (i + k) ((dev # devs) ! k)) [0..<length (dev # devs)] =
      layer_mount i dev # map (\<lambda>k. layer_mount (Suc i + k) (devs ! k)) [0..<length devs]"
    by (simp add: map_upt_Suc del: upt_Suc)
  with Cons.IH [OF s1(2)] s1(1) show ?case by simp
qed (simp add: ret_def)

definition overlay_options :: "nat \<Rightarrow> string set" where
  "overlay_options n =
     (let base = ''lowerdir='' @ lowerdir_chain n @ '',upperdir='' @ UPPER_DIR @ '',workdir='' @ WORK_DIR in
      {base, base @ '',redirect_dir=on''})"

lemma merged_Inr:
  assumes "mount_merged_overlay fails n s = (Inr u, s')"
  shows "\<exists>d \<in> overlay_options n. s' = s\<lparr>mounts := overlay_mount d # mounts s\<rparr>"
proof -
  let ?base = "''lowerdir='' @ lowerdir_chain n @ '',upperdir='' @ UPPER_DIR @ '',workdir='' @ WORK_DIR"
  let ?m = "mount_with_data fails (MountMerged True) (overlay_mount (?base @ '',redirect_dir=on''))"
  obtain r s1 where r: "?m s = (r, s1)" by force
  with assms show ?thesis
    by (cases r) (auto simp: mount_merged_overlay_def Let_def seq_def attempt_def mount_Inr mount_Inl ret_def overlay_options_def
      split: prod.splits sum.splits)
qed

text \<open>The table at the pivot: the overlay, the layers, their tmpfs if there are any, the scratch.\<close>

definition layer_table :: "string list \<Rightarrow> mount list" where
  "layer_table devs =
     rev (map (\<lambda>k. layer_mount (Suc k) (devs ! k)) [0..<length devs]) @
     (if devs = [] then []
      else [\<lparr>m_source = ''tmpfs'', m_at = LAYERS_DIR, m_fstype = ''tmpfs'', m_readonly = False, m_data = None\<rparr>])"

lemma assemble_Inr:
  assumes "assemble fails dev n UpperDrive s = (Inr u, s')"
    and "split_scratch_and_layers (enumerate_extra_block_devices dev) n = Inr (scr, devs)"
  shows "assembly_error s' = assembly_error s \<and> (\<exists>d \<in> overlay_options (length devs). new_root s' = Some (overlay_mount d,
    overlay_mount d # layer_table devs @
    \<lparr>m_source = scr, m_at = SCRATCH_MNT, m_fstype = ''ext4'', m_readonly = False, m_data = None\<rparr> # mounts s))"
proof -
  let ?scr = "\<lparr>m_source = scr, m_at = SCRATCH_MNT, m_fstype = ''ext4'', m_readonly = False, m_data = None\<rparr>"
  let ?s1 = "s\<lparr>mounts := ?scr # mounts s\<rparr>"
  have a: "attempt (guest_call fails MakePrivate) s = (Inr r, s2) \<Longrightarrow> s2 = s" for r s2
    by (auto simp: attempt_def guest_call_def)
  have up: "mount_upper fails n UpperDrive (enumerate_extra_block_devices dev) s = (Inr l, s2) \<Longrightarrow> l = devs \<and> s2 = ?s1" for l s2
    by (auto simp: mount_upper_def assms(2) ret_def mount_Inr dest!: seq_InrD)
  have dir: "(if devs = [] then ret () else mount_with_data fails MountLayersDir
        \<lparr>m_source = ''tmpfs'', m_at = LAYERS_DIR, m_fstype = ''tmpfs'', m_readonly = False, m_data = None\<rparr>) ?s1 = (Inr l, s2) \<Longrightarrow>
      s2 = ?s1\<lparr>mounts := (if devs = [] then []
        else [\<lparr>m_source = ''tmpfs'', m_at = LAYERS_DIR, m_fstype = ''tmpfs'', m_readonly = False, m_data = None\<rparr>]) @ mounts ?s1\<rparr>"
    for l s2 by (auto simp: ret_def mount_Inr split: if_splits)
  obtain s2 s3 s4 where s2: "s2 = ?s1\<lparr>mounts := (if devs = [] then []
        else [\<lparr>m_source = ''tmpfs'', m_at = LAYERS_DIR, m_fstype = ''tmpfs'', m_readonly = False, m_data = None\<rparr>]) @ mounts ?s1\<rparr>"
      and s3: "mount_layers fails 1 devs s2 = (Inr (), s3)"
      and s4: "mount_merged_overlay fails (length devs) s3 = (Inr (), s4)" and p: "pivot fails s4 = (Inr u, s')"
    using assms(1) unfolding assemble_def by (auto dest!: seq_InrD a up dir simp: guest_call_Inr)
  have t: "s3 = s\<lparr>mounts := layer_table devs @ ?scr # mounts s\<rparr>"
    using mount_layers_Inr [OF s3] by (simp add: s2 layer_table_def)
  obtain d where d: "d \<in> overlay_options (length devs)" "s4 = s\<lparr>mounts := overlay_mount d # layer_table devs @ ?scr # mounts s\<rparr>"
    using merged_Inr [OF s4] t by auto
  have "s' = s4\<lparr>new_root := map_option (\<lambda>m. (m, mounts s4)) (find (\<lambda>m. m_at m = STAGING) (mounts s4))\<rparr>"
    using p by (auto simp: pivot_def guest_call_Inr modify_def dest!: seq_InrD)
  with d show ?thesis by (auto simp: overlay_mount_def)
qed

section \<open>Looking paths up\<close>

lemma find_unique: "x \<in> set xs \<Longrightarrow> P x \<Longrightarrow> \<forall>y \<in> set xs. P y \<longrightarrow> y = x \<Longrightarrow> find P (xs @ ys) = Some x"
proof (induction xs)
  case (Cons a xs)
  show ?case
  proof (cases "P a")
    case True
    then have "a = x" using Cons.prems(3) by (meson list.set_intros(1))
    then show ?thesis using True by simp
  next
    case False
    have "find P (xs @ ys) = Some x"
      by (rule Cons.IH) (use False Cons.prems in \<open>auto dest: bspec\<close>)
    then show ?thesis using False by simp
  qed
qed simp

lemma find_skip: "\<forall>x \<in> set xs. \<not> P x \<Longrightarrow> find P (xs @ ys) = find P ys"
  by (induction xs) auto

lemma prefix_digits:
  assumes "d \<notin> set a" "d \<notin> set b"
  shows "starts_with (a @ [d]) (b @ d # r) \<longleftrightarrow> a = b"
proof
  assume "starts_with (a @ [d]) (b @ d # r)"
  then obtain q where q: "b @ d # r = a @ d # q" by (auto simp: starts_with_iff)
  have "split_once d (b @ d # r) = Some (b, r)" "split_once d (a @ d # q) = Some (a, q)"
    by (simp_all only: split_once_Some_iff assms simp_thms)
  with q show "a = b" by (metis option.inject prod.inject)
next
  assume "a = b"
  then show "starts_with (a @ [d]) (b @ d # r)" unfolding starts_with_iff by (intro exI [of _ r]) simp
qed

lemma starts_with_common: "starts_with (p @ a) (p @ b) \<longleftrightarrow> starts_with a b"
  by (auto simp: starts_with_iff)

lemma show_nat_no_slash: "CHR ''/'' \<notin> set (show_nat n)" "CHR '':'' \<notin> set (show_nat n)"
  using show_nat_digits [of n] by (auto simp: list_all_iff is_ascii_digit_def code_def)

lemma covers_layer: "covers (layer_mount i dev) (layer_mountpoint k @ ''/upper'') \<longleftrightarrow> i = k"
proof -
  have "layer_mountpoint k @ ''/upper'' = ''/layers/'' @ (show_nat k @ CHR ''/'' # ''upper'')"
       "m_at (layer_mount i dev) @ ''/'' = ''/layers/'' @ (show_nat i @ [CHR ''/''])"
    by (simp_all add: layer_mount_def layer_mountpoint_def)
  then have "starts_with (m_at (layer_mount i dev) @ ''/'') (layer_mountpoint k @ ''/upper'') \<longleftrightarrow> show_nat i = show_nat k"
    by (simp only: starts_with_common) (simp only: prefix_digits show_nat_no_slash not_False_eq_True)
  moreover have "layer_mountpoint k @ ''/upper'' \<noteq> m_at (layer_mount i dev)"
  proof
    assume "layer_mountpoint k @ ''/upper'' = m_at (layer_mount i dev)"
    then have "show_nat k @ CHR ''/'' # ''upper'' = show_nat i" by (simp add: layer_mount_def layer_mountpoint_def)
    then have "CHR ''/'' \<in> set (show_nat i)" by (metis in_set_conv_decomp)
    then show False by (simp add: show_nat_no_slash)
  qed
  ultimately show ?thesis by (simp add: covers_def)
qed

lemma covers_other:
  "\<not> covers (layer_mount i dev) ''/''" "\<not> covers (layer_mount i dev) UPPER_DIR"
  "m_at m \<in> {''/mnt'', ''/layers'', ''/overlay'', ''/dev'', ''/proc'', ''/sys''} \<Longrightarrow> \<not> covers m ''/''"
  "m_at m \<in> {''/mnt'', ''/layers''} \<Longrightarrow> \<not> covers m UPPER_DIR"
  "m_at m = ''/overlay'' \<Longrightarrow> covers m UPPER_DIR"
  "m_at m = ''/mnt'' \<Longrightarrow> \<not> covers m (layer_mountpoint k @ ''/upper'')"
  by (auto simp: covers_def starts_with_def layer_mount_def layer_mountpoint_def UPPER_DIR_def)

definition root_table :: "string \<Rightarrow> string list \<Rightarrow> string \<Rightarrow> mount list \<Rightarrow> mount list" where
  "root_table d devs scr ms =
     overlay_mount d # layer_table devs @
     \<lparr>m_source = scr, m_at = SCRATCH_MNT, m_fstype = ''ext4'', m_readonly = False, m_data = None\<rparr> # ms"

lemma layer_table_at:
  "m \<in> set (layer_table devs) \<Longrightarrow> m_at m = ''/layers'' \<or> (\<exists>k < length devs. m = layer_mount (Suc k) (devs ! k))"
  by (auto simp: layer_table_def LAYERS_DIR_def split: if_splits)

lemma located_table:
  assumes "\<forall>m \<in> set ms. m_at m \<in> {''/dev'', ''/proc'', ''/sys''}"
  shows "located (root_table d devs scr ms) UPPER_DIR = (scr, ''/upper'')"
    "located (root_table d devs scr ms) ''/'' = (''/dev/vda'', ''/'')"
    "k < length devs \<Longrightarrow> located (root_table d devs scr ms) (layer_mountpoint (Suc k) @ ''/upper'') = (devs ! k, ''/upper'')"
proof -
  let ?scr = "\<lparr>m_source = scr, m_at = SCRATCH_MNT, m_fstype = ''ext4'', m_readonly = False, m_data = None\<rparr>"
  have ov: "m_at (overlay_mount d) = ''/mnt''" by (simp add: overlay_mount_def STAGING_def)
  have up: "\<forall>m \<in> set (overlay_mount d # layer_table devs). \<not> covers m UPPER_DIR"
  proof
    fix m assume "m \<in> set (overlay_mount d # layer_table devs)"
    then consider "m_at m \<in> {''/mnt'', ''/layers''}" | i dev where "m = layer_mount i dev"
      using ov layer_table_at [of m devs] by auto
    then show "\<not> covers m UPPER_DIR" by cases (simp_all add: covers_other(2,4))
  qed
  have "find (\<lambda>m. covers m UPPER_DIR) (root_table d devs scr ms) = Some ?scr"
    unfolding root_table_def using find_skip [OF up, of "?scr # ms"] covers_other(5) [of ?scr]
    by (simp add: SCRATCH_MNT_def)
  then show "located (root_table d devs scr ms) UPPER_DIR = (scr, ''/upper'')"
    by (simp add: located_def UPPER_DIR_def SCRATCH_MNT_def)
  have "\<not> covers m ''/''" if m: "m \<in> set (root_table d devs scr ms)" for m
  proof -
    consider "m_at m \<in> {''/mnt'', ''/layers'', ''/overlay'', ''/dev'', ''/proc'', ''/sys''}" | i dev where "m = layer_mount i dev"
      using m ov assms layer_table_at [of m devs] unfolding root_table_def SCRATCH_MNT_def by auto
    then show ?thesis by cases (simp_all add: covers_other(1,3))
  qed
  then have "find (\<lambda>m. covers m ''/'') (root_table d devs scr ms) = None" by (simp add: find_None_iff)
  then show "located (root_table d devs scr ms) ''/'' = (''/dev/vda'', ''/'')" by (simp add: located_def)
  assume k: "k < length devs"
  let ?p = "layer_mountpoint (Suc k) @ ''/upper''"
  let ?ls = "rev (map (\<lambda>j. layer_mount (Suc j) (devs ! j)) [0..<length devs])"
  have "find (\<lambda>m. covers m ?p) (?ls @ ys) = Some (layer_mount (Suc k) (devs ! k))" for ys
    by (rule find_unique) (use k in \<open>auto simp: covers_layer\<close>)
  then have "find (\<lambda>m. covers m ?p) (root_table d devs scr ms) = Some (layer_mount (Suc k) (devs ! k))"
    using covers_other(6) [OF ov, of "Suc k"] by (simp add: root_table_def layer_table_def)
  then show "located (root_table d devs scr ms) ?p = (devs ! k, ''/upper'')"
    by (simp add: located_def layer_mount_def)
qed

section \<open>The options of the overlay\<close>

lemma lowers_split:
  "split_on CHR '':'' (lowerdir_chain n) = map (\<lambda>i. layer_mountpoint i @ ''/upper'') (rev [1..<Suc n]) @ [''/'']"
proof -
  have "split_on CHR '':'' (lowerdir_chain n) = map (\<lambda>i. ''/layers/'' @ show_nat i @ ''/upper'') (rev [1..<Suc n]) @ [''/'']"
    unfolding lowerdir_chain_def by (rule split_join) (auto simp: show_nat_no_slash)
  then show ?thesis by (simp add: layer_mountpoint_def)
qed

lemma chain_no_comma: "CHR '','' \<notin> set (lowerdir_chain n)"
proof -
  have "list_all (\<lambda>c. c \<noteq> CHR '','') (lowerdir_chain n)"
    unfolding lowerdir_chain_def by (rule list_all_join) (use show_nat_graphic(2) in \<open>auto simp: list_all_iff\<close>)
  then show ?thesis by (auto simp: list_all_iff)
qed

lemma overlay_options_read:
  assumes "d \<in> overlay_options n"
  shows "find_value ''upperdir'' (split_on CHR '','' d) = Some UPPER_DIR"
    "find_value ''lowerdir'' (split_on CHR '','' d) = Some (lowerdir_chain n)"
proof -
  have c: "CHR '','' \<notin> set (''lowerdir='' @ lowerdir_chain n)" using chain_no_comma by simp
  have s: "split_on CHR '','' (''lowerdir='' @ lowerdir_chain n @ CHR '','' # r) = (''lowerdir='' @ lowerdir_chain n) # split_on CHR '','' r" for r
    using split_on_append [OF c, of r] by simp
  obtain r where d: "d = ''lowerdir='' @ lowerdir_chain n @ CHR '','' # (''upperdir='' @ UPPER_DIR @ '',workdir='' @ WORK_DIR @ r)"
    using assms by (auto simp: overlay_options_def Let_def)
  have u: "split_on CHR '','' (''upperdir='' @ UPPER_DIR @ '',workdir='' @ WORK_DIR @ r) =
      (''upperdir='' @ UPPER_DIR) # split_on CHR '','' (''workdir='' @ WORK_DIR @ r)"
    by (simp add: UPPER_DIR_def)
  show "find_value ''upperdir'' (split_on CHR '','' d) = Some UPPER_DIR"
    "find_value ''lowerdir'' (split_on CHR '','' d) = Some (lowerdir_chain n)"
    unfolding d s u by simp_all
qed

section \<open>Drives and devices\<close>

lemma layer_drives_paths: "drive_paths (layer_drives stages i lays @ cs) = map (\<lambda>l. (layer_text stages l, True)) lays @ drive_paths cs"
  by (induction lays arbitrary: i) auto

lemma stage_drives:
  "drive_paths (disk_drives stages (StageDisk base_sqfs bid lays scr par allow)) =
     (base_sqfs, True) # map (\<lambda>l. (layer_text stages l, True)) lays @ [(scr, False)]"
  by (simp add: layer_drives_paths)

lemma vd_names: "sorted (map vd_name [1..<26])" "distinct (map vd_name [0..<26])"
  by code_simp+

lemma vd_name_inj: "j < 26 \<Longrightarrow> k < 26 \<Longrightarrow> vd_name j = vd_name k \<longleftrightarrow> j = k"
  using vd_names(2) by (auto simp: distinct_map inj_on_def)

lemma host_drive_at:
  assumes "k < length drives" "length drives \<le> 26"
  shows "host_drive drives (''/dev/'' @ vd_name k, sub) = Some (fst (drives ! k), snd (drives ! k), sub)"
proof -
  have "find (\<lambda>j. ''/dev/'' @ vd_name j = ''/dev/'' @ vd_name k) ([0..<length drives] @ []) = Some k"
    by (rule find_unique) (use assms vd_name_inj in auto)
  then show ?thesis by (simp add: host_drive_def)
qed

text \<open>The devices of \<open>n\<close> drives, among whatever else is in \<open>/dev\<close>.\<close>

definition shows_drives :: "string list \<Rightarrow> nat \<Rightarrow> bool" where
  "shows_drives dev n \<longleftrightarrow> distinct dev \<and> {name \<in> set dev. is_extra_virtio_disk name} = vd_name ` {1..<n}"

lemma enumerate_shown:
  assumes "shows_drives dev n" "n \<le> 26"
  shows "enumerate_extra_block_devices dev = map (\<lambda>k. ''/dev/'' @ vd_name k) [1..<n]"
proof -
  have pre: "map vd_name [1..<n] = take (n - 1) (map vd_name [1..<26])"
    using assms(2) by (cases n) (simp_all add: take_map take_upt del: upt_Suc)
  have "sorted (map vd_name [1..<n])" unfolding pre by (rule sorted_wrt_take [OF vd_names(1)])
  moreover have "distinct (map vd_name [1..<n])"
    using assms(2) vd_name_inj by (auto simp: distinct_map inj_on_def)
  moreover have "set (map vd_name [1..<n]) = set (filter is_extra_virtio_disk dev)"
    using assms(1) by (auto simp: shows_drives_def)
  ultimately have "sort (filter is_extra_virtio_disk dev) = map vd_name [1..<n]"
    using assms(1) by (intro sorted_distinct_set_unique) (auto simp: shows_drives_def)
  then show ?thesis by (simp add: enumerate_extra_block_devices_def)
qed

lemma split_shown:
  assumes "shows_drives dev (N + 2)" "N \<le> 24"
  shows "split_scratch_and_layers (enumerate_extra_block_devices dev) N =
    Inr (''/dev/'' @ vd_name (Suc N), map (\<lambda>k. ''/dev/'' @ vd_name (Suc k)) [0..<N])"
proof -
  have "[1..<N + 2] = [1..<Suc N] @ [Suc N]" by simp
  moreover have "map (\<lambda>k. ''/dev/'' @ vd_name k) [1..<Suc N] = map (\<lambda>k. ''/dev/'' @ vd_name (Suc k)) [0..<N]"
    by (simp add: map_Suc_upt [symmetric] del: upt_Suc)
  ultimately have "enumerate_extra_block_devices dev =
      map (\<lambda>k. ''/dev/'' @ vd_name (Suc k)) [0..<N] @ [''/dev/'' @ vd_name (Suc N)]"
    using enumerate_shown [OF assms(1)] assms(2) by (simp del: upt_Suc)
  then show ?thesis by (simp add: split_scratch_and_layers_def)
qed

lemma no_failure:
  assumes "\<forall>c. \<not> fails c" "enumerate_extra_block_devices dev \<noteq> []"
  shows "\<exists>u s'. assemble fails dev n UpperDrive s = (Inr u, s')"
proof -
  define after where "after i devs s1 = snd (mount_layers fails i devs s1)" for i devs s1
  have lays: "mount_layers fails i devs s1 = (Inr (), after i devs s1)" for i devs s1
    unfolding after_def
    by (induction devs arbitrary: i s1)
      (use assms(1) in \<open>simp_all add: ret_def Let_def seq_def guest_call_def mount_with_data_def modify_def\<close>)
  obtain scr devs where sp: "split_scratch_and_layers (enumerate_extra_block_devices dev) n = Inr (scr, devs)"
    using assms(2) by (simp add: split_scratch_and_layers_def)
  show ?thesis
    unfolding assemble_def mount_upper_def mount_merged_overlay_def pivot_def
    using assms(1) sp lays
    by (simp add: seq_def attempt_def guest_call_def mount_with_data_def modify_def ret_def Let_def split: prod.split)
qed

section \<open>The root of a run\<close>


text \<open>
  A command line that cannot be read (\<open>/proc\<close> was not mounted) leaves the guest on the read-only
  base root too, and records nothing, so that the host is not told.
\<close>

lemma unreadable_cmdline_unreported:
  "assembly_error g = None \<Longrightarrow> new_root g = None \<Longrightarrow>
   assembly_error (assemble_if_requested fails dev None g) = None \<and> new_root (assemble_if_requested fails dev None g) = None"
  by (simp add: assemble_if_requested_def)

definition sample_run_disk :: disk_config where
  "sample_run_disk = StageDisk ''/i/base.sqfs'' sample_base [(''a'', LAYER_FILE), (''b'', LAYER_FILE)] ''/v/scratch.ext4'' None False"

definition sample_dev :: "string list" where
  "sample_dev = [''vdc'', ''null'', ''vda1'', ''vdd'', ''vda'', ''vdb'']"

definition sample_guest_root :: guest_root where
  "sample_guest_root = assemble_if_requested (\<lambda>_. False) sample_dev (Some (build_boot_args sample_run_disk None None))
     \<lparr>mounts = [], new_root = None, assembly_error = None\<rparr>"


end
