(* ===== verification/Guest_Net.thy ===== *)
theory Guest_Net
  imports Boot_Args
begin

text \<open>
  The guest's network: the rest of \<open>net.rs\<close> of the guest agent. The state is what the interface
  calls, the routing table and \<open>resolv.conf\<close> hold, the proxy variables of later execs, and the
  resolver failure that is reported in every \<open>Pong\<close>. Which calls fail is an argument.
\<close>

section \<open>State and calls\<close>

datatype net_call =
    LoUp | EthDown | EthAddr | EthMask | EthUp | DropRoute | AddRoute | MakeEtc | WriteResolv | ReadResolv

record guest_net =
  lo_up :: bool
  eth_up :: bool
  eth_addr :: "ipv4 option"
  eth_mask :: "ipv4 option"
  default_route :: "ipv4 option"
  resolv_conf :: "string option"
  proxy_vars :: "(string \<times> string) list"
  resolv_error :: bool

record net_calls =
  net_fails :: "net_call \<Rightarrow> bool"
  torn_resolv :: "string option"

type_synonym 'a net_step = "(guest_net, net_call, 'a) comp"

definition kernel_call :: "net_calls \<Rightarrow> net_call \<Rightarrow> (guest_net \<Rightarrow> guest_net) \<Rightarrow> unit net_step" where
  "kernel_call k c f s = (if net_fails k c then (Inl c, s) else (Inr (), f s))"

text \<open>Bringing the interface down drops the routes through it.\<close>

definition set_if_down :: "net_calls \<Rightarrow> unit net_step" where
  "set_if_down k = kernel_call k EthDown (\<lambda>s. s\<lparr>eth_up := False, default_route := None\<rparr>)"

section \<open>The resolver's file\<close>

definition resolv_text :: "string list \<Rightarrow> string" where
  "resolv_text dns = concat (map (\<lambda>ns. ''nameserver '' @ ns @ [LF]) dns)"

text \<open>A write that fails leaves the file as \<open>torn_resolv\<close> says.\<close>

definition write_resolv_conf :: "net_calls \<Rightarrow> string list \<Rightarrow> unit net_step" where
  "write_resolv_conf k dns =
     seq (kernel_call k MakeEtc id) (\<lambda>_ s.
       if net_fails k WriteResolv then (Inl WriteResolv, s\<lparr>resolv_conf := torn_resolv k\<rparr>)
       else (Inr (), s\<lparr>resolv_conf := Some (resolv_text dns)\<rparr>))"

text \<open>\<open>str::lines\<close>: a line ends at a newline, less a carriage return before it.\<close>

definition text_lines :: "string \<Rightarrow> string list" where
  "text_lines s =
     (let ls = split_on LF s; ls' = (if last ls = [] then butlast ls else ls) in
      map (\<lambda>l. case strip_suffix [CR] l of Some r \<Rightarrow> r | None \<Rightarrow> l) ls')"

definition resolv_conf_matches :: "net_calls \<Rightarrow> guest_net \<Rightarrow> string list \<Rightarrow> bool" where
  "resolv_conf_matches k s want \<longleftrightarrow>
     (if net_fails k ReadResolv then False
      else case resolv_conf s of
          None \<Rightarrow> False
        | Some txt \<Rightarrow> map trim (List.map_filter (strip_prefix ''nameserver '') (text_lines txt)) = want)"

section \<open>Proxy variables\<close>

definition endpoint_host :: "string \<Rightarrow> string option" where
  "endpoint_host endpoint =
     (case rsplit_once CHR '':'' endpoint of
        Some (host, _) \<Rightarrow> if host = [] then None else Some host
      | None \<Rightarrow> None)"

definition build_proxy_env :: "string \<Rightarrow> string \<Rightarrow> string option \<Rightarrow> (string \<times> string) list" where
  "build_proxy_env socks http inject =
     (let socks_url = ''socks5h://'' @ socks; http_url = ''http://'' @ http;
          no_proxy = ''localhost,127.0.0.1,::1'' @
            (case endpoint_host socks of Some gwh \<Rightarrow> '','' @ gwh | None \<Rightarrow> []) in
      map (\<lambda>name. (name, socks_url)) [''ALL_PROXY'', ''all_proxy''] @
      map (\<lambda>name. (name, http_url)) [''HTTP_PROXY'', ''http_proxy'', ''HTTPS_PROXY'', ''https_proxy''] @
      map (\<lambda>name. (name, no_proxy)) [''NO_PROXY'', ''no_proxy''] @
      (case inject of Some i \<Rightarrow> [(''ISOPOD_CREDENTIAL_ENDPOINT'', ''http://'' @ i)] | None \<Rightarrow> []))"

definition set_proxy_env :: "string \<times> string \<times> string option \<Rightarrow> guest_net \<Rightarrow> guest_net" where
  "set_proxy_env eps s = (case eps of (socks, http, inject) \<Rightarrow> s\<lparr>proxy_vars := build_proxy_env socks http inject\<rparr>)"

section \<open>Applying a configuration\<close>

definition netmask_octets :: "nat \<Rightarrow> ipv4" where
  "netmask_octets len =
     (let bits = min len 32;
          m = (if bits = 0 then 0 else push_bit (32 - bits) (- 1 :: u32)) in
      case to_be32 m of [a, b, c, d] \<Rightarrow> Ipv4 a b c d | _ \<Rightarrow> Ipv4 0 0 0 0)"

definition ensure_loopback_up :: "net_calls \<Rightarrow> guest_net \<Rightarrow> guest_net" where
  "ensure_loopback_up k s = (if net_fails k LoUp then s else s\<lparr>lo_up := True\<rparr>)"

definition configure_eth0 :: "net_calls \<Rightarrow> ipv4 \<Rightarrow> ipv4 \<Rightarrow> unit net_step" where
  "configure_eth0 k ip nmask =
     seq (kernel_call k EthAddr (\<lambda>s. s\<lparr>eth_addr := Some ip\<rparr>)) (\<lambda>_.
     seq (kernel_call k EthMask (\<lambda>s. s\<lparr>eth_mask := Some nmask\<rparr>)) (\<lambda>_.
     kernel_call k EthUp (\<lambda>s. s\<lparr>eth_up := True\<rparr>)))"

definition apply_config :: "net_calls \<Rightarrow> net_config \<Rightarrow> unit net_step" where
  "apply_config k cfg =
     seq (modify (ensure_loopback_up k)) (\<lambda>_.
     seq (attempt (set_if_down k)) (\<lambda>_.
     seq (configure_eth0 k (nc_ip cfg) (netmask_octets (nc_prefix cfg))) (\<lambda>_.
     seq (attempt (kernel_call k DropRoute (\<lambda>s. s\<lparr>default_route := None\<rparr>))) (\<lambda>_.
     seq (case nc_gw cfg of
            Some gw \<Rightarrow> attempt (kernel_call k AddRoute (\<lambda>s. s\<lparr>default_route := Some gw\<rparr>))
          | None \<Rightarrow> ret (Inr ())) (\<lambda>_.
     if nc_dns cfg \<noteq> [] then write_resolv_conf k (nc_dns cfg) else ret ())))))"

text \<open>At boot; a command line that cannot be read configures nothing.\<close>

definition configure_if_requested :: "net_calls \<Rightarrow> string option \<Rightarrow> guest_net \<Rightarrow> guest_net" where
  "configure_if_requested k cmdline s =
     (case cmdline of
        None \<Rightarrow> s
      | Some cl \<Rightarrow>
          if cmdline_value cl ''isopod.net'' = None then s
          else
            let s1 = (case Option.bind (cmdline_value cl ''isopod.proxy'') parse_proxy_token of
                Some eps \<Rightarrow> set_proxy_env eps s | None \<Rightarrow> s) in
            (case parse_config cl of
               Inl _ \<Rightarrow> s1
             | Inr cfg \<Rightarrow>
                (case apply_config k cfg s1 of
                   (r, s2) \<Rightarrow>
                     if isl r \<and> nc_dns cfg \<noteq> [] \<and> \<not> resolv_conf_matches k s2 (nc_dns cfg)
                     then s2\<lparr>resolv_error := True\<rparr> else s2)))"

text \<open>At run time, after a warm resume.\<close>

datatype configure_error = BadConfig net_error | NotApplied net_call

definition configure_net ::
  "net_calls \<Rightarrow> string \<Rightarrow> string \<Rightarrow> string list \<Rightarrow> (string \<times> string \<times> string option) option \<Rightarrow>
   (guest_net, configure_error, unit) comp" where
  "configure_net k ip gw dns bro s =
     (let s1 = (case bro of Some eps \<Rightarrow> set_proxy_env eps s | None \<Rightarrow> s) in
      case build_config ip (if gw = [] then None else Some gw) dns of
        Inl e \<Rightarrow> (Inl (BadConfig e), s1)
      | Inr cfg \<Rightarrow> map_fail NotApplied (apply_config k cfg) s1)"

section \<open>Reading the resolvers back\<close>

lemma strip_all_keep: "strip_any ps s = None \<Longrightarrow> strip_all ps s = s"
  by (subst strip_all.simps) simp

lemma ws_seqs_lasts: "list_all (\<lambda>p. p \<noteq> [] \<and> (code (hd p) \<le> 32 \<or> 126 < code (hd p))) (map rev ws_seqs)"
  by code_simp

lemma graphic_no_ws_end: "graphic c \<Longrightarrow> strip_any (map rev ws_seqs) (c # cs) = None"
proof (rule ccontr)
  assume c: "graphic c" "strip_any (map rev ws_seqs) (c # cs) \<noteq> None"
  then obtain p r where p: "p \<in> set (map rev ws_seqs)" "p \<noteq> []" "c # cs = p @ r" using strip_any_Some by blast
  then have "hd p = c" by (metis append_is_Nil_conv hd_append2 list.sel(1))
  with p(1) ws_seqs_lasts c(1) show False by (auto simp: list_all_iff graphic_def)
qed

lemma strip_any_Nil: "strip_any ps [] = None"
  using strip_any_shorter [of ps "[]"] by (cases "strip_any ps []") auto

lemma trim_graphic: "list_all graphic s \<Longrightarrow> trim s = s"
proof -
  assume g: "list_all graphic s"
  have "strip_all ws_seqs s = s"
    by (rule strip_all_keep) (use g graphic_no_ws strip_any_Nil in \<open>cases s; simp\<close>)
  moreover have "strip_all (map rev ws_seqs) (rev s) = rev s"
    by (rule strip_all_keep) (use g graphic_no_ws_end strip_any_Nil in \<open>cases "rev s"; auto simp: list_all_iff\<close>)
  ultimately show ?thesis by (simp add: trim_def trim_start_def trim_end_def)
qed

text \<open>The addresses that \<open>resolv.conf\<close> names.\<close>

definition resolvers :: "string \<Rightarrow> string list" where
  "resolvers txt = map trim (List.map_filter (strip_prefix ''nameserver '') (text_lines txt))"

lemma matches_resolvers:
  "resolv_conf_matches k s want \<longleftrightarrow> \<not> net_fails k ReadResolv \<and> (\<exists>txt. resolv_conf s = Some txt \<and> resolvers txt = want)"
  by (auto simp: resolv_conf_matches_def resolvers_def split: option.split)

lemma parse_octet_graphic: "parse_octet s p = Inr b \<Longrightarrow> p \<noteq> [] \<and> list_all graphic p"
  by (auto simp: parse_octet_def parse_uint_def Let_def result_iff list_all_iff graphic_def is_ascii_digit_def code_def
    split: list.splits if_splits)

lemma parse_ipv4_graphic:
  assumes "\<not> isl (parse_ipv4_text s)"
  shows "s \<noteq> [] \<and> list_all graphic s"
proof -
  obtain x where "parse_ipv4_text s = Inr x" using assms by (cases "parse_ipv4_text s") auto
  then obtain a b c d where sp: "split_on CHR ''.'' s = [a, b, c, d]"
      and ok: "list_all graphic a" "list_all graphic b" "list_all graphic c" "list_all graphic d"
    by (auto simp: parse_ipv4_text_def next_octet_def result_iff dest!: parse_octet_graphic split: list.splits if_splits)
  have "s = join_with [CHR ''.''] [a, b, c, d]" using sp by (metis join_split_on)
  with ok show ?thesis by (simp add: graphic_def code_def)
qed

lemma text_lines_resolv:
  assumes "\<forall>d \<in> set dns. list_all graphic d"
  shows "text_lines (resolv_text dns) = map ((@) ''nameserver '') dns"
proof -
  let ?l = "\<lambda>d. ''nameserver '' @ d"
  have no: "LF \<notin> set (?l d)" "\<not> ends_with [CR] (?l d)" if "d \<in> set dns" for d
  proof -
    have d: "\<forall>c \<in> set d. graphic c" using assms that by (auto simp: list_all_iff)
    then show "LF \<notin> set (?l d)" by (auto simp: graphic_def LF_char code_def)
    have "last (?l d) \<noteq> CR" using d by (cases d rule: rev_cases) (auto simp: graphic_def CR_char code_def)
    moreover have "ends_with [CR] (?l d) \<Longrightarrow> last (?l d) = CR" unfolding ends_with_iff by (metis last_snoc)
    ultimately show "\<not> ends_with [CR] (?l d)" by blast
  qed
  have "split_on LF (resolv_text ds) = map ?l ds @ [[]]" if "set ds \<subseteq> set dns" for ds
    using that
  proof (induction ds)
    case (Cons d ds)
    have "split_on LF (resolv_text (d # ds)) = ?l d # split_on LF (resolv_text ds)"
      using split_on_append [OF no(1), of d "resolv_text ds"] Cons.prems by (simp add: resolv_text_def)
    with Cons show ?case by simp
  qed (simp add: resolv_text_def)
  then have sp: "split_on LF (resolv_text dns) = map ?l dns @ [[]]" by simp
  have "map (\<lambda>l. case strip_suffix [CR] l of Some r \<Rightarrow> r | None \<Rightarrow> l) (map ?l dns) = map ?l dns"
  proof (rule map_idI)
    fix l assume "l \<in> set (map ?l dns)"
    then obtain d where "d \<in> set dns" "l = ?l d" by auto
    then show "(case strip_suffix [CR] l of Some r \<Rightarrow> r | None \<Rightarrow> l) = l"
      using no(2) [of d] by (simp only: ends_with_def) simp
  qed
  then show ?thesis by (simp add: text_lines_def sp Let_def)
qed

lemma resolvers_resolv_text:
  assumes "\<forall>d \<in> set dns. list_all graphic d"
  shows "resolvers (resolv_text dns) = dns"
proof -
  have "List.map_filter (strip_prefix ''nameserver '') (map ((@) ''nameserver '') ds) = ds" for ds
    by (induction ds) (simp_all add: List.map_filter_simps)
  then show ?thesis using assms by (simp add: resolvers_def text_lines_resolv trim_graphic map_idI)
qed

lemma config_dns_graphic: "build_config cidr gw dns = Inr cfg \<Longrightarrow> \<forall>d \<in> set (nc_dns cfg). list_all graphic d"
  by (auto simp: build_config_def result_iff parse_ipv4_graphic split: option.splits prod.splits if_splits)

section \<open>What a configuration leaves behind\<close>

lemma kernel_call_Inr: "kernel_call k c f s = (Inr u, s') \<longleftrightarrow> \<not> net_fails k c \<and> s' = f s"
  by (auto simp: kernel_call_def)

text \<open>An application that succeeds has set the address, and the resolver if there is one to set.\<close>

lemma apply_config_Inr:
  assumes "apply_config k cfg s = (Inr u, s')"
  shows "eth_up s' \<and> eth_addr s' = Some (nc_ip cfg) \<and> eth_mask s' = Some (netmask_octets (nc_prefix cfg)) \<and>
    proxy_vars s' = proxy_vars s \<and> resolv_error s' = resolv_error s \<and>
    resolv_conf s' = (if nc_dns cfg = [] then resolv_conf s else Some (resolv_text (nc_dns cfg)))"
  using assms
  by (auto simp: apply_config_def configure_eth0_def seq_def attempt_def modify_def ret_def set_if_down_def kernel_call_def
      ensure_loopback_up_def write_resolv_conf_def split: if_splits option.splits prod.splits sum.splits)

lemma apply_config_errors:
  "apply_config k cfg s = (r, s') \<Longrightarrow> resolv_error s' = resolv_error s \<and> proxy_vars s' = proxy_vars s"
  by (auto simp: apply_config_def configure_eth0_def seq_def attempt_def modify_def ret_def set_if_down_def kernel_call_def
      ensure_loopback_up_def write_resolv_conf_def split: if_splits option.splits prod.splits sum.splits)

lemma apply_config_works:
  assumes "\<forall>c. \<not> net_fails k c"
  shows "apply_config k cfg s = (Inr (), s\<lparr>lo_up := True, eth_up := True, eth_addr := Some (nc_ip cfg),
    eth_mask := Some (netmask_octets (nc_prefix cfg)), default_route := nc_gw cfg,
    resolv_conf := (if nc_dns cfg = [] then resolv_conf s else Some (resolv_text (nc_dns cfg)))\<rparr>)"
  using assms
  by (auto simp: apply_config_def configure_eth0_def seq_def attempt_def modify_def ret_def set_if_down_def kernel_call_def
      ensure_loopback_up_def write_resolv_conf_def split: option.splits)

lemma boot_resolver:
  assumes "parse_config cl = Inr cfg" "nc_dns cfg \<noteq> []" "\<not> resolv_error s"
    and "s' = configure_if_requested k (Some cl) s" "\<not> resolv_error s'"
  shows "\<exists>txt. resolv_conf s' = Some txt \<and> resolvers txt = nc_dns cfg"
proof -
  have net: "cmdline_value cl ''isopod.net'' \<noteq> None" using assms(1) by (auto simp: parse_config_def split: option.splits)
  define s1 where "s1 = (case Option.bind (cmdline_value cl ''isopod.proxy'') parse_proxy_token of
      Some eps \<Rightarrow> set_proxy_env eps s | None \<Rightarrow> s)"
  obtain r s2 where r: "apply_config k cfg s1 = (r, s2)" by force
  have s': "s' = (if isl r \<and> nc_dns cfg \<noteq> [] \<and> \<not> resolv_conf_matches k s2 (nc_dns cfg) then s2\<lparr>resolv_error := True\<rparr> else s2)"
    using assms(1,4) net r unfolding s1_def configure_if_requested_def by (simp add: Let_def)
  have dns: "\<forall>d \<in> set (nc_dns cfg). list_all graphic d"
    using assms(1) config_dns_graphic by (auto simp: parse_config_def lift_err_def Let_def result_iff split: option.splits)
  show ?thesis
  proof (cases r)
    case (Inl e)
    with s' assms(2,5) have "resolv_conf_matches k s2 (nc_dns cfg)" "s' = s2" by (auto split: if_splits)
    then show ?thesis by (simp add: matches_resolvers)
  next
    case (Inr u)
    with s' r apply_config_Inr [of k cfg s1 u s2] assms(2) dns show ?thesis by (simp add: resolvers_resolv_text)
  qed
qed



section \<open>Reconfiguration\<close>

lemma reconfigured_resolver:
  assumes "configure_net k ip gw dns bro s = (Inr u, s')"
    and "\<exists>d \<in> set dns. \<not> isl (parse_ipv4_text d)"
  shows "\<exists>txt. resolv_conf s' = Some txt \<and> resolvers txt = filter (\<lambda>d. \<not> isl (parse_ipv4_text d)) dns"
proof -
  obtain cfg s1 where c: "build_config ip (if gw = [] then None else Some gw) dns = Inr cfg" "apply_config k cfg s1 = (Inr u, s')"
    using assms(1) by (auto simp: configure_net_def Let_def map_fail_def split: sum.splits prod.splits)
  have "nc_dns cfg = filter (\<lambda>d. \<not> isl (parse_ipv4_text d)) (filter (\<lambda>d. d \<noteq> []) dns)"
    using c(1) by (auto simp: build_config_def result_iff split: option.splits prod.splits if_splits)
  also have "\<dots> = filter (\<lambda>d. \<not> isl (parse_ipv4_text d)) dns"
    using parse_ipv4_graphic by (auto simp: filter_filter intro!: filter_cong)
  finally have dns: "nc_dns cfg = filter (\<lambda>d. \<not> isl (parse_ipv4_text d)) dns" .
  then have "nc_dns cfg \<noteq> []" using assms(2) by (auto simp: filter_empty_conv)
  with apply_config_Inr [OF c(2)] config_dns_graphic [OF c(1)] dns show ?thesis
    by (simp add: resolvers_resolv_text)
qed

lemma apply_config_again:
  "apply_config k cfg s = (Inr u, s') \<Longrightarrow> apply_config k cfg s' = (Inr u, s')"
  by (auto simp: apply_config_def configure_eth0_def seq_def attempt_def modify_def ret_def set_if_down_def kernel_call_def
      ensure_loopback_up_def write_resolv_conf_def split: if_splits option.splits prod.splits sum.splits)

text \<open>
  A reconfiguration that succeeds replaces the old one: the resolver file names exactly the
  servers that were given and parse, in order, and asking for the same again changes nothing.
\<close>
theorem reconfiguration_is_idempotent:
  assumes "configure_net k ip gw dns bro s = (Inr (), s')"
  shows "configure_net k ip gw dns bro s' = (Inr (), s') \<and>
    ((\<exists>d \<in> set dns. \<not> isl (parse_ipv4_text d)) \<longrightarrow>
      (\<exists>txt. resolv_conf s' = Some txt \<and> resolvers txt = filter (\<lambda>d. \<not> isl (parse_ipv4_text d)) dns))"
proof -
  define f where "f t = (case bro of Some eps \<Rightarrow> set_proxy_env eps t | None \<Rightarrow> t)" for t
  obtain cfg where c: "build_config ip (if gw = [] then None else Some gw) dns = Inr cfg" "apply_config k cfg (f s) = (Inr (), s')"
    using assms unfolding configure_net_def f_def [symmetric]
    by (auto simp: Let_def map_fail_def split: sum.splits prod.splits)
  have "proxy_vars s' = proxy_vars (f s)" using apply_config_errors [OF c(2)] by simp
  then have "f s' = s'" by (auto simp: f_def set_proxy_env_def split: option.split)
  then have "configure_net k ip gw dns bro s' = (Inr (), s')"
    using c(1) apply_config_again [OF c(2)] unfolding configure_net_def f_def [symmetric] by (simp add: Let_def map_fail_def)
  then show ?thesis using reconfigured_resolver [OF assms] by blast
qed

definition sample_calls :: net_calls where
  "sample_calls = \<lparr>net_fails = (\<lambda>c. c = AddRoute), torn_resolv = None\<rparr>"

theorem reconfiguration_is_idempotent_witness:
  "\<exists>s' txt. resolv_conf s' = Some txt \<and> resolvers txt = [''10.107.3.1''] \<and>
     configure_net sample_calls ''10.107.3.2/30'' ''10.107.3.1'' [''x'', ''10.107.3.1''] None s' = (Inr (), s')"
proof -
  let ?s = "\<lparr>lo_up = True, eth_up = True, eth_addr = None, eth_mask = None, default_route = None, resolv_conf = None,
      proxy_vars = [], resolv_error = False\<rparr>"
  let ?run = "configure_net sample_calls ''10.107.3.2/30'' ''10.107.3.1'' [''x'', ''10.107.3.1''] None"
  have "fst (?run ?s) = Inr ()" by code_simp
  then obtain s' where r: "?run ?s = (Inr (), s')" by (cases "?run ?s") auto
  have "filter (\<lambda>d. \<not> isl (parse_ipv4_text d)) [''x'', ''10.107.3.1''] = [''10.107.3.1'']"
      "\<exists>d \<in> set [''x'', ''10.107.3.1'']. \<not> isl (parse_ipv4_text d)"
    by code_simp+
  with reconfiguration_is_idempotent [OF r] show ?thesis by auto
qed

end
