(* ===== verification/Wire.thy ===== *)
theory Wire
  imports Prelude
begin

text \<open>
  \<open>proto/src/frame.rs\<close>: messages between host and guest as length-prefixed frames. The
  blocking functions and their asynchronous twins do the same reads and writes. The JSON
  encoder and decoder are parameters. A connection is the bytes that will still arrive and how
  it ends then; a reader that gets them in pieces sees the same.
\<close>

section \<open>Frames\<close>

definition MAX_FRAME_LEN :: u32 where "MAX_FRAME_LEN = 8 * 1024 * 1024"

datatype frame_error = FrameIo | FrameTooLarge u32 | FrameDecode

datatype stream_end = Closed | Broken

type_synonym connection = "bytes \<times> stream_end"

datatype exact = Filled bytes | UnexpectedEof | ReadError

text \<open>\<open>read_exact\<close>: what arrived before the end is consumed.\<close>

fun fill :: "nat \<Rightarrow> connection \<Rightarrow> exact \<times> connection" where
  "fill n (bs, e) =
     (if n \<le> length bs then (Filled (take n bs), (drop n bs, e))
      else (case e of Closed \<Rightarrow> UnexpectedEof | Broken \<Rightarrow> ReadError, ([], e)))"

definition to_le_bytes :: "u32 \<Rightarrow> bytes" where
  "to_le_bytes w = rev (to_be32 w)"

definition from_le_bytes :: "bytes \<Rightarrow> u32" where
  "from_le_bytes bs = word_of_nat (foldr (\<lambda>b n. unat b + 256 * n) bs 0)"

text \<open>\<open>room\<close>: how many more bytes the peer takes before a write fails.\<close>

definition write_frame :: "('m \<Rightarrow> bytes option) \<Rightarrow> nat \<Rightarrow> 'm \<Rightarrow> bytes \<Rightarrow> (frame_error + unit) \<times> bytes" where
  "write_frame to_vec room msg out =
     (case to_vec msg of
        None \<Rightarrow> (Inl FrameDecode, out)
      | Some payload \<Rightarrow>
          if 2 ^ 32 \<le> length payload then (Inl (FrameTooLarge (- 1)), out)
          else let len = word_of_nat (length payload) :: u32 in
            if MAX_FRAME_LEN < len then (Inl (FrameTooLarge len), out)
            else let frame = to_le_bytes len @ payload in
              if room < length frame then (Inl FrameIo, out @ take room frame)
              else (Inr (), out @ frame))"

definition read_frame :: "(bytes \<Rightarrow> 'm option) \<Rightarrow> connection \<Rightarrow> (frame_error + 'm option) \<times> connection" where
  "read_frame from_slice c =
     (case fill 4 c of
        (UnexpectedEof, c1) \<Rightarrow> (Inr None, c1)
      | (ReadError, c1) \<Rightarrow> (Inl FrameIo, c1)
      | (Filled len_buf, c1) \<Rightarrow>
         (let len = from_le_bytes len_buf in
          if MAX_FRAME_LEN < len then (Inl (FrameTooLarge len), c1)
          else case fill (unat len) c1 of
              (Filled payload, c2) \<Rightarrow>
                (case from_slice payload of
                   None \<Rightarrow> (Inl FrameDecode, c2)
                 | Some m \<Rightarrow> (Inr (Some m), c2))
            | (_, c2) \<Rightarrow> (Inl FrameIo, c2)))"

text \<open>A peer that reads until the connection ends or a frame is refused.\<close>

fun read_all :: "(bytes \<Rightarrow> 'm option) \<Rightarrow> nat \<Rightarrow> connection \<Rightarrow> 'm list \<times> (frame_error + unit)" where
  "read_all from_slice 0 c = ([], Inl FrameIo)"
| "read_all from_slice (Suc k) c =
     (case read_frame from_slice c of
        (Inl e, _) \<Rightarrow> ([], Inl e)
      | (Inr None, _) \<Rightarrow> ([], Inr ())
      | (Inr (Some m), c') \<Rightarrow> map_prod ((#) m) id (read_all from_slice k c'))"

section \<open>Reading back\<close>

lemma length_to_le_bytes [simp]: "length (to_le_bytes w) = 4"
  by (simp add: to_le_bytes_def)

lemma from_to_le_bytes [simp]: "from_le_bytes (to_le_bytes w) = w"
proof -
  have n: "unat w < 2 ^ 32" using unsigned_less [of w, where 'a = nat] by simp
  have byte: "unat (word_of_nat k :: u8) = k" if "k < 256" for k
    by (intro unat_word_of_nat) (use that in simp)
  have "unat w div 2 ^ 24 < 256" using n by (simp add: less_mult_imp_div_less)
  then have "foldr (\<lambda>b k. unat b + 256 * k) (to_le_bytes w) 0 =
      unat w mod 256 + 256 * (unat w div 2 ^ 8 mod 256 + 256 * (unat w div 2 ^ 16 mod 256 + 256 * (unat w div 2 ^ 24)))"
    by (simp add: to_le_bytes_def to_be32_def byte)
  also have "unat w div 2 ^ 24 = unat w div 2 ^ 16 div 256" by (simp flip: div_mult2_eq)
  also have "unat w div 2 ^ 16 mod 256 + 256 * (unat w div 2 ^ 16 div 256) = unat w div 2 ^ 16" by (rule mod_mult_div_eq)
  also have "unat w div 2 ^ 16 = unat w div 2 ^ 8 div 256" by (simp flip: div_mult2_eq)
  also have "unat w div 2 ^ 8 mod 256 + 256 * (unat w div 2 ^ 8 div 256) = unat w div 2 ^ 8" by (rule mod_mult_div_eq)
  also have "unat w div 2 ^ 8 = unat w div 256" by simp
  also have "unat w mod 256 + 256 * (unat w div 256) = unat w" by (rule mod_mult_div_eq)
  finally show ?thesis by (simp add: from_le_bytes_def)
qed

text \<open>A message's frame, if it has one.\<close>

definition frame_of :: "('m \<Rightarrow> bytes option) \<Rightarrow> 'm \<Rightarrow> bytes option" where
  "frame_of to_vec m =
     (case to_vec m of
        Some payload \<Rightarrow>
          if length payload \<le> 8388608 then Some (to_le_bytes (word_of_nat (length payload)) @ payload) else None
      | None \<Rightarrow> None)"

lemma len_le_max: "length p < 2 ^ 32 \<Longrightarrow> (word_of_nat (length p) :: u32) \<le> MAX_FRAME_LEN \<longleftrightarrow> length p \<le> 8388608"
  by (simp add: word_le_nat_alt MAX_FRAME_LEN_def unat_word_of_nat)

lemma write_frame_Inr_iff:
  "write_frame to_vec room m out = (Inr u, out') \<longleftrightarrow>
     (\<exists>f. frame_of to_vec m = Some f \<and> length f \<le> room \<and> out' = out @ f)"
  using len_le_max
  by (auto simp: write_frame_def frame_of_def Let_def not_less [symmetric] split: option.splits)

lemma read_frame_of:
  assumes "frame_of to_vec m = Some f" "\<And>b. to_vec m = Some b \<Longrightarrow> from_slice b = Some m"
  shows "read_frame from_slice (f @ bs, e) = (Inr (Some m), (bs, e))"
proof -
  obtain p where p: "to_vec m = Some p" "length p \<le> 8388608" "f = to_le_bytes (word_of_nat (length p)) @ p"
    using assms(1) by (auto simp: frame_of_def split: option.splits if_splits)
  have "unat (word_of_nat (length p) :: u32) = length p" using p(2) by (intro unat_word_of_nat) simp
  moreover have "\<not> MAX_FRAME_LEN < (word_of_nat (length p) :: u32)"
    using len_le_max [of p] p(2) by (simp add: not_less)
  ultimately show ?thesis using p(3) assms(2) [OF p(1)] by (simp add: read_frame_def)
qed

lemma read_frame_cut:
  assumes "frame_of to_vec m = Some f" "k < length f"
  shows "fst (read_frame from_slice (take k f, Closed)) = (if k < 4 then Inr None else Inl FrameIo)"
proof -
  obtain p where p: "length p \<le> 8388608" "f = to_le_bytes (word_of_nat (length p)) @ p"
    using assms(1) by (auto simp: frame_of_def split: option.splits if_splits)
  have "unat (word_of_nat (length p) :: u32) = length p" using p(1) by (intro unat_word_of_nat) simp
  moreover have "\<not> MAX_FRAME_LEN < (word_of_nat (length p) :: u32)"
    using len_le_max [of p] p(1) by (simp add: not_less)
  ultimately show ?thesis using p(2) assms(2) by (auto simp: read_frame_def)
qed

text \<open>What a sequence of messages puts on the connection.\<close>

fun stream_of :: "('m \<Rightarrow> bytes option) \<Rightarrow> 'm list \<Rightarrow> bytes option" where
  "stream_of to_vec [] = Some []"
| "stream_of to_vec (m # ms) =
     (case (frame_of to_vec m, stream_of to_vec ms) of (Some f, Some s) \<Rightarrow> Some (f @ s) | _ \<Rightarrow> None)"

fun write_frames :: "('m \<Rightarrow> bytes option) \<Rightarrow> nat \<Rightarrow> 'm list \<Rightarrow> bytes \<Rightarrow> (frame_error + unit) \<times> bytes" where
  "write_frames to_vec room [] out = (Inr (), out)"
| "write_frames to_vec room (m # ms) out =
     (case write_frame to_vec (room - length out) m out of
        (Inl e, out') \<Rightarrow> (Inl e, out')
      | (Inr _, out') \<Rightarrow> write_frames to_vec room ms out')"

lemma write_frames_stream:
  "write_frames to_vec room ms out = (Inr u, out') \<Longrightarrow> \<exists>s. stream_of to_vec ms = Some s \<and> out' = out @ s"
proof (induction ms arbitrary: out)
  case (Cons m ms)
  then obtain out1 where w: "write_frame to_vec (room - length out) m out = (Inr (), out1)"
      "write_frames to_vec room ms out1 = (Inr u, out')"
    by (auto split: prod.splits sum.splits)
  then obtain f where "frame_of to_vec m = Some f" "out1 = out @ f" by (auto simp: write_frame_Inr_iff)
  with Cons.IH [OF w(2)] show ?case by auto
qed simp

lemma read_all_append:
  assumes "\<And>m b. to_vec m = Some b \<Longrightarrow> from_slice b = Some m" "stream_of to_vec ms = Some s"
  shows "read_all from_slice (length ms + k) (s @ bs, e) = map_prod ((@) ms) id (read_all from_slice k (bs, e))"
  using assms(2)
proof (induction ms arbitrary: s)
  case (Cons m ms)
  then obtain f s' where "frame_of to_vec m = Some f" "stream_of to_vec ms = Some s'" "s = f @ s'"
    by (auto split: option.splits)
  with Cons.IH show ?case using read_frame_of [OF _ assms(1)] by (simp add: prod.map_comp comp_def)
qed (simp add: map_prod_def)

text \<open>A length over the limit is refused by either end, before the rest of the frame.\<close>

lemma read_frame_oversized:
  "length lb = 4 \<Longrightarrow> MAX_FRAME_LEN < from_le_bytes lb \<Longrightarrow>
   read_frame from_slice (lb @ bs, e) = (Inl (FrameTooLarge (from_le_bytes lb)), (bs, e))"
  by (simp add: read_frame_def)

lemma write_frame_oversized:
  "to_vec m = Some p \<Longrightarrow> 8388608 < length p \<Longrightarrow> \<exists>n. write_frame to_vec room m out = (Inl (FrameTooLarge n), out)"
  using len_le_max [of p] by (auto simp: write_frame_def Let_def not_less [symmetric])

lemma read_all_stream:
  assumes "\<And>m b. to_vec m = Some b \<Longrightarrow> from_slice b = Some m" "stream_of to_vec ms = Some s" "length ms < k"
  shows "read_all from_slice k (s, Closed) = (ms, Inr ())"
  using assms(2,3)
proof (induction ms arbitrary: s k)
  case Nil
  then show ?case by (cases k) (simp_all add: read_frame_def)
next
  case (Cons m ms)
  then obtain f s' j where "frame_of to_vec m = Some f" "stream_of to_vec ms = Some s'" "s = f @ s'" "k = Suc j" "length ms < j"
    by (cases k) (auto split: option.splits)
  with Cons.IH show ?case using read_frame_of [OF _ assms(1)] by simp
qed

lemma read_all_cut:
  assumes "\<And>m b. to_vec m = Some b \<Longrightarrow> from_slice b = Some m" "stream_of to_vec ms = Some s" "length ms < k" "n < length s"
  shows "\<exists>j whole. j < length ms \<and> stream_of to_vec (take j ms) = Some whole \<and> length whole \<le> n \<and>
    (\<forall>more. stream_of to_vec (take (Suc j) ms) = Some more \<longrightarrow> n < length more) \<and>
    read_all from_slice k (take n s, Closed) = (take j ms, if n - length whole < 4 then Inr () else Inl FrameIo)"
  using assms(2-)
proof (induction ms arbitrary: s k n)
  case (Cons m ms)
  then obtain f s' i where f: "frame_of to_vec m = Some f" "stream_of to_vec ms = Some s'" "s = f @ s'" "k = Suc i" "length ms < i"
    by (cases k) (auto split: option.splits)
  show ?case
  proof (cases "n < length f")
    case True
    obtain c where "read_frame from_slice (take n f, Closed) = (if n < 4 then Inr None else Inl FrameIo, c)"
      using read_frame_cut [OF f(1) True, of from_slice] by (intro that [of "snd (read_frame from_slice (take n f, Closed))"]) (simp add: prod_eq_iff)
    with f True show ?thesis
      by (intro exI [of _ 0] exI [of _ "[]"]) auto
  next
    case False
    then obtain l where l: "n = length f + l" "l < length s'"
      using Cons.prems(3) f(3) by (intro that [of "n - length f"]) auto
    obtain j whole where j: "j < length ms" "stream_of to_vec (take j ms) = Some whole" "length whole \<le> l"
        "\<And>more. stream_of to_vec (take (Suc j) ms) = Some more \<Longrightarrow> l < length more"
        "read_all from_slice i (take l s', Closed) = (take j ms, if l - length whole < 4 then Inr () else Inl FrameIo)"
      using Cons.IH [OF f(2,5) l(2)] by blast
    have "read_frame from_slice (take n s, Closed) = (Inr (Some m), (take l s', Closed))"
      using read_frame_of [OF f(1) assms(1)] f(3) l(1) by simp
    with j f l show ?thesis
      by (intro exI [of _ "Suc j"] exI [of _ "f @ whole"]) (auto split: option.splits)
  qed
qed simp

text \<open>
  C38: what one side writes the other reads, message for message and ending with the
  connection; and if the connection is cut short anywhere, the reader gets exactly the
  messages that arrived whole, and then an error, except within the four bytes of a length,
  where it sees an orderly close. A frame that announces more than the limit ends the reading with
  an error after the messages before it, however the connection goes on, and a message that large
  is refused by the writer with nothing sent. (\<open>to_vec\<close> and \<open>from_slice\<close>, the JSON library, are only
  assumed to round-trip each message.)
\<close>
theorem frames_round_trip:
  assumes "\<And>m b. to_vec m = Some b \<Longrightarrow> from_slice b = Some m"
    and "write_frames to_vec room ms [] = (Inr (), s)"
  shows "read_all from_slice (Suc (length ms)) (s, Closed) = (ms, Inr ()) \<and>
    (\<forall>n < length s. \<exists>j whole. j < length ms \<and> stream_of to_vec (take j ms) = Some whole \<and> length whole \<le> n \<and>
       (\<forall>more. stream_of to_vec (take (Suc j) ms) = Some more \<longrightarrow> n < length more) \<and>
       read_all from_slice (Suc (length ms)) (take n s, Closed) =
         (take j ms, if n - length whole < 4 then Inr () else Inl FrameIo)) \<and>
    (\<forall>lb bs e. length lb = 4 \<and> MAX_FRAME_LEN < from_le_bytes lb \<longrightarrow>
       read_all from_slice (Suc (length ms)) (s @ lb @ bs, e) = (ms, Inl (FrameTooLarge (from_le_bytes lb)))) \<and>
    (\<forall>m p. to_vec m = Some p \<and> 8388608 < length p \<longrightarrow>
       (\<exists>n. write_frame to_vec room m s = (Inl (FrameTooLarge n), s)))"
proof -
  have s: "stream_of to_vec ms = Some s" using write_frames_stream [OF assms(2)] by simp
  have big: "read_all from_slice (Suc (length ms)) (s @ lb @ bs, e) = (ms, Inl (FrameTooLarge (from_le_bytes lb)))"
    if "length lb = 4 \<and> MAX_FRAME_LEN < from_le_bytes lb" for lb bs e
  proof -
    have "read_all from_slice (length ms + 1) (s @ lb @ bs, e) = map_prod ((@) ms) id (read_all from_slice 1 (lb @ bs, e))"
      by (rule read_all_append [OF assms(1) s])
    moreover have "read_all from_slice 1 (lb @ bs, e) = ([], Inl (FrameTooLarge (from_le_bytes lb)))"
      using read_frame_oversized [of lb from_slice bs e] that by simp
    ultimately show ?thesis by simp
  qed
  show ?thesis
    by (intro conjI allI impI read_all_stream [OF assms(1) s] read_all_cut [OF assms(1) s] lessI big write_frame_oversized) auto
qed

text \<open>A message is itself here, as its one byte.\<close>

definition sample_vec :: "u8 \<Rightarrow> bytes option" where "sample_vec b = Some [b, 0]"

definition sample_slice :: "bytes \<Rightarrow> u8 option" where
  "sample_slice bs = (if length bs = 2 \<and> bs ! 1 = 0 then Some (hd bs) else None)"

theorem frames_round_trip_witness:
  "read_all sample_slice 3 ([2, 0, 0, 0, 7, 0, 2, 0, 0, 0, 8, 0], Closed) = ([7, 8], Inr ())"
proof -
  have "write_frames sample_vec 100 [7, 8] [] = (Inr (), [2, 0, 0, 0, 7, 0, 2, 0, 0, 0, 8, 0])"
    by code_simp
  moreover have "sample_slice b = Some m" if "sample_vec m = Some b" for m b
    using that by (auto simp: sample_vec_def sample_slice_def)
  ultimately have "read_all sample_slice (Suc (length [7, 8 :: u8])) ([2, 0, 0, 0, 7, 0, 2, 0, 0, 0, 8, 0], Closed) = ([7, 8], Inr ())"
    using frames_round_trip [of sample_vec sample_slice 100 "[7, 8]"] by blast
  then show ?thesis by (simp add: eval_nat_numeral)
qed

text \<open>
  The documentation of \<^const>\<open>read_frame\<close> has \<^const>\<open>None\<close> for a close at a frame boundary; a
  connection that is cut inside a length reads the same.
\<close>

lemma torn_header_reads_as_close:
  "fst (read_frame sample_slice ([2, 0, 0], Closed)) = Inr None"
  by code_simp

end
