(* ===== verification/Run_Checks.thy ===== *)
theory Run_Checks
  imports Guest_Net
begin

text \<open>
  What a run checks before it boots anything, and what it reports of its broker:
  \<open>vm/resources.rs\<close> and the pure parts of \<open>vm/mod.rs\<close>. The host's size, the files that exist and
  the directory of images are arguments.
\<close>

section \<open>Resources\<close>

definition MIN_MEM_MIB :: u32 where "MIN_MEM_MIB = 128"
definition MAX_MEM_MIB :: u32 where "MAX_MEM_MIB = 4096"
definition HOST_MEM_HEADROOM_MIB :: u32 where "HOST_MEM_HEADROOM_MIB = 512"
definition MAX_VCPUS :: u32 where "MAX_VCPUS = 32"

record resources =
  vcpus :: u32
  mem_mib :: u32

definition saturating_sub :: "'a::len word \<Rightarrow> 'a word \<Rightarrow> 'a word" where
  "saturating_sub a b = (if b \<le> a then a - b else 0)"

definition mem_cap :: "u32 \<Rightarrow> u32" where
  "mem_cap host_mem = min (saturating_sub host_mem HOST_MEM_HEADROOM_MIB) MAX_MEM_MIB"

definition vcpu_cap :: "u32 \<Rightarrow> u32" where
  "vcpu_cap host_nproc = min host_nproc MAX_VCPUS"

datatype resource_error = NoVcpus | TooManyVcpus u32 | OddVcpus u32 | MemBelowFloor u32 | MemAboveCap u32 | NoMemTotal

definition resolve_resources :: "u32 \<Rightarrow> u32 \<Rightarrow> u32 \<Rightarrow> u32 \<Rightarrow> resource_error + resources" where
  "resolve_resources vc mem host_nproc host_mem =
     (if vc < 1 then Inl NoVcpus
      else if vc > vcpu_cap host_nproc then Inl (TooManyVcpus vc)
      else if vc > 1 \<and> vc mod 2 \<noteq> 0 then Inl (OddVcpus vc)
      else if mem < MIN_MEM_MIB then Inl (MemBelowFloor mem)
      else if mem > mem_cap host_mem then Inl (MemAboveCap mem)
      else Inr \<lparr>vcpus = vc, mem_mib = mem\<rparr>)"

fun mem_total_line :: "string list \<Rightarrow> resource_error + u32" where
  "mem_total_line [] = Inl NoMemTotal"
| "mem_total_line (l # ls) =
     (case strip_prefix ''MemTotal:'' l of
        Some rest \<Rightarrow>
          ok_or NoMemTotal (map_option (\<lambda>kb. word_of_nat (kb div 1024))
            (Option.bind (List.find (\<lambda>_. True) (split_whitespace rest)) (parse_uint (2 ^ 64 - 1))))
      | None \<Rightarrow> mem_total_line ls)"

definition parse_mem_total_mib :: "string \<Rightarrow> resource_error + u32" where
  "parse_mem_total_mib meminfo = mem_total_line (text_lines meminfo)"

definition resolve_for_host :: "nat option \<Rightarrow> string option \<Rightarrow> u32 \<Rightarrow> u32 \<Rightarrow> resource_error + resources" where
  "resolve_for_host parallelism meminfo vc mem =
     (let nproc = (case parallelism of Some n \<Rightarrow> word_of_nat n | None \<Rightarrow> 1) in
      try_bind (ok_or NoMemTotal meminfo) (\<lambda>txt.
      try_bind (parse_mem_total_mib txt) (\<lambda>mt.
      resolve_resources vc mem nproc mt)))"

section \<open>Environment variables\<close>

definition NUL :: char where "NUL = char_of (0 :: nat)"

datatype env_error = NoVarName | BadVarName string | BadVarValue string | NotKeyValue string

fun validate_env :: "(string \<times> string) list \<Rightarrow> env_error + unit" where
  "validate_env [] = Inr ()"
| "validate_env ((k, v) # env) =
     (if k = [] then Inl NoVarName
      else if CHR ''='' \<in> set k \<or> NUL \<in> set k then Inl (BadVarName k)
      else if NUL \<in> set v then Inl (BadVarValue k)
      else validate_env env)"

fun parse_env_kv :: "string list \<Rightarrow> env_error + (string \<times> string) list" where
  "parse_env_kv [] = Inr []"
| "parse_env_kv (item # items) =
     (case split_once CHR ''='' item of
        Some (k, v) \<Rightarrow>
          if k = [] then Inl NoVarName
          else try_bind (parse_env_kv items) (\<lambda>out. Inr ((k, v) # out))
      | None \<Rightarrow> Inl (NotKeyValue item))"

section \<open>Budgets and sizes\<close>

definition MAX_TIMEOUT_S :: u64 where "MAX_TIMEOUT_S = 3600"
definition MIN_SCRATCH_MIB :: u32 where "MIN_SCRATCH_MIB = 128"
definition MAX_SCRATCH_MIB :: u32 where "MAX_SCRATCH_MIB = 64 * 1024"
definition DEFAULT_SCRATCH_MIB :: u64 where "DEFAULT_SCRATCH_MIB = 1024"

text \<open>The product is \<open>saturating_mul\<close>.\<close>

definition outer_budget_ms :: "u64 \<Rightarrow> u64" where
  "outer_budget_ms timeout_s = word_of_nat (min (2 ^ 64 - 1) (unat timeout_s * 1000))"

definition exec_budget :: "u64 \<Rightarrow> u64 \<Rightarrow> u64" where
  "exec_budget outer_ms elapsed_ms = max (saturating_sub outer_ms elapsed_ms) 1"

definition resolve_scratch_mib :: "u32 option \<Rightarrow> u32 + u64" where
  "resolve_scratch_mib requested =
     (case requested of
        None \<Rightarrow> Inr DEFAULT_SCRATCH_MIB
      | Some mib \<Rightarrow>
          if MIN_SCRATCH_MIB \<le> mib \<and> mib \<le> MAX_SCRATCH_MIB then Inr (ucast mib) else Inl mib)"

section \<open>Binaries and kernels\<close>

datatype fc_provenance = FromEnv | VendoredBuild | SystemPackage | M0Release

definition resolve_fc_bin_from ::
  "string option \<Rightarrow> string \<Rightarrow> string \<Rightarrow> string \<Rightarrow> (string \<Rightarrow> bool) \<Rightarrow> (string \<times> fc_provenance) option" where
  "resolve_fc_bin_from env vendored system m0 there =
     (case env of
        Some path \<Rightarrow> if there path then Some (path, FromEnv) else None
      | None \<Rightarrow>
          if there vendored then Some (vendored, VendoredBuild)
          else if there system then Some (system, SystemPackage)
          else if there m0 then Some (m0, M0Release)
          else None)"

text \<open>An entry of the directory: its name and whether it is a regular file.\<close>

fun best_entry :: "string \<Rightarrow> (string \<times> bool) list \<Rightarrow> string option \<Rightarrow> string option" where
  "best_entry pre [] best = best"
| "best_entry pre ((name, regular) # rest) best =
     (if \<not> starts_with pre name \<or> \<not> regular then best_entry pre rest best
      else case best of
          Some b \<Rightarrow> if b \<ge> name then best_entry pre rest best else best_entry pre rest (Some name)
        | None \<Rightarrow> best_entry pre rest (Some name))"

definition newest_with_prefix :: "string \<Rightarrow> (string \<times> bool) list \<Rightarrow> string option" where
  "newest_with_prefix pre dir = best_entry pre dir None"

definition resolve_kernel :: "(string \<times> bool) list \<Rightarrow> string option \<Rightarrow> string option" where
  "resolve_kernel dir fetched =
     (case newest_with_prefix ''vmlinux-6.18'' dir of
        Some p \<Rightarrow> Some p
      | None \<Rightarrow>
         (case newest_with_prefix ''vmlinux-'' dir of
            Some p \<Rightarrow> Some p
          | None \<Rightarrow> fetched))"

section \<open>The egress policy of a run\<close>

record egress_policy =
  hosts :: "string list"
  cidrs :: "string list"
  inject :: "string list"
  policy_caller :: caller

fun parse_each :: "(string \<Rightarrow> egress_error + host_rule) \<Rightarrow> string list \<Rightarrow> egress_error + host_rule list" where
  "parse_each f [] = Inr []"
| "parse_each f (raw # raws) = try_bind (f raw) (\<lambda>r. try_bind (parse_each f raws) (\<lambda>rs. Inr (r # rs)))"

definition parse_egress_rules :: "egress_policy \<Rightarrow> egress_error + host_rule list" where
  "parse_egress_rules p =
     try_bind (parse_each parse_host (hosts p)) (\<lambda>hs.
     try_bind (parse_each parse_cidr (cidrs p)) (\<lambda>cs. Inr (hs @ cs)))"

definition load_run_credentials :: "host_io \<Rightarrow> string \<Rightarrow> egress_policy \<Rightarrow> cred_error + resolved_credential list" where
  "load_run_credentials hio path p =
     (if inject p = [] then Inr [] else load_credentials hio (inject p) (policy_caller p) path)"

section \<open>The egress report\<close>

definition EGRESS_INLINE_CAP :: nat where "EGRESS_INLINE_CAP = 64"

record egress_conn =
  conn_host :: string
  conn_port :: u16
  conn_up :: u64
  conn_down :: u64
  conn_ts :: u64

record egress_denied =
  denied_host :: string
  denied_port :: u16
  denied_reason :: deny_reason
  denied_note :: "string option"
  denied_ts :: u64

record injected_credential =
  ic_alias :: string
  ic_host :: string
  ic_allow :: "string list"

record egress_report =
  allowed_rules :: "string list"
  allowed_conns :: "egress_conn list"
  denied_conns :: "egress_denied list"
  dns_queries :: "string list"
  injected :: "injected_credential list"
  credential_endpoint :: "string option"
  total_events :: u64
  truncated :: bool

definition egress_conn_of :: "egress_event \<Rightarrow> egress_conn" where
  "egress_conn_of e =
     \<lparr>conn_host = as_str (ev_host e), conn_port = ev_port e, conn_up = bytes_up e, conn_down = bytes_down e,
      conn_ts = ts_ms e\<rparr>"

definition egress_denied_of :: "egress_event \<Rightarrow> egress_denied" where
  "egress_denied_of e =
     \<lparr>denied_host = as_str (ev_host e), denied_port = ev_port e,
      denied_reason = (case ev_reason e of Some r \<Rightarrow> r | None \<Rightarrow> NotAllowed), denied_note = ev_note e,
      denied_ts = ts_ms e\<rparr>"

type_synonym summary = "egress_conn list \<times> egress_denied list \<times> string list \<times> bool"

definition summarize_dns :: "egress_event \<Rightarrow> summary \<Rightarrow> summary" where
  "summarize_dns e acc =
     (case acc of (allowed, denied, names, over) \<Rightarrow>
        let name = as_str (ev_host e) in
        if ev_proto e \<noteq> Dns \<or> name \<in> set names then acc
        else if length names < EGRESS_INLINE_CAP then (allowed, denied, names @ [name], over)
        else (allowed, denied, names, True))"

definition summarize_event :: "egress_event \<Rightarrow> summary \<Rightarrow> summary" where
  "summarize_event e acc =
     (case summarize_dns e acc of (allowed, denied, names, over) \<Rightarrow>
        if ev_proto e = Dns \<and> ev_allowed e then (allowed, denied, names, over)
        else if ev_allowed e then
          (if length allowed < EGRESS_INLINE_CAP then (allowed @ [egress_conn_of e], denied, names, over)
           else (allowed, denied, names, True))
        else if length denied < EGRESS_INLINE_CAP then (allowed, denied @ [egress_denied_of e], names, over)
        else (allowed, denied, names, True))"

definition summarize_egress :: "egress_event list \<Rightarrow> u64 \<Rightarrow> host_rule list \<Rightarrow> egress_report" where
  "summarize_egress evs seen rls =
     (case fold summarize_event evs ([], [], [], False) of
        (allowed, denied, names, over) \<Rightarrow>
          \<lparr>allowed_rules = map rule_display rls, allowed_conns = allowed, denied_conns = denied,
           dns_queries = names, injected = [], credential_endpoint = None, total_events = seen,
           truncated = (over \<or> unat seen > length evs)\<rparr>)"

definition injected_of :: "resolved_credential \<Rightarrow> injected_credential" where
  "injected_of c =
     \<lparr>ic_alias = as_str (rc_alias c), ic_host = host_str c, ic_allow = map request_rule_display (rc_allow c)\<rparr>"

text \<open>The write of \<open>egress.jsonl\<close> that comes first changes nothing the report reads.\<close>

definition build_egress_report :: "broker \<Rightarrow> shared \<Rightarrow> host_rule list \<Rightarrow> egress_report" where
  "build_egress_report br log rls =
     (summarize_egress (fst (snapshot log)) (snd (snapshot log)) rls)
       \<lparr>injected := map injected_of (credentials (br_policy br)),
        credential_endpoint := map_option (\<lambda>a. ''http://'' @ a) (ep_inject (br_endpoints br))\<rparr>"

section \<open>Resources fit the host\<close>

lemma unat_saturating_sub: "unat (saturating_sub a b) = unat a - unat b"
  by (auto simp: saturating_sub_def word_le_nat_alt unat_sub)

lemma even_unat: "even (unat (w :: 'a::len word)) \<longleftrightarrow> even w"
  using bit_unsigned_iff [of w 0] by (simp add: bit_0)

text \<open>
  A run gets the resources it asked for or an error, never less: one virtual processor or an
  even number of them, no more than the host and Firecracker have, and memory between the floor
  and what the host can spare.
\<close>
theorem resources_fit_the_host:
  "resolve_resources vc mem nproc host = Inr r \<longleftrightarrow>
   r = \<lparr>vcpus = vc, mem_mib = mem\<rparr> \<and>
   1 \<le> unat vc \<and> (unat vc = 1 \<or> even (unat vc)) \<and> unat vc \<le> min (unat nproc) 32 \<and>
   128 \<le> unat mem \<and> unat mem \<le> 4096 \<and> unat mem + 512 \<le> unat host"
proof -
  have vc: "vc < 1 \<longleftrightarrow> unat vc = 0" "vc > vcpu_cap nproc \<longleftrightarrow> unat vc > min (unat nproc) 32" "vc > 1 \<longleftrightarrow> unat vc > 1"
    "vc mod 2 \<noteq> 0 \<longleftrightarrow> odd (unat vc)"
    using even_unat [of vc]
    by (auto simp: word_less_nat_alt vcpu_cap_def MAX_VCPUS_def min_def word_le_nat_alt mod_2_eq_odd unat_eq_0 unat_gt_0)
  have mem: "mem < MIN_MEM_MIB \<longleftrightarrow> unat mem < 128"
    "mem > mem_cap host \<longleftrightarrow> unat mem > min (unat host - 512) 4096"
    by (auto simp: word_less_nat_alt MIN_MEM_MIB_def mem_cap_def MAX_MEM_MIB_def HOST_MEM_HEADROOM_MIB_def min_def word_le_nat_alt
        unat_saturating_sub)
  show ?thesis unfolding resolve_resources_def vc mem by auto
qed

section \<open>Environment variables read back\<close>

text \<open>The environment of a process, as \<open>execve\<close> takes it: one \<open>NAME=value\<close> per variable.\<close>

definition env_block :: "(string \<times> string) list \<Rightarrow> string list" where
  "env_block env = map (\<lambda>(k, v). k @ CHR ''='' # v) env"

lemma NUL_char: "NUL = CHR 0x00"
  by (simp add: NUL_def char_of_def bit_0)

lemma validate_env_iff:
  "validate_env env = Inr () \<longleftrightarrow>
   (\<forall>(k, v) \<in> set env. k \<noteq> [] \<and> CHR ''='' \<notin> set k \<and> NUL \<notin> set k \<and> NUL \<notin> set v)"
  by (induction env rule: validate_env.induct) auto

lemma parse_env_kv_block:
  "\<forall>(k, v) \<in> set env. k \<noteq> [] \<and> CHR ''='' \<notin> set k \<Longrightarrow> parse_env_kv (env_block env) = Inr env"
proof (induction env)
  case (Cons kv env)
  obtain k v where kv: "kv = (k, v)" by (cases kv)
  have "split_once CHR ''='' (k @ CHR ''='' # v) = Some (k, v)"
    using Cons.prems kv by (auto simp: split_once_Some_iff)
  with Cons kv show ?case by (simp add: env_block_def)
qed (simp add: env_block_def)

lemma parse_env_kv_Inr:
  "parse_env_kv items = Inr env \<Longrightarrow> env_block env = items \<and> (\<forall>(k, v) \<in> set env. k \<noteq> [] \<and> CHR ''='' \<notin> set k)"
proof (induction items arbitrary: env)
  case (Cons item items)
  then show ?case
    by (auto simp: env_block_def result_iff split_once_Some_iff split: option.splits prod.splits if_splits)
qed (simp add: env_block_def)

text \<open>
  An environment that a run accepts reaches the command as it was given: every variable is
  read back from its \<open>NAME=value\<close> string with the name and the value it had, no string is cut at
  a NUL, and what the command line parser accepts is exactly such an environment, less the NULs.
\<close>
theorem environment_reads_back:
  "(validate_env env = Inr () \<longrightarrow>
      parse_env_kv (env_block env) = Inr env \<and> (\<forall>s \<in> set (env_block env). NUL \<notin> set s)) \<and>
   (parse_env_kv items = Inr env \<longrightarrow>
      env_block env = items \<and> (validate_env env = Inr () \<longleftrightarrow> (\<forall>s \<in> set items. NUL \<notin> set s)))"
proof (intro conjI impI)
  assume v: "validate_env env = Inr ()"
  then show "parse_env_kv (env_block env) = Inr env"
    by (intro parse_env_kv_block) (auto simp: validate_env_iff)
  have "NUL \<noteq> CHR ''=''" by (simp add: NUL_char)
  then show "\<forall>s \<in> set (env_block env). NUL \<notin> set s" using v
    by (auto simp: validate_env_iff env_block_def)
next
  assume p: "parse_env_kv items = Inr env"
  have n: "NUL \<noteq> CHR ''=''" by (simp add: NUL_char)
  from parse_env_kv_Inr [OF p] show "env_block env = items" by simp
  then show "validate_env env = Inr () \<longleftrightarrow> (\<forall>s \<in> set items. NUL \<notin> set s)"
    using parse_env_kv_Inr [OF p] n by (fastforce simp: validate_env_iff env_block_def)
qed

theorem environment_reads_back_witness:
  "parse_env_kv [''A=1'', ''B=x=y'', ''C=''] = Inr [(''A'', ''1''), (''B'', ''x=y''), (''C'', [])] \<and>
   validate_env [(''A'', ''1''), (''B'', ''x=y''), (''C'', [])] = Inr ()"
proof -
  let ?e = "[(''A'', ''1''), (''B'', ''x=y''), (''C'', [])]"
  have v: "validate_env ?e = Inr ()" by (simp add: NUL_char)
  have b: "env_block ?e = [''A=1'', ''B=x=y'', ''C='']" by (simp add: env_block_def)
  show ?thesis using environment_reads_back [of ?e "[]"] v b by simp
qed

section \<open>The egress report is exact\<close>

text \<open>A list without its repetitions, each element where it first occurs.\<close>

definition firsts :: "'a list \<Rightarrow> 'a list" where
  "firsts xs = rev (remdups (rev xs))"

lemma firsts_snoc: "firsts (xs @ [x]) = (if x \<in> set xs then firsts xs else firsts xs @ [x])"
  by (simp add: firsts_def)

lemma set_firsts [simp]: "set (firsts xs) = set xs"
  by (simp add: firsts_def)

lemma firsts_Nil [simp]: "firsts [] = []"
  by (simp add: firsts_def)

definition reported_conns :: "egress_event list \<Rightarrow> egress_conn list" where
  "reported_conns evs = map egress_conn_of (filter (\<lambda>e. ev_allowed e \<and> ev_proto e \<noteq> Dns) evs)"

definition reported_denials :: "egress_event list \<Rightarrow> egress_denied list" where
  "reported_denials evs = map egress_denied_of (filter (\<lambda>e. \<not> ev_allowed e) evs)"

definition reported_names :: "egress_event list \<Rightarrow> string list" where
  "reported_names evs = firsts (map (\<lambda>e. as_str (ev_host e)) (filter (\<lambda>e. ev_proto e = Dns) evs))"

definition over_cap :: "egress_event list \<Rightarrow> bool" where
  "over_cap evs \<longleftrightarrow> EGRESS_INLINE_CAP < length (reported_conns evs) \<or>
     EGRESS_INLINE_CAP < length (reported_denials evs) \<or> EGRESS_INLINE_CAP < length (reported_names evs)"

definition capped :: "'a list \<Rightarrow> 'a list" where
  "capped xs = take EGRESS_INLINE_CAP xs"

lemma capped_snoc: "capped (xs @ [x]) = (if length xs < EGRESS_INLINE_CAP then capped xs @ [x] else capped xs)"
  by (auto simp: capped_def)

lemma capped_full: "length (capped xs) < EGRESS_INLINE_CAP \<longleftrightarrow> length xs < EGRESS_INLINE_CAP"
  by (auto simp: capped_def)

lemma capped_all: "length xs \<le> EGRESS_INLINE_CAP \<Longrightarrow> capped xs = xs"
  by (simp add: capped_def)

lemma reported_snoc:
  "reported_conns (evs @ [e]) = reported_conns evs @ (if ev_allowed e \<and> ev_proto e \<noteq> Dns then [egress_conn_of e] else [])"
  "reported_denials (evs @ [e]) = reported_denials evs @ (if ev_allowed e then [] else [egress_denied_of e])"
  "reported_names (evs @ [e]) =
     (if ev_proto e = Dns \<and> as_str (ev_host e) \<notin> set (reported_names evs) then reported_names evs @ [as_str (ev_host e)]
      else reported_names evs)"
  by (auto simp: reported_conns_def reported_denials_def reported_names_def firsts_snoc)

lemma summarize_dns_snoc:
  assumes "c \<longleftrightarrow> EGRESS_INLINE_CAP < length (reported_names evs) \<or> b"
  shows "summarize_dns e (as, ds, capped (reported_names evs), c) =
    (as, ds, capped (reported_names (evs @ [e])), EGRESS_INLINE_CAP < length (reported_names (evs @ [e])) \<or> b)"
proof (cases "ev_proto e = Dns \<and> as_str (ev_host e) \<notin> set (reported_names evs)")
  case True
  moreover have "as_str (ev_host e) \<notin> set (capped (reported_names evs))"
    using True by (auto simp: capped_def dest: in_set_takeD)
  ultimately show ?thesis using assms
    by (auto simp: summarize_dns_def Let_def reported_snoc(3) capped_snoc capped_full)
next
  case False
  then have same: "reported_names (evs @ [e]) = reported_names evs" by (auto simp: reported_snoc(3))
  show ?thesis
  proof (cases "ev_proto e = Dns \<and> as_str (ev_host e) \<notin> set (capped (reported_names evs))")
    case True
    then have "EGRESS_INLINE_CAP < length (reported_names evs)"
      using False capped_all by (metis not_le)
    then show ?thesis using True assms same by (simp add: summarize_dns_def Let_def capped_full)
  next
    case False
    then show ?thesis using assms same by (auto simp: summarize_dns_def Let_def)
  qed
qed

lemma summarize_fold:
  "fold summarize_event evs ([], [], [], False) =
   (capped (reported_conns evs), capped (reported_denials evs), capped (reported_names evs), over_cap evs)"
proof (induction evs rule: rev_induct)
  case Nil
  show ?case by (simp add: reported_conns_def reported_denials_def reported_names_def over_cap_def capped_def)
next
  case (snoc e evs)
  have d: "summarize_dns e (capped (reported_conns evs), capped (reported_denials evs), capped (reported_names evs), over_cap evs) =
      (capped (reported_conns evs), capped (reported_denials evs), capped (reported_names (evs @ [e])),
       EGRESS_INLINE_CAP < length (reported_names (evs @ [e])) \<or> EGRESS_INLINE_CAP < length (reported_conns evs) \<or>
       EGRESS_INLINE_CAP < length (reported_denials evs))"
    by (rule summarize_dns_snoc) (auto simp: over_cap_def)
  have "fold summarize_event (evs @ [e]) ([], [], [], False) =
      summarize_event e (capped (reported_conns evs), capped (reported_denials evs), capped (reported_names evs), over_cap evs)"
    by (simp add: snoc)
  also have "\<dots> = (capped (reported_conns (evs @ [e])), capped (reported_denials (evs @ [e])), capped (reported_names (evs @ [e])),
      over_cap (evs @ [e]))"
    unfolding summarize_event_def d
    by (auto simp: reported_snoc(1,2) capped_snoc capped_full over_cap_def)
  finally show ?case .
qed

text \<open>What a recorder that was asked to record \<open>evs\<close> holds.\<close>

definition recorded :: "egress_event list \<Rightarrow> shared" where
  "recorded evs = fold (\<lambda>e s. snd (record_event e s)) evs shared_default"

lemma recorded_holds:
  "events (recorded evs) = take MAX_RECORDED_EVENTS evs" "unat (ev_total (recorded evs)) = min (2 ^ 64 - 1) (length evs)"
proof -
  have "events (recorded evs) = take MAX_RECORDED_EVENTS evs \<and> unat (ev_total (recorded evs)) = min (2 ^ 64 - 1) (length evs)"
  proof (induction evs rule: rev_induct)
    case (snoc e evs)
    then show ?case
      by (auto simp: recorded_def record_event_def Let_def unat_saturating_add)
  qed (simp add: recorded_def shared_default_def)
  then show "events (recorded evs) = take MAX_RECORDED_EVENTS evs" "unat (ev_total (recorded evs)) = min (2 ^ 64 - 1) (length evs)"
    by auto
qed

text \<open>
  C9: the report of a filtered run is what its broker decided, in order, each list cut at the cap
  and never without saying so: a report that does not claim to be truncated names every
  connection that was permitted, every request that was refused and every name that was asked
  for, once, and nothing else.
\<close>
theorem egress_report_is_exact:
  "let r = build_egress_report br (recorded evs) rls; kept = take MAX_RECORDED_EVENTS evs in
   allowed_conns r = capped (reported_conns kept) \<and> denied_conns r = capped (reported_denials kept) \<and>
   dns_queries r = capped (reported_names kept) \<and>
   (\<not> truncated r \<longrightarrow>
      allowed_conns r = reported_conns evs \<and> denied_conns r = reported_denials evs \<and> dns_queries r = reported_names evs)"
proof -
  define kept where "kept = take MAX_RECORDED_EVENTS evs"
  define r where "r = build_egress_report br (recorded evs) rls"
  have r: "allowed_conns r = capped (reported_conns kept)" "denied_conns r = capped (reported_denials kept)"
    "dns_queries r = capped (reported_names kept)"
    "truncated r \<longleftrightarrow> over_cap kept \<or> min (2 ^ 64 - 1) (length evs) > length kept"
    by (simp_all add: r_def kept_def build_egress_report_def snapshot_def summarize_egress_def recorded_holds summarize_fold)
  have all: "kept = evs \<and> \<not> over_cap evs" if "\<not> truncated r"
  proof -
    have le: "min (2 ^ 64 - 1) (length evs) \<le> length kept" and no: "\<not> over_cap kept" using that r(4) by auto
    have "length kept \<le> 10000" by (simp add: kept_def MAX_RECORDED_EVENTS_def)
    with le have "length evs \<le> length kept" by simp
    then have "kept = evs" by (simp add: kept_def)
    with no show ?thesis by simp
  qed
  have cap: "capped (reported_conns evs) = reported_conns evs" "capped (reported_denials evs) = reported_denials evs"
    "capped (reported_names evs) = reported_names evs" if "\<not> over_cap evs"
    using that capped_all by (auto simp: over_cap_def not_less)
  show ?thesis
    unfolding Let_def r_def [symmetric] kept_def [symmetric]
  proof (intro conjI impI r(1-3))
    assume "\<not> truncated r"
    with r(1-3) all cap show "allowed_conns r = reported_conns evs" "denied_conns r = reported_denials evs"
      "dns_queries r = reported_names evs" by auto
  qed
qed

definition sample_events :: "egress_event list" where
  "sample_events =
     [\<lparr>ev_proto = Dns, ev_host = SafeName ''example.com'', ev_port = 0, ev_allowed = True, ev_reason = None, bytes_up = 0,
       bytes_down = 0, ts_ms = 1, ev_note = None\<rparr>,
      \<lparr>ev_proto = Http, ev_host = SafeName ''example.com'', ev_port = 443, ev_allowed = True, ev_reason = None, bytes_up = 10,
       bytes_down = 20, ts_ms = 2, ev_note = None\<rparr>,
      \<lparr>ev_proto = Socks5, ev_host = SafeName ''evil.test'', ev_port = 80, ev_allowed = False, ev_reason = Some NotAllowed,
       bytes_up = 0, bytes_down = 0, ts_ms = 3, ev_note = None\<rparr>]"

theorem egress_report_is_exact_witness:
  "\<forall>br. let r = build_egress_report br (recorded sample_events) [] in
     \<not> truncated r \<and> map conn_host (allowed_conns r) = [''example.com''] \<and>
     map denied_host (denied_conns r) = [''evil.test''] \<and> dns_queries r = [''example.com'']"
proof
  fix br
  define r where "r = build_egress_report br (recorded sample_events) []"
  have "truncated r = (over_cap (take MAX_RECORDED_EVENTS sample_events) \<or>
      min (2 ^ 64 - 1) (length sample_events) > length (take MAX_RECORDED_EVENTS sample_events))"
    by (simp add: r_def build_egress_report_def snapshot_def summarize_egress_def recorded_holds summarize_fold)
  also have "take MAX_RECORDED_EVENTS sample_events = sample_events"
    by (simp add: sample_events_def MAX_RECORDED_EVENTS_def)
  finally have not_cut: "\<not> truncated r"
    by (simp add: over_cap_def reported_conns_def reported_denials_def reported_names_def firsts_def sample_events_def EGRESS_INLINE_CAP_def)
  with egress_report_is_exact [of br sample_events "[]"]
  have "allowed_conns r = reported_conns sample_events" "denied_conns r = reported_denials sample_events"
    "dns_queries r = reported_names sample_events"
    unfolding Let_def r_def [symmetric] by blast+
  with not_cut show "let r = build_egress_report br (recorded sample_events) [] in
     \<not> truncated r \<and> map conn_host (allowed_conns r) = [''example.com''] \<and>
     map denied_host (denied_conns r) = [''evil.test''] \<and> dns_queries r = [''example.com'']"
    unfolding Let_def r_def [symmetric]
    by (simp add: reported_conns_def reported_denials_def reported_names_def firsts_def sample_events_def egress_conn_of_def
        egress_denied_of_def)
qed

end
