(* ===== verification/Kernels.thy ===== *)
theory Kernels
  imports Run_Checks
begin

text \<open>
  Guest kernels: \<open>image/kernel.rs\<close>, which fetches them, and \<open>image/s3.rs\<close>, which chooses one. The
  state is the directory of images. The bucket, the digest and how a file is cut into reads are
  arguments; so is the set of calls that fail.
\<close>

section \<open>Choosing from a listing\<close>

text \<open>\<open>trim_end_matches('/').rsplit('/').next()\<close>: the last segment.\<close>

definition leaf_of :: "string \<Rightarrow> string" where
  "leaf_of s = last (split_on CHR ''/'' s)"

definition date_stamp_of :: "string \<Rightarrow> string option" where
  "date_stamp_of pre =
     (let leaf = leaf_of (trim_end_matches (\<lambda>c. c = CHR ''/'') pre) in
      if 9 \<le> length leaf \<and> list_all is_ascii_digit (take 8 leaf) \<and> leaf ! 8 = CHR ''-'' then Some (take 8 leaf) else None)"

definition date_stamped_prefixes_newest_first :: "string list \<Rightarrow> string list" where
  "date_stamped_prefixes_newest_first ps = rev (sort (filter (\<lambda>p. date_stamp_of p \<noteq> None) ps))"

record vmlinux_choice =
  vc_key :: string
  vc_version :: string

definition patch_of :: "string \<Rightarrow> string \<Rightarrow> (string \<times> nat) option" where
  "patch_of series key =
     (case strip_prefix (''vmlinux-'' @ series @ ''.'') (leaf_of key) of
        None \<Rightarrow> None
      | Some rest \<Rightarrow>
          if rest = [] \<or> \<not> list_all is_ascii_digit rest then None
          else map_option (Pair rest) (parse_uint (2 ^ 64 - 1) rest))"

fun select_from :: "string \<Rightarrow> string list \<Rightarrow> (nat \<times> vmlinux_choice) option \<Rightarrow> (nat \<times> vmlinux_choice) option" where
  "select_from series [] best = best"
| "select_from series (key # keys) best =
     (case patch_of series key of
        None \<Rightarrow> select_from series keys best
      | Some (rest, patch) \<Rightarrow>
          (let choice = \<lparr>vc_key = key, vc_version = series @ ''.'' @ rest\<rparr> in
           case best of
             None \<Rightarrow> select_from series keys (Some (patch, choice))
           | Some (p, b) \<Rightarrow> select_from series keys (if patch > p then Some (patch, choice) else best)))"

definition select_vmlinux_for_series :: "string list \<Rightarrow> string \<Rightarrow> vmlinux_choice option" where
  "select_vmlinux_for_series keys series = map_option snd (select_from series keys None)"

section \<open>Fetching\<close>

definition CI_PREFIX :: string where "CI_PREFIX = ''firecracker-ci/''"
definition BUCKET_URL :: string where "BUCKET_URL = ''https://s3.amazonaws.com/spec.ccfc.min''"
definition PINNED_SERIES :: string where "PINNED_SERIES = ''6.18''"
definition PINNED_PREFIX :: string where "PINNED_PREFIX = ''firecracker-ci/20260717-5ac3f5ffdcd7-0/''"
definition PINNED_VERSION :: string where "PINNED_VERSION = ''6.18.36''"
definition PINNED_SHA256 :: string where
  "PINNED_SHA256 = ''cd77172a1073b3da1c714496ee02f1f23a70fbd002588071581f14df5be9d22e''"
definition VMFORK_RESEED_MARKER :: bytes where
  "VMFORK_RESEED_MARKER = bytes_of ''crng reseeded due to virtual machine fork''"

datatype fetch_call = SendGet string | TempFile | ReadBody | WriteTemp | SyncTemp | PersistTo string | OpenImage string | ReadImage string

datatype fetch_error =
    NoPin string | ListFailed string | NoDatedPrefix | SeriesAbsent string | DigestMismatch string | CachedMismatch string
  | FetchCall fetch_call | NoReseedPath string

record list_page =
  lp_truncated :: bool
  lp_token :: "string option"
  lp_prefixes :: "string list"
  lp_keys :: "string list"

text \<open>A response body is the blocks that are read of it.\<close>

record fetch_env =
  get_page :: "string \<Rightarrow> string option \<Rightarrow> list_page option"
  get_body :: "string \<Rightarrow> bytes list"
  file_reads :: "bytes \<Rightarrow> bytes list"
  hex_digest :: "bytes \<Rightarrow> string"
  call_fails :: "fetch_call \<Rightarrow> bool"

type_synonym images = "string \<rightharpoonup> bytes"

record fetch_outcome =
  fo_kernel :: string
  fo_version :: string
  fo_sha256 :: string
  fo_cached :: bool
  fo_pinned :: bool

text \<open>The bucket decides how many pages there are, so the loop need not end.\<close>

partial_function (option) list_objects ::
  "fetch_env \<Rightarrow> string \<Rightarrow> string option \<Rightarrow> string list \<times> string list \<Rightarrow> (fetch_error + string list \<times> string list) option" where
  "list_objects env pre tok merged =
     (case get_page env pre tok of
        None \<Rightarrow> Some (Inl (ListFailed pre))
      | Some page \<Rightarrow>
          (let merged' = (fst merged @ lp_prefixes page, snd merged @ lp_keys page) in
           if lp_truncated page then
             (case lp_token page of
                Some t \<Rightarrow> list_objects env pre (Some t) merged'
              | None \<Rightarrow> Some (Inr merged'))
           else Some (Inr merged')))"

declare list_objects.simps [code]

definition fetch_step :: "fetch_env \<Rightarrow> fetch_call \<Rightarrow> (images, fetch_error, unit) comp" where
  "fetch_step env c = (if call_fails env c then fail (FetchCall c) else ret ())"

definition download_to :: "fetch_env \<Rightarrow> string \<Rightarrow> string \<Rightarrow> string option \<Rightarrow> (images, fetch_error, string) comp" where
  "download_to env url name expected =
     seq (fetch_step env (SendGet url)) (\<lambda>_.
     seq (fetch_step env TempFile) (\<lambda>_.
     seq (fetch_step env ReadBody) (\<lambda>_.
     seq (fetch_step env WriteTemp) (\<lambda>_.
     let content = concat (get_body env url); got = hex_digest env content in
     if expected \<noteq> None \<and> expected \<noteq> Some got then fail (DigestMismatch got)
     else
       seq (fetch_step env SyncTemp) (\<lambda>_.
       seq (fetch_step env (PersistTo name)) (\<lambda>_.
       seq (modify (\<lambda>d. d(name \<mapsto> content))) (\<lambda>_. ret got)))))))"

definition kernel_sha256 :: "fetch_env \<Rightarrow> string \<Rightarrow> (images, fetch_error, string) comp" where
  "kernel_sha256 env name d =
     (case d name of
        None \<Rightarrow> (Inl (FetchCall (OpenImage name)), d)
      | Some content \<Rightarrow>
          if call_fails env (OpenImage name) then (Inl (FetchCall (OpenImage name)), d)
          else if call_fails env (ReadImage name) then (Inl (FetchCall (ReadImage name)), d)
          else (Inr (hex_digest env content), d))"

definition kernel_name :: "string \<Rightarrow> string" where
  "kernel_name ver = ''vmlinux-'' @ ver"

definition outcome_of :: "string \<Rightarrow> string \<Rightarrow> bool \<Rightarrow> bool \<Rightarrow> fetch_outcome" where
  "outcome_of ver sha cached pinned =
     \<lparr>fo_kernel = kernel_name ver, fo_version = ver, fo_sha256 = sha, fo_cached = cached, fo_pinned = pinned\<rparr>"

definition fetch_pinned :: "fetch_env \<Rightarrow> bool \<Rightarrow> (images, fetch_error, fetch_outcome) comp" where
  "fetch_pinned env force d =
     (let dst = kernel_name PINNED_VERSION in
      if d dst \<noteq> None \<and> \<not> force then
        seq (kernel_sha256 env dst) (\<lambda>sha.
          if sha \<noteq> PINNED_SHA256 then fail (CachedMismatch sha)
          else ret (outcome_of PINNED_VERSION sha True True)) d
      else
        seq (download_to env (BUCKET_URL @ ''/'' @ PINNED_PREFIX @ ''x86_64/vmlinux-'' @ PINNED_VERSION) dst (Some PINNED_SHA256))
          (\<lambda>sha. ret (outcome_of PINNED_VERSION sha False True)) d)"

text \<open>The newest prefix that offers the series.\<close>

fun offering :: "fetch_env \<Rightarrow> string \<Rightarrow> string list \<Rightarrow> (fetch_error + vmlinux_choice) option" where
  "offering env series [] = Some (Inl (SeriesAbsent series))"
| "offering env series (pre # pres) =
     (case list_objects env (pre @ ''x86_64/'') None ([], []) of
        None \<Rightarrow> None
      | Some (Inl e) \<Rightarrow> Some (Inl e)
      | Some (Inr merged) \<Rightarrow>
          (case select_vmlinux_for_series (snd merged) series of
             Some choice \<Rightarrow> Some (Inr choice)
           | None \<Rightarrow> offering env series pres))"

definition choose_unpinned :: "fetch_env \<Rightarrow> string \<Rightarrow> (fetch_error + vmlinux_choice) option" where
  "choose_unpinned env series =
     (case list_objects env CI_PREFIX None ([], []) of
        None \<Rightarrow> None
      | Some (Inl e) \<Rightarrow> Some (Inl e)
      | Some (Inr listed_top) \<Rightarrow>
          (let ordered = date_stamped_prefixes_newest_first (fst listed_top) in
           if ordered = [] then Some (Inl NoDatedPrefix) else offering env series ordered))"

definition install_unpinned :: "fetch_env \<Rightarrow> bool \<Rightarrow> vmlinux_choice \<Rightarrow> (images, fetch_error, fetch_outcome) comp" where
  "install_unpinned env force choice d =
     (let dst = kernel_name (vc_version choice) in
      if d dst \<noteq> None \<and> \<not> force then
        seq (kernel_sha256 env dst) (\<lambda>sha. ret (outcome_of (vc_version choice) sha True False)) d
      else
        seq (download_to env (BUCKET_URL @ ''/'' @ vc_key choice) dst None)
          (\<lambda>sha. ret (outcome_of (vc_version choice) sha False False)) d)"

text \<open>\<open>None\<close>: the listing never ends, and neither does the call.\<close>

definition fetch_unpinned :: "fetch_env \<Rightarrow> string \<Rightarrow> bool \<Rightarrow> images \<Rightarrow> ((fetch_error + fetch_outcome) \<times> images) option" where
  "fetch_unpinned env series force d =
     (case choose_unpinned env series of
        None \<Rightarrow> None
      | Some (Inl e) \<Rightarrow> Some (Inl e, d)
      | Some (Inr choice) \<Rightarrow> Some (install_unpinned env force choice d))"

section \<open>The reseed check\<close>

text \<open>\<open>carry\<close> is what is kept of the reads before; a read that fails comes after those that succeed.\<close>

fun scan_blocks :: "bytes \<Rightarrow> bytes \<Rightarrow> bytes list \<Rightarrow> bool" where
  "scan_blocks needle carry [] = False"
| "scan_blocks needle carry (b # bs) =
     (let filled = carry @ b in
      if contains_sub needle filled then True
      else scan_blocks needle (drop (length filled - min (length filled) (length needle - 1)) filled) bs)"

definition contains_bytes :: "fetch_env \<Rightarrow> string \<Rightarrow> bytes \<Rightarrow> (images, fetch_error, bool) comp" where
  "contains_bytes env name needle d =
     (case d name of
        None \<Rightarrow> (Inl (FetchCall (OpenImage name)), d)
      | Some content \<Rightarrow>
          if call_fails env (OpenImage name) then (Inl (FetchCall (OpenImage name)), d)
          else if scan_blocks needle [] (file_reads env content) then (Inr True, d)
          else if call_fails env (ReadImage name) then (Inl (FetchCall (ReadImage name)), d)
          else (Inr False, d))"

definition require_vmfork_reseed :: "fetch_env \<Rightarrow> string \<Rightarrow> (images, fetch_error, unit) comp" where
  "require_vmfork_reseed env name =
     seq (contains_bytes env name VMFORK_RESEED_MARKER) (\<lambda>found.
     if found then ret () else fail (NoReseedPath name))"

definition fetch_kernel ::
  "fetch_env \<Rightarrow> string \<Rightarrow> bool \<Rightarrow> bool \<Rightarrow> images \<Rightarrow> ((fetch_error + fetch_outcome) \<times> images) option" where
  "fetch_kernel env series force allow_unpinned d =
     (if \<not> allow_unpinned \<and> series \<noteq> PINNED_SERIES then Some (Inl (NoPin series), d)
      else
        (case (if allow_unpinned then fetch_unpinned env series force d else Some (fetch_pinned env force d)) of
           None \<Rightarrow> None
         | Some (Inl e, d') \<Rightarrow> Some (Inl e, d')
         | Some (Inr out, d') \<Rightarrow>
             Some (seq (require_vmfork_reseed env (fo_kernel out)) (\<lambda>_. ret out) d')))"

section \<open>The scan misses nothing\<close>

lemma contains_sub_append_left: "contains_sub p s \<Longrightarrow> contains_sub p (a @ s)"
  unfolding contains_sub_iff by (metis append_assoc)

lemma contains_sub_append_right: "contains_sub p s \<Longrightarrow> contains_sub p (s @ b)"
  unfolding contains_sub_iff by (metis append_assoc)

text \<open>A match that straddles a cut needs only as much before the cut as the needle less one.\<close>

lemma contains_sub_cut:
  assumes "needle \<noteq> []" "\<not> contains_sub needle s"
  shows "contains_sub needle (s @ r) \<longleftrightarrow>
    contains_sub needle (drop (length s - min (length s) (length needle - 1)) s @ r)"
proof
  let ?k = "length s - min (length s) (length needle - 1)"
  assume "contains_sub needle (s @ r)"
  then obtain a b where ab: "s @ r = a @ needle @ b" by (auto simp: contains_sub_iff)
  have "\<not> length a + length needle \<le> length s"
  proof
    assume le: "length a + length needle \<le> length s"
    then have "s = a @ needle @ take (length s - length a - length needle) b"
      using arg_cong [OF ab, of "take (length s)"] by simp
    with assms(2) show False by (auto simp: contains_sub_iff)
  qed
  then have k: "?k \<le> length a" by linarith
  have "drop ?k s @ r = drop ?k (s @ r)" by simp
  also have "\<dots> = drop ?k a @ needle @ b" using k by (simp add: ab)
  finally show "contains_sub needle (drop ?k s @ r)" by (auto simp: contains_sub_iff)
next
  let ?k = "length s - min (length s) (length needle - 1)"
  assume "contains_sub needle (drop ?k s @ r)"
  then have "contains_sub needle (take ?k s @ drop ?k s @ r)" by (rule contains_sub_append_left)
  then show "contains_sub needle (s @ r)" by (simp flip: append_assoc)
qed

lemma scan_blocks_iff:
  assumes "needle \<noteq> []"
  shows "scan_blocks needle carry bs \<longleftrightarrow> bs \<noteq> [] \<and> contains_sub needle (carry @ concat bs)"
proof (induction bs arbitrary: carry)
  case (Cons b bs)
  let ?f = "carry @ b"
  show ?case
  proof (cases "contains_sub needle ?f")
    case True
    then have "contains_sub needle (carry @ concat (b # bs))"
      using contains_sub_append_right [of needle ?f "concat bs"] by simp
    with True show ?thesis by (simp add: Let_def)
  next
    case False
    have "scan_blocks needle carry (b # bs) \<longleftrightarrow> bs \<noteq> [] \<and> contains_sub needle (?f @ concat bs)"
      using False Cons.IH contains_sub_cut [OF assms False, of "concat bs"] by (simp add: Let_def)
    with False show ?thesis by (cases bs) auto
  qed
qed simp

text \<open>
  The scan of a kernel for the reseed marker finds it wherever it is, however the file is cut
  into reads, and reports it only if it is there.
\<close>
theorem kernel_scan_is_exact:
  assumes "d name = Some content" "concat (file_reads env content) = content" "\<forall>c. \<not> call_fails env c"
  shows "require_vmfork_reseed env name d =
    (if contains_sub VMFORK_RESEED_MARKER content then Inr () else Inl (NoReseedPath name), d)"
proof -
  have ne: "VMFORK_RESEED_MARKER \<noteq> []" by (simp add: VMFORK_RESEED_MARKER_def bytes_of_def)
  have "scan_blocks VMFORK_RESEED_MARKER [] (file_reads env content) \<longleftrightarrow> contains_sub VMFORK_RESEED_MARKER content"
  proof -
    have "contains_sub VMFORK_RESEED_MARKER content \<Longrightarrow> file_reads env content \<noteq> []"
      using assms(2) ne by (auto simp: contains_sub_iff)
    then show ?thesis by (simp add: scan_blocks_iff [OF ne] assms(2)) blast
  qed
  then show ?thesis
    using assms(1,3) by (simp add: require_vmfork_reseed_def contains_bytes_def seq_def ret_def fail_def)
qed

theorem kernel_scan_is_exact_witness:
  "fst (require_vmfork_reseed
     \<lparr>get_page = \<lambda>_ _. None, get_body = \<lambda>_. [], file_reads = \<lambda>c. map (\<lambda>b. [b]) c, hex_digest = \<lambda>_. [], call_fails = \<lambda>_. False\<rparr>
     ''k'' [''k'' \<mapsto> 7 # VMFORK_RESEED_MARKER @ [9]]) = Inr ()"
proof -
  let ?c = "7 # VMFORK_RESEED_MARKER @ [9]"
  have "concat (map (\<lambda>b. [b]) ?c) = ?c" by simp
  moreover have "contains_sub VMFORK_RESEED_MARKER ?c" by (auto simp: contains_sub_iff intro: exI [of _ "[7]"])
  ultimately show ?thesis by (subst kernel_scan_is_exact [where content = ?c]) simp_all
qed

section \<open>The newest patch of a series\<close>

lemma select_from_best:
  assumes "\<forall>p b. best = Some (p, b) \<longrightarrow> P p b"
    and "\<forall>key \<in> set keys. \<forall>rest p. patch_of series key = Some (rest, p) \<longrightarrow> P p \<lparr>vc_key = key, vc_version = series @ ''.'' @ rest\<rparr>"
  shows "case select_from series keys best of
      None \<Rightarrow> best = None \<and> (\<forall>key \<in> set keys. patch_of series key = None)
    | Some (p, b) \<Rightarrow> P p b \<and> (\<forall>p' b'. best = Some (p', b') \<longrightarrow> p' \<le> p) \<and>
        (\<forall>key \<in> set keys. \<forall>rest q. patch_of series key = Some (rest, q) \<longrightarrow> q \<le> p)"
  using assms
proof (induction keys arbitrary: best)
  case (Cons key keys)
  show ?case
  proof (cases "patch_of series key")
    case None
    with Cons.IH [of best] Cons.prems show ?thesis by (auto split: option.splits)
  next
    case (Some rp)
    obtain rest q where rp: "rp = (rest, q)" by (cases rp)
    let ?c = "\<lparr>vc_key = key, vc_version = series @ ''.'' @ rest\<rparr>"
    define best' where "best' = (case best of None \<Rightarrow> Some (q, ?c) | Some (p, b) \<Rightarrow> if q > p then Some (q, ?c) else best)"
    have s: "select_from series (key # keys) best = select_from series keys best'"
      using Some rp by (auto simp: best'_def Let_def split: option.split)
    have P: "\<forall>p b. best' = Some (p, b) \<longrightarrow> P p b"
      using Cons.prems Some rp by (auto simp: best'_def split: option.splits if_splits)
    have ge: "\<exists>p b. best' = Some (p, b) \<and> q \<le> p \<and> (\<forall>p' b'. best = Some (p', b') \<longrightarrow> p' \<le> p)"
      by (auto simp: best'_def split: option.split)
    from Cons.IH [OF P] Cons.prems(2) have ih: "case select_from series keys best' of
      None \<Rightarrow> best' = None \<and> (\<forall>key \<in> set keys. patch_of series key = None)
    | Some (p, b) \<Rightarrow> P p b \<and> (\<forall>p' b'. best' = Some (p', b') \<longrightarrow> p' \<le> p) \<and>
        (\<forall>key \<in> set keys. \<forall>rest q. patch_of series key = Some (rest, q) \<longrightarrow> q \<le> p)" by auto
    show ?thesis
      unfolding s using ih ge Some rp by (fastforce split: option.splits prod.splits)
  qed
qed (auto split: option.split)

text \<open>
  The kernel taken from a listing is the newest patch of the series that was asked for, by
  its number: never a configuration file, a candidate or another series that starts the same.
\<close>
theorem newest_patch_is_selected:
  "(case select_vmlinux_for_series keys series of
      None \<Rightarrow> \<forall>key \<in> set keys. patch_of series key = None
    | Some c \<Rightarrow> vc_key c \<in> set keys \<and>
        (\<exists>rest p. patch_of series (vc_key c) = Some (rest, p) \<and> vc_version c = series @ ''.'' @ rest \<and>
          (\<forall>key \<in> set keys. \<forall>rest' q. patch_of series key = Some (rest', q) \<longrightarrow> q \<le> p)))"
proof -
  let ?P = "\<lambda>p c. vc_key c \<in> set keys \<and> (\<exists>rest. patch_of series (vc_key c) = Some (rest, p) \<and> vc_version c = series @ ''.'' @ rest)"
  have "case select_from series keys None of
      None \<Rightarrow> None = (None :: (nat \<times> vmlinux_choice) option) \<and> (\<forall>key \<in> set keys. patch_of series key = None)
    | Some (p, b) \<Rightarrow> ?P p b \<and> (\<forall>p' b'. None = Some (p' :: nat, b' :: vmlinux_choice) \<longrightarrow> p' \<le> p) \<and>
        (\<forall>key \<in> set keys. \<forall>rest q. patch_of series key = Some (rest, q) \<longrightarrow> q \<le> p)"
    by (rule select_from_best) auto
  then show ?thesis by (auto simp: select_vmlinux_for_series_def split: option.splits prod.splits)
qed

theorem newest_patch_is_selected_witness:
  "map_option vc_version (select_vmlinux_for_series
     [''p/vmlinux-6.18.9'', ''p/vmlinux-6.18.36.config'', ''p/vmlinux-6.18.36'', ''p/vmlinux-6.1.176''] ''6.18'') = Some ''6.18.36''"
proof -
  let ?keys = "[''p/vmlinux-6.18.9'', ''p/vmlinux-6.18.36.config'', ''p/vmlinux-6.18.36'', ''p/vmlinux-6.1.176'']"
  have ps: "map (\<lambda>k. map_option snd (patch_of ''6.18'' k)) ?keys = [Some 9, None, Some 36, None]" by code_simp
  have v: "map_option vc_version (select_vmlinux_for_series ?keys ''6.18'') = Some ''6.18.36''" by code_simp
  show ?thesis using newest_patch_is_selected [of ?keys "''6.18''"] ps v by simp
qed

section \<open>A pinned kernel\<close>

lemma scan_found:
  assumes "contains_bytes env name needle d = (Inr True, d')" "needle \<noteq> []"
    and "\<forall>c. \<exists>r. c = concat (file_reads env c) @ r"
  shows "d' = d \<and> (\<exists>c. d name = Some c \<and> contains_sub needle c)"
proof -
  obtain c where c: "d name = Some c" "d' = d" "scan_blocks needle [] (file_reads env c)"
    using assms(1) by (auto simp: contains_bytes_def split: option.splits if_splits)
  then have "contains_sub needle (concat (file_reads env c))" by (simp add: scan_blocks_iff [OF assms(2)])
  with assms(3) c show ?thesis by (metis contains_sub_append_right)
qed

lemma contains_bytes_keeps: "contains_bytes env name needle d = (r, d') \<Longrightarrow> d' = d"
  by (auto simp: contains_bytes_def split: option.splits if_splits)

lemma fetch_step_state: "fetch_step env c d = (r, d') \<Longrightarrow> d' = d"
  by (auto simp: fetch_step_def ret_def fail_def split: if_splits)

lemma require_reseed_keeps: "require_vmfork_reseed env name d = (r, d') \<Longrightarrow> d' = d"
  by (auto simp: require_vmfork_reseed_def seq_def ret_def fail_def dest!: contains_bytes_keeps split: prod.splits sum.splits if_splits)

lemma require_reseed_Inr:
  assumes "require_vmfork_reseed env name d = (Inr u, d')" "\<forall>c. \<exists>r. c = concat (file_reads env c) @ r"
  shows "\<exists>c. d name = Some c \<and> contains_sub VMFORK_RESEED_MARKER c"
proof -
  have "contains_bytes env name VMFORK_RESEED_MARKER d = (Inr True, d')"
    using assms(1) by (auto simp: require_vmfork_reseed_def seq_def ret_def fail_def split: prod.splits sum.splits if_splits)
  from scan_found [OF this _ assms(2)] show ?thesis by (simp add: VMFORK_RESEED_MARKER_def bytes_of_def)
qed

lemma download_to_effect:
  assumes "download_to env url name expected d = (r, d')"
  shows "(isl r \<and> d' = d) \<or>
    (\<exists>c. d' = d(name \<mapsto> c) \<and> r = Inr (hex_digest env c) \<and> (expected = None \<or> expected = Some (hex_digest env c)))"
  using assms
  by (auto simp: download_to_def Let_def seq_def fetch_step_def ret_def fail_def modify_def split: if_splits)

text \<open>
  C8: without the opt-in the fetch only ever installs or accepts the pinned kernel: whatever the
  bucket answers and whichever call fails, no other image changes, the pinned one changes only to
  bytes with the pinned digest, and a fetch that succeeds leaves there a file with that digest and
  with the reseed marker.
\<close>
theorem fetched_kernel_is_pinned:
  assumes "fetch_kernel env series force False d = Some (r, d')"
    and "\<forall>c. \<exists>r. c = concat (file_reads env c) @ r"
  shows "(\<forall>name. name \<noteq> kernel_name PINNED_VERSION \<longrightarrow> d' name = d name) \<and>
    (d' (kernel_name PINNED_VERSION) = d (kernel_name PINNED_VERSION) \<or>
      (\<exists>c. d' (kernel_name PINNED_VERSION) = Some c \<and> hex_digest env c = PINNED_SHA256)) \<and>
    (\<forall>out. r = Inr out \<longrightarrow> series = PINNED_SERIES \<and> fo_kernel out = kernel_name PINNED_VERSION \<and>
      (\<exists>c. d' (kernel_name PINNED_VERSION) = Some c \<and> hex_digest env c = PINNED_SHA256 \<and>
        contains_sub VMFORK_RESEED_MARKER c))"
proof (cases "series = PINNED_SERIES")
  case False
  with assms(1) show ?thesis by (auto simp: fetch_kernel_def)
next
  case True
  let ?n = "kernel_name PINNED_VERSION"
  obtain r1 d1 where f: "fetch_pinned env force d = (r1, d1)" by force
  have fe: "(isl r1 \<and> d1 = d) \<or> (\<exists>c sha cached. r1 = Inr (outcome_of PINNED_VERSION sha cached True) \<and>
      d1 ?n = Some c \<and> hex_digest env c = PINNED_SHA256 \<and> (d1 = d \<or> d1 = d(?n \<mapsto> c)))"
  proof (cases "d ?n \<noteq> None \<and> \<not> force")
    case True
    with f show ?thesis
      by (auto simp: fetch_pinned_def Let_def seq_def kernel_sha256_def ret_def fail_def split: if_splits) blast
  next
    case False
    obtain r2 d2 where g: "download_to env (BUCKET_URL @ ''/'' @ PINNED_PREFIX @ ''x86_64/vmlinux-'' @ PINNED_VERSION) ?n
        (Some PINNED_SHA256) d = (r2, d2)" by force
    have "fetch_pinned env force d = (case (r2, d2) of (Inl e, s') \<Rightarrow> (Inl e, s')
        | (Inr sha, s') \<Rightarrow> (Inr (outcome_of PINNED_VERSION sha False True), s'))"
      using False by (simp only: fetch_pinned_def Let_def if_False seq_def g ret_def)
    with f download_to_effect [OF g] show ?thesis by (cases r2) auto
  qed
  have res: "(r, d') = (case (r1, d1) of (Inl e, s') \<Rightarrow> (Inl e, s')
      | (Inr out, s') \<Rightarrow> seq (require_vmfork_reseed env (fo_kernel out)) (\<lambda>_. ret out) s')"
    using assms(1) True f by (auto simp: fetch_kernel_def split: sum.splits)
  show ?thesis
  proof (cases r1)
    case (Inl e)
    with res fe show ?thesis by auto
  next
    case (Inr out)
    obtain r3 d3 where q: "require_vmfork_reseed env (fo_kernel out) d1 = (r3, d3)" by force
    have d: "d' = d1" "\<And>o'. r = Inr o' \<Longrightarrow> o' = out \<and> (\<exists>u. r3 = Inr u)"
      using res Inr q require_reseed_keeps [OF q] by (auto simp: seq_def ret_def split: sum.splits)
    have k: "fo_kernel out = ?n" using fe Inr by (auto simp: outcome_of_def)
    from fe Inr d True k require_reseed_Inr [of env ?n d1 _ d3] q assms(2) show ?thesis by fastforce
  qed
qed

definition sample_fetch :: "bytes \<Rightarrow> string \<Rightarrow> fetch_env" where
  "sample_fetch body sha =
     \<lparr>get_page = \<lambda>_ _. None, get_body = \<lambda>_. [body], file_reads = \<lambda>c. [c], hex_digest = \<lambda>_. sha, call_fails = \<lambda>_. False\<rparr>"

theorem fetched_kernel_is_pinned_witness:
  "\<exists>d' c. fetch_kernel (sample_fetch VMFORK_RESEED_MARKER PINNED_SHA256) ''6.18'' False False Map.empty =
       Some (Inr (outcome_of PINNED_VERSION PINNED_SHA256 False True), d') \<and>
     d' (kernel_name PINNED_VERSION) = Some c \<and> contains_sub VMFORK_RESEED_MARKER c"
proof -
  let ?env = "sample_fetch VMFORK_RESEED_MARKER PINNED_SHA256"
  have "contains_sub VMFORK_RESEED_MARKER VMFORK_RESEED_MARKER" by (auto simp: contains_sub_iff intro: exI [of _ "[]"])
  then have ok: "fetch_kernel ?env ''6.18'' False False Map.empty =
      Some (Inr (outcome_of PINNED_VERSION PINNED_SHA256 False True), [kernel_name PINNED_VERSION \<mapsto> VMFORK_RESEED_MARKER])"
    by (simp add: fetch_kernel_def PINNED_SERIES_def fetch_pinned_def download_to_def seq_def fetch_step_def ret_def modify_def
        sample_fetch_def require_vmfork_reseed_def contains_bytes_def outcome_of_def Let_def)
  have reads: "\<forall>c. \<exists>r. c = concat (file_reads ?env c) @ r" by (simp add: sample_fetch_def)
  from fetched_kernel_is_pinned [OF ok reads] ok show ?thesis by blast
qed

section \<open>Where the code does not do what it says\<close>

text \<open>
  A kernel fetched with the opt-in is in the directory of images before it is scanned, and stays
  there when the scan refuses it: \<open>resolve_kernel\<close>, which scans nothing, boots it.
\<close>

lemma refused_kernel_is_installed:
  assumes "choose_unpinned env series = Some (Inr choice)" "\<forall>c. \<not> call_fails env c"
    and "\<forall>c. concat (file_reads env c) = c" "d (kernel_name (vc_version choice)) = None"
    and "\<not> contains_sub VMFORK_RESEED_MARKER (concat (get_body env (BUCKET_URL @ ''/'' @ vc_key choice)))"
  shows "fetch_kernel env series force True d =
    Some (Inl (NoReseedPath (kernel_name (vc_version choice))),
      d(kernel_name (vc_version choice) \<mapsto> concat (get_body env (BUCKET_URL @ ''/'' @ vc_key choice))))"
proof -
  let ?n = "kernel_name (vc_version choice)" and ?u = "BUCKET_URL @ ''/'' @ vc_key choice"
  let ?c = "concat (get_body env ?u)"
  have "install_unpinned env force choice d = (Inr (outcome_of (vc_version choice) (hex_digest env ?c) False False), d(?n \<mapsto> ?c))"
    using assms(2,4) by (simp add: install_unpinned_def download_to_def seq_def fetch_step_def ret_def modify_def Let_def)
  moreover have "VMFORK_RESEED_MARKER \<noteq> []" by (simp add: VMFORK_RESEED_MARKER_def bytes_of_def)
  then have "\<not> scan_blocks VMFORK_RESEED_MARKER [] (file_reads env ?c)" using assms(3,5) by (simp add: scan_blocks_iff)
  ultimately show ?thesis
    using assms(1,2) by (simp add: fetch_kernel_def fetch_unpinned_def require_vmfork_reseed_def contains_bytes_def seq_def
        fail_def outcome_of_def)
qed

text \<open>The names of kernels are compared as text, so patch 9 is newer than the pinned patch 36.\<close>

lemma older_kernel_wins:
  "resolve_kernel [(''vmlinux-6.18.36'', True), (''vmlinux-6.18.9'', True)] None = Some ''vmlinux-6.18.9''"
  by code_simp

end
