(* ===== verification/Warm_Pool.thy ===== *)
theory Warm_Pool
  imports Kernels Guest_Root "HOL-Library.Countable"
begin

text \<open>
  The pool of warm snapshots: \<open>snapshot.rs\<close>. A snapshot lives in the directory its key hashes to;
  the state is that directory's files. Digests, the form of \<open>meta.json\<close> and which calls fail are
  arguments; so are the bytes that Firecracker dumps. Processes that build the same snapshot are a
  step relation over the calls of \<open>publish_build\<close>, one at a time.
\<close>

section \<open>Keys\<close>

definition SNAPSHOT_FORMAT :: string where "SNAPSHOT_FORMAT = ''v10''"

record snapshot_key =
  sk_fc_build :: string
  sk_kernel_id :: string
  sk_cpu_model :: string
  sk_base :: string
  sk_base_sha256 :: string
  sk_vcpus :: u32
  sk_mem_mib :: u32
  sk_format :: string

definition snapshot_key_new :: "string \<Rightarrow> string \<Rightarrow> string \<Rightarrow> string \<Rightarrow> string \<Rightarrow> resources \<Rightarrow> snapshot_key" where
  "snapshot_key_new fc kern cpu bas sha res =
     \<lparr>sk_fc_build = fc, sk_kernel_id = kern, sk_cpu_model = cpu, sk_base = bas, sk_base_sha256 = sha,
      sk_vcpus = vcpus res, sk_mem_mib = mem_mib res, sk_format = SNAPSHOT_FORMAT\<rparr>"

definition key_material :: "snapshot_key \<Rightarrow> string" where
  "key_material k =
     ''isopod-snapshot-key-v2'' @ [LF] @
     ''fc_build='' @ sk_fc_build k @ [LF] @
     ''kernel_id='' @ sk_kernel_id k @ [LF] @
     ''cpu_model='' @ sk_cpu_model k @ [LF] @
     ''base='' @ sk_base k @ [LF] @
     ''base_sha256='' @ sk_base_sha256 k @ [LF] @
     ''vcpus='' @ show_nat (unat (sk_vcpus k)) @ [LF] @
     ''mem_mib='' @ show_nat (unat (sk_mem_mib k)) @ [LF] @
     ''snapshot_format='' @ sk_format k @ [LF]"

definition keyhash :: "(bytes \<Rightarrow> bytes) \<Rightarrow> snapshot_key \<Rightarrow> string" where
  "keyhash sha k = concat (map (\<lambda>b. hex2 (unat b)) (take 8 (sha (bytes_of (key_material k)))))"

text \<open>The slice of the content id panics (\<open>None\<close>) if it would cut a character.\<close>

definition middle_dot :: string where "middle_dot = map char_of [32, 194, 183, 32 :: nat]"

definition slice_to :: "nat \<Rightarrow> string \<Rightarrow> string option" where
  "slice_to n s =
     (if n = length s \<or> (n < length s \<and> \<not> cont_byte (char_byte (s ! n))) then Some (take n s) else None)"

definition key_summary :: "snapshot_key \<Rightarrow> string option" where
  "key_summary k =
     map_option (\<lambda>sha.
       sk_base k @ ''@'' @ sha @ '' '' @ show_nat (unat (sk_vcpus k)) @ ''c/'' @ show_nat (unat (sk_mem_mib k)) @ ''m'' @
       middle_dot @ sk_fc_build k @ middle_dot @ sk_kernel_id k @ middle_dot @ sk_cpu_model k @ middle_dot @ sk_format k)
     (slice_to (min (length (sk_base_sha256 k)) 8) (sk_base_sha256 k))"

section \<open>The host's facts\<close>

text \<open>The two outputs of \<open>firecracker --version\<close>, as text.\<close>

definition detect_fc_build :: "string \<Rightarrow> string \<Rightarrow> string option" where
  "detect_fc_build out err =
     List.find (\<lambda>l. l \<noteq> []) (map trim (text_lines (if out = [] then err else out)))"

fun cpu_model_line :: "string list \<Rightarrow> string option" where
  "cpu_model_line [] = None"
| "cpu_model_line (l # ls) =
     (case Option.bind (strip_prefix ''model name'' l) (split_once CHR '':'') of
        Some (_, val) \<Rightarrow> if trim val \<noteq> [] then Some (trim val) else cpu_model_line ls
      | None \<Rightarrow> cpu_model_line ls)"

definition parse_cpu_model :: "string \<Rightarrow> string option" where
  "parse_cpu_model cpuinfo = cpu_model_line (text_lines cpuinfo)"

definition kernel_identity :: "string option \<Rightarrow> nat \<Rightarrow> string" where
  "kernel_identity name len = (case name of Some n \<Rightarrow> n | None \<Rightarrow> ''vmlinux'') @ '':'' @ show_nat len"

record host_facts =
  version_output :: "(string \<times> string) option"
  cpuinfo :: "string option"
  kernel_file :: "(string option \<times> nat) option"

text \<open>\<open>content\<close>: the answer of \<open>BaseRef::content_id\<close> for the flavor of the base.\<close>

definition build_snapshot_key :: "host_facts \<Rightarrow> (string \<Rightarrow> string option) \<Rightarrow> string \<Rightarrow> resources \<Rightarrow> snapshot_key option" where
  "build_snapshot_key h content base_flavor res =
     Option.bind (Option.bind (version_output h) (\<lambda>(out, err). detect_fc_build out err)) (\<lambda>fc.
     Option.bind (Option.bind (cpuinfo h) parse_cpu_model) (\<lambda>cpu.
     Option.bind (map_option (\<lambda>(n, len). kernel_identity n len) (kernel_file h)) (\<lambda>kern.
     Option.bind (content base_flavor) (\<lambda>sha.
     Some (snapshot_key_new fc kern cpu base_flavor sha res)))))"

text \<open>The options of a run that decide whether it may be served warm.\<close>

record warm_opts =
  wo_stage :: "string option"
  wo_commit_as :: "string option"
  wo_network :: bool
  wo_scratch :: "u32 option"

definition warm_snapshot_key ::
  "host_facts \<Rightarrow> (string \<Rightarrow> string option) \<Rightarrow> boot_plan \<Rightarrow> resources \<Rightarrow> warm_opts \<Rightarrow> snapshot_key option" where
  "warm_snapshot_key h content plan res o' =
     (if wo_stage o' \<noteq> Some STAGE_BASE then None
      else if wo_commit_as o' \<noteq> None \<or> \<not> wo_network o' \<or> wo_scratch o' \<noteq> None then None
      else case plan of
          FlavorPlan _ _ \<Rightarrow> None
        | StagePlan _ bid _ _ _ \<Rightarrow> build_snapshot_key h content (flavor bid) res)"

section \<open>Files of a snapshot\<close>

record snap_file =
  sf_bytes :: bytes
  sf_mtime :: nat

type_synonym snap_dir = "string \<rightharpoonup> snap_file"

definition VMSTATE_FILE :: string where "VMSTATE_FILE = ''vmstate''"
definition MEMFILE_FILE :: string where "MEMFILE_FILE = ''memfile''"
definition META_FILE :: string where "META_FILE = ''meta.json''"

record snapshot_meta =
  sm_key :: snapshot_key
  sm_keyhash :: string
  sm_summary :: string
  sm_created :: nat
  sm_vmstate_bytes :: nat
  sm_memfile_bytes :: nat
  sm_vmstate_b3 :: string
  sm_memfile_b3 :: string
  sm_memfile_mtime_ns :: nat

datatype snap_call =
    ReadMeta | StatVmstate | DigestVmstate | StatMemfile | DigestMemfile | RenameVmstate | RenameMemfile
  | SerializeMeta | WriteMeta | RenameMeta

datatype snap_error =
    Incomplete | BadMeta | Undigested | VmstateSize nat | VmstateDigest | MemfileSize nat | MemfileDigest
  | MemfileTouched | SnapIo snap_call | Panicked

datatype integrity = Fast | Full

record snap_env =
  sha256 :: "bytes \<Rightarrow> bytes"
  blake3 :: "bytes \<Rightarrow> string"
  meta_text :: "snapshot_meta \<Rightarrow> bytes"
  meta_parse :: "bytes \<Rightarrow> snapshot_meta option"
  snap_fails :: "snap_call \<Rightarrow> bool"
  process_id :: nat
  unix_now :: nat

definition is_complete :: "snap_dir \<Rightarrow> bool" where
  "is_complete d \<longleftrightarrow> d VMSTATE_FILE \<noteq> None \<and> d MEMFILE_FILE \<noteq> None \<and> d META_FILE \<noteq> None"

definition sys :: "snap_env \<Rightarrow> snap_call \<Rightarrow> snap_error + unit" where
  "sys env c = require (\<not> snap_fails env c) (SnapIo c)"

definition verify_snapshot :: "snap_env \<Rightarrow> integrity \<Rightarrow> snap_dir \<Rightarrow> snap_error + snapshot_meta" where
  "verify_snapshot env level d =
     (case (d VMSTATE_FILE, d MEMFILE_FILE, d META_FILE) of
        (Some vm, Some mem, Some raw) \<Rightarrow>
          try_bind (sys env ReadMeta) (\<lambda>_.
          try_bind (ok_or BadMeta (meta_parse env (sf_bytes raw))) (\<lambda>m.
          try_bind (require (sm_vmstate_b3 m \<noteq> [] \<and> sm_memfile_b3 m \<noteq> []) Undigested) (\<lambda>_.
          try_bind (sys env StatVmstate) (\<lambda>_.
          try_bind (require (length (sf_bytes vm) = sm_vmstate_bytes m) (VmstateSize (length (sf_bytes vm)))) (\<lambda>_.
          try_bind (sys env DigestVmstate) (\<lambda>_.
          try_bind (require (blake3 env (sf_bytes vm) = sm_vmstate_b3 m) VmstateDigest) (\<lambda>_.
          try_bind (sys env StatMemfile) (\<lambda>_.
          try_bind (require (length (sf_bytes mem) = sm_memfile_bytes m) (MemfileSize (length (sf_bytes mem)))) (\<lambda>_.
          try_bind (case level of
              Full \<Rightarrow>
                try_bind (sys env DigestMemfile) (\<lambda>_.
                require (blake3 env (sf_bytes mem) = sm_memfile_b3 m) MemfileDigest)
            | Fast \<Rightarrow> require (sf_mtime mem = sm_memfile_mtime_ns m) MemfileTouched) (\<lambda>_.
          Inr m))))))))))
      | _ \<Rightarrow> Inl Incomplete)"

definition is_usable :: "snap_env \<Rightarrow> snap_dir \<Rightarrow> bool" where
  "is_usable env d \<longleftrightarrow> \<not> isl (verify_snapshot env Fast d)"

definition hot_path_integrity :: "string option \<Rightarrow> integrity" where
  "hot_path_integrity var = (if var = Some ''1'' then Full else Fast)"

section \<open>Publishing a build\<close>

text \<open>Each process stages under its own names.\<close>

definition partial_name :: "string \<Rightarrow> nat \<Rightarrow> string" where
  "partial_name what pid = what @ ''.'' @ show_nat pid @ ''.partial''"

definition snap_rename :: "string \<Rightarrow> string \<Rightarrow> snap_dir \<Rightarrow> snap_dir" where
  "snap_rename src dst d = (d(dst := d src))(src := None)"

definition snap_io :: "snap_env \<Rightarrow> snap_call \<Rightarrow> (snap_dir \<Rightarrow> snap_dir) \<Rightarrow> (snap_dir, snap_error, unit) comp" where
  "snap_io env c f d = (if snap_fails env c then (Inl (SnapIo c), d) else (Inr (), f d))"

definition meta_for :: "snap_env \<Rightarrow> snapshot_key \<Rightarrow> string \<Rightarrow> nat \<Rightarrow> snap_file \<Rightarrow> snap_file \<Rightarrow> snapshot_meta" where
  "meta_for env key summ vmstate_bytes vm mem =
     \<lparr>sm_key = key, sm_keyhash = keyhash (sha256 env) key, sm_summary = summ, sm_created = unix_now env,
      sm_vmstate_bytes = vmstate_bytes, sm_memfile_bytes = length (sf_bytes mem),
      sm_vmstate_b3 = blake3 env (sf_bytes vm), sm_memfile_b3 = blake3 env (sf_bytes mem),
      sm_memfile_mtime_ns = sf_mtime mem\<rparr>"

text \<open>
  \<open>write_meta\<close> reads the published files back. The size of \<open>vmstate\<close> is 0 if it cannot be had.
  The temporary file is written and renamed; \<open>stamp\<close> is the time of that write.
\<close>

definition meta_of :: "snap_env \<Rightarrow> snapshot_key \<Rightarrow> snap_dir \<Rightarrow> snap_error + snapshot_meta" where
  "meta_of env key d =
     (case (d VMSTATE_FILE, d MEMFILE_FILE) of
        (Some vm, Some mem) \<Rightarrow>
          (let vmstate_bytes = (if snap_fails env StatVmstate then 0 else length (sf_bytes vm)) in
           try_bind (sys env DigestVmstate) (\<lambda>_.
           try_bind (sys env DigestMemfile) (\<lambda>_.
           try_bind (sys env StatMemfile) (\<lambda>_.
           try_bind (ok_or Panicked (key_summary key)) (\<lambda>summ.
           try_bind (sys env SerializeMeta) (\<lambda>_.
           Inr (meta_for env key summ vmstate_bytes vm mem)))))))
      | (None, _) \<Rightarrow> Inl (SnapIo DigestVmstate)
      | (_, None) \<Rightarrow> Inl (SnapIo DigestMemfile))"

definition write_snapshot_meta :: "snap_env \<Rightarrow> nat \<Rightarrow> snapshot_key \<Rightarrow> (snap_dir, snap_error, unit) comp list" where
  "write_snapshot_meta env stamp key =
     [\<lambda>d. case meta_of env key d of
         Inl e \<Rightarrow> (Inl e, d)
       | Inr m \<Rightarrow> snap_io env WriteMeta (\<lambda>d. d(partial_name META_FILE (process_id env) \<mapsto>
           \<lparr>sf_bytes = meta_text env m @ bytes_of [LF], sf_mtime = stamp\<rparr>)) d,
      snap_io env RenameMeta (snap_rename (partial_name META_FILE (process_id env)) META_FILE)]"

text \<open>
  The end of \<open>build\<close>, as the list of its calls on the directory: other processes may act between
  two of them, and the first that fails is the last.
\<close>

definition publish_build :: "snap_env \<Rightarrow> nat \<Rightarrow> snapshot_key \<Rightarrow> (snap_dir, snap_error, unit) comp list" where
  "publish_build env stamp key =
     [snap_io env RenameVmstate (snap_rename (partial_name VMSTATE_FILE (process_id env)) VMSTATE_FILE),
      snap_io env RenameMemfile (snap_rename (partial_name MEMFILE_FILE (process_id env)) MEMFILE_FILE)] @
     write_snapshot_meta env stamp key"

fun run_calls :: "(snap_dir, snap_error, unit) comp list \<Rightarrow> (snap_dir, snap_error, unit) comp" where
  "run_calls [] = ret ()"
| "run_calls (c # cs) = seq c (\<lambda>_. run_calls cs)"

section \<open>The build lock\<close>

text \<open>One attempt on a lock file: what is at its path, whether the open fails, whether another process
  holds the lock, and whether \<open>flock\<close> fails for another reason.\<close>

definition try_build_lock :: "lock_path \<Rightarrow> bool \<Rightarrow> bool \<Rightarrow> bool \<Rightarrow> lock_error + bool" where
  "try_build_lock at_path open_err taken flock_err =
     (if open_err \<or> at_path \<in> {Pipe False, SymLink, DirectoryHere} then Inl OpenFailed
      else if at_path \<noteq> Missing \<and> at_path \<noteq> LockFile then Inl NotRegular
      else if taken then Inr False
      else if flock_err then Inl FlockFailed
      else Inr True)"

text \<open>
  What one turn of the waiting loop sees: the answer of the attempt, the directory, and whether the
  deadline has passed. \<open>None\<close>: still waiting when the turns given are used up.
\<close>

record lock_poll =
  lp_answer :: "lock_error + bool"
  lp_seen :: snap_dir
  lp_late :: bool

fun acquire_build_lock :: "lock_poll list \<Rightarrow> (lock_error + bool) option" where
  "acquire_build_lock [] = None"
| "acquire_build_lock (p # ps) =
     (case lp_answer p of
        Inr True \<Rightarrow> Some (Inr True)
      | Inl e \<Rightarrow> Some (Inl e)
      | Inr False \<Rightarrow>
          if is_complete (lp_seen p) then Some (Inr False)
          else if lp_late p then Some (Inr False)
          else acquire_build_lock ps)"

datatype ensure_error = NoSnapshotDir | LockBroken lock_error | WaitTimedOut | BuildFailed snap_error

text \<open>
  \<open>first\<close> is the directory on entry and \<open>again\<close> when the wait is over; \<open>building\<close> is how the build
  ends, if it comes to that.
\<close>

definition ensure_at ::
  "snap_env \<Rightarrow> snap_dir \<Rightarrow> bool \<Rightarrow> lock_poll list \<Rightarrow> snap_dir \<Rightarrow> snap_error + unit \<Rightarrow> (ensure_error + bool) option" where
  "ensure_at env first dir_made polls again building =
     (if is_usable env first then Some (Inr False)
      else if \<not> dir_made then Some (Inl NoSnapshotDir)
      else case acquire_build_lock polls of
          None \<Rightarrow> None
        | Some (Inl e) \<Rightarrow> Some (Inl (LockBroken e))
        | Some (Inr False) \<Rightarrow> Some (if is_usable env again then Inr False else Inl WaitTimedOut)
        | Some (Inr True) \<Rightarrow>
            if is_usable env again then Some (Inr False)
            else (case building of Inl e \<Rightarrow> Some (Inl (BuildFailed e)) | Inr _ \<Rightarrow> Some (Inr True)))"

section \<open>The builder and the resume\<close>

definition builder_args :: "slot \<Rightarrow> string" where
  "builder_args sl =
     BOOT_ARGS @ '' isopod.upper=ram isopod.net='' @ guest_cidr (slot_index sl) @ '' isopod.gw='' @ host_ip (slot_index sl) @
     '' isopod.dns='' @ DEFAULT_DNS"

text \<open>The calls that configure the builder, up to its vsock device.\<close>

definition builder_calls :: "string \<Rightarrow> string \<Rightarrow> resources \<Rightarrow> slot \<Rightarrow> api_call list" where
  "builder_calls kern base_sqfs res sl =
     [PutMachineConfig (vcpus res) (mem_mib res), PutBootSource kern (builder_args sl),
      PutDrive ''base'' base_sqfs True True,
      PutNic ''eth0'' (''isopod-tap'' @ show_nat (slot_index sl)) (guest_mac (slot_index sl))]"

definition default_dns_list :: "string list" where
  "default_dns_list = filter (\<lambda>s. s \<noteq> []) (split_on CHR '','' DEFAULT_DNS)"

text \<open>The request that gives a resumed guest its network: address, gateway, resolvers, broker.\<close>

definition resume_net_request ::
  "slot \<Rightarrow> broker_endpoints option \<Rightarrow> string \<times> string \<times> string list \<times> (string \<times> string \<times> string option) option" where
  "resume_net_request sl bro =
     (guest_cidr (slot_index sl), host_ip (slot_index sl),
      (case bro of Some b \<Rightarrow> [ep_dns b] | None \<Rightarrow> default_dns_list),
      map_option (\<lambda>b. (ep_socks b, ep_http b, ep_inject b)) bro)"

datatype resume_call = SpawnVmm | LoadSnapshot string string string | AwaitAgent | ConfigureNet | SyncClock

datatype resume_error = NotVerified snap_error | ResumeFailed resume_call | NetRefused configure_error

text \<open>
  \<open>resume\<close> up to the clock: the checks, then one call after another; the guest that runs is the one
  in the snapshot, with its network as it was dumped.
\<close>

definition resume_snapshot ::
  "snap_env \<Rightarrow> integrity \<Rightarrow> (resume_call \<Rightarrow> bool) \<Rightarrow> net_calls \<Rightarrow> snap_dir \<Rightarrow> slot \<Rightarrow> broker_endpoints option \<Rightarrow>
   guest_net \<Rightarrow> (resume_error + bytes \<times> bytes) \<times> guest_net" where
  "resume_snapshot env level fails k d sl bro g =
     (case verify_snapshot env level d of
        Inl e \<Rightarrow> (Inl (NotVerified e), g)
      | Inr _ \<Rightarrow>
          (let step = (\<lambda>c. if fails c then fail (ResumeFailed c) else ret ()) in
           case (d VMSTATE_FILE, d MEMFILE_FILE) of
             (Some vm, Some mem) \<Rightarrow>
               (case resume_net_request sl bro of (ip, gw, dns, eps) \<Rightarrow>
                 seq (step SpawnVmm) (\<lambda>_.
                 seq (step (LoadSnapshot VMSTATE_FILE MEMFILE_FILE (''isopod-tap'' @ show_nat (slot_index sl)))) (\<lambda>_.
                 seq (step AwaitAgent) (\<lambda>_.
                 seq (map_fail NetRefused (configure_net k ip gw dns eps)) (\<lambda>_.
                 seq (step SyncClock) (\<lambda>_. ret (sf_bytes vm, sf_bytes mem)))))) g)
           | _ \<Rightarrow> (Inl (NotVerified Incomplete), g)))"

section \<open>The store\<close>

text \<open>What the directory of snapshots holds: the name of each subdirectory and the text of its metadata.\<close>

type_synonym snapshot_store = "(string \<times> bytes option) list"

definition list_snapshots :: "snap_env \<Rightarrow> snapshot_store \<Rightarrow> snapshot_meta list" where
  "list_snapshots env st =
     rev (sort_key sm_created (rev (List.map_filter (\<lambda>(_, raw). Option.bind raw (meta_parse env)) st)))"

datatype store_error = NoSuchSnapshot string | AmbiguousSnapshot "string list" | RemovalFailed string

text \<open>The path that is removed, and the metadata that is returned.\<close>

definition remove_snapshot ::
  "snap_env \<Rightarrow> string \<Rightarrow> (string \<Rightarrow> bool) \<Rightarrow> string \<Rightarrow> snapshot_store \<Rightarrow> store_error + string \<times> snapshot_meta" where
  "remove_snapshot env dir removal_fails wanted st =
     (case filter (\<lambda>m. sm_keyhash m = wanted \<or> starts_with wanted (sm_keyhash m)) (list_snapshots env st) of
        [] \<Rightarrow> Inl (NoSuchSnapshot wanted)
      | [m] \<Rightarrow>
          (let path = path_join dir (sm_keyhash m) in
           if removal_fails path then Inl (RemovalFailed path) else Inr (path, m))
      | ms \<Rightarrow> Inl (AmbiguousSnapshot (map sm_keyhash ms)))"

fun remove_each :: "(string \<Rightarrow> bool) \<Rightarrow> string list \<Rightarrow> string list \<Rightarrow> (store_error + string list) \<times> string list" where
  "remove_each fails [] gone = (Inr gone, [])"
| "remove_each fails (n # ns) gone =
     (if fails n then (Inl (RemovalFailed n), n # ns) else remove_each fails ns (gone @ [n]))"

text \<open>What is left comes second.\<close>

definition remove_all_snapshots :: "(string \<Rightarrow> bool) \<Rightarrow> snapshot_store \<Rightarrow> (store_error + string list) \<times> string list" where
  "remove_all_snapshots fails st =
     (case remove_each fails (map fst st) [] of (r, rest) \<Rightarrow> (map_sum id sort r, rest))"

section \<open>One build at a time\<close>

text \<open>
  The processes that build the same snapshot: who holds the lock, how far each is, the dumps made so
  far (newest first) and the clock of the file system, which advances from one dump to the next. A
  process that gets the lock dumps the machine under its own names and then makes the calls of
  \<open>publish_build\<close>, one at a time, while others run. A dump or the write of the metadata may be cut
  short and leave anything under the process's own names; a process may stop anywhere, on a failed
  call or by dying, and its lock goes with it. The snapshot may be removed while the lock is free.
\<close>

datatype progress = Dumping | Publishing "(snap_dir, snap_error, unit) comp list"

record builds =
  snap_files :: snap_dir
  lock_owner :: "nat option"
  builders :: "nat \<rightharpoonup> progress"
  dumps :: "(bytes \<times> bytes \<times> nat) list"
  fs_clock :: nat

definition builds_init :: builds where
  "builds_init = \<lparr>snap_files = Map.empty, lock_owner = None, builders = Map.empty, dumps = [], fs_clock = 0\<rparr>"

definition as_process :: "nat \<Rightarrow> (snap_call \<Rightarrow> bool) \<Rightarrow> nat \<Rightarrow> snap_env \<Rightarrow> snap_env" where
  "as_process pid fails now e = e\<lparr>process_id := pid, snap_fails := fails, unix_now := now\<rparr>"

text \<open>The process is gone, and its lock with it.\<close>

definition stopped :: "nat \<Rightarrow> builds \<Rightarrow> builds" where
  "stopped p s = s\<lparr>builders := (builders s)(p := None), lock_owner := (if lock_owner s = Some p then None else lock_owner s)\<rparr>"

inductive build_step :: "snap_env \<Rightarrow> snapshot_key \<Rightarrow> builds \<Rightarrow> builds \<Rightarrow> bool" for e key where
  acquire: "builders s p = None \<Longrightarrow> try_build_lock at_path open_err (lock_owner s \<noteq> None) flock_err = Inr True \<Longrightarrow>
    build_step e key s (s\<lparr>lock_owner := Some p, builders := (builders s)(p \<mapsto> Dumping)\<rparr>)"
| torn: "builders s p \<noteq> None \<Longrightarrow> w \<in> {VMSTATE_FILE, MEMFILE_FILE, META_FILE} \<Longrightarrow>
    build_step e key s (stopped p (s\<lparr>snap_files := (snap_files s)(partial_name w p := junk)\<rparr>))"
| dump: "builders s p = Some Dumping \<Longrightarrow> fs_clock s < t \<Longrightarrow>
    build_step e key s (s\<lparr>snap_files := (snap_files s)
        (partial_name VMSTATE_FILE p \<mapsto> \<lparr>sf_bytes = vm, sf_mtime = t\<rparr>, partial_name MEMFILE_FILE p \<mapsto> \<lparr>sf_bytes = mem, sf_mtime = t\<rparr>),
      builders := (builders s)(p \<mapsto> Publishing (publish_build (as_process p fails now e) stamp key)),
      dumps := (vm, mem, t) # dumps s, fs_clock := t\<rparr>)"
| call: "builders s p = Some (Publishing (c # cs)) \<Longrightarrow> c (snap_files s) = (Inr (), d) \<Longrightarrow>
    build_step e key s (s\<lparr>snap_files := d, builders := (builders s)(p \<mapsto> Publishing cs)\<rparr>)"
| call_fails: "builders s p = Some (Publishing (c # cs)) \<Longrightarrow> c (snap_files s) = (Inl x, d) \<Longrightarrow>
    build_step e key s (stopped p (s\<lparr>snap_files := d\<rparr>))"
| stop: "build_step e key s (stopped p s)"
| removed: "lock_owner s = None \<Longrightarrow> build_step e key s (s\<lparr>snap_files := Map.empty\<rparr>)"

lemma snap_names:
  "VMSTATE_FILE \<noteq> MEMFILE_FILE" "VMSTATE_FILE \<noteq> META_FILE" "MEMFILE_FILE \<noteq> META_FILE"
  "MEMFILE_FILE \<noteq> VMSTATE_FILE" "META_FILE \<noteq> VMSTATE_FILE" "META_FILE \<noteq> MEMFILE_FILE"
  by (simp_all add: VMSTATE_FILE_def MEMFILE_FILE_def META_FILE_def)

lemma partial_name_eq [simp]: "partial_name w p = partial_name w' p \<longleftrightarrow> w = w'"
  by (simp add: partial_name_def)

lemma partial_name_not:
  assumes "w \<in> {VMSTATE_FILE, MEMFILE_FILE, META_FILE}" "w' \<in> {VMSTATE_FILE, MEMFILE_FILE, META_FILE}"
  shows "partial_name w p \<noteq> w'" "w' \<noteq> partial_name w p"
proof -
  have "length w' < length (partial_name w p)"
    using assms by (auto simp: partial_name_def VMSTATE_FILE_def MEMFILE_FILE_def META_FILE_def)
  then show "partial_name w p \<noteq> w'" "w' \<noteq> partial_name w p" by auto
qed

definition describes :: "snap_env \<Rightarrow> snapshot_meta \<Rightarrow> bytes \<times> bytes \<times> nat \<Rightarrow> bool" where
  "describes e m dmp =
     (case dmp of (vm, mem, t) \<Rightarrow>
        sm_vmstate_b3 m = blake3 e vm \<and> sm_memfile_b3 m = blake3 e mem \<and> sm_memfile_bytes m = length mem \<and>
        sm_memfile_mtime_ns m = t)"

definition meta_file_of :: "snap_env \<Rightarrow> (bytes \<times> bytes \<times> nat) set \<Rightarrow> snap_file \<Rightarrow> bool" where
  "meta_file_of e D f \<longleftrightarrow> (\<exists>m. \<exists>dmp \<in> D. sf_bytes f = meta_text e m @ bytes_of [LF] \<and> describes e m dmp)"

text \<open>What the newest dump and the published files have to do with each other in each phase.\<close>

definition state_at :: "snap_dir \<Rightarrow> string \<Rightarrow> bytes \<times> bytes \<times> nat \<Rightarrow> bool" where
  "state_at d name dmp \<longleftrightarrow> (\<exists>f. d name = Some f \<and> sf_bytes f = fst dmp)"

definition mem_at :: "snap_dir \<Rightarrow> string \<Rightarrow> bytes \<times> bytes \<times> nat \<Rightarrow> bool" where
  "mem_at d name dmp \<longleftrightarrow> d name = Some \<lparr>sf_bytes = fst (snd dmp), sf_mtime = snd (snd dmp)\<rparr>"

definition progress_ok :: "snap_env \<Rightarrow> snapshot_key \<Rightarrow> snap_dir \<Rightarrow> (bytes \<times> bytes \<times> nat) list \<Rightarrow> nat \<Rightarrow> progress \<Rightarrow> bool" where
  "progress_ok e key d D p g \<longleftrightarrow>
     (case g of Dumping \<Rightarrow> True
      | Publishing cs \<Rightarrow> D \<noteq> [] \<and> (\<exists>fails now stamp.
          let calls = publish_build (as_process p fails now e) stamp key in
          cs = calls \<and> state_at d (partial_name VMSTATE_FILE p) (hd D) \<and> mem_at d (partial_name MEMFILE_FILE p) (hd D) \<or>
          cs = drop 1 calls \<and> state_at d VMSTATE_FILE (hd D) \<and> mem_at d (partial_name MEMFILE_FILE p) (hd D) \<or>
          cs = drop 2 calls \<and> state_at d VMSTATE_FILE (hd D) \<and> mem_at d MEMFILE_FILE (hd D) \<or>
          cs = drop 3 calls \<and> (\<exists>f. d (partial_name META_FILE p) = Some f \<and> meta_file_of e {hd D} f) \<or>
          cs = []))"

definition published_ok :: "snap_env \<Rightarrow> (bytes \<times> bytes \<times> nat) set \<Rightarrow> snap_dir \<Rightarrow> bool" where
  "published_ok e D d \<longleftrightarrow>
     (d VMSTATE_FILE \<noteq> None \<longrightarrow> (\<exists>dmp \<in> D. state_at d VMSTATE_FILE dmp)) \<and>
     (d MEMFILE_FILE \<noteq> None \<longrightarrow> (\<exists>dmp \<in> D. mem_at d MEMFILE_FILE dmp)) \<and>
     (\<forall>f. d META_FILE = Some f \<longrightarrow> meta_file_of e D f)"

definition builds_inv :: "snap_env \<Rightarrow> snapshot_key \<Rightarrow> builds \<Rightarrow> bool" where
  "builds_inv e key s \<longleftrightarrow>
     distinct (map (snd \<circ> snd) (dumps s)) \<and> (\<forall>dmp \<in> set (dumps s). snd (snd dmp) \<le> fs_clock s) \<and>
     published_ok e (set (dumps s)) (snap_files s) \<and>
     (\<forall>p g. builders s p = Some g \<longrightarrow> lock_owner s = Some p \<and> progress_ok e key (snap_files s) (dumps s) p g)"

lemma meta_of_describes:
  assumes "meta_of env key d = Inr m" "state_at d VMSTATE_FILE dmp" "mem_at d MEMFILE_FILE dmp"
  shows "describes env m dmp"
  using assms
  by (auto simp: meta_of_def Let_def result_iff state_at_def mem_at_def describes_def meta_for_def split: option.splits prod.splits)

lemma describes_as_process [simp]: "describes (as_process p f n e) = describes e"
  by (simp add: describes_def as_process_def fun_eq_iff)

lemma meta_file_mono: "meta_file_of e D f \<Longrightarrow> D \<subseteq> D' \<Longrightarrow> meta_file_of e D' f"
  unfolding meta_file_of_def by blast

lemma hd_dump: "D \<noteq> [] \<Longrightarrow> hd D \<in> set D"
  by simp

lemma names_apart [simp]:
  "partial_name VMSTATE_FILE p \<noteq> VMSTATE_FILE" "partial_name VMSTATE_FILE p \<noteq> MEMFILE_FILE" "partial_name VMSTATE_FILE p \<noteq> META_FILE"
  "partial_name MEMFILE_FILE p \<noteq> VMSTATE_FILE" "partial_name MEMFILE_FILE p \<noteq> MEMFILE_FILE" "partial_name MEMFILE_FILE p \<noteq> META_FILE"
  "partial_name META_FILE p \<noteq> VMSTATE_FILE" "partial_name META_FILE p \<noteq> MEMFILE_FILE" "partial_name META_FILE p \<noteq> META_FILE"
  "VMSTATE_FILE \<noteq> partial_name VMSTATE_FILE p" "MEMFILE_FILE \<noteq> partial_name VMSTATE_FILE p" "META_FILE \<noteq> partial_name VMSTATE_FILE p"
  "VMSTATE_FILE \<noteq> partial_name MEMFILE_FILE p" "MEMFILE_FILE \<noteq> partial_name MEMFILE_FILE p" "META_FILE \<noteq> partial_name MEMFILE_FILE p"
  "VMSTATE_FILE \<noteq> partial_name META_FILE p" "MEMFILE_FILE \<noteq> partial_name META_FILE p" "META_FILE \<noteq> partial_name META_FILE p"
  using partial_name_not by auto

declare snap_names [simp]

lemma published_mono: "published_ok e D d \<Longrightarrow> D \<subseteq> D' \<Longrightarrow> published_ok e D' d"
  unfolding published_ok_def using meta_file_mono by blast

lemma published_partial [simp]:
  "w \<in> {VMSTATE_FILE, MEMFILE_FILE, META_FILE} \<Longrightarrow> published_ok e D (d(partial_name w p := x)) \<longleftrightarrow> published_ok e D d"
  by (auto simp: published_ok_def state_at_def mem_at_def)

lemma published_renamed:
  assumes "published_ok e (set D) d" "D \<noteq> []"
  shows "state_at d (partial_name VMSTATE_FILE p) (hd D) \<Longrightarrow>
      published_ok e (set D) (snap_rename (partial_name VMSTATE_FILE p) VMSTATE_FILE d)"
    and "mem_at d (partial_name MEMFILE_FILE p) (hd D) \<Longrightarrow>
      published_ok e (set D) (snap_rename (partial_name MEMFILE_FILE p) MEMFILE_FILE d)"
    and "d (partial_name META_FILE p) = Some f \<Longrightarrow> meta_file_of e {hd D} f \<Longrightarrow>
      published_ok e (set D) (snap_rename (partial_name META_FILE p) META_FILE d)"
proof -
  have h: "hd D \<in> set D" using assms(2) by simp
  show "published_ok e (set D) (snap_rename (partial_name VMSTATE_FILE p) VMSTATE_FILE d)"
    if "state_at d (partial_name VMSTATE_FILE p) (hd D)"
    using assms(1) h that by (auto simp: published_ok_def snap_rename_def state_at_def mem_at_def intro!: bexI [of _ "hd D"])
  show "published_ok e (set D) (snap_rename (partial_name MEMFILE_FILE p) MEMFILE_FILE d)"
    if "mem_at d (partial_name MEMFILE_FILE p) (hd D)"
    using assms(1) h that by (auto simp: published_ok_def snap_rename_def state_at_def mem_at_def intro!: bexI [of _ "hd D"])
  show "published_ok e (set D) (snap_rename (partial_name META_FILE p) META_FILE d)"
    if "d (partial_name META_FILE p) = Some f" "meta_file_of e {hd D} f"
    using assms(1) h that meta_file_mono [OF that(2), of "set D"]
    by (auto simp: published_ok_def snap_rename_def state_at_def mem_at_def)
qed

text \<open>Each call of a build keeps what is published whole, and a build knows how far it is.\<close>

lemma publish_call:
  assumes "progress_ok e key d D p (Publishing (c # cs))" "published_ok e (set D) d" "c d = (r, d')"
  shows "published_ok e (set D) d' \<and> (r = Inr () \<longrightarrow> progress_ok e key d' D p (Publishing cs))"
proof -
  obtain fails now stamp where D: "D \<noteq> []" and cs: "let calls = publish_build (as_process p fails now e) stamp key in
          c # cs = calls \<and> state_at d (partial_name VMSTATE_FILE p) (hd D) \<and> mem_at d (partial_name MEMFILE_FILE p) (hd D) \<or>
          c # cs = drop 1 calls \<and> state_at d VMSTATE_FILE (hd D) \<and> mem_at d (partial_name MEMFILE_FILE p) (hd D) \<or>
          c # cs = drop 2 calls \<and> state_at d VMSTATE_FILE (hd D) \<and> mem_at d MEMFILE_FILE (hd D) \<or>
          c # cs = drop 3 calls \<and> (\<exists>f. d (partial_name META_FILE p) = Some f \<and> meta_file_of e {hd D} f)"
    using assms(1) by (auto simp: progress_ok_def Let_def)
  let ?env = "as_process p fails now e"
  let ?calls = "publish_build ?env stamp key"
  have env [simp]: "process_id ?env = p" "snap_fails ?env = fails" "meta_text ?env = meta_text e" by (simp_all add: as_process_def)
  have next_ok: "progress_ok e key d' D p (Publishing cs)"
    if "cs = drop 1 ?calls \<and> state_at d' VMSTATE_FILE (hd D) \<and> mem_at d' (partial_name MEMFILE_FILE p) (hd D) \<or>
        cs = drop 2 ?calls \<and> state_at d' VMSTATE_FILE (hd D) \<and> mem_at d' MEMFILE_FILE (hd D) \<or>
        cs = drop 3 ?calls \<and> (\<exists>f. d' (partial_name META_FILE p) = Some f \<and> meta_file_of e {hd D} f) \<or> cs = []"
    using D that unfolding progress_ok_def Let_def by auto
  note pub = published_renamed [OF assms(2) D]
  from cs consider
      (state) "c # cs = ?calls" "state_at d (partial_name VMSTATE_FILE p) (hd D)" "mem_at d (partial_name MEMFILE_FILE p) (hd D)"
    | (memory) "c # cs = drop 1 ?calls" "state_at d VMSTATE_FILE (hd D)" "mem_at d (partial_name MEMFILE_FILE p) (hd D)"
    | (stage) "c # cs = drop 2 ?calls" "state_at d VMSTATE_FILE (hd D)" "mem_at d MEMFILE_FILE (hd D)"
    | (finish) f where "c # cs = drop 3 ?calls" "d (partial_name META_FILE p) = Some f" "meta_file_of e {hd D} f"
    by (auto simp: Let_def)
  then show ?thesis
  proof cases
    case state
    then have "c = snap_io ?env RenameVmstate (snap_rename (partial_name VMSTATE_FILE p) VMSTATE_FILE)" "cs = drop 1 ?calls"
      by (simp_all add: publish_build_def)
    with assms(3) have r: "r = Inr () \<and> d' = snap_rename (partial_name VMSTATE_FILE p) VMSTATE_FILE d \<or> r \<noteq> Inr () \<and> d' = d"
      by (auto simp: snap_io_def split: if_splits)
    have "state_at (snap_rename (partial_name VMSTATE_FILE p) VMSTATE_FILE d) VMSTATE_FILE (hd D)"
      "mem_at (snap_rename (partial_name VMSTATE_FILE p) VMSTATE_FILE d) (partial_name MEMFILE_FILE p) (hd D)"
      using state(2,3) by (auto simp: snap_rename_def state_at_def mem_at_def)
    with r pub(1) [OF state(2)] assms(2) next_ok \<open>cs = drop 1 ?calls\<close> show ?thesis by blast
  next
    case memory
    then have "c = snap_io ?env RenameMemfile (snap_rename (partial_name MEMFILE_FILE p) MEMFILE_FILE)" "cs = drop 2 ?calls"
      by (simp_all add: publish_build_def)
    with assms(3) have r: "r = Inr () \<and> d' = snap_rename (partial_name MEMFILE_FILE p) MEMFILE_FILE d \<or> r \<noteq> Inr () \<and> d' = d"
      by (auto simp: snap_io_def split: if_splits)
    have "state_at (snap_rename (partial_name MEMFILE_FILE p) MEMFILE_FILE d) VMSTATE_FILE (hd D)"
      "mem_at (snap_rename (partial_name MEMFILE_FILE p) MEMFILE_FILE d) MEMFILE_FILE (hd D)"
      using memory(2,3) by (auto simp: snap_rename_def state_at_def mem_at_def)
    with r pub(2) [OF memory(3)] assms(2) next_ok \<open>cs = drop 2 ?calls\<close> show ?thesis by blast
  next
    case stage
    then have c: "c = (\<lambda>d. case meta_of ?env key d of
         Inl e \<Rightarrow> (Inl e, d)
       | Inr m \<Rightarrow> snap_io ?env WriteMeta (\<lambda>d. d(partial_name META_FILE (process_id ?env) \<mapsto>
           \<lparr>sf_bytes = meta_text ?env m @ bytes_of [LF], sf_mtime = stamp\<rparr>)) d)" "cs = drop 3 ?calls"
      by (simp_all add: publish_build_def write_snapshot_meta_def)
    show ?thesis
    proof (cases "meta_of ?env key d")
      case (Inr m)
      have "meta_file_of e {hd D} \<lparr>sf_bytes = meta_text e m @ bytes_of [LF], sf_mtime = stamp\<rparr>"
        using meta_of_describes [OF Inr stage(2,3)] by (auto simp: meta_file_of_def)
      then have "d' = d \<and> r \<noteq> Inr () \<or> (\<exists>f. d' = d(partial_name META_FILE p \<mapsto> f) \<and> meta_file_of e {hd D} f)"
        using c(1) Inr assms(3) by (auto simp: snap_io_def split: if_splits)
      then show ?thesis
      proof
        assume "\<exists>f. d' = d(partial_name META_FILE p \<mapsto> f) \<and> meta_file_of e {hd D} f"
        then obtain f where "d' = d(partial_name META_FILE p \<mapsto> f)" "meta_file_of e {hd D} f" by blast
        then show ?thesis using c(2) assms(2) next_ok by simp
      qed (use assms(2) in simp)
    qed (use c assms(2,3) in auto)
  next
    case finish
    then have "c = snap_io ?env RenameMeta (snap_rename (partial_name META_FILE p) META_FILE)" "cs = []"
      by (simp_all add: publish_build_def write_snapshot_meta_def)
    then show ?thesis using pub(3) [OF finish(2,3)] assms(2,3) next_ok by (auto simp: snap_io_def split: if_splits)
  qed
qed

lemma sole_builder: "builds_inv e key s \<Longrightarrow> builders s p \<noteq> None \<Longrightarrow> builders s q \<noteq> None \<Longrightarrow> q = p"
  unfolding builds_inv_def by (metis option.exhaust option.inject)

lemma stopped_inv:
  assumes "builds_inv e key s" "published_ok e (set (dumps s)) d" "builders s p \<noteq> None \<or> d = snap_files s"
  shows "builds_inv e key (stopped p (s\<lparr>snap_files := d\<rparr>))"
proof -
  have "q = p" if "builders s p \<noteq> None" "builders s q \<noteq> None" for q
    using sole_builder [OF assms(1)] that by blast
  then have sole: "d = snap_files s" if "builders s q \<noteq> None" "q \<noteq> p" for q
    using assms(3) that by blast
  have rest: "lock_owner s = Some q \<and> progress_ok e key (snap_files s) (dumps s) q g" if "builders s q = Some g" for q g
    using assms(1) that by (simp add: builds_inv_def)
  show ?thesis unfolding builds_inv_def
  proof (intro conjI allI impI)
    fix q g assume "builders (stopped p (s\<lparr>snap_files := d\<rparr>)) q = Some g"
    then have q: "q \<noteq> p" "builders s q = Some g" by (auto simp: stopped_def split: if_splits)
    then show "lock_owner (stopped p (s\<lparr>snap_files := d\<rparr>)) = Some q" using rest by (simp add: stopped_def)
    show "progress_ok e key (snap_files (stopped p (s\<lparr>snap_files := d\<rparr>))) (dumps (stopped p (s\<lparr>snap_files := d\<rparr>))) q g"
      using rest [OF q(2)] sole [of q] q by (simp add: stopped_def)
  qed (use assms(1,2) in \<open>simp_all add: builds_inv_def stopped_def\<close>)
qed

lemma try_build_lock_free: "try_build_lock at_path open_err taken flock_err = Inr True \<Longrightarrow> \<not> taken"
  by (auto simp: try_build_lock_def split: if_splits)

lemma builds_inv_step:
  assumes "builds_inv e key s" "build_step e key s s'"
  shows "builds_inv e key s'"
  using assms(2)
proof cases
  case (acquire p)
  with assms(1) show ?thesis by (auto simp: builds_inv_def progress_ok_def dest!: try_build_lock_free)
next
  case (torn p w junk)
  then have "published_ok e (set (dumps s)) ((snap_files s)(partial_name w p := junk))"
    using assms(1) by (simp add: builds_inv_def)
  then show ?thesis using stopped_inv [OF assms(1)] torn(1,2) by simp
next
  case (dump p t vm mem fails now stamp)
  have sole: "builders s q = None" if "q \<noteq> p" for q
    using sole_builder [OF assms(1), of p q] that dump(2) by (metis option.distinct(1))
  have "\<forall>dmp \<in> set (dumps s). snd (snd dmp) < t" using assms(1) dump(3) by (auto simp: builds_inv_def)
  moreover have "progress_ok e key (snap_files s') (dumps s') p (Publishing (publish_build (as_process p fails now e) stamp key))"
    unfolding progress_ok_def Let_def progress.case
    by (intro conjI exI [of _ fails] exI [of _ now] exI [of _ stamp] disjI1) (simp_all add: dump(1) state_at_def mem_at_def)
  moreover have "published_ok e (set (dumps s')) (snap_files s')"
    using assms(1) published_mono [of e "set (dumps s)" "snap_files s" "insert (vm, mem, t) (set (dumps s))"]
    by (simp add: dump(1) builds_inv_def subset_insertI)
  ultimately show ?thesis using assms(1) sole dump(2) by (auto simp: builds_inv_def dump(1) split: if_splits)
next
  case (call p c cs d)
  have sole: "builders s q = None" if "q \<noteq> p" for q
    using sole_builder [OF assms(1), of p q] that call(2) by (metis option.distinct(1))
  have "published_ok e (set (dumps s)) d \<and> progress_ok e key d (dumps s) p (Publishing cs)"
    using publish_call [of e key "snap_files s" "dumps s" p c cs "Inr ()" d] assms(1) call(2,3) by (auto simp: builds_inv_def)
  then show ?thesis using assms(1) sole call(2) by (auto simp: builds_inv_def call(1) split: if_splits)
next
  case (call_fails p c cs x d)
  have "published_ok e (set (dumps s)) d"
    using publish_call [of e key "snap_files s" "dumps s" p c cs "Inl x" d] assms(1) call_fails(2,3) by (auto simp: builds_inv_def)
  then show ?thesis using stopped_inv [OF assms(1)] call_fails(1,2) by simp
next
  case (stop p)
  then show ?thesis using stopped_inv [OF assms(1), of "snap_files s" p] assms(1) by (simp add: builds_inv_def)
next
  case removed
  have "builders s p = None" for p using assms(1) removed(2) by (auto simp: builds_inv_def)
  then show ?thesis using assms(1) by (auto simp: builds_inv_def removed(1) published_ok_def)
qed

interpretation builds: transition_system "\<lambda>s. s = builds_init" "build_step e key" "builds_inv e key" for e key
proof
  show "builds_inv e key s" if "s = builds_init" for s
    using that by (simp add: builds_inv_def published_ok_def builds_init_def)
qed (rule builds_inv_step)

lemma verify_Inr:
  assumes "verify_snapshot env level d = Inr m"
  obtains vm mem raw where "d VMSTATE_FILE = Some vm" "d MEMFILE_FILE = Some mem" "d META_FILE = Some raw"
    "meta_parse env (sf_bytes raw) = Some m" "blake3 env (sf_bytes vm) = sm_vmstate_b3 m"
    "length (sf_bytes mem) = sm_memfile_bytes m"
    "level = Full \<Longrightarrow> blake3 env (sf_bytes mem) = sm_memfile_b3 m" "level = Fast \<Longrightarrow> sf_mtime mem = sm_memfile_mtime_ns m"
  using assms unfolding verify_snapshot_def
  by (cases level) (auto simp: result_iff split: option.splits)

text \<open>
  C5: a snapshot that verifies is one build's. Whichever processes get the build lock, however often,
  wherever a call of theirs fails or they die, whatever an interrupted dump or write leaves, and
  whenever the snapshot is removed while the lock is free, the register state and the memory that
  pass \<open>verify\<close> at any moment, at either level, were dumped together by one of them: a resume never
  mixes two machines. The digest need only tell the dumps apart. (A removal during a build takes the
  lock file away, and two builds may run at once; then it does not hold, see \<open>unlocked_builds_mix\<close>.)
\<close>
theorem verified_snapshot_is_one_build:
  assumes "(build_step e key)\<^sup>*\<^sup>* builds_init s"
    and "inj_on (blake3 e) (\<Union>(vm, mem, t) \<in> set (dumps s). {vm, mem})"
    and "\<forall>m. meta_parse e (meta_text e m @ bytes_of [LF]) = Some m"
    and "verify_snapshot (as_process p fails now e) level (snap_files s) = Inr m"
  shows "\<exists>vm mem t. (vm, mem, t) \<in> set (dumps s) \<and>
    map_option sf_bytes (snap_files s VMSTATE_FILE) = Some vm \<and> map_option sf_bytes (snap_files s MEMFILE_FILE) = Some mem"
proof -
  have inv: "builds_inv e key s" using builds.inv_reachable [OF refl assms(1)] .
  obtain vm mem raw where v: "snap_files s VMSTATE_FILE = Some vm" "snap_files s MEMFILE_FILE = Some mem"
      "snap_files s META_FILE = Some raw" "meta_parse e (sf_bytes raw) = Some m" "blake3 e (sf_bytes vm) = sm_vmstate_b3 m"
      "length (sf_bytes mem) = sm_memfile_bytes m"
      "level = Full \<Longrightarrow> blake3 e (sf_bytes mem) = sm_memfile_b3 m" "level = Fast \<Longrightarrow> sf_mtime mem = sm_memfile_mtime_ns m"
    using verify_Inr [OF assms(4)] by (auto simp: as_process_def)
  obtain m' D where D: "D \<in> set (dumps s)" "sf_bytes raw = meta_text e m' @ bytes_of [LF]" "describes e m' D"
    using inv v(3) by (auto simp: builds_inv_def published_ok_def meta_file_of_def)
  then have m: "m' = m" using assms(3) v(4) by simp
  obtain vmD memD tD where d: "D = (vmD, memD, tD)" by (cases D)
  obtain V where V: "V \<in> set (dumps s)" "sf_bytes vm = fst V" using inv v(1) by (auto simp: builds_inv_def published_ok_def state_at_def)
  obtain M where M: "M \<in> set (dumps s)" "mem = \<lparr>sf_bytes = fst (snd M), sf_mtime = snd (snd M)\<rparr>"
    using inv v(2) by (auto simp: builds_inv_def published_ok_def mem_at_def)
  let ?C = "\<Union>(vm, mem, t) \<in> set (dumps s). {vm, mem}"
  have C: "fst V \<in> ?C" "vmD \<in> ?C" "fst (snd M) \<in> ?C" "memD \<in> ?C"
    using V(1) D(1) M(1) d by (cases V; cases M; fastforce)+
  have "sf_bytes vm = vmD"
    using inj_onD [OF assms(2) _ C(1,2)] v(5) D(3) V(2) d m by (simp add: describes_def)
  moreover have "sf_bytes mem = memD"
  proof (cases level)
    case Full
    then show ?thesis using inj_onD [OF assms(2) _ C(3,4)] v(7) D(3) M(2) d m by (simp add: describes_def)
  next
    case Fast
    then have "snd (snd M) = snd (snd D)" using v(8) D(3) M(2) d m by (simp add: describes_def)
    moreover have "inj_on (snd \<circ> snd) (set (dumps s))" using inv by (simp add: builds_inv_def distinct_map)
    ultimately have "M = D" using M(1) D(1) by (simp add: inj_on_def)
    then show ?thesis using M(2) d by simp
  qed
  ultimately show ?thesis using D(1) d v(1,2) by fastforce
qed

section \<open>A published build is usable\<close>

lemma describes_verifies:
  assumes "d VMSTATE_FILE = Some vm" "d MEMFILE_FILE = Some mem" "d META_FILE = Some raw"
    and "meta_parse e (sf_bytes raw) = Some (meta_for env key summ (length (sf_bytes vm)) vm mem)" "blake3 env = blake3 e"
    and "\<forall>c. \<not> snap_fails e c" "blake3 e (sf_bytes vm) \<noteq> []" "blake3 e (sf_bytes mem) \<noteq> []"
  shows "verify_snapshot e level d = Inr (meta_for env key summ (length (sf_bytes vm)) vm mem)"
  using assms by (cases level) (simp_all add: verify_snapshot_def sys_def require_def ok_or_def meta_for_def)

text \<open>
  A build that publishes its dump without a failure leaves a snapshot that every later check
  accepts, quick or full, whatever was in the directory before: its bytes are the dump's and its
  metadata names the key.
\<close>
theorem published_build_is_usable:
  assumes "d (partial_name VMSTATE_FILE (process_id env)) = Some vm" "d (partial_name MEMFILE_FILE (process_id env)) = Some mem"
    and "run_calls (publish_build env stamp key) d = (r, d')"
    and "meta_parse env = meta_parse e" "blake3 env = blake3 e" "\<forall>c. \<not> snap_fails e c" "\<forall>bs. blake3 e bs \<noteq> []"
    and "\<forall>m. meta_parse e (meta_text env m @ bytes_of [LF]) = Some m"
    and "\<forall>c. \<not> snap_fails env c" "key_summary key \<noteq> None"
  shows "\<exists>m. r = Inr () \<and> d' VMSTATE_FILE = Some vm \<and> d' MEMFILE_FILE = Some mem \<and>
        (\<forall>level. verify_snapshot e level d' = Inr m) \<and> sm_key m = key \<and> sm_keyhash m = keyhash (sha256 env) key"
proof -
  note ok = assms(9,10)
  then obtain summ where summ: "key_summary key = Some summ" by auto
  let ?p = "process_id env"
  let ?m = "meta_for env key summ (length (sf_bytes vm)) vm mem"
  let ?d1 = "snap_rename (partial_name VMSTATE_FILE ?p) VMSTATE_FILE d"
  let ?d2 = "snap_rename (partial_name MEMFILE_FILE ?p) MEMFILE_FILE ?d1"
  have d2: "?d2 VMSTATE_FILE = Some vm" "?d2 MEMFILE_FILE = Some mem"
    using assms(1,2) by (simp_all add: snap_rename_def)
  have mo: "meta_of env key ?d2 = Inr ?m"
    using d2 ok summ by (simp add: meta_of_def sys_def require_def ok_or_def)
  let ?d3 = "?d2(partial_name META_FILE ?p \<mapsto> \<lparr>sf_bytes = meta_text env ?m @ bytes_of [LF], sf_mtime = stamp\<rparr>)"
  have pub: "r = Inr () \<and> d' = snap_rename (partial_name META_FILE ?p) META_FILE ?d3"
    using assms(3) ok mo by (simp add: publish_build_def write_snapshot_meta_def snap_io_def seq_def ret_def)
  then have d': "d' VMSTATE_FILE = Some vm" "d' MEMFILE_FILE = Some mem"
      "d' META_FILE = Some \<lparr>sf_bytes = meta_text env ?m @ bytes_of [LF], sf_mtime = stamp\<rparr>"
    using d2 by (simp_all add: snap_rename_def)
  have "verify_snapshot e level d' = Inr ?m" for level
    by (rule describes_verifies [OF d']) (use assms(5-8) in simp_all)
  with pub d' show ?thesis by (intro exI [of _ ?m]) (simp add: meta_for_def)
qed

definition sample_snap_key :: snapshot_key where
  "sample_snap_key = snapshot_key_new ''Firecracker v1.16.1'' ''vmlinux-6.18.36:27680232'' ''i7'' ''base-alpine'' ''a3f1c2d4e5b6''
     \<lparr>vcpus = 1, mem_mib = 512\<rparr>"

lemma sample_summary: "key_summary sample_snap_key \<noteq> None"
  by code_simp

text \<open>Metadata can be written and read back.\<close>

lemma sample_codec:
  obtains to_text :: "snapshot_meta \<Rightarrow> bytes" and of_text :: "bytes \<Rightarrow> snapshot_meta option"
  where "\<forall>m. of_text (to_text m @ bytes_of [LF]) = Some m"
proof -
  have "\<exists>f :: snapshot_meta \<Rightarrow> nat. inj f"
  proof -
    let ?k = "\<lambda>k :: snapshot_key. (sk_fc_build k, sk_kernel_id k, sk_cpu_model k, sk_base k, sk_base_sha256 k, unat (sk_vcpus k), unat (sk_mem_mib k), sk_format k)"
    let ?m = "\<lambda>m :: snapshot_meta. (?k (sm_key m), sm_keyhash m, sm_summary m, sm_created m, sm_vmstate_bytes m, sm_memfile_bytes m,
        sm_vmstate_b3 m, sm_memfile_b3 m, sm_memfile_mtime_ns m)"
    have k: "inj ?k" by (rule injI, rule snapshot_key.equality) (simp_all add: word_unat_eq_iff)
    have "inj ?m"
    proof (rule injI)
      fix a b assume e: "?m a = ?m b"
      then have "?k (sm_key a) = ?k (sm_key b)" by (simp only: prod.inject)
      then have "sm_key a = sm_key b" using k by (rule injD [rotated])
      with e show "a = b" by (intro snapshot_meta.equality) simp_all
    qed
    then have "inj (to_nat \<circ> ?m)" by (intro inj_compose inj_to_nat)
    then show ?thesis by blast
  qed
  then obtain f :: "snapshot_meta \<Rightarrow> nat" where f: "inj f" by blast
  let ?to = "\<lambda>m. replicate (f m) (0 :: u8)"
  let ?of = "\<lambda>bs. if \<exists>m. bs = ?to m @ bytes_of [LF] then Some (SOME m. bs = ?to m @ bytes_of [LF]) else None"
  have "?of (?to m @ bytes_of [LF]) = Some m" for m
  proof -
    have "(SOME m'. ?to m @ bytes_of [LF] = ?to m' @ bytes_of [LF]) = m"
      by (rule some_equality) (auto simp: inj_eq [OF f] dest: arg_cong [where f = length])
    then show ?thesis by auto
  qed
  then show ?thesis by (intro that [of ?of ?to]) blast
qed

definition sample_snap_env :: "(snapshot_meta \<Rightarrow> bytes) \<Rightarrow> (bytes \<Rightarrow> snapshot_meta option) \<Rightarrow> snap_env" where
  "sample_snap_env to_text of_text =
     \<lparr>sha256 = (\<lambda>bs. bs), blake3 = (\<lambda>bs. CHR ''b'' # map byte_char bs), meta_text = to_text, meta_parse = of_text,
      snap_fails = (\<lambda>_. False), process_id = 7, unix_now = 0\<rparr>"

theorem published_build_is_usable_witness:
  "\<exists>env e m d'. verify_snapshot e Full d' = Inr m \<and> verify_snapshot e Fast d' = Inr m \<and> sm_key m = sample_snap_key \<and>
     fst (run_calls (publish_build env 9 sample_snap_key)
       [''vmstate.7.partial'' \<mapsto> \<lparr>sf_bytes = [1], sf_mtime = 3\<rparr>, ''memfile.7.partial'' \<mapsto> \<lparr>sf_bytes = [2, 3], sf_mtime = 4\<rparr>]) = Inr ()"
proof -
  obtain to_text :: "snapshot_meta \<Rightarrow> bytes" and of_text where codec: "\<forall>m. of_text (to_text m @ bytes_of [LF]) = Some m"
    by (rule sample_codec)
  define env where "env = sample_snap_env to_text of_text"
  let ?d = "[''vmstate.7.partial'' \<mapsto> \<lparr>sf_bytes = [1 :: u8], sf_mtime = 3\<rparr>, ''memfile.7.partial'' \<mapsto> \<lparr>sf_bytes = [2, 3], sf_mtime = 4\<rparr>]"
  obtain r d' where pub: "run_calls (publish_build env 9 sample_snap_key) ?d = (r, d')" by force
  have p: "partial_name VMSTATE_FILE (process_id env) = ''vmstate.7.partial''" "partial_name MEMFILE_FILE (process_id env) = ''memfile.7.partial''"
  proof -
    have "partial_name VMSTATE_FILE 7 = ''vmstate.7.partial''" "partial_name MEMFILE_FILE 7 = ''memfile.7.partial''" by code_simp+
    then show "partial_name VMSTATE_FILE (process_id env) = ''vmstate.7.partial''" "partial_name MEMFILE_FILE (process_id env) = ''memfile.7.partial''"
      by (simp_all add: env_def sample_snap_env_def)
  qed
  have at: "?d (partial_name VMSTATE_FILE (process_id env)) = Some \<lparr>sf_bytes = [1], sf_mtime = 3\<rparr>"
    "?d (partial_name MEMFILE_FILE (process_id env)) = Some \<lparr>sf_bytes = [2, 3], sf_mtime = 4\<rparr>"
    unfolding p by simp_all
  have env: "\<forall>c. \<not> snap_fails env c" "\<forall>bs. blake3 env bs \<noteq> []" "\<forall>m. meta_parse env (meta_text env m @ bytes_of [LF]) = Some m"
    using codec by (simp_all add: env_def sample_snap_env_def)
  from published_build_is_usable [OF at pub refl refl env env(1) sample_summary] pub show ?thesis
    by (intro exI [of _ env]) auto
qed

theorem verified_snapshot_is_one_build_witness:
  "\<exists>e s m. (build_step e sample_snap_key)\<^sup>*\<^sup>* builds_init s \<and> verify_snapshot e Fast (snap_files s) = Inr m \<and>
     map_option sf_bytes (snap_files s VMSTATE_FILE) = Some [1] \<and> map_option sf_bytes (snap_files s MEMFILE_FILE) = Some [2]"
proof -
  obtain to_text :: "snapshot_meta \<Rightarrow> bytes" and of_text where codec: "\<forall>m. of_text (to_text m @ bytes_of [LF]) = Some m"
    by (rule sample_codec)
  define e where "e = sample_snap_env to_text of_text"
  let ?step = "build_step e sample_snap_key"
  have proc: "as_process 7 (\<lambda>_. False) 0 e = e" by (simp add: as_process_def e_def sample_snap_env_def)
  let ?vm = "\<lparr>sf_bytes = [1 :: u8], sf_mtime = 1\<rparr>" and ?mem = "\<lparr>sf_bytes = [2 :: u8], sf_mtime = 1\<rparr>"
  let ?calls = "publish_build e 2 sample_snap_key"
  define s1 where "s1 = builds_init\<lparr>lock_owner := Some 7, builders := (builders builds_init)(7 \<mapsto> Dumping)\<rparr>"
  define s2 where "s2 = s1\<lparr>snap_files := (snap_files s1)(partial_name VMSTATE_FILE 7 \<mapsto> ?vm, partial_name MEMFILE_FILE 7 \<mapsto> ?mem),
      builders := (builders s1)(7 \<mapsto> Publishing ?calls), dumps := ([1], [2], 1) # dumps s1, fs_clock := 1\<rparr>"
  define s3 where "s3 = s2\<lparr>snap_files := snap_rename (partial_name VMSTATE_FILE 7) VMSTATE_FILE (snap_files s2),
      builders := (builders s2)(7 \<mapsto> Publishing (drop 1 ?calls))\<rparr>"
  define s4 where "s4 = s3\<lparr>snap_files := snap_rename (partial_name MEMFILE_FILE 7) MEMFILE_FILE (snap_files s3),
      builders := (builders s3)(7 \<mapsto> Publishing (drop 2 ?calls))\<rparr>"
  have f4: "snap_files s4 VMSTATE_FILE = Some ?vm" "snap_files s4 MEMFILE_FILE = Some ?mem"
    by (simp_all add: s4_def s3_def s2_def snap_rename_def)
  obtain summ where summ: "key_summary sample_snap_key = Some summ" using sample_summary by auto
  define m where "m = meta_for e sample_snap_key summ (length (sf_bytes ?vm)) ?vm ?mem"
  have mo: "meta_of e sample_snap_key (snap_files s4) = Inr m"
    using f4 summ by (simp add: meta_of_def sys_def require_def ok_or_def e_def sample_snap_env_def m_def)
  define s5 where "s5 = s4\<lparr>snap_files := (snap_files s4)(partial_name META_FILE 7 \<mapsto>
        \<lparr>sf_bytes = meta_text e m @ bytes_of [LF], sf_mtime = 2\<rparr>), builders := (builders s4)(7 \<mapsto> Publishing (drop 3 ?calls))\<rparr>"
  define s6 where "s6 = s5\<lparr>snap_files := snap_rename (partial_name META_FILE 7) META_FILE (snap_files s5),
      builders := (builders s5)(7 \<mapsto> Publishing [])\<rparr>"
  have e: "process_id e = 7" "\<not> snap_fails e c" for c by (simp_all add: e_def sample_snap_env_def)
  note calls = publish_build_def write_snapshot_meta_def e snap_io_def
  have "?step builds_init s1"
    unfolding s1_def by (rule acquire [of _ _ LockFile False False]) (simp_all add: builds_init_def try_build_lock_def)
  moreover have "?step s1 s2"
    unfolding s2_def using dump [of s1 7 1 e sample_snap_key "[1]" "[2]" "\<lambda>_. False" 0 2] proc by (simp add: s1_def builds_init_def)
  moreover have "?step s2 s3" unfolding s3_def
    by (rule call [where c = "hd ?calls"]) (simp_all add: s2_def calls)
  moreover have "?step s3 s4" unfolding s4_def
    by (rule call [where c = "?calls ! 1"]) (simp_all add: s3_def calls)
  moreover have "?step s4 s5" unfolding s5_def
    by (rule call [where c = "?calls ! 2"], simp add: s4_def calls) (simp add: calls mo)
  moreover have "?step s5 s6" unfolding s6_def
    by (rule call [where c = "?calls ! 3"]) (simp_all add: s5_def calls)
  ultimately have reach: "?step\<^sup>*\<^sup>* builds_init s6" by (meson converse_rtranclp_into_rtranclp rtranclp.rtrancl_refl)
  have f6: "snap_files s6 VMSTATE_FILE = Some ?vm" "snap_files s6 MEMFILE_FILE = Some ?mem"
    "snap_files s6 META_FILE = Some \<lparr>sf_bytes = meta_text e m @ bytes_of [LF], sf_mtime = 2\<rparr>"
    using f4 by (simp_all add: s6_def s5_def snap_rename_def)
  have codec': "\<forall>m. meta_parse e (meta_text e m @ bytes_of [LF]) = Some m" using codec by (simp add: e_def sample_snap_env_def)
  have v: "verify_snapshot e Fast (snap_files s6) = Inr m"
    unfolding m_def by (rule describes_verifies [OF f6]) (simp_all add: codec' m_def, simp_all add: e_def sample_snap_env_def)
  have d: "dumps s6 = [([1], [2], 1)]" by (simp add: s6_def s5_def s4_def s3_def s2_def s1_def builds_init_def)
  have inj: "inj_on (blake3 e) (\<Union>(vm, mem, t) \<in> set (dumps s6). {vm, mem})"
    by (simp add: d e_def sample_snap_env_def inj_on_def byte_char_def)
  from verified_snapshot_is_one_build [OF reach inj codec', of 7 "\<lambda>_. False" 0 Fast m] v d proc reach show ?thesis
    by (intro exI [of _ e] exI [of _ s6] exI [of _ m]) auto
qed

end
