(* ===== verification/Warm_Resume.thy ===== *)
theory Warm_Resume
  imports Warm_Pool
begin

text \<open>
  What a warm run gets: that keys tell shapes apart, the builder's root and network, and that a
  resumed guest has the network a cold boot would have given it. Also where \<open>snapshot.rs\<close> does not do
  what it says.
\<close>

section \<open>Keys tell shapes apart\<close>

definition key_lines :: "snapshot_key \<Rightarrow> string list" where
  "key_lines k =
     [''isopod-snapshot-key-v2'', ''fc_build='' @ sk_fc_build k, ''kernel_id='' @ sk_kernel_id k, ''cpu_model='' @ sk_cpu_model k,
      ''base='' @ sk_base k, ''base_sha256='' @ sk_base_sha256 k, ''vcpus='' @ show_nat (unat (sk_vcpus k)),
      ''mem_mib='' @ show_nat (unat (sk_mem_mib k)), ''snapshot_format='' @ sk_format k]"

lemma key_material_lines: "key_material k = concat (map (\<lambda>l. l @ [LF]) (key_lines k))"
  by (simp add: key_material_def key_lines_def)

lemma split_lines: "\<forall>l \<in> set ls. LF \<notin> set l \<Longrightarrow> split_on LF (concat (map (\<lambda>l. l @ [LF]) ls)) = ls @ [[]]"
proof (induction ls)
  case (Cons l ls)
  then show ?case using split_on_append [of LF l "concat (map (\<lambda>l. l @ [LF]) ls)"] by simp
qed simp

lemma show_nat_one_line: "LF \<notin> set (show_nat n)"
  using show_nat_digits [of n] by (auto simp: list_all_iff is_ascii_digit_def code_def LF_char)

definition one_line_key :: "snapshot_key \<Rightarrow> bool" where
  "one_line_key k \<longleftrightarrow>
     (\<forall>s \<in> {sk_fc_build k, sk_kernel_id k, sk_cpu_model k, sk_base k, sk_base_sha256 k, sk_format k}. LF \<notin> set s)"

lemma key_lines_one_line: "one_line_key k \<Longrightarrow> \<forall>l \<in> set (key_lines k). LF \<notin> set l"
  using show_nat_one_line by (auto simp: one_line_key_def key_lines_def LF_char)

lemma text_lines_one_line: "l \<in> set (text_lines s) \<Longrightarrow> LF \<notin> set l"
proof -
  assume "l \<in> set (text_lines s)"
  then obtain m where m: "m \<in> set (split_on LF s)" "l = m \<or> m = l @ [CR]"
    by (auto simp: text_lines_def Let_def strip_suffix_Some_iff dest: in_set_butlastD split: if_splits option.splits)
  then show "LF \<notin> set l" using split_on_no_delim [OF m(1)] by auto
qed

lemma trim_one_line: "LF \<notin> set s \<Longrightarrow> LF \<notin> set (trim s)"
  using set_trim_subset by blast

lemma detected_one_line:
  "detect_fc_build out err = Some s \<Longrightarrow> LF \<notin> set s"
  "parse_cpu_model txt = Some s \<Longrightarrow> LF \<notin> set s"
proof -
  show "LF \<notin> set s" if f: "detect_fc_build out err = Some s"
  proof -
    from f obtain l where "l \<in> set (text_lines (if out = [] then err else out))" "s = trim l"
      by (auto simp: detect_fc_build_def find_Some_iff) (metis nth_mem)+
    then show ?thesis using text_lines_one_line trim_one_line by blast
  qed
  have "LF \<notin> set s" if "cpu_model_line ls = Some s" "\<forall>l \<in> set ls. LF \<notin> set l" for ls
    using that
  proof (induction ls)
    case (Cons l ls)
    show ?case
    proof (cases "Option.bind (strip_prefix ''model name'' l) (split_once CHR '':'')")
      case (Some kv)
      obtain a val where kv: "kv = (a, val)" by (cases kv)
      then have "l = ''model name'' @ a @ CHR '':'' # val"
        using Some by (auto simp: bind_eq_Some_conv strip_prefix_Some_iff split_once_Some_iff)
      then have "LF \<notin> set (trim val)" using Cons.prems(2) trim_one_line by auto
      with Cons Some kv show ?thesis by (auto split: if_splits)
    qed (use Cons in simp)
  qed simp
  then show "LF \<notin> set s" if "parse_cpu_model txt = Some s"
    using that text_lines_one_line by (auto simp: parse_cpu_model_def)
qed

text \<open>
  Two shapes of machine never share the text their snapshot's directory is named after: keys
  that differ in any dimension have different texts, whichever parts they are made of, as long as
  the name of the kernel, the base and its content id are single lines; the rest always is.
\<close>
theorem snapshot_keys_tell_shapes_apart:
  assumes "build_snapshot_key h content bas res = Some k" "build_snapshot_key h' content' bas' res' = Some k'"
    and "\<forall>s \<in> {sk_kernel_id k, sk_base k, sk_base_sha256 k, sk_kernel_id k', sk_base k', sk_base_sha256 k'}. LF \<notin> set s"
  shows "key_material k = key_material k' \<longleftrightarrow> k = k'"
proof
  have one: "one_line_key k" "one_line_key k'"
    using assms detected_one_line
    by (auto simp: build_snapshot_key_def one_line_key_def snapshot_key_new_def SNAPSHOT_FORMAT_def LF_char bind_eq_Some_conv)
  assume "key_material k = key_material k'"
  then have "split_on LF (key_material k) = split_on LF (key_material k')" by simp
  then have "key_lines k = key_lines k'"
    using one key_lines_one_line by (simp add: key_material_lines split_lines)
  then show "k = k'" by (simp add: key_lines_def word_unat_eq_iff [symmetric])
qed simp

theorem snapshot_keys_tell_shapes_apart_witness:
  "key_material sample_snap_key \<noteq> key_material (sample_snap_key\<lparr>sk_mem_mib := 1024\<rparr>)"
proof -
  let ?h = "\<lparr>version_output = Some (''Firecracker v1.16.1'' @ [LF], []), cpuinfo = Some (''model name: i7'' @ [LF]),
      kernel_file = Some (Some ''vmlinux-6.18.36'', 27680232)\<rparr>"
  let ?c = "\<lambda>_. Some ''a3f1c2d4e5b6''"
  have d: "detect_fc_build (''Firecracker v1.16.1'' @ [LF]) [] = Some ''Firecracker v1.16.1''"
    "parse_cpu_model (''model name: i7'' @ [LF]) = Some ''i7''" "kernel_identity (Some ''vmlinux-6.18.36'') 27680232 = ''vmlinux-6.18.36:27680232''"
    by code_simp+
  have k: "build_snapshot_key ?h ?c ''base-alpine'' \<lparr>vcpus = 1, mem_mib = 512\<rparr> = Some sample_snap_key"
    "build_snapshot_key ?h ?c ''base-alpine'' \<lparr>vcpus = 1, mem_mib = 1024\<rparr> = Some (sample_snap_key\<lparr>sk_mem_mib := 1024\<rparr>)"
    using d by (simp_all add: build_snapshot_key_def snapshot_key_new_def sample_snap_key_def)
  have "sample_snap_key \<noteq> sample_snap_key\<lparr>sk_mem_mib := 1024\<rparr>"
    by (simp add: sample_snap_key_def snapshot_key_new_def)
  with snapshot_keys_tell_shapes_apart [OF k] show ?thesis
    by (simp add: sample_snap_key_def snapshot_key_new_def LF_char)
qed

section \<open>The builder's command line\<close>

definition builder_tokens :: "slot \<Rightarrow> string list" where
  "builder_tokens sl =
     [''isopod.upper=ram'', ''isopod.net='' @ guest_cidr (slot_index sl), ''isopod.gw='' @ host_ip (slot_index sl),
      ''isopod.dns='' @ DEFAULT_DNS]"

lemma builder_value:
  assumes "key \<in> set guest_keys"
  shows "cmdline_value (builder_args sl) key = find_value key (builder_tokens sl)"
proof -
  have "builder_args sl = BOOT_ARGS @ concat (map ((#) CHR '' '') (builder_tokens sl))"
    by (simp add: builder_args_def builder_tokens_def)
  moreover have "list_all graphic (guest_cidr i)" "list_all graphic (host_ip i)" for i
    using show_nat_graphic by (simp_all add: guest_cidr_def host_ip_def graphic_def code_def)
  moreover have "list_all graphic DEFAULT_DNS" by code_simp
  ultimately show ?thesis
    using cmdline_value_tokens [of "builder_tokens sl" key] assms
    by (simp add: builder_tokens_def graphic_def code_def)
qed

lemma builder_reads:
  assumes "slot_index sl < 256"
  shows "boot_read (builder_args sl) = (None, UpperRam,
    Some (Inr \<lparr>nc_ip = slot_guest (slot_index sl), nc_prefix = 30, nc_gw = Some (slot_host (slot_index sl)),
      nc_dns = [''1.1.1.1'', ''8.8.8.8'']\<rparr>, None))"
proof -
  have v: "cmdline_value (builder_args sl) ''isopod.layers'' = None" "cmdline_value (builder_args sl) ''isopod.upper'' = Some ''ram''"
    "cmdline_value (builder_args sl) ''isopod.net'' = Some (guest_cidr (slot_index sl))"
    "cmdline_value (builder_args sl) ''isopod.gw'' = Some (host_ip (slot_index sl))"
    "cmdline_value (builder_args sl) ''isopod.dns'' = Some DEFAULT_DNS" "cmdline_value (builder_args sl) ''isopod.proxy'' = None"
    by (subst builder_value; simp add: guest_keys_def builder_tokens_def)+
  show ?thesis
    using default_dns_reads build_config_slot [OF assms]
    by (simp add: boot_read_def parse_layers_def parse_upper_def parse_config_def lift_err_def v)
qed

section \<open>A resumed guest's network\<close>

definition slot_config :: "slot \<Rightarrow> broker_endpoints option \<Rightarrow> net_config" where
  "slot_config sl bro =
     \<lparr>nc_ip = slot_guest (slot_index sl), nc_prefix = 30, nc_gw = Some (slot_host (slot_index sl)),
      nc_dns = (case bro of Some b \<Rightarrow> [ep_dns b] | None \<Rightarrow> [''1.1.1.1'', ''8.8.8.8''])\<rparr>"

lemma default_dns_list_eq: "default_dns_list = [''1.1.1.1'', ''8.8.8.8'']"
  by code_simp

lemma default_dns_ok: "filter (\<lambda>s. \<not> isl (parse_ipv4_text s)) (filter (\<lambda>s. s \<noteq> []) [''1.1.1.1'', ''8.8.8.8'']) = [''1.1.1.1'', ''8.8.8.8'']"
  by code_simp

lemma broker_dns_ok:
  assumes "plain_endpoints b"
  shows "filter (\<lambda>s. \<not> isl (parse_ipv4_text s)) (filter (\<lambda>s. s \<noteq> []) [ep_dns b]) = [ep_dns b]"
proof -
  obtain gw where "ep_dns b = show_ipv4 gw" using assms by (auto simp: plain_endpoints_def)
  moreover have "show_ipv4 gw \<noteq> []" by (cases gw) (simp add: show_ipv4_def)
  ultimately show ?thesis by simp
qed

lemma host_ip_not_Nil: "host_ip i \<noteq> []"
  by (simp add: host_ip_def)

definition with_proxies :: "broker_endpoints option \<Rightarrow> guest_net \<Rightarrow> guest_net" where
  "with_proxies bro s = (case bro of Some b \<Rightarrow> set_proxy_env (ep_socks b, ep_http b, ep_inject b) s | None \<Rightarrow> s)"

lemma resume_configures:
  assumes "slot_index sl < 256" "\<forall>b. bro = Some b \<longrightarrow> plain_endpoints b"
    and "resume_net_request sl bro = (ip, gw, dns, eps)"
  shows "configure_net k ip gw dns eps g = map_fail NotApplied (apply_config k (slot_config sl bro)) (with_proxies bro g)"
proof -
  have parts: "ip = guest_cidr (slot_index sl)" "gw = host_ip (slot_index sl)"
    "dns = (case bro of Some b \<Rightarrow> [ep_dns b] | None \<Rightarrow> [''1.1.1.1'', ''8.8.8.8''])"
    using assms(3) by (auto simp: resume_net_request_def default_dns_list_eq split: option.split)
  have "filter (\<lambda>s. \<not> isl (parse_ipv4_text s)) (filter (\<lambda>s. s \<noteq> []) dns) = dns"
    unfolding parts(3) using assms(2) broker_dns_ok default_dns_ok by (cases bro) (simp_all only: option.case)
  then have "build_config ip (Some gw) dns = Inr (slot_config sl bro)"
    unfolding parts(1,2) build_config_slot [OF assms(1)] by (simp add: slot_config_def parts(3))
  moreover have "gw \<noteq> []" using assms(3) host_ip_not_Nil by (auto simp: resume_net_request_def)
  moreover have "(case eps of Some e \<Rightarrow> set_proxy_env e g | None \<Rightarrow> g) = with_proxies bro g"
    using assms(3) by (auto simp: resume_net_request_def with_proxies_def split: option.splits)
  ultimately show ?thesis by (simp add: configure_net_def Let_def)
qed

lemma boot_configures:
  assumes "boot_read cl = (lays, upr, Some (Inr cfg, eps))"
  shows "configure_if_requested k (Some cl) g =
    (case apply_config k cfg (case eps of Some e \<Rightarrow> set_proxy_env e g | None \<Rightarrow> g) of
       (r, s2) \<Rightarrow> if isl r \<and> nc_dns cfg \<noteq> [] \<and> \<not> resolv_conf_matches k s2 (nc_dns cfg) then s2\<lparr>resolv_error := True\<rparr> else s2)"
proof -
  have "cmdline_value cl ''isopod.net'' \<noteq> None" "parse_config cl = Inr cfg"
    "Option.bind (cmdline_value cl ''isopod.proxy'') parse_proxy_token = eps"
    using assms by (auto simp: boot_read_def split: if_splits)
  then show ?thesis by (auto simp add: configure_if_requested_def Let_def)
qed

lemma proxies_of_boot:
  assumes "boot_read cl = (lays, upr, Some (Inr cfg, None))"
  shows "proxy_vars (configure_if_requested k (Some cl) g) = proxy_vars g"
proof -
  obtain r s2 where a: "apply_config k cfg g = (r, s2)" by force
  then show ?thesis using apply_config_errors [OF a] by (simp add: boot_configures [OF assms])
qed

lemma resume_Inr:
  assumes "resume_snapshot env level fails k d sl bro g = (Inr p, g')"
    and "resume_net_request sl bro = (ip, gw, dns, eps)"
  shows "configure_net k ip gw dns eps g = (Inr (), g')"
  using assms
  by (auto simp: resume_snapshot_def Let_def seq_def ret_def fail_def map_fail_def split: sum.splits option.splits prod.splits if_splits)

text \<open>
  What a cold boot of the same run on the same slot does with its network.
\<close>

lemma cold_boot_configures:
  assumes "slot_index sl < 256" "\<forall>b. bro = Some b \<longrightarrow> plain_endpoints b" "\<forall>n. disk_layers disk = Some n \<longrightarrow> n < 2 ^ 64"
    and "\<forall>c. \<not> net_fails k c"
  shows "configure_if_requested k (Some (build_boot_args disk (Some sl) bro)) g =
    snd (apply_config k (slot_config sl bro) (with_proxies bro g))"
proof -
  have "boot_read (build_boot_args disk (Some sl) bro) =
      (disk_layers disk, UpperDrive, Some (Inr (slot_config sl bro), map_option (\<lambda>b. (ep_socks b, ep_http b, ep_inject b)) bro))"
    using boot_read_args [of "Some sl" bro disk] assms(1-3) by (simp add: slot_config_def)
  note boot = boot_configures [OF this, of k g]
  have "(case map_option (\<lambda>b. (ep_socks b, ep_http b, ep_inject b)) bro of Some e \<Rightarrow> set_proxy_env e g | None \<Rightarrow> g) = with_proxies bro g"
    by (simp add: with_proxies_def split: option.split)
  then show ?thesis unfolding boot by (simp add: apply_config_works [OF assms(4)])
qed

lemma apply_config_route:
  assumes "apply_config k cfg s = (Inr u, s')" "nc_gw cfg = Some gw"
  shows "default_route s' =
    (if \<not> net_fails k AddRoute then Some gw
     else if net_fails k EthDown \<and> net_fails k DropRoute then default_route s else None)"
    and "\<not> net_fails k LoUp \<Longrightarrow> lo_up s'"
  using assms
  by (auto simp: apply_config_def configure_eth0_def seq_def attempt_def modify_def ret_def set_if_down_def kernel_call_def
      ensure_loopback_up_def write_resolv_conf_def split: if_splits option.splits prod.splits sum.splits)

text \<open>
  C6: a warm run has the network of its own slot. A resume that reports success, whichever guest
  calls it shrugged off, has replaced the builder's address, mask and resolver: the address and mask
  are the slot's, \<open>resolv.conf\<close> names the run's resolver and no other, so that a filtered run
  resolves through its broker although the snapshot was built on a public slot, and execs get the
  run's proxies. The default route is the slot's gateway if the call that adds it worked; if it did
  not, there is none, except when bringing the interface down and dropping the route had failed as
  well: then, and only then, the builder's route is left (\<open>stale_route_survives_resume\<close>). When no
  network call in the resumed guest fails, the guest's network, the resolver error flag of the
  boot aside, is exactly what a cold boot on the same slot would have made of it.
\<close>
theorem warm_network_is_the_cold_one:
  assumes "slot_index sl < MAX_SLOT_COUNT" "slot_index built_on < MAX_SLOT_COUNT" "\<forall>b. bro = Some b \<longrightarrow> plain_endpoints b"
    and "\<forall>n. disk_layers disk = Some n \<longrightarrow> n < 2 ^ 64"
    and "resume_snapshot env level fails k d sl bro (configure_if_requested k0 (Some (builder_args built_on)) g0) = (Inr p, g')"
  shows "eth_up g' \<and> eth_addr g' = Some (slot_guest (slot_index sl)) \<and> eth_mask g' = Some (Ipv4 255 255 255 252) \<and>
    (\<exists>txt. resolv_conf g' = Some txt \<and>
      resolvers txt = (case bro of Some b \<Rightarrow> [ep_dns b] | None \<Rightarrow> [''1.1.1.1'', ''8.8.8.8''])) \<and>
    proxy_vars g' = proxy_vars (with_proxies bro g0) \<and>
    default_route g' =
      (if \<not> net_fails k AddRoute then Some (slot_host (slot_index sl))
       else if net_fails k EthDown \<and> net_fails k DropRoute
         then default_route (configure_if_requested k0 (Some (builder_args built_on)) g0)
       else None) \<and>
    ((\<forall>c. \<not> net_fails k c) \<longrightarrow>
      g'\<lparr>resolv_error := resolv_error g0\<rparr> = configure_if_requested k (Some (build_boot_args disk (Some sl) bro)) g0)"
proof -
  define gb where "gb = configure_if_requested k0 (Some (builder_args built_on)) g0"
  have idx: "slot_index sl < 256" "slot_index built_on < 256" using assms(1,2) by (simp_all add: MAX_SLOT_COUNT_def)
  obtain ip gw dns eps where rq: "resume_net_request sl bro = (ip, gw, dns, eps)" by (cases "resume_net_request sl bro")
  have "map_fail NotApplied (apply_config k (slot_config sl bro)) (with_proxies bro gb) = (Inr (), g')"
    using resume_Inr [OF assms(5) rq] resume_configures [OF idx(1) assms(3) rq] by (simp add: gb_def)
  then have ap: "apply_config k (slot_config sl bro) (with_proxies bro gb) = (Inr (), g')"
    by (auto simp: map_fail_def split: prod.splits sum.splits)
  have mask: "netmask_octets 30 = Ipv4 255 255 255 252" by code_simp
  have dns: "\<forall>d \<in> set (nc_dns (slot_config sl bro)). list_all graphic d" "nc_dns (slot_config sl bro) \<noteq> []"
  proof -
    have "list_all graphic (ep_dns b)" if pl: "plain_endpoints b" for b
    proof -
      obtain gw where "ep_dns b = show_ipv4 gw" using pl by (auto simp: plain_endpoints_def)
      then show ?thesis using show_ipv4_graphic [of gw] by (simp add: list_all_iff)
    qed
    then show "\<forall>d \<in> set (nc_dns (slot_config sl bro)). list_all graphic d"
      using assms(3) by (auto simp: slot_config_def graphic_def code_def split: option.splits)
    show "nc_dns (slot_config sl bro) \<noteq> []" by (simp add: slot_config_def split: option.split)
  qed
  have pv: "proxy_vars gb = proxy_vars g0" unfolding gb_def by (rule proxies_of_boot [OF builder_reads [OF idx(2)]])
  then have pv': "proxy_vars (with_proxies bro gb) = proxy_vars (with_proxies bro g0)"
    by (simp add: with_proxies_def set_proxy_env_def split: option.split)
  have err: "resolv_error (with_proxies bro s) = resolv_error s" for s
    by (simp add: with_proxies_def set_proxy_env_def split: option.split)
  note after = apply_config_Inr [OF ap]
  have rc: "resolv_conf g' = Some (resolv_text (nc_dns (slot_config sl bro)))" using after dns(2) by simp
  show ?thesis
  proof (intro conjI impI)
    show "\<exists>txt. resolv_conf g' = Some txt \<and>
        resolvers txt = (case bro of Some b \<Rightarrow> [ep_dns b] | None \<Rightarrow> [''1.1.1.1'', ''8.8.8.8''])"
      using rc resolvers_resolv_text [OF dns(1)] by (simp add: slot_config_def)
    show "eth_up g'" "eth_addr g' = Some (slot_guest (slot_index sl))" "eth_mask g' = Some (Ipv4 255 255 255 252)"
      "proxy_vars g' = proxy_vars (with_proxies bro g0)"
      using after mask pv' by (simp_all add: slot_config_def)
    have "default_route (with_proxies bro gb) = default_route gb"
      by (simp add: with_proxies_def set_proxy_env_def split: option.split)
    then show "default_route g' =
        (if \<not> net_fails k AddRoute then Some (slot_host (slot_index sl))
         else if net_fails k EthDown \<and> net_fails k DropRoute
           then default_route (configure_if_requested k0 (Some (builder_args built_on)) g0)
         else None)"
      using apply_config_route(1) [OF ap, of "slot_host (slot_index sl)"] by (simp add: slot_config_def gb_def)
  next
    assume ok: "\<forall>c. \<not> net_fails k c"
    have "Inr () = fst (apply_config k (slot_config sl bro) (with_proxies bro gb))" "g' = snd (apply_config k (slot_config sl bro) (with_proxies bro gb))"
      using ap by simp_all
    then have "snd (apply_config k (slot_config sl bro) (with_proxies bro g0)) = g'\<lparr>resolv_error := resolv_error g0\<rparr>"
      by (intro guest_net.equality) (simp_all add: apply_config_works [OF ok] dns(2) pv' err)
    then show "g'\<lparr>resolv_error := resolv_error g0\<rparr> = configure_if_requested k (Some (build_boot_args disk (Some sl) bro)) g0"
      using cold_boot_configures [OF idx(1) assms(3,4) ok] by simp
  qed
qed

theorem warm_network_is_the_cold_one_witness:
  "\<exists>env d p g'. fst (resume_snapshot env Fast (\<lambda>_. False) \<lparr>net_fails = (\<lambda>_. False), torn_resolv = None\<rparr> d
       \<lparr>slot_index = 3, slot_filtered = False\<rparr> None
       (configure_if_requested \<lparr>net_fails = (\<lambda>_. False), torn_resolv = None\<rparr>
         (Some (builder_args \<lparr>slot_index = 0, slot_filtered = False\<rparr>))
         \<lparr>lo_up = False, eth_up = False, eth_addr = None, eth_mask = None, default_route = None, resolv_conf = None,
          proxy_vars = [], resolv_error = False\<rparr>)) = Inr p \<and>
     eth_addr (g' :: guest_net) = Some (Ipv4 10 107 3 2)"
proof -
  let ?k = "\<lparr>net_fails = (\<lambda>_. False), torn_resolv = None\<rparr>"
  let ?sl = "\<lparr>slot_index = 3, slot_filtered = False\<rparr>" and ?b = "\<lparr>slot_index = 0, slot_filtered = False\<rparr>"
  define g0 where "g0 = \<lparr>lo_up = False, eth_up = False, eth_addr = None, eth_mask = None, default_route = None, resolv_conf = None,
          proxy_vars = [], resolv_error = False\<rparr>"
  define gb where "gb = configure_if_requested ?k (Some (builder_args ?b)) g0"
  obtain to_text :: "snapshot_meta \<Rightarrow> bytes" and of_text where codec: "\<forall>m. of_text (to_text m @ bytes_of [LF]) = Some m"
    by (rule sample_codec)
  define env where "env = sample_snap_env to_text of_text"
  let ?vm = "\<lparr>sf_bytes = [1 :: u8], sf_mtime = 1\<rparr>" and ?mem = "\<lparr>sf_bytes = [2 :: u8], sf_mtime = 1\<rparr>"
  define m where "m = meta_for env sample_snap_key [] (length (sf_bytes ?vm)) ?vm ?mem"
  define d where "d = [VMSTATE_FILE \<mapsto> ?vm, MEMFILE_FILE \<mapsto> ?mem, META_FILE \<mapsto> \<lparr>sf_bytes = meta_text env m @ bytes_of [LF], sf_mtime = 2\<rparr>]"
  have dd: "d VMSTATE_FILE = Some ?vm" "d MEMFILE_FILE = Some ?mem"
      "d META_FILE = Some \<lparr>sf_bytes = meta_text env m @ bytes_of [LF], sf_mtime = 2\<rparr>" by (simp_all add: d_def)
  have "\<forall>m. meta_parse env (meta_text env m @ bytes_of [LF]) = Some m" using codec by (simp add: env_def sample_snap_env_def)
  then have v: "verify_snapshot env Fast d = Inr m"
    unfolding m_def by (intro describes_verifies [OF dd]) (simp_all add: m_def, simp_all add: env_def sample_snap_env_def)
  obtain ip gw dns eps where rq: "resume_net_request ?sl None = (ip, gw, dns, eps)" by (cases "resume_net_request ?sl None")
  have ok: "\<forall>c. \<not> net_fails ?k c" by simp
  have "configure_net ?k ip gw dns eps gb = map_fail NotApplied (apply_config ?k (slot_config ?sl None)) (with_proxies None gb)"
    by (rule resume_configures [OF _ _ rq]) simp_all
  then obtain g' where "configure_net ?k ip gw dns eps gb = (Inr (), g')"
    by (simp add: apply_config_works [OF ok] map_fail_def)
  then have r: "resume_snapshot env Fast (\<lambda>_. False) ?k d ?sl None gb = (Inr ([1], [2]), g')"
    using v dd rq by (simp add: resume_snapshot_def Let_def seq_def ret_def map_fail_def)
  have "eth_addr g' = Some (slot_guest 3)"
    using warm_network_is_the_cold_one [OF _ _ _ _ r [unfolded gb_def], of "FlavorDisk ''r''"] by (simp add: MAX_SLOT_COUNT_def disk_layers_def)
  then have "eth_addr g' = Some (Ipv4 10 107 3 2)" by (simp add: slot_guest_def)
  with r show ?thesis unfolding gb_def g0_def by (intro exI [of _ env] exI [of _ d] exI [of _ "([1], [2])"] exI [of _ g']) simp
qed

section \<open>The builder's root\<close>

lemma assemble_ram_Inr:
  assumes "assemble fails dev 0 UpperRam s = (Inr u, s')"
  shows "assembly_error s' = assembly_error s \<and> (\<exists>d \<in> overlay_options 0. new_root s' = Some (overlay_mount d,
    overlay_mount d # \<lparr>m_source = ''tmpfs'', m_at = SCRATCH_MNT, m_fstype = ''tmpfs'', m_readonly = False, m_data = None\<rparr> # mounts s))"
proof -
  let ?up = "\<lparr>m_source = ''tmpfs'', m_at = SCRATCH_MNT, m_fstype = ''tmpfs'', m_readonly = False, m_data = None\<rparr>"
  let ?s1 = "s\<lparr>mounts := ?up # mounts s\<rparr>"
  have a: "attempt (guest_call fails MakePrivate) s = (Inr r, s2) \<Longrightarrow> s2 = s" for r s2
    by (auto simp: attempt_def guest_call_def)
  have up: "mount_upper fails 0 UpperRam (enumerate_extra_block_devices dev) s = (Inr l, s2) \<Longrightarrow> l = [] \<and> s2 = ?s1" for l s2
    by (auto simp: mount_upper_def ret_def mount_Inr dest!: seq_InrD)
  obtain s4 where s4: "mount_merged_overlay fails 0 ?s1 = (Inr (), s4)" and p: "pivot fails s4 = (Inr u, s')"
    using assms unfolding assemble_def by (auto dest!: seq_InrD a up simp: guest_call_Inr ret_def)
  obtain d where d: "d \<in> overlay_options 0" "s4 = s\<lparr>mounts := overlay_mount d # ?up # mounts s\<rparr>"
    using merged_Inr [OF s4] by auto
  have "s' = s4\<lparr>new_root := map_option (\<lambda>m. (m, mounts s4)) (find (\<lambda>m. m_at m = STAGING) (mounts s4))\<rparr>"
    using p by (auto simp: pivot_def guest_call_Inr modify_def dest!: seq_InrD)
  with d show ?thesis by (auto simp: overlay_mount_def)
qed



section \<open>Where the code does not do what it says\<close>

text \<open>
  Two builders that both hold the lock (\<open>warmpool rm\<close> removes the lock file of a running build with
  its directory): each dump is staged under its process's own names, but the metadata is made from
  the published ones, so half of each machine verifies, at both levels.
\<close>

lemma unlocked_builds_mix:
  assumes "p1 \<noteq> p2" "\<forall>c. \<not> snap_fails e c" "\<forall>bs. blake3 e bs \<noteq> []" "key_summary key = Some summ"
    and "\<forall>m. meta_parse e (meta_text e m @ bytes_of [LF]) = Some m" "process_id e = p1"
    and "d (partial_name VMSTATE_FILE p1) = Some vm1" "d (partial_name MEMFILE_FILE p1) = Some mem1"
    and "d (partial_name VMSTATE_FILE p2) = Some vm2" "d (partial_name MEMFILE_FILE p2) = Some mem2"
    and "d' = snap_rename (partial_name MEMFILE_FILE p1) MEMFILE_FILE (snap_rename (partial_name MEMFILE_FILE p2) MEMFILE_FILE
      (snap_rename (partial_name VMSTATE_FILE p2) VMSTATE_FILE (snap_rename (partial_name VMSTATE_FILE p1) VMSTATE_FILE d)))"
  shows "\<exists>m d''. run_calls (write_snapshot_meta e stamp key) d' = (Inr (), d'') \<and> verify_snapshot e level d'' = Inr m \<and>
    d'' VMSTATE_FILE = Some vm2 \<and> d'' MEMFILE_FILE = Some mem1"
proof -
  have ne: "partial_name w p1 \<noteq> partial_name w' p2" if "w \<in> {VMSTATE_FILE, MEMFILE_FILE}" "w' \<in> {VMSTATE_FILE, MEMFILE_FILE}" for w w'
    using that assms(1) by (auto simp: partial_name_def VMSTATE_FILE_def MEMFILE_FILE_def)
  then have ne': "partial_name w p2 \<noteq> partial_name w' p1" if "w \<in> {VMSTATE_FILE, MEMFILE_FILE}" "w' \<in> {VMSTATE_FILE, MEMFILE_FILE}" for w w'
    using that by metis
  have d': "d' VMSTATE_FILE = Some vm2" "d' MEMFILE_FILE = Some mem1"
    using assms(7-10) ne ne' by (simp_all add: assms(11) snap_rename_def)
  let ?m = "meta_for e key summ (length (sf_bytes vm2)) vm2 mem1"
  have mo: "meta_of e key d' = Inr ?m"
    using d' assms(2,4) by (simp add: meta_of_def sys_def require_def ok_or_def)
  let ?d = "snap_rename (partial_name META_FILE p1) META_FILE
      (d'(partial_name META_FILE p1 \<mapsto> \<lparr>sf_bytes = meta_text e ?m @ bytes_of [LF], sf_mtime = stamp\<rparr>))"
  have "run_calls (write_snapshot_meta e stamp key) d' = (Inr (), ?d)"
    using mo assms(2,6) by (simp add: write_snapshot_meta_def snap_io_def seq_def ret_def)
  moreover have at: "?d VMSTATE_FILE = Some vm2" "?d MEMFILE_FILE = Some mem1"
      "?d META_FILE = Some \<lparr>sf_bytes = meta_text e ?m @ bytes_of [LF], sf_mtime = stamp\<rparr>"
    using d' by (simp_all add: snap_rename_def)
  moreover have "verify_snapshot e level ?d = Inr ?m"
    by (rule describes_verifies [OF at]) (use assms(2,3,5) in simp_all)
  ultimately show ?thesis by blast
qed

text \<open>
  A resume whose calls to bring the interface down, to drop the route and to add the new one all
  fail reports success, with the default route of the builder's slot: the agent ignores the result
  of each of the three.
\<close>

lemma stale_route_survives_resume:
  assumes "net_fails k = (\<lambda>c. c \<in> {EthDown, DropRoute, AddRoute})" "slot_index sl < 256"
    and "resume_net_request sl None = (ip, gw, dns, eps)"
  shows "\<exists>g'. configure_net k ip gw dns eps g = (Inr (), g') \<and> default_route g' = default_route g"
proof -
  have "configure_net k ip gw dns eps g = map_fail NotApplied (apply_config k (slot_config sl None)) g"
    using resume_configures [OF assms(2) _ assms(3)] by (simp add: with_proxies_def)
  moreover have "apply_config k (slot_config sl None) g = (Inr (), snd (apply_config k (slot_config sl None) g))"
    and route: "default_route (snd (apply_config k (slot_config sl None) g)) = default_route g"
    using assms(1)
    by (simp_all add: apply_config_def configure_eth0_def seq_def attempt_def modify_def ret_def set_if_down_def kernel_call_def
        ensure_loopback_up_def write_resolv_conf_def slot_config_def)
  ultimately have "configure_net k ip gw dns eps g = (Inr (), snd (apply_config k (slot_config sl None) g))"
    by (simp add: map_fail_def split: prod.splits)
  with route show ?thesis by blast
qed

text \<open>
  A waiter gives up at its first turn when the snapshot that is being rebuilt is all there but does
  not verify, and reports that the wait ran out although no time has passed.
\<close>

lemma rebuild_reported_as_timeout:
  assumes "\<not> is_usable e d" "is_complete d"
  shows "ensure_at e d True (\<lparr>lp_answer = Inr False, lp_seen = d, lp_late = False\<rparr> # later) d building = Some (Inl WaitTimedOut)"
  using assms by (simp add: ensure_at_def)

text \<open>The directory that is removed is the one the metadata names, which need not be a snapshot's.\<close>

lemma removal_follows_metadata:
  assumes "meta_parse e raw = Some m" "sm_keyhash m = ''../vms''"
  shows "remove_snapshot e ''/h/snapshots'' (\<lambda>_. False) ''..'' [(''0123456789abcdef'', Some raw)] = Inr (''/h/snapshots/../vms'', m)"
proof -
  have "list_snapshots e [(''0123456789abcdef'', Some raw)] = [m]"
    using assms(1) by (simp add: list_snapshots_def List.map_filter_simps)
  then show ?thesis
    by (simp add: remove_snapshot_def assms(2) starts_with_def path_join_def ends_with_def strip_suffix_def)
qed

end
