(* ===== verification/Spec2Isabelle.thy ===== *)
theory Spec2Isabelle
  imports Broker_Run Oci_Limits Guest_Root Guest_Net Wire Warm_Resume
begin

text \<open>
  A model of isopod, a runner for untrusted code in Firecracker microVMs, and of what makes
  it safe to run: a guest reaches the network only through a broker on the host, under an
  allowlist, and uses credentials it never sees; and an image from a registry is unpacked by
  an extractor that trusts nothing in it.

  \<^bold>\<open>Parts and theories\<close>

  \<^item> \<open>Prelude\<close>, \<open>Net_Addr\<close>, \<open>Framing\<close>: what the code uses of Rust's standard library. Strings
    are lists of bytes (a Rust \<open>str\<close> is its UTF-8 encoding), with \<open>split\<close>, \<open>trim\<close>, \<open>parse\<close>,
    ASCII case folding, UTF-8 validation and saturating arithmetic; IPv4 and IPv6 addresses
    with their classification, parsing and printing; and a locale for streams of frames with
    a terminator, which the chunked body and the DNS name interpret.
  \<^item> \<open>Interfaces\<close>: the contracts the broker's handlers rely on: a bounded append-only log, a
    bounded cache, a transition system with an invariant.
  \<^item> \<open>Egress\<close> (\<open>net/egress.rs\<close>): host names as they may be recorded, CIDR prefixes, allowlist
    rules, the decision \<open>decide\<close>, and the dial floor \<open>is_dialable\<close>.
  \<^item> \<open>Credentials\<close> (\<open>net/credentials.rs\<close>, \<open>net/secret.rs\<close>): the credential store, its
    validation, request rules and path patterns, and request-target normalisation. The file
    system, the environment and the JSON parser are the record \<open>host_io\<close>.
  \<^item> \<open>Inject\<close> (\<open>net/inject.rs\<close>): the credential endpoint's pure layer: the intent a guest
    states, its authorisation, refusals, response heads and chunk framing.
  \<^item> \<open>Broker_Policy\<close> (\<open>net/broker.rs\<close>, ports of \<open>net.rs\<close>): the recorder (events, byte counters,
    resolution cache), the run's policy, what \<open>Broker::start\<close> refuses, the policy check,
    resolution and \<open>dial\<close>.
  \<^item> \<open>Broker_Accept\<close>: \<open>serve_tcp\<close> as a step relation over the connection semaphore.
  \<^item> \<open>Broker_Inject\<close>, \<open>Broker_Proxy\<close>, \<open>Broker_Dns\<close>: the handlers of the credential endpoint, of
    the SOCKS5 and HTTP proxies with the splice, and of the DNS responder.
  \<^item> \<open>Broker_Run\<close>: the handlers together, on one recorder.

  \<^item> \<open>Effects\<close>: computations over a state that may fail, with triples and invariants.
  \<^item> \<open>Oci_Fs\<close> (\<open>oci-unpack/src/sys.rs\<close>): the directory-relative calls, on a tree of directories,
    links and inodes with modes, a umask, and a list of failures that any call may meet.
  \<^item> \<open>Oci_Name\<close> (\<open>name.rs\<close>): what an entry's name asks for. \<open>Oci_Unpack\<close> (\<open>lib.rs\<close>): the
    extractor, one definition per method, and the loop of \<open>image/import/mod.rs\<close> over the layers.
  \<^item> \<open>Oci_Confine\<close>: a locale of the laws an invariant of the host needs, with the extractor's
    methods proved to keep it; \<open>Oci_Image\<close> interprets it for the host's own nodes, for the shape
    of the tree and for the staging root. \<open>Oci_Delete\<close>: removal is total and exact.
    \<open>Oci_Limits\<close>: the counters, and the bytes and names on the host that they pay for. \<open>Oci_Runs\<close>: imports evaluated step by step, where the code does
    not do what its comments say.
  \<^item> \<open>Oci_Layout\<close> (\<open>layout.rs\<close>, \<open>digest.rs\<close>): digests, media types, platforms, and the resolution of
    a layout to a manifest. \<open>Oci_Adapt\<close> (\<open>adapt\<close> and the check for a shell in \<open>import/mod.rs\<close>): the
    agent and its mountpoints in an unpacked tree.
  \<^item> \<open>Image_Names\<close>, \<open>Image_Store\<close> (\<open>image/rootfs.rs\<close>, \<open>image/base.rs\<close>, parts of \<open>import/mod.rs\<close>):
    flavors, references to bases, run defaults, the pseudo-file of the packer; publishing with its
    sidecar, freshness, content ids, listing and removal over the directory of images.
    \<open>Image_Checks\<close>: what holds of them, and of interleaved publishes. \<open>Image_Import\<close>: a whole
    import, from its source to its outcome.
  \<^item> \<open>Names\<close> (\<open>names.rs\<close>), \<open>Stage\<close> (\<open>stage.rs\<close>): generated names; commits, resolution, chains, base
    checks and removal over the store of stages. \<open>Stage_Store\<close>, \<open>Stage_Refs\<close>: the invariant of the
    store, what references mean, and that a listed stage boots. \<open>Run_Plan\<close> (\<open>vm/mod.rs\<close>): the plan of a run, its disks, its
    commit, and the removal of an image that stages stand on.
  \<^item> \<open>Slots\<close> (\<open>net.rs\<close>): names and addresses of network slots, the manifest, the forwarding guard,
    and claims over the pool of lock files.
  \<^item> \<open>Boot_Args\<close> (\<open>vm/mod.rs\<close> and, in the guest agent, \<open>cmdline.rs\<close>, \<open>net.rs\<close>, \<open>overlay.rs\<close>): the
    kernel command line, written by the host and read by the guest, and the calls that configure a
    machine. \<open>Guest_Root\<close> (\<open>overlay.rs\<close>): the overlay root over a mount table. \<open>Guest_Net\<close>
    (\<open>net.rs\<close>): the guest's interface, route, resolver and proxies.
  \<^item> \<open>Run_Checks\<close> (\<open>vm/resources.rs\<close>, \<open>vm/mod.rs\<close>): resources, environment, budgets, the choice of
    Firecracker and kernel, the egress policy, and the egress report of a run.
  \<^item> \<open>Kernels\<close> (\<open>image/kernel.rs\<close>, \<open>image/s3.rs\<close>): fetching and choosing guest kernels, and the check
    that one reseeds after a resume.
  \<^item> \<open>Warm_Pool\<close> (\<open>snapshot.rs\<close>): keys, metadata, verification, publishing, the build lock, the
    resume and the store of snapshots. The end of a build is a list of calls (\<open>publish_build\<close>), which
    \<open>build_step\<close> runs one at a time for each of the processes that build a snapshot, with the lock
    of \<open>try_build_lock\<close>. \<open>Warm_Resume\<close>: what a resumed run gets.
  \<^item> \<open>Wire\<close> (\<open>proto/src/frame.rs\<close>): the frames between host and guest.

  What is outside the repository is a parameter: the resolver, connects, writes and the clock
  are the record \<open>net_env\<close>, the HTTP client is \<open>upstream_env\<close>, and the URL parser that client
  uses is an argument of the start-up checks. The tar reader is outside too: a layer is the
  list of entries it yields, each with the reads its content answers. JSON, hashes, the
  decompressors, squashfs-tools and the kernel bucket are fields of \<open>host_io\<close>, \<open>layout_env\<close>,
  \<open>machine\<close>, \<open>importer\<close>, \<open>fetch_env\<close> and \<open>snap_env\<close>; which system calls fail is an argument
  everywhere, so that a theorem about a state holds wherever the code stops.

  \<^bold>\<open>How the parts meet\<close>

  A run resolves its base and stage to a plan (\<open>Run_Plan\<close> over \<open>Image_Store\<close> and \<open>Stage\<close>), claims
  a slot (\<open>Slots\<close>), starts the broker for a filtered run (\<open>Broker_Policy\<close>, with the credentials of
  \<open>Credentials\<close>), and either boots the disks with a command line (\<open>Boot_Args\<close>), from which the
  guest assembles its root and network (\<open>Guest_Root\<close>, \<open>Guest_Net\<close>), or resumes a verified
  snapshot and gives its guest the slot's network (\<open>Warm_Pool\<close>, which uses \<open>Guest_Net\<close>). The
  broker's handlers work on one recorder (\<open>Broker_Run\<close>), which the report reads (\<open>Run_Checks\<close>).

  \<^bold>\<open>What is shown\<close>

  Egress: the decision and the floor against tables of prefixes and rules; what a dial may
  reach, alone and after any run; what is recorded, as an invariant of the recorder and as a
  refinement of steps the policy permits; what is reported of it. Credentials: loading, matching,
  normalisation and authorisation, and that a token leaves the host for its pinned origin only.
  Protocols: round trips of SOCKS5, DNS, frames and chunked bodies, and the exact account of
  relayed bytes. Images: the host outside the destination is untouched, the tree is clean,
  refused imports leave nothing, limits hold on the host and in the report, manifests are vouched
  for, an adapted image has the agent, its mountpoints and an exact report, and the sidecar of a
  published image tells the truth wherever a publish stops. Stages: the store is sound after any
  sequence of operations, a listed stage is what its id resolves to and its layers are there, a
  fork boots the base its stage records and a commit adds the content of the scratch disk.
  Slots: no two runs share one. Boot: what the guest reads is what the host wrote, its root is
  the run's disk, its network is the slot's. Warm runs: a snapshot that verifies is one build's, as
  long as a removal does not take the lock of a running build away; a resumed guest has the
  network of its own slot, and exactly that of a cold boot when no network call fails. Kernels: only the pinned one is fetched
  without the opt-in, and the scan for the reseed marker is exact.

  \<^bold>\<open>Where the code differs from what it says\<close>

  Lemmas that show it, on the code's model: \<open>dotted_alias_unreachable\<close> (\<open>Inject\<close>);
  \<open>label_taken_over_by_a_name\<close> (\<open>Stage_Refs\<close>); \<open>fallback_collides\<close> (\<open>Names\<close>);
  \<open>import_overwrites_host_file\<close> (\<open>Oci_Adapt\<close>); \<open>foreign_index_followed\<close> (\<open>Oci_Layout\<close>);
  \<open>torn_header_reads_as_close\<close> (\<open>Wire\<close>); \<open>interleaved_publishes_mix\<close>, \<open>freshness_check_panics\<close>,
  \<open>bad_sidecar_hides_every_image\<close> (\<open>Image_Checks\<close>); \<open>manifest_digest_of_layout\<close> (\<open>Image_Import\<close>);
  \<open>unreadable_cmdline_unreported\<close> (\<open>Guest_Root\<close>); \<open>refused_kernel_is_installed\<close>,
  \<open>older_kernel_wins\<close> (\<open>Kernels\<close>); \<open>unlocked_builds_mix\<close>, \<open>rebuild_reported_as_timeout\<close>,
  \<open>removal_follows_metadata\<close>, \<open>stale_route_survives_resume\<close> (\<open>Warm_Resume\<close>).

  \<^bold>\<open>Bounds and fuel\<close>

  No definition runs on fuel chosen for a proof. Recursion follows the data, or a bound the
  code has: \<open>remove_child\<close> and \<open>prune\<close> count up to \<open>max_path_depth\<close>. The kernel's resolution of a
  link, which the code reaches in one place only, takes at most \<open>MAX_FOLLOW\<close> steps and answers
  \<open>ELOOP\<close> beyond; no theorem depends on the number. The listing of the kernel bucket is as long as
  the bucket says, so \<open>list_objects\<close> is a \<open>partial_function (option)\<close>: \<open>None\<close> is a call that never
  returns. A waiting loop (\<open>acquire_build_lock\<close>) reads the list of what its turns see.

  \<^bold>\<open>Not modelled\<close>

  Code that mostly drives processes, devices and the kernel, where a model would be a list of
  system calls: the spawning and teardown of Firecracker and its API client, the jail, the guest
  agent's server and child processes, the vsock client, the registry of running machines, and the
  set-up of the network, which runs as root. The registry client is HTTP and tokens; the command
  line and the MCP server only pass arguments on. Of building an image, what goes into a built-in
  one is an argument. Timeouts appear as an operation that fails. Texts of diagnostics, logging
  and tracing are left out.
\<close>

end
